(* ===== verification/Prelude.thy ===== *)
theory Prelude
  imports Main "HOL-Library.List_Lexorder" "HOL-Library.Char_ord" "HOL-Library.Multiset"
begin

text \<open>
  What the components share: names for the Rust types the code uses, saturating arithmetic,
  stable sorting, first-copy filtering, and the ordered map that stands for \<open>BTreeMap\<close> and
  for a redb table.

  Rust's \<open>u64\<close>, \<open>u32\<close> and \<open>usize\<close> are \<open>nat\<close>, with saturation and wrap-around written out where
  the code has them. A \<open>String\<close> is its UTF-8 bytes, a \<open>char list\<close>: \<open>length\<close> is Rust's \<open>len()\<close> and
  the lexicographic order of \<open>List_Lexorder\<close> over \<open>Char_ord\<close> is Rust's \<open>Ord\<close> on \<open>str\<close>.
\<close>

named_theorems map_simps \<open>lookups in an ordered map after its operations\<close>
named_theorems copy_simps \<open>what the first-copy filter keeps\<close>

section \<open>Machine integers\<close>

type_synonym u64 = nat
type_synonym usize = nat
type_synonym byte = nat

definition u64_max :: nat where
  "u64_max = 2 ^ 64 - 1"

definition sat_add :: "u64 \<Rightarrow> u64 \<Rightarrow> u64" where
  "sat_add a b = min u64_max (a + b)"

definition wrap_add :: "u64 \<Rightarrow> u64 \<Rightarrow> u64" where
  "wrap_add a b = (a + b) mod 2 ^ 64"

lemma sat_add_le: "sat_add a b \<le> u64_max"
  by (simp add: sat_add_def)

lemma sat_add_exact: "a + b \<le> u64_max \<Longrightarrow> sat_add a b = a + b"
  by (simp add: sat_add_def)

lemma sat_add_gt: "m < sat_add a b \<Longrightarrow> m < a + b"
  by (simp add: sat_add_def)

lemma wrap_add_exact: "a + b \<le> u64_max \<Longrightarrow> wrap_add a b = a + b"
  by (simp add: wrap_add_def u64_max_def)

section \<open>Stable sorting\<close>

text \<open>
  \<open>slice::sort_by_key\<close> is stable, and so is the library's \<open>sort_key\<close>. Sorting by
  \<open>std::cmp::Reverse(f)\<close> is stable too: the items with equal keys keep their order.
\<close>

definition sort_key_desc :: "('a \<Rightarrow> 'k::linorder) \<Rightarrow> 'a list \<Rightarrow> 'a list" where
  "sort_key_desc f xs = rev (sort_key f (rev xs))"

lemma set_sort_key_desc [simp]: "set (sort_key_desc f xs) = set xs"
  by (simp add: sort_key_desc_def)

lemma mset_sort_key_desc [simp]: "mset (sort_key_desc f xs) = mset xs"
  by (simp add: sort_key_desc_def)

lemma length_sort_key_desc [simp]: "length (sort_key_desc f xs) = length xs"
  by (simp add: sort_key_desc_def)

lemma sort_key_desc_sorted: "sorted_wrt (\<lambda>a b. f b \<le> f a) (sort_key_desc f xs)"
proof -
  have "sorted_wrt (\<lambda>a b. f a \<le> f b) (sort_key f (rev xs))"
    using sorted_sort_key [of f "rev xs"] by (simp add: sorted_map)
  then show ?thesis
    by (simp add: sort_key_desc_def sorted_wrt_rev)
qed

lemma sort_key_desc_stable: "filter (\<lambda>y. f y = k) (sort_key_desc f xs) = filter (\<lambda>y. f y = k) xs"
  by (simp add: sort_key_desc_def rev_filter [symmetric] sort_key_stable)

section \<open>Keeping the first copy\<close>

text \<open>
  \<open>seen.insert(key(x))\<close> as the predicate of a \<open>filter\<close>: an item is kept when its key has not
  been inserted yet, and the set then holds it. The code does this in the flush, in a merge,
  in \<open>hot_spans\<close> and in \<open>query\<close>.
\<close>

fun first_copies_from :: "('a \<Rightarrow> 'k) \<Rightarrow> 'k set \<Rightarrow> 'a list \<Rightarrow> 'a list \<times> 'k set" where
  "first_copies_from key seen [] = ([], seen)"
| "first_copies_from key seen (x # xs) =
     (if key x \<in> seen then first_copies_from key seen xs
      else let (kept, seen') = first_copies_from key (insert (key x) seen) xs
           in (x # kept, seen'))"

lemma first_copies_seen [copy_simps]:
  "snd (first_copies_from key seen xs) = seen \<union> key ` set xs"
  by (induction key seen xs rule: first_copies_from.induct) (auto simp: case_prod_beta)

lemma first_copies_keys [copy_simps]:
  "key ` set (fst (first_copies_from key seen xs)) = key ` set xs - seen"
  by (induction key seen xs rule: first_copies_from.induct) (auto simp: case_prod_beta)

lemma first_copies_subset: "set (fst (first_copies_from key seen xs)) \<subseteq> set xs"
  by (induction key seen xs rule: first_copies_from.induct) (auto simp: case_prod_beta)

lemma first_copies_distinct: "distinct (map key (fst (first_copies_from key seen xs)))"
proof (induction key seen xs rule: first_copies_from.induct)
  case (2 key seen x xs)
  show ?case
  proof (cases "key x \<in> seen")
    case True
    then show ?thesis using 2 by simp
  next
    case False
    have "key x \<notin> key ` set (fst (first_copies_from key (insert (key x) seen) xs))"
      by (simp add: copy_simps)
    then show ?thesis using False 2 by (simp add: case_prod_beta)
  qed
qed simp

lemma first_copies_id:
  "distinct (map key xs) \<Longrightarrow> key ` set xs \<inter> seen = {} \<Longrightarrow>
     fst (first_copies_from key seen xs) = xs"
  by (induction key seen xs rule: first_copies_from.induct) (auto simp: case_prod_beta)

lemma first_copies_append:
  "fst (first_copies_from key seen (xs @ ys)) =
     fst (first_copies_from key seen xs) @
     fst (first_copies_from key (seen \<union> key ` set xs) ys)"
  by (induction key seen xs rule: first_copies_from.induct)
    (auto simp: case_prod_beta insert_absorb)

lemma first_copies_length: "length (fst (first_copies_from key seen xs)) \<le> length xs"
  by (induction key seen xs rule: first_copies_from.induct) (auto simp: case_prod_beta)

text \<open>The copy kept is the first of its key.\<close>

lemma first_copies_find:
  "k \<notin> seen \<Longrightarrow> find (\<lambda>x. key x = k) (fst (first_copies_from key seen xs)) =
     find (\<lambda>x. key x = k) xs"
  by (induction key seen xs rule: first_copies_from.induct) (auto simp: case_prod_beta)

definition first_copies :: "('a \<Rightarrow> 'k) \<Rightarrow> 'a list \<Rightarrow> 'a list" where
  "first_copies key xs = fst (first_copies_from key {} xs)"

lemma first_copies_keys0 [copy_simps]: "key ` set (first_copies key xs) = key ` set xs"
  by (simp add: first_copies_def copy_simps)

lemma first_copies_distinct0: "distinct (map key (first_copies key xs))"
  by (simp add: first_copies_def first_copies_distinct)

lemma first_copies_subset0: "set (first_copies key xs) \<subseteq> set xs"
  by (simp add: first_copies_def first_copies_subset)

lemma first_copies_find0:
  "find (\<lambda>x. key x = k) (first_copies key xs) = find (\<lambda>x. key x = k) xs"
  by (simp add: first_copies_def first_copies_find)

end
