(* ===== verification/OrdMap.thy ===== *)
theory OrdMap
  imports Prelude
begin

text \<open>
  The ordered map the code keeps its state in: \<open>std::collections::BTreeMap\<close>, and a redb table
  or a directory listing seen as one. It is a list of pairs with strictly increasing keys, which
  keeps every definition executable and gives iteration in key order, as the code's loops have it.
  \<open>kv_table\<close> states what a client of such a table relies on; the clients' lemmas are proved once
  there and \<open>om\<close> gives them for the model's own operations. A redb multimap is a set of pairs,
  kept as the ordered map of its pairs.
\<close>

type_synonym ('k, 'v) omap = "('k \<times> 'v) list"

definition om_empty :: "('k, 'v) omap" where
  "om_empty = []"

fun om_insert :: "'k::linorder \<Rightarrow> 'v \<Rightarrow> ('k, 'v) omap \<Rightarrow> ('k, 'v) omap" where
  "om_insert k v [] = [(k, v)]"
| "om_insert k v (p # m) =
     (if fst p < k then p # om_insert k v m
      else if fst p = k then (k, v) # m
      else (k, v) # p # m)"

definition om_get :: "('k, 'v) omap \<Rightarrow> 'k \<Rightarrow> 'v option" where
  "om_get m = map_of m"

definition om_remove :: "'k \<Rightarrow> ('k, 'v) omap \<Rightarrow> ('k, 'v) omap" where
  "om_remove k m = filter (\<lambda>p. fst p \<noteq> k) m"

definition om_keys :: "('k, 'v) omap \<Rightarrow> 'k list" where
  "om_keys m = map fst m"

definition om_values :: "('k, 'v) omap \<Rightarrow> 'v list" where
  "om_values m = map snd m"

definition om_ok :: "('k::linorder, 'v) omap \<Rightarrow> bool" where
  "om_ok m \<longleftrightarrow> sorted_wrt (<) (om_keys m)"

text \<open>\<open>entry(k).or_default()\<close> followed by an update in place.\<close>

definition om_alter :: "'k::linorder \<Rightarrow> 'v \<Rightarrow> ('v \<Rightarrow> 'v) \<Rightarrow> ('k, 'v) omap \<Rightarrow> ('k, 'v) omap" where
  "om_alter k d f m = om_insert k (f (case om_get m k of None \<Rightarrow> d | Some v \<Rightarrow> v)) m"

section \<open>The interface\<close>

locale kv_table =
  fixes empty_tbl :: "'m"
    and get :: "'m \<Rightarrow> 'k \<Rightarrow> 'v option"
    and put :: "'k \<Rightarrow> 'v \<Rightarrow> 'm \<Rightarrow> 'm"
    and del :: "'k \<Rightarrow> 'm \<Rightarrow> 'm"
  assumes get_empty: "get empty_tbl k = None"
    and get_put: "get (put k v m) k' = (if k' = k then Some v else get m k')"
    and get_del: "get (del k m) k' = (if k' = k then None else get m k')"
begin

text \<open>What a transaction that writes or removes several rows leaves behind.\<close>

lemma get_put_all:
  "get (fold (\<lambda>x. put (f x) (g x)) xs m) k =
     (case find (\<lambda>x. f x = k) (rev xs) of Some x \<Rightarrow> Some (g x) | None \<Rightarrow> get m k)"
proof (induction xs rule: rev_induct)
  case Nil
  then show ?case by simp
next
  case (snoc x xs)
  then show ?case by (auto simp: get_put)
qed

lemma get_put_all_other:
  "k \<notin> f ` set xs \<Longrightarrow> get (fold (\<lambda>x. put (f x) (g x)) xs m) k = get m k"
  by (induction xs arbitrary: m) (auto simp: get_put)

lemma get_put_all_dom:
  "get (fold (\<lambda>x. put (f x) (g x)) xs m) k \<noteq> None \<longleftrightarrow> k \<in> f ` set xs \<or> get m k \<noteq> None"
  by (induction xs arbitrary: m) (auto simp: get_put split: if_splits)

lemma get_del_all: "get (fold del ks m) k = (if k \<in> set ks then None else get m k)"
  by (induction ks arbitrary: m) (auto simp: get_del)

lemma get_put_all_const:
  "get (fold (\<lambda>x. put (f x) c) xs m) k = (if k \<in> f ` set xs then Some c else get m k)"
  by (induction xs arbitrary: m) (auto simp: get_put)

end

section \<open>The model's map provides it\<close>

lemma om_get_insert [map_simps]:
  "om_get (om_insert k v m) k' = (if k' = k then Some v else om_get m k')"
  by (induction k v m rule: om_insert.induct) (auto simp: om_get_def)

lemma om_get_remove [map_simps]:
  "om_get (om_remove k m) k' = (if k' = k then None else om_get m k')"
  unfolding om_get_def om_remove_def by (induction m) auto

lemma om_get_empty [map_simps]: "om_get om_empty k = None"
  by (simp add: om_get_def om_empty_def)

interpretation om: kv_table om_empty om_get om_insert om_remove
  by unfold_locales (simp_all add: map_simps)

lemma om_keys_insert [map_simps]: "set (om_keys (om_insert k v m)) = insert k (set (om_keys m))"
  by (induction k v m rule: om_insert.induct) (auto simp: om_keys_def)

lemma om_keys_remove [map_simps]: "set (om_keys (om_remove k m)) = set (om_keys m) - {k}"
  by (auto simp: om_keys_def om_remove_def)

lemma om_keys_get: "k \<in> set (om_keys m) \<longleftrightarrow> om_get m k \<noteq> None"
  by (auto simp: om_keys_def om_get_def map_of_eq_None_iff)

lemma om_ok_empty [simp]: "om_ok om_empty"
  by (simp add: om_ok_def om_keys_def om_empty_def)

lemma om_ok_insert [simp]: "om_ok m \<Longrightarrow> om_ok (om_insert k v m)"
proof (induction k v m rule: om_insert.induct)
  case (2 k v p m)
  have "\<forall>x\<in>set (om_keys m). fst p < x" and "om_ok m"
    using 2 by (auto simp: om_ok_def om_keys_def)
  then show ?case
    using 2 om_keys_insert [of k v m] by (auto simp: om_ok_def om_keys_def)
qed (simp add: om_ok_def om_keys_def)

lemma om_ok_remove [simp]: "om_ok m \<Longrightarrow> om_ok (om_remove k m)"
proof (unfold om_ok_def om_keys_def om_remove_def)
  assume "sorted_wrt (<) (map fst m)"
  then show "sorted_wrt (<) (map fst (filter (\<lambda>p. fst p \<noteq> k) m))"
    by (simp add: sorted_wrt_map sorted_wrt_filter)
qed

lemma om_ok_fold_insert: "om_ok m \<Longrightarrow> om_ok (fold (\<lambda>x. om_insert (f x) (g x)) xs m)"
  by (induction xs arbitrary: m) auto

lemma om_ok_fold_remove: "om_ok m \<Longrightarrow> om_ok (fold om_remove ks m)"
  by (induction ks arbitrary: m) auto

lemma om_ok_distinct: "om_ok m \<Longrightarrow> distinct (om_keys m)"
  unfolding om_ok_def by (simp add: strict_sorted_iff)

lemma om_in_set_get: "om_ok m \<Longrightarrow> (k, v) \<in> set m \<longleftrightarrow> om_get m k = Some v"
  using om_ok_distinct [of m] by (simp add: om_get_def om_keys_def)

lemma om_get_in_set: "om_get m k = Some v \<Longrightarrow> (k, v) \<in> set m"
  by (simp add: om_get_def map_of_SomeD)

lemma om_values_set: "om_ok m \<Longrightarrow> v \<in> set (om_values m) \<longleftrightarrow> (\<exists>k. om_get m k = Some v)"
  by (force simp: om_values_def om_in_set_get [symmetric])

lemma om_get_alter [map_simps]:
  "om_get (om_alter k d f m) k' =
     (if k' = k then Some (f (case om_get m k of None \<Rightarrow> d | Some v \<Rightarrow> v)) else om_get m k')"
  by (simp add: om_alter_def map_simps)

lemma om_ok_alter [simp]: "om_ok m \<Longrightarrow> om_ok (om_alter k d f m)"
  by (simp add: om_alter_def)

lemma om_values_alter_snoc:
  "mset (concat (om_values (om_alter k [] (\<lambda>vs. vs @ [x]) m))) =
     add_mset x (mset (concat (om_values m)))" if "om_ok m"
proof -
  have ins: "mset (concat (om_values (om_insert k v m))) + mset (case om_get m k of None \<Rightarrow> [] | Some w \<Rightarrow> w)
      = mset v + mset (concat (om_values m))" for v
    using that
  proof (induction k v m rule: om_insert.induct)
    case (1 k v)
    then show ?case by (simp add: om_values_def om_get_def)
  next
    case (2 k v p m)
    have ok: "om_ok m" and lt: "\<forall>q\<in>set m. fst p < fst q"
      using 2 by (auto simp: om_ok_def om_keys_def)
    have none: "om_get m k = None" if "\<not> fst p < k"
      using that lt by (force simp: om_get_def map_of_eq_None_iff)
    show ?case
      using 2 ok none
      by (cases p) (auto simp: om_values_def om_get_def ac_simps split: if_splits option.splits)
  qed
  show ?thesis
    using ins [of "(case om_get m k of None \<Rightarrow> [] | Some w \<Rightarrow> w) @ [x]"]
    by (simp add: om_alter_def)
qed

text \<open>Two maps with the same lookups are the same list.\<close>

lemma om_ext:
  assumes "om_ok a" and "om_ok b" and "\<And>k. om_get a k = om_get b k"
  shows "a = b"
proof -
  have "set (om_keys a) = set (om_keys b)" using assms(3) by (auto simp: om_keys_get)
  then have keys: "om_keys a = om_keys b"
    using assms(1,2) unfolding om_ok_def by (intro strict_sorted_equal) auto
  have "m = map (\<lambda>k. (k, the (om_get m k))) (om_keys m)" if "om_ok m" for m :: "('a, 'b) omap"
  proof -
    have "(\<lambda>p. (fst p, the (om_get m (fst p)))) p = p" if "p \<in> set m" for p
      using that om_in_set_get [OF \<open>om_ok m\<close>, of "fst p" "snd p"] by simp
    then show ?thesis by (simp add: om_keys_def comp_def map_idI)
  qed
  note rebuild = this
  have "a = map (\<lambda>k. (k, the (om_get a k))) (om_keys a)" by (rule rebuild) (rule assms(1))
  also have "\<dots> = map (\<lambda>k. (k, the (om_get b k))) (om_keys b)" by (simp only: keys assms(3))
  also have "\<dots> = b" by (rule rebuild [symmetric]) (rule assms(2))
  finally show ?thesis .
qed

end
