(* ===== verification/Text.thy ===== *)
theory Text
  imports Prelude
begin

text \<open>
  The parts of Rust's \<open>str\<close>, \<open>u64\<close> and \<open>format!\<close> the code uses, on byte strings. Characters are
  bytes; the ASCII operations leave bytes above 127 alone, as Rust's do.
\<close>

type_synonym str = string

abbreviation code :: "char \<Rightarrow> nat" where
  "code c \<equiv> of_char c"

section \<open>Prefixes, suffixes, splitting\<close>

definition starts_with :: "str \<Rightarrow> str \<Rightarrow> bool" where
  "starts_with p s \<longleftrightarrow> take (length p) s = p"

definition ends_with :: "str \<Rightarrow> str \<Rightarrow> bool" where
  "ends_with p s \<longleftrightarrow> starts_with (rev p) (rev s)"

definition strip_prefix :: "str \<Rightarrow> str \<Rightarrow> str option" where
  "strip_prefix p s = (if starts_with p s then Some (drop (length p) s) else None)"

definition strip_suffix :: "str \<Rightarrow> str \<Rightarrow> str option" where
  "strip_suffix p s = (if ends_with p s then Some (take (length s - length p) s) else None)"

text \<open>\<open>s.split(c)\<close>: the pieces between the separators, at least one of them.\<close>

fun split_on :: "char \<Rightarrow> str \<Rightarrow> str list" where
  "split_on c [] = [[]]"
| "split_on c (x # xs) =
     (if x = c then [] # split_on c xs
      else case split_on c xs of [] \<Rightarrow> [[x]] | p # ps \<Rightarrow> (x # p) # ps)"

fun join_with :: "char \<Rightarrow> str list \<Rightarrow> str" where
  "join_with c [] = []"
| "join_with c [p] = p"
| "join_with c (p # q # ps) = p @ c # join_with c (q # ps)"

fun split_once :: "char \<Rightarrow> str \<Rightarrow> (str \<times> str) option" where
  "split_once c [] = None"
| "split_once c (x # xs) =
     (if x = c then Some ([], xs)
      else map_option (\<lambda>(a, b). (x # a, b)) (split_once c xs))"

text \<open>\<open>s.contains(p)\<close>.\<close>

fun contains_str :: "str \<Rightarrow> str \<Rightarrow> bool" where
  "contains_str p [] = (p = [])"
| "contains_str p (x # xs) = (starts_with p (x # xs) \<or> contains_str p xs)"

lemma starts_with_iff: "starts_with p s \<longleftrightarrow> (\<exists>t. s = p @ t)"
  unfolding starts_with_def by (metis append_eq_conv_conj append_take_drop_id)

lemma starts_with_append [simp]: "starts_with p (p @ t)"
  by (simp add: starts_with_def)

lemma ends_with_iff: "ends_with p s \<longleftrightarrow> (\<exists>t. s = t @ p)"
  unfolding ends_with_def starts_with_iff
  by (metis rev_append rev_rev_ident)

lemma ends_with_append [simp]: "ends_with p (t @ p)"
  by (auto simp: ends_with_iff)

lemma strip_prefix_append [simp]: "strip_prefix p (p @ t) = Some t"
  by (simp add: strip_prefix_def)

lemma strip_prefix_Some: "strip_prefix p s = Some t \<longleftrightarrow> s = p @ t"
  unfolding strip_prefix_def starts_with_iff by auto

lemma strip_suffix_Some: "strip_suffix p s = Some t \<longleftrightarrow> s = t @ p"
  unfolding strip_suffix_def ends_with_iff by auto

lemma split_on_nonempty [simp]: "split_on c s \<noteq> []"
  by (induction s) (auto split: list.splits)

lemma split_on_no_sep: "p \<in> set (split_on c s) \<Longrightarrow> c \<notin> set p"
  by (induction s arbitrary: p) (auto split: list.splits if_splits)

lemma split_on_none [simp]: "c \<notin> set s \<Longrightarrow> split_on c s = [s]"
  by (induction s) auto

lemma split_on_Cons_sep [simp]:
  "c \<notin> set p \<Longrightarrow> split_on c (p @ c # s) = p # split_on c s"
  by (induction p) auto

lemma join_split: "join_with c (split_on c s) = s"
proof (induction s)
  case (Cons x xs)
  then show ?case by (cases "split_on c xs"; cases "tl (split_on c xs)") auto
qed simp

lemma split_join:
  "ps \<noteq> [] \<Longrightarrow> \<forall>p\<in>set ps. c \<notin> set p \<Longrightarrow> split_on c (join_with c ps) = ps"
  by (induction c ps rule: join_with.induct) auto

lemma split_on_append_seps:
  "split_on c (join_with c ps @ c # s) = ps @ split_on c s"
  if "ps \<noteq> []" "\<forall>p\<in>set ps. c \<notin> set p"
  using that by (induction c ps rule: join_with.induct) auto

lemma split_once_Some: "split_once c s = Some (a, b) \<Longrightarrow> s = a @ c # b \<and> c \<notin> set a"
  by (induction s arbitrary: a) (auto split: if_splits)

lemma split_once_append [simp]: "c \<notin> set a \<Longrightarrow> split_once c (a @ c # b) = Some (a, b)"
  by (induction a) auto

lemma split_once_None: "split_once c s = None \<longleftrightarrow> c \<notin> set s"
  by (induction s) (auto split: if_splits)

section \<open>ASCII case\<close>

definition is_upper :: "char \<Rightarrow> bool" where
  "is_upper c \<longleftrightarrow> 65 \<le> code c \<and> code c \<le> 90"

definition lower_char :: "char \<Rightarrow> char" where
  "lower_char c = (if is_upper c then char_of (code c + 32) else c)"

definition to_ascii_lowercase :: "str \<Rightarrow> str" where
  "to_ascii_lowercase s = map lower_char s"

definition eq_ignore_ascii_case :: "str \<Rightarrow> str \<Rightarrow> bool" where
  "eq_ignore_ascii_case a b \<longleftrightarrow> to_ascii_lowercase a = to_ascii_lowercase b"

lemma code_char_of [simp]: "n < 256 \<Longrightarrow> code (char_of n) = n"
  by (simp add: of_char_of)

lemma code_lt [simp]: "code c < 256"
  using nat_of_char_less_256 [of c] by simp

lemma lower_char_idem [simp]: "lower_char (lower_char c) = lower_char c"
proof (cases "is_upper c")
  case True
  then have "code (char_of (code c + 32)) = code c + 32"
    by (simp add: is_upper_def)
  then show ?thesis using True
    by (simp add: lower_char_def is_upper_def)
qed (simp add: lower_char_def)

lemma to_ascii_lowercase_idem [simp]:
  "to_ascii_lowercase (to_ascii_lowercase s) = to_ascii_lowercase s"
  by (simp add: to_ascii_lowercase_def)

lemma eq_ignore_ascii_case_refl [simp]: "eq_ignore_ascii_case s s"
  by (simp add: eq_ignore_ascii_case_def)

lemma length_to_ascii_lowercase [simp]: "length (to_ascii_lowercase s) = length s"
  by (simp add: to_ascii_lowercase_def)

section \<open>Decimal numbers\<close>

definition is_digit :: "char \<Rightarrow> bool" where
  "is_digit c \<longleftrightarrow> 48 \<le> code c \<and> code c \<le> 57"

definition digit_char :: "nat \<Rightarrow> char" where
  "digit_char d = char_of (48 + d)"

text \<open>\<open>n.to_string()\<close>.\<close>

fun dec_of :: "nat \<Rightarrow> str" where
  "dec_of n = (if n < 10 then [digit_char n] else dec_of (n div 10) @ [digit_char (n mod 10)])"

declare dec_of.simps [simp del]

text \<open>\<open>{n:020}\<close>: padded on the left with zeros, never truncated.\<close>

definition pad_to :: "nat \<Rightarrow> str \<Rightarrow> str" where
  "pad_to w s = replicate (w - length s) (CHR ''0'') @ s"

definition dec020 :: "nat \<Rightarrow> str" where
  "dec020 n = pad_to 20 (dec_of n)"

fun dec_value :: "nat \<Rightarrow> str \<Rightarrow> nat option" where
  "dec_value acc [] = Some acc"
| "dec_value acc (c # cs) =
     (if is_digit c then dec_value (10 * acc + (code c - 48)) cs else None)"

text \<open>
  \<open>s.parse::<u64>()\<close>: an optional plus sign, then one or more digits, and an error when the
  value does not fit.
\<close>

definition parse_u64 :: "str \<Rightarrow> u64 option" where
  "parse_u64 s =
     (let t = (if starts_with ''+'' s then tl s else s)
      in if t = [] then None
         else case dec_value 0 t of
                None \<Rightarrow> None
              | Some v \<Rightarrow> if v \<le> u64_max then Some v else None)"

lemma digit_char_code [simp]: "d < 10 \<Longrightarrow> code (digit_char d) = 48 + d"
  by (simp add: digit_char_def)

lemma is_digit_digit_char [simp]: "d < 10 \<Longrightarrow> is_digit (digit_char d)"
  by (simp add: is_digit_def)

lemma dec_of_digits: "\<forall>c\<in>set (dec_of n). is_digit c"
proof (induction n rule: dec_of.induct)
  case (1 n)
  then show ?case by (subst dec_of.simps) auto
qed

lemma dec_of_nonempty [simp]: "dec_of n \<noteq> []"
  by (subst dec_of.simps) simp

lemma dec_value_append:
  "dec_value acc (xs @ ys) = (case dec_value acc xs of None \<Rightarrow> None | Some a \<Rightarrow> dec_value a ys)"
  by (induction acc xs rule: dec_value.induct) auto

lemma dec_value_dec_of: "dec_value 0 (dec_of n) = Some n"
proof (induction n rule: dec_of.induct)
  case (1 n)
  then show ?case
    by (subst dec_of.simps) (auto simp: dec_value_append mult.commute)
qed

lemma dec_value_zeros: "dec_value 0 (replicate k (CHR ''0'') @ s) = dec_value 0 s"
  by (induction k) (auto simp: is_digit_def)

lemma digits_pad: "\<forall>c\<in>set s. is_digit c \<Longrightarrow> \<forall>c\<in>set (pad_to w s). is_digit c"
  by (auto simp: pad_to_def is_digit_def)

lemma dec020_digits: "\<forall>c\<in>set (dec020 n). is_digit c"
  unfolding dec020_def by (rule digits_pad) (rule dec_of_digits)

lemma dec020_nonempty [simp]: "dec020 n \<noteq> []"
  by (simp add: dec020_def pad_to_def)

lemma parse_u64_digits:
  assumes "s \<noteq> []" and "\<forall>c\<in>set s. is_digit c" and "dec_value 0 s = Some v" and "v \<le> u64_max"
  shows "parse_u64 s = Some v"
proof -
  have "\<not> starts_with ''+'' s"
    using assms(1,2) by (cases s) (auto simp: is_digit_def starts_with_def)
  then show ?thesis
    using assms by (simp add: parse_u64_def)
qed

lemma parse_dec_of: "n \<le> u64_max \<Longrightarrow> parse_u64 (dec_of n) = Some n"
  by (rule parse_u64_digits) (simp_all add: dec_of_digits dec_value_dec_of)

lemma parse_dec020: "n \<le> u64_max \<Longrightarrow> parse_u64 (dec020 n) = Some n"
  by (rule parse_u64_digits)
    (simp_all add: dec020_digits dec020_def pad_to_def dec_value_zeros dec_value_dec_of)

lemma dec020_inj: "dec020 a = dec020 b \<longleftrightarrow> a = b"
proof
  assume "dec020 a = dec020 b"
  then have "dec_value 0 (dec020 a) = dec_value 0 (dec020 b)" by simp
  then show "a = b"
    by (simp add: dec020_def pad_to_def dec_value_zeros dec_value_dec_of)
qed simp

lemma dec_of_inj: "dec_of a = dec_of b \<longleftrightarrow> a = b"
  by (metis dec_value_dec_of option.inject)

lemma parse_u64_le: "parse_u64 s = Some v \<Longrightarrow> v \<le> u64_max"
  by (auto simp: parse_u64_def Let_def split: option.splits if_splits)

lemma digit_not [simp]:
  "\<not> is_digit (CHR ''-'')" "\<not> is_digit (CHR ''/'')" "\<not> is_digit (CHR ''.'')"
  by (simp_all add: is_digit_def)

lemma dash_notin_dec [simp]: "CHR ''-'' \<notin> set (dec020 n)" "CHR ''-'' \<notin> set (dec_of n)"
  using dec020_digits [of n] dec_of_digits [of n] digit_not(1) by blast+

lemma slash_notin_dec [simp]: "CHR ''/'' \<notin> set (dec020 n)" "CHR ''/'' \<notin> set (dec_of n)"
  using dec020_digits [of n] dec_of_digits [of n] digit_not(2) by blast+

section \<open>Hexadecimal\<close>

definition hex_digit :: "nat \<Rightarrow> char" where
  "hex_digit d = (if d < 10 then char_of (48 + d) else char_of (87 + d))"

text \<open>\<open>hex::encode\<close>: two lowercase digits for each byte.\<close>

definition hex_encode :: "byte list \<Rightarrow> str" where
  "hex_encode bs = concat (map (\<lambda>b. [hex_digit (b div 16), hex_digit (b mod 16)]) bs)"

lemma code_hex_digit: "d < 16 \<Longrightarrow> code (hex_digit d) = (if d < 10 then 48 + d else 87 + d)"
  by (simp add: hex_digit_def)

lemma length_hex_encode [simp]: "length (hex_encode bs) = 2 * length bs"
  unfolding hex_encode_def by (induction bs) auto

section \<open>Booleans for options\<close>

definition opt_or :: "'a option \<Rightarrow> 'a option \<Rightarrow> 'a option" where
  "opt_or a b = (case a of Some x \<Rightarrow> Some x | None \<Rightarrow> b)"

lemma opt_or_simps [simp]:
  "opt_or (Some x) b = Some x" "opt_or None b = b" "opt_or a None = a"
  by (auto simp: opt_or_def split: option.splits)

text \<open>\<open>keys.iter().find_map(f)\<close>.\<close>

fun find_map :: "('a \<Rightarrow> 'b option) \<Rightarrow> 'a list \<Rightarrow> 'b option" where
  "find_map f [] = None"
| "find_map f (x # xs) = (case f x of Some y \<Rightarrow> Some y | None \<Rightarrow> find_map f xs)"

lemma find_map_None: "find_map f xs = None \<longleftrightarrow> (\<forall>x\<in>set xs. f x = None)"
  by (induction xs) (auto split: option.splits)

lemma find_map_Some: "find_map f xs = Some y \<Longrightarrow> \<exists>x\<in>set xs. f x = Some y"
  by (induction xs) (auto split: option.splits)

section \<open>Trimming\<close>

text \<open>The UTF-8 encodings of the characters \<open>str::trim\<close> removes, those with \<open>White_Space\<close>.\<close>

definition utf8_spaces :: "str list" where
  "utf8_spaces = map (map char_of)
     ([[9], [10], [11], [12], [13], [32], [194, 133], [194, 160], [225, 154, 128], [226, 128, 168],
       [226, 128, 169], [226, 128, 175], [226, 129, 159], [227, 128, 128]]
      @ map (\<lambda>i. [226, 128, 128 + i]) [0..<11] :: nat list list)"

lemma utf8_spaces_nonempty: "w \<in> set utf8_spaces \<Longrightarrow> w \<noteq> []"
  by (auto simp: utf8_spaces_def)

function trim_start :: "str \<Rightarrow> str" where
  "trim_start s =
     (case find_map (\<lambda>w. strip_prefix w s) utf8_spaces of None \<Rightarrow> s | Some t \<Rightarrow> trim_start t)"
  by pat_completeness auto

termination
proof (relation "measure length")
  fix s t assume "find_map (\<lambda>w. strip_prefix w s) utf8_spaces = Some t"
  then obtain w where "w \<in> set utf8_spaces" "strip_prefix w s = Some t" using find_map_Some by fast
  then show "(t, s) \<in> measure length" using utf8_spaces_nonempty by (auto simp: strip_prefix_Some)
qed simp

function trim_end :: "str \<Rightarrow> str" where
  "trim_end s =
     (case find_map (\<lambda>w. strip_suffix w s) utf8_spaces of None \<Rightarrow> s | Some t \<Rightarrow> trim_end t)"
  by pat_completeness auto

termination
proof (relation "measure length")
  fix s t assume "find_map (\<lambda>w. strip_suffix w s) utf8_spaces = Some t"
  then obtain w where "w \<in> set utf8_spaces" "strip_suffix w s = Some t" using find_map_Some by fast
  then show "(t, s) \<in> measure length" using utf8_spaces_nonempty by (auto simp: strip_suffix_Some)
qed simp

declare trim_start.simps [simp del] trim_end.simps [simp del]

definition trim :: "str \<Rightarrow> str" where
  "trim s = trim_end (trim_start s)"

lemma trim_start_no_space: "find_map (\<lambda>w. strip_prefix w (trim_start s)) utf8_spaces = None"
proof (induction s rule: trim_start.induct)
  case (1 s)
  show ?case
  proof (cases "find_map (\<lambda>w. strip_prefix w s) utf8_spaces")
    case None
    then have "trim_start s = s" by (simp add: trim_start.simps [of s])
    then show ?thesis using None by simp
  next
    case (Some t)
    then show ?thesis using 1 [OF Some] by (simp add: trim_start.simps [of s])
  qed
qed

text \<open>Text that neither starts nor ends with a space is its own trim.\<close>

lemma trim_id:
  "find_map (\<lambda>w. strip_prefix w s) utf8_spaces = None \<Longrightarrow> find_map (\<lambda>w. strip_suffix w s) utf8_spaces = None \<Longrightarrow>
     trim s = s"
  by (simp add: trim_def trim_start.simps [of s] trim_end.simps [of s])

section \<open>Lines\<close>

text \<open>
  \<open>str::lines\<close>: a line ends at a newline, which takes a carriage return before it with it; text after
  the last newline is a line of its own when there is any.
\<close>

definition newline :: char where "newline = char_of (10::nat)"
definition carriage_return :: char where "carriage_return = char_of (13::nat)"

definition str_lines :: "str \<Rightarrow> str list" where
  "str_lines s =
     (let ps = split_on newline s;
          qs = (if List.last ps = [] then butlast ps else ps);
          strip = (\<lambda>l. if l \<noteq> [] \<and> List.last l = carriage_return then butlast l else l)
      in if List.last ps = [] then map strip qs else map strip (butlast qs) @ [List.last qs])"

end
