(* ===== verification/Wal.thy ===== *)
theory Wal
  imports OrdMap Text
begin

text \<open>
  The segmented write-ahead log of \<^verbatim>\<open>src/store/wal.rs\<close>, down to the bytes. A directory is an ordered
  map from file names to files, a file its bytes and how many of them an fsync has made durable.
  \<open>serde_json\<close> and \<open>crc32fast\<close> are parameters: \<open>ser\<close> (\<open>to_vec\<close>, which may fail), \<open>de\<close>
  (\<open>from_slice\<close>) and \<open>crc\<close>. A call into the file system takes its outcome as an argument, so that
  every error path is a branch; a failed \<open>write_all\<close> says how many bytes reached the file first.
\<close>

datatype io_error = NotFound | InvalidData | OtherIo

record seg_file =
  sf_bytes :: "byte list"
  sf_synced :: usize

type_synonym wal_dir = "(str, seg_file) omap"

record wal =
  w_dir :: wal_dir
  w_active_seqno :: u64
  w_active_count :: usize

datatype write_outcome = WriteOk | WriteFails usize

section \<open>Frames\<close>

definition frame_header_len :: usize where
  "frame_header_len = 8"

text \<open>\<open>u32::to_le_bytes\<close> and \<open>u32::from_le_bytes\<close>.\<close>

definition le32 :: "nat \<Rightarrow> byte list" where
  "le32 n = [n mod 256, n div 256 mod 256, n div 65536 mod 256, n div 16777216 mod 256]"

fun from_le32 :: "byte list \<Rightarrow> nat" where
  "from_le32 [a, b, c, d] = a + 256 * b + 65536 * c + 16777216 * d"
| "from_le32 _ = 0"

definition encode_record ::
  "('r \<Rightarrow> byte list option) \<Rightarrow> (byte list \<Rightarrow> nat) \<Rightarrow> 'r \<Rightarrow> io_error + byte list" where
  "encode_record ser crc r =
     (case ser r of
        None \<Rightarrow> Inl InvalidData
      | Some payload \<Rightarrow>
          if 2 ^ 32 \<le> length payload then Inl InvalidData
          else Inr (le32 (length payload) @ le32 (crc payload) @ payload))"

text \<open>The loop of \<open>append_nosync\<close> that fills the buffer: the first error aborts it.\<close>

fun encode_all ::
  "('r \<Rightarrow> byte list option) \<Rightarrow> (byte list \<Rightarrow> nat) \<Rightarrow> 'r list \<Rightarrow> io_error + byte list" where
  "encode_all ser crc [] = Inr []"
| "encode_all ser crc (r # rs) =
     (case encode_record ser crc r of
        Inl e \<Rightarrow> Inl e
      | Inr b \<Rightarrow> (case encode_all ser crc rs of Inl e \<Rightarrow> Inl e | Inr bs \<Rightarrow> Inr (b @ bs)))"

function decode_loop ::
  "(byte list \<Rightarrow> 'r option) \<Rightarrow> (byte list \<Rightarrow> nat) \<Rightarrow> byte list \<Rightarrow> usize \<Rightarrow> 'r list \<Rightarrow> 'r list \<times> usize" where
  "decode_loop de crc data cursor spans =
     (if cursor + frame_header_len \<le> length data then
        let len = from_le32 (take 4 (drop cursor data));
            crc0 = from_le32 (take 4 (drop (cursor + 4) data));
            start = cursor + frame_header_len;
            fin = start + len
        in if fin \<le> length data then
             let payload = take len (drop start data)
             in if crc payload \<noteq> crc0 then (spans, cursor)
                else (case de payload of
                        Some span \<Rightarrow> decode_loop de crc data fin (spans @ [span])
                      | None \<Rightarrow> (spans, cursor))
           else (spans, cursor)
      else (spans, cursor))"
  by pat_completeness auto
termination
  by (relation "measure (\<lambda>(de, crc, data, cursor, spans). length data - cursor)")
    (auto simp: frame_header_len_def)

declare decode_loop.simps [simp del]

definition decode_records ::
  "(byte list \<Rightarrow> 'r option) \<Rightarrow> (byte list \<Rightarrow> nat) \<Rightarrow> byte list \<Rightarrow> 'r list \<times> usize" where
  "decode_records de crc data = decode_loop de crc data 0 []"

section \<open>Segments\<close>

definition seg_ext :: str where
  "seg_ext = ''wal''"

text \<open>\<open>segment_path\<close>, relative to the WAL directory.\<close>

definition segment_path :: "u64 \<Rightarrow> str" where
  "segment_path seqno = dec020 seqno @ ''.'' @ seg_ext"

text \<open>\<open>create(true).append(true)\<close>: an existing file keeps its contents.\<close>

definition open_segment_file :: "wal_dir \<Rightarrow> u64 \<Rightarrow> wal_dir" where
  "open_segment_file dir seqno =
     om_alter (segment_path seqno) \<lparr>sf_bytes = [], sf_synced = 0\<rparr> (\<lambda>f. f) dir"

definition wal_open :: "wal_dir \<Rightarrow> u64 \<Rightarrow> wal" where
  "wal_open dir seqno =
     \<lparr>w_dir = open_segment_file dir seqno, w_active_seqno = seqno, w_active_count = 0\<rparr>"

definition append_bytes :: "byte list \<Rightarrow> seg_file \<Rightarrow> seg_file" where
  "append_bytes bs f = f\<lparr>sf_bytes := sf_bytes f @ bs\<rparr>"

definition write_active :: "byte list \<Rightarrow> wal \<Rightarrow> wal" where
  "write_active bs w =
     w\<lparr>w_dir := om_alter (segment_path (w_active_seqno w)) \<lparr>sf_bytes = [], sf_synced = 0\<rparr>
                  (append_bytes bs) (w_dir w)\<rparr>"

definition append_nosync ::
  "('r \<Rightarrow> byte list option) \<Rightarrow> (byte list \<Rightarrow> nat) \<Rightarrow> write_outcome \<Rightarrow> 'r list \<Rightarrow> wal
     \<Rightarrow> (io_error + u64) \<times> wal" where
  "append_nosync ser crc outcome spans w =
     (if spans \<noteq> [] then
        (case encode_all ser crc spans of
           Inl e \<Rightarrow> (Inl e, w)
         | Inr buf \<Rightarrow>
             (case outcome of
                WriteFails k \<Rightarrow> (Inl OtherIo, write_active (take k buf) w)
              | WriteOk \<Rightarrow>
                  (Inr (w_active_seqno w),
                   (write_active buf w)\<lparr>w_active_count := w_active_count w + length spans\<rparr>)))
      else (Inr (w_active_seqno w), w))"

definition fsync_file :: "seg_file \<Rightarrow> seg_file" where
  "fsync_file f = f\<lparr>sf_synced := length (sf_bytes f)\<rparr>"

definition wal_sync :: "bool \<Rightarrow> wal \<Rightarrow> (io_error + unit) \<times> wal" where
  "wal_sync ok w =
     (if ok then
        (Inr (), w\<lparr>w_dir := om_alter (segment_path (w_active_seqno w)) \<lparr>sf_bytes = [], sf_synced = 0\<rparr>
                     fsync_file (w_dir w)\<rparr>)
      else (Inl OtherIo, w))"

definition seal_and_rotate :: "bool \<Rightarrow> wal \<Rightarrow> (io_error + u64) \<times> wal" where
  "seal_and_rotate ok w =
     (if ok then
        let sealed = w_active_seqno w; nxt = sealed + 1
        in (Inr sealed,
            \<lparr>w_dir = open_segment_file (w_dir w) nxt, w_active_seqno = nxt, w_active_count = 0\<rparr>)
      else (Inl OtherIo, w))"

definition seqno_of_name :: "str \<Rightarrow> u64 option" where
  "seqno_of_name name =
     (case strip_suffix (''.'' @ seg_ext) name of None \<Rightarrow> None | Some stem \<Rightarrow> parse_u64 stem)"

definition list_segment_seqnos :: "wal_dir \<Rightarrow> u64 list" where
  "list_segment_seqnos dir = sort (List.map_filter seqno_of_name (om_keys dir))"

text \<open>
  \<open>read_segment\<close> returns the records and truncates a torn tail: \<open>set_len\<close> then \<open>sync_all\<close>.
\<close>

definition read_segment ::
  "(byte list \<Rightarrow> 'r option) \<Rightarrow> (byte list \<Rightarrow> nat) \<Rightarrow> wal_dir \<Rightarrow> u64 \<Rightarrow> 'r list \<times> wal_dir" where
  "read_segment de crc dir seqno =
     (case om_get dir (segment_path seqno) of
        None \<Rightarrow> ([], dir)
      | Some f \<Rightarrow>
          (case decode_records de crc (sf_bytes f) of
             (spans, good_len) \<Rightarrow>
               (spans,
                if good_len < length (sf_bytes f)
                then om_insert (segment_path seqno)
                       \<lparr>sf_bytes = take good_len (sf_bytes f), sf_synced = good_len\<rparr> dir
                else dir)))"

definition delete_segment :: "wal_dir \<Rightarrow> u64 \<Rightarrow> wal_dir" where
  "delete_segment dir seqno = om_remove (segment_path seqno) dir"

section \<open>What decoding makes of encoded records\<close>

text \<open>
  A record the codec can carry: it serializes, it fits a frame, and parsing its payload gives it
  back. The last part is \<open>serde_json\<close>'s documented round trip, stated for the records at hand only.
\<close>

definition storable ::
  "('r \<Rightarrow> byte list option) \<Rightarrow> (byte list \<Rightarrow> 'r option) \<Rightarrow> (byte list \<Rightarrow> nat) \<Rightarrow> 'r \<Rightarrow> bool" where
  "storable ser de crc r \<longleftrightarrow>
     (case ser r of
        None \<Rightarrow> False
      | Some p \<Rightarrow> length p < 2 ^ 32 \<and> crc p < 2 ^ 32 \<and> de p = Some r)"

definition frame :: "('r \<Rightarrow> byte list option) \<Rightarrow> (byte list \<Rightarrow> nat) \<Rightarrow> 'r \<Rightarrow> byte list" where
  "frame ser crc r = (case encode_record ser crc r of Inl _ \<Rightarrow> [] | Inr b \<Rightarrow> b)"

definition frames :: "('r \<Rightarrow> byte list option) \<Rightarrow> (byte list \<Rightarrow> nat) \<Rightarrow> 'r list \<Rightarrow> byte list" where
  "frames ser crc rs = concat (map (frame ser crc) rs)"

lemma frames_simps [simp]:
  "frames ser crc [] = []"
  "frames ser crc (r # rs) = frame ser crc r @ frames ser crc rs"
  "frames ser crc (xs @ ys) = frames ser crc xs @ frames ser crc ys"
  by (simp_all add: frames_def)

lemma length_le32 [simp]: "length (le32 n) = 4"
  by (simp add: le32_def)

lemma from_le32_le32: "n < 2 ^ 32 \<Longrightarrow> from_le32 (le32 n) = n"
proof -
  assume "n < 2 ^ 32"
  then have "n div 16777216 < 256" by (simp add: div_less_iff_less_mult)
  then have d: "n div 16777216 mod 256 = n div 16777216" by simp
  have "n = n mod 256 + 256 * (n div 256)" by simp
  moreover have "n div 256 = n div 256 mod 256 + 256 * (n div 65536)"
    using div_mult2_eq [of n 256 256] by simp
  moreover have "n div 65536 = n div 65536 mod 256 + 256 * (n div 16777216)"
    using div_mult2_eq [of n 65536 256] by simp
  ultimately show ?thesis unfolding le32_def from_le32.simps d by linarith
qed

lemma storable_payload:
  assumes "storable ser de crc r"
  obtains p where "ser r = Some p" "length p < 2 ^ 32" "crc p < 2 ^ 32" "de p = Some r"
    "frame ser crc r = le32 (length p) @ le32 (crc p) @ p"
    "encode_record ser crc r = Inr (frame ser crc r)"
  using assms by (auto simp: storable_def frame_def encode_record_def split: option.splits)

lemma length_frame: "storable ser de crc r \<Longrightarrow> frame_header_len \<le> length (frame ser crc r)"
  by (elim storable_payload) (simp add: frame_header_len_def)

lemma encode_all_frames:
  "\<forall>r\<in>set rs. storable ser de crc r \<Longrightarrow> encode_all ser crc rs = Inr (frames ser crc rs)"
  by (induction rs) (auto elim!: storable_payload)

lemma decode_loop_frame:
  assumes "storable ser de crc r"
  shows "decode_loop de crc (pre @ frame ser crc r @ rest) (length pre) acc =
     decode_loop de crc (pre @ frame ser crc r @ rest)
       (length pre + length (frame ser crc r)) (acc @ [r])"
proof -
  obtain p where p: "length p < 2 ^ 32" "crc p < 2 ^ 32" "de p = Some r"
    "frame ser crc r = le32 (length p) @ le32 (crc p) @ p"
    using assms by (rule storable_payload)
  let ?d = "pre @ frame ser crc r @ rest"
  note rt = from_le32_le32 [OF p(1)] from_le32_le32 [OF p(2)]
  have len: "from_le32 (take 4 (drop (length pre) ?d)) = length p"
    by (simp add: p(4) rt)
  have crc0: "from_le32 (take 4 (drop (length pre + 4) ?d)) = crc p"
    by (simp add: p(4) rt)
  have pay: "take (length p) (drop (length pre + 8) ?d) = p"
    by (simp add: p)
  have fit: "length pre + frame_header_len \<le> length ?d" "length pre + 8 + length p \<le> length ?d"
    by (simp_all add: p frame_header_len_def)
  show ?thesis
    by (subst decode_loop.simps)
      (use len crc0 pay fit p in \<open>simp add: Let_def frame_header_len_def add.assoc\<close>)
qed

lemma decode_loop_frames:
  "\<forall>r\<in>set rs. storable ser de crc r \<Longrightarrow>
   decode_loop de crc (pre @ frames ser crc rs @ rest) (length pre) acc =
   decode_loop de crc (pre @ frames ser crc rs @ rest)
     (length pre + length (frames ser crc rs)) (acc @ rs)"
proof (induction rs arbitrary: pre acc)
  case (Cons r rs)
  then have "decode_loop de crc (pre @ frames ser crc (r # rs) @ rest) (length pre) acc =
     decode_loop de crc ((pre @ frame ser crc r) @ frames ser crc rs @ rest)
       (length (pre @ frame ser crc r)) (acc @ [r])"
    using decode_loop_frame [of ser de crc r pre "frames ser crc rs @ rest" acc] by simp
  also have "\<dots> = decode_loop de crc ((pre @ frame ser crc r) @ frames ser crc rs @ rest)
       (length (pre @ frame ser crc r) + length (frames ser crc rs)) ((acc @ [r]) @ rs)"
    by (rule Cons.IH) (use Cons.prems in simp)
  finally show ?case by (simp add: add.assoc)
qed simp

lemma decode_loop_acc:
  "decode_loop de crc data cursor acc =
     (acc @ fst (decode_loop de crc data cursor []), snd (decode_loop de crc data cursor []))"
proof (induction "length data - cursor" arbitrary: cursor acc rule: less_induct)
  case less
  show ?case
  proof (cases "cursor + frame_header_len \<le> length data")
    case False
    then show ?thesis by (simp add: decode_loop.simps)
  next
    case True
    define fin where "fin = cursor + frame_header_len + from_le32 (take 4 (drop cursor data))"
    have "length data - fin < length data - cursor"
      using True by (auto simp: fin_def frame_header_len_def)
    from less [OF this] have *: "decode_loop de crc data fin (acc @ [s]) =
        (acc @ fst (decode_loop de crc data fin [s]), snd (decode_loop de crc data fin [s]))" for s
      by (metis append.assoc append_Nil fst_conv snd_conv)
    show ?thesis
      using * [unfolded fin_def]
      by (subst (1 2 3) decode_loop.simps) (simp add: Let_def split: option.splits)
  qed
qed

lemma decode_frames_append:
  assumes "\<forall>r\<in>set rs. storable ser de crc r"
  shows "decode_records de crc (frames ser crc rs @ rest) =
     (rs @ fst (decode_loop de crc (frames ser crc rs @ rest) (length (frames ser crc rs)) []),
      snd (decode_loop de crc (frames ser crc rs @ rest) (length (frames ser crc rs)) []))"
  unfolding decode_records_def
  using decode_loop_frames [OF assms, of "[]" rest "[]"]
    decode_loop_acc [of de crc "frames ser crc rs @ rest" "length (frames ser crc rs)" rs]
  by simp

lemma decode_frames:
  "\<forall>r\<in>set rs. storable ser de crc r \<Longrightarrow>
     decode_records de crc (frames ser crc rs) = (rs, length (frames ser crc rs))"
  using decode_frames_append [of rs ser de crc "[]"]
  by (simp add: decode_loop.simps frame_header_len_def)

text \<open>A strict prefix of one frame never decodes: the header or the payload is incomplete.\<close>

lemma decode_loop_cut_frame:
  assumes "storable ser de crc r" and "k < length (frame ser crc r)"
  shows "decode_loop de crc (pre @ take k (frame ser crc r)) (length pre) acc = (acc, length pre)"
proof -
  obtain p where p: "length p < 2 ^ 32" "frame ser crc r = le32 (length p) @ le32 (crc p) @ p"
    using assms(1) by (rule storable_payload)
  let ?d = "pre @ take k (frame ser crc r)"
  show ?thesis
  proof (cases "k < 8")
    case True
    then show ?thesis
      by (subst decode_loop.simps) (simp add: frame_header_len_def p(2))
  next
    case False
    then have "take 4 (drop (length pre) ?d) = le32 (length p)"
      by (simp add: p(2))
    then have "from_le32 (take 4 (drop (length pre) ?d)) = length p"
      using from_le32_le32 [OF p(1)] by simp
    moreover have "\<not> length pre + 8 + length p \<le> length ?d"
      using assms(2) by (simp add: p(2))
    moreover have "min 4 k = 4" using False by simp
    ultimately show ?thesis
      by (subst decode_loop.simps) (auto simp: frame_header_len_def Let_def)
  qed
qed

text \<open>Where a byte count falls among the frames: on a boundary at the end, or inside frame \<open>m\<close>.\<close>

lemma take_frames:
  obtains (whole) "take n (frames ser crc rs) = frames ser crc rs"
    | (inside) m k where "m < length rs" "k < length (frame ser crc (rs ! m))"
      "take n (frames ser crc rs) = frames ser crc (take m rs) @ take k (frame ser crc (rs ! m))"
      "n = length (frames ser crc (take m rs)) + k"
proof (induction rs arbitrary: n thesis)
  case Nil
  then show ?case by simp
next
  case (Cons r rs)
  let ?l = "length (frame ser crc r)"
  show ?case
  proof (cases "n < ?l")
    case True
    then show ?thesis using Cons.prems(2) [of 0 n] by simp
  next
    case False
    then have tk: "take n (frames ser crc (r # rs)) = frame ser crc r @ take (n - ?l) (frames ser crc rs)"
      by simp
    show ?thesis
    proof (rule Cons.IH [of "n - ?l"])
      assume "take (n - ?l) (frames ser crc rs) = frames ser crc rs"
      then show ?thesis using Cons.prems(1) tk by simp
    next
      fix m k
      assume "m < length rs" "k < length (frame ser crc (rs ! m))"
        "take (n - ?l) (frames ser crc rs) = frames ser crc (take m rs) @ take k (frame ser crc (rs ! m))"
        "n - ?l = length (frames ser crc (take m rs)) + k"
      then show ?thesis using Cons.prems(2) [of "Suc m" k] tk False by simp
    qed
  qed
qed

lemma frames_take_mono:
  "i \<le> j \<Longrightarrow> length (frames ser crc (take i rs)) \<le> length (frames ser crc (take j rs))"
proof -
  assume "i \<le> j"
  then have "take j rs = take i rs @ take (j - i) (drop i rs)"
    by (metis le_add_diff_inverse take_add)
  then show ?thesis by simp
qed

lemma frames_take_Suc:
  "m < length rs \<Longrightarrow> length (frames ser crc (take (Suc m) rs)) =
     length (frames ser crc (take m rs)) + length (frame ser crc (rs ! m))"
  by (simp add: take_Suc_conv_app_nth)

text \<open>
  Cutting a well-formed segment at any byte leaves exactly the records whose frames are complete.
\<close>

lemma decode_take_frames:
  assumes ok: "\<forall>r\<in>set rs. storable ser de crc r"
  obtains m where "m \<le> length rs"
    "decode_records de crc (take n (frames ser crc rs)) = (take m rs, length (frames ser crc (take m rs)))"
    "\<forall>j\<le>length rs. length (frames ser crc (take j rs)) \<le> n \<longrightarrow> j \<le> m"
    "take (length (frames ser crc (take m rs))) (take n (frames ser crc rs)) = frames ser crc (take m rs)"
proof (rule take_frames [of n ser crc rs])
  assume "take n (frames ser crc rs) = frames ser crc rs"
  then show thesis using that [of "length rs"] decode_frames [OF ok] by simp
next
  fix m k
  assume m: "m < length rs" and k: "k < length (frame ser crc (rs ! m))"
    and tk: "take n (frames ser crc rs) = frames ser crc (take m rs) @ take k (frame ser crc (rs ! m))"
    and n: "n = length (frames ser crc (take m rs)) + k"
  have okm: "\<forall>r\<in>set (take m rs). storable ser de crc r"
    using ok by (meson in_set_takeD)
  have "storable ser de crc (rs ! m)" using ok m by simp
  then have dec: "decode_records de crc (take n (frames ser crc rs)) = (take m rs, length (frames ser crc (take m rs)))"
    using tk decode_frames_append [OF okm] decode_loop_cut_frame [OF _ k] by simp
  have "j \<le> m" if "j \<le> length rs" "length (frames ser crc (take j rs)) \<le> n" for j
  proof (rule ccontr)
    assume "\<not> j \<le> m"
    then have "Suc m \<le> j" by simp
    from frames_take_mono [OF this, of ser crc rs] that(2)
    have "length (frames ser crc (take (Suc m) rs)) \<le> n" by simp
    then show False using frames_take_Suc [OF m] n k by simp
  qed
  then show thesis using that [of m] m dec tk by simp
qed

section \<open>Segments as record lists\<close>

text \<open>The bytes of a segment, a missing file reading as empty.\<close>

definition seg_bytes :: "wal_dir \<Rightarrow> u64 \<Rightarrow> byte list" where
  "seg_bytes dir seqno =
     (case om_get dir (segment_path seqno) of None \<Rightarrow> [] | Some f \<Rightarrow> sf_bytes f)"

definition seg_synced :: "wal_dir \<Rightarrow> u64 \<Rightarrow> usize" where
  "seg_synced dir seqno =
     (case om_get dir (segment_path seqno) of None \<Rightarrow> 0 | Some f \<Rightarrow> sf_synced f)"

lemma segment_path_inj [simp]: "segment_path a = segment_path b \<longleftrightarrow> a = b"
  by (simp add: segment_path_def dec020_inj)

lemma seg_bytes_write_active [simp]:
  "seg_bytes (w_dir (write_active bs w)) seqno =
     seg_bytes (w_dir w) seqno @ (if seqno = w_active_seqno w then bs else [])"
  by (simp add: seg_bytes_def write_active_def map_simps append_bytes_def split: option.splits)

lemma write_active_fields [simp]:
  "w_active_seqno (write_active bs w) = w_active_seqno w"
  "w_active_count (write_active bs w) = w_active_count w"
  by (simp_all add: write_active_def)

lemma seg_bytes_sync [simp]:
  "seg_bytes (w_dir (snd (wal_sync ok w))) seqno = seg_bytes (w_dir w) seqno"
  by (simp add: seg_bytes_def wal_sync_def map_simps fsync_file_def split: option.splits)

lemma seg_synced_sync:
  "seg_synced (w_dir (snd (wal_sync True w))) (w_active_seqno w) =
     length (seg_bytes (w_dir w) (w_active_seqno w))"
  by (simp add: seg_bytes_def seg_synced_def wal_sync_def map_simps fsync_file_def split: option.splits)

lemma seg_bytes_open [simp]: "seg_bytes (open_segment_file dir n) seqno = seg_bytes dir seqno"
  by (simp add: seg_bytes_def open_segment_file_def map_simps split: option.splits)

lemma seg_bytes_delete [simp]:
  "seg_bytes (delete_segment dir n) seqno = (if seqno = n then [] else seg_bytes dir seqno)"
  by (simp add: seg_bytes_def delete_segment_def map_simps)

lemma decode_records_nil [simp]: "decode_records de crc [] = ([], 0)"
  by (simp add: decode_records_def decode_loop.simps frame_header_len_def)

lemma fst_read_segment: "fst (read_segment de crc dir seqno) = fst (decode_records de crc (seg_bytes dir seqno))"
  by (simp add: read_segment_def seg_bytes_def split: option.splits prod.splits)

lemma seg_bytes_read_segment:
  "seg_bytes (snd (read_segment de crc dir seqno)) n =
     (if n = seqno then take (snd (decode_records de crc (seg_bytes dir seqno))) (seg_bytes dir seqno)
      else seg_bytes dir n)"
  by (auto simp: read_segment_def seg_bytes_def map_simps split: option.splits prod.splits)

lemma append_nosync_ok:
  assumes "\<forall>r\<in>set spans. storable ser de crc r" and "spans \<noteq> []"
  shows "append_nosync ser crc WriteOk spans w =
     (Inr (w_active_seqno w),
      (write_active (frames ser crc spans) w)\<lparr>w_active_count := w_active_count w + length spans\<rparr>)"
  using assms by (simp add: append_nosync_def encode_all_frames)

lemma append_nosync_fail:
  assumes "\<forall>r\<in>set spans. storable ser de crc r" and "spans \<noteq> []"
  shows "append_nosync ser crc (WriteFails k) spans w =
     (Inl OtherIo, write_active (take k (frames ser crc spans)) w)"
  using assms by (simp add: append_nosync_def encode_all_frames)

lemma misaligned_header:
  assumes p': "0 < length p'" "length p' < 2 ^ 24"
  shows "length (b # le32 (length p') @ le32 c @ p') < 8 + from_le32 (take 4 (b # le32 (length p') @ le32 c @ p'))"
proof -
  define x0 x1 x2 where x: "x0 = length p' mod 256" "x1 = length p' div 256 mod 256"
    "x2 = length p' div 65536 mod 256"
  have "length p' div 16777216 = 0" using p' by simp
  then have le: "le32 (length p') = [x0, x1, x2, 0]" by (simp add: le32_def x)
  have "x0 + 256 * x1 + 65536 * x2 = length p'"
    using from_le32_le32 [of "length p'"] p' unfolding le by simp
  moreover have "from_le32 (take 4 (b # le32 (length p') @ le32 c @ p')) = b + 256 * x0 + 65536 * x1 + 16777216 * x2"
    unfolding le by simp
  ultimately have "from_le32 (take 4 (b # le32 (length p') @ le32 c @ p')) = b + 256 * length p'"
    by linarith
  moreover have "length (b # le32 (length p') @ le32 c @ p') = 9 + length p'" by simp
  ultimately show ?thesis using p'(1) by linarith
qed

lemma in_seqnos: "n \<in> set (list_segment_seqnos dir) \<longleftrightarrow> (\<exists>name\<in>set (om_keys dir). seqno_of_name name = Some n)"
  by (force simp: list_segment_seqnos_def List.map_filter_def image_iff)

lemma seqno_of_segment_path [simp]: "n \<le> u64_max \<Longrightarrow> seqno_of_name (segment_path n) = Some n"
  using strip_suffix_Some [of "''.'' @ seg_ext" "segment_path n" "dec020 n"]
  by (simp add: seqno_of_name_def segment_path_def parse_dec020)

text \<open>A one-byte codec for the witnesses.\<close>

definition tiny_ser :: "nat \<Rightarrow> byte list option" where
  "tiny_ser n = Some [n]"

definition tiny_de :: "byte list \<Rightarrow> nat option" where
  "tiny_de p = (case p of [n] \<Rightarrow> Some n | _ \<Rightarrow> None)"

definition tiny_crc :: "byte list \<Rightarrow> nat" where
  "tiny_crc p = length p"

lemma tiny_storable [simp]: "storable tiny_ser tiny_de tiny_crc n"
  by (simp add: storable_def tiny_ser_def tiny_de_def tiny_crc_def)

lemma seg_bytes_empty [simp]: "seg_bytes om_empty n = []"
  by (simp add: seg_bytes_def map_simps)

lemma wal_open_fields [simp]:
  "w_active_seqno (wal_open dir n) = n" "seg_bytes (w_dir (wal_open dir n)) m = seg_bytes dir m"
  by (simp_all add: wal_open_def)

section \<open>Properties\<close>

text \<open>
  C12. The log round-trips: appending a batch to a segment that holds the records \<open>rs0\<close> succeeds
  with the active segment's number, reading that segment back yields the old records followed by
  the batch in order, and the read truncates nothing; assumed is that \<open>serde_json\<close> reads back each record it
  wrote.
\<close>

theorem wal_append_read_round_trip:
  assumes "seg_bytes (w_dir w) (w_active_seqno w) = frames ser crc rs0"
    and "\<forall>r\<in>set (rs0 @ spans). storable ser de crc r" and "spans \<noteq> []"
    and "append_nosync ser crc WriteOk spans w = (res, w')"
  shows "res = Inr (w_active_seqno w)
     \<and> fst (read_segment de crc (w_dir w') (w_active_seqno w)) = rs0 @ spans
     \<and> seg_bytes (snd (read_segment de crc (w_dir w') (w_active_seqno w))) (w_active_seqno w)
        = seg_bytes (w_dir w') (w_active_seqno w)"
proof -
  have spans: "\<forall>r\<in>set spans. storable ser de crc r" using assms(2) by simp
  have w': "res = Inr (w_active_seqno w)"
    "seg_bytes (w_dir w') (w_active_seqno w) = frames ser crc (rs0 @ spans)"
    using assms(1,4) append_nosync_ok [OF spans assms(3)] by auto
  then show ?thesis
    using decode_frames [OF assms(2)] by (simp add: fst_read_segment seg_bytes_read_segment)
qed

theorem wal_append_read_round_trip_witness:
  "\<exists>w'. append_nosync tiny_ser tiny_crc WriteOk [7, 8] (wal_open om_empty 1) = (Inr 1, w')
     \<and> fst (read_segment tiny_de tiny_crc (w_dir w') 1) = [7, 8]"
proof -
  obtain res w' where ap: "append_nosync tiny_ser tiny_crc WriteOk [7, 8] (wal_open om_empty 1) = (res, w')"
    by (rule prod.exhaust)
  show ?thesis
    using wal_append_read_round_trip [OF _ _ _ ap, where de = tiny_de and ?rs0.0 = "[]"] ap by simp
qed

text \<open>
  C11. A torn tail costs only the torn record: when a crash leaves the first \<open>n\<close> bytes of a segment, at
  least the fsynced ones, reading it yields a prefix of its records that contains every record whose
  frame was fsynced; the file is cut back to the end of that prefix, and a second read finds the
  same records and changes nothing more.
\<close>

theorem wal_crash_keeps_synced_records:
  assumes bytes: "seg_bytes dir seqno = take n (frames ser crc rs)"
    and ok: "\<forall>r\<in>set rs. storable ser de crc r"
    and synced: "synced \<le> length rs" "length (frames ser crc (take synced rs)) \<le> n"
    and read: "read_segment de crc dir seqno = (spans, dir')"
  shows "\<exists>m. synced \<le> m \<and> spans = take m rs
     \<and> seg_bytes dir' seqno = frames ser crc (take m rs)
     \<and> fst (read_segment de crc dir' seqno) = spans
     \<and> seg_bytes (snd (read_segment de crc dir' seqno)) seqno = seg_bytes dir' seqno"
proof -
  obtain m where m: "m \<le> length rs"
    "decode_records de crc (take n (frames ser crc rs)) = (take m rs, length (frames ser crc (take m rs)))"
    "\<forall>j\<le>length rs. length (frames ser crc (take j rs)) \<le> n \<longrightarrow> j \<le> m"
    "take (length (frames ser crc (take m rs))) (take n (frames ser crc rs)) = frames ser crc (take m rs)"
    using decode_take_frames [OF ok, of n] by metis
  have okm: "\<forall>r\<in>set (take m rs). storable ser de crc r" using ok by (meson in_set_takeD)
  have spans: "spans = take m rs" using read bytes m(2) fst_read_segment [of de crc dir seqno] by simp
  have dir': "seg_bytes dir' seqno = frames ser crc (take m rs)"
    using seg_bytes_read_segment [of de crc dir seqno seqno] read bytes m(2,4) by simp
  have "synced \<le> m" using m(3) synced by blast
  then show ?thesis
    using spans dir' decode_frames [OF okm] by (auto simp: fst_read_segment seg_bytes_read_segment)
qed

theorem wal_crash_keeps_synced_records_witness:
  "\<exists>m. 1 \<le> m \<and> fst (read_segment tiny_de tiny_crc
       [(segment_path 3, \<lparr>sf_bytes = take 12 (frames tiny_ser tiny_crc [5, 6]), sf_synced = 9\<rparr>)] 3)
     = take m [5, 6]"
proof -
  let ?dir = "[(segment_path 3, \<lparr>sf_bytes = take 12 (frames tiny_ser tiny_crc [5, 6]), sf_synced = 9\<rparr>)]"
  obtain spans dir' where rd: "read_segment tiny_de tiny_crc ?dir 3 = (spans, dir')"
    by (rule prod.exhaust)
  have "seg_bytes ?dir 3 = take 12 (frames tiny_ser tiny_crc [5, 6])"
    by (simp add: seg_bytes_def om_get_def)
  moreover have "length (frames tiny_ser tiny_crc (take 1 [5, 6])) \<le> 12"
    by (simp add: frame_def encode_record_def tiny_ser_def)
  ultimately show ?thesis
    using wal_crash_keeps_synced_records [OF _ _ _ _ rd, of 12 tiny_ser "[5, 6]" 1] rd by auto
qed

text \<open>
  Whatever bytes a crash leaves behind the fsynced frames, garbage included, reading the
  segment yields every fsynced record, in order and first.
\<close>

theorem wal_garbage_tail_keeps_synced_records:
  assumes "seg_bytes dir seqno = frames ser crc rs @ garbage"
    and "\<forall>r\<in>set rs. storable ser de crc r"
  shows "\<exists>more. fst (read_segment de crc dir seqno) = rs @ more"
  using assms decode_frames_append [OF assms(2), of garbage] by (simp add: fst_read_segment)

theorem wal_garbage_tail_keeps_synced_records_witness:
  "\<exists>more. fst (read_segment tiny_de tiny_crc
       [(segment_path 3, \<lparr>sf_bytes = frames tiny_ser tiny_crc [5] @ [255, 0, 9], sf_synced = 9\<rparr>)] 3)
     = [5] @ more"
  by (rule wal_garbage_tail_keeps_synced_records [of _ _ tiny_ser _ _ "[255, 0, 9]"])
    (simp_all add: seg_bytes_def om_get_def)

text \<open>
  C32. A write error can hide records acknowledged after it: when \<open>write_all\<close> fails after one byte,
  the segment keeps that byte, the next append is written behind it and fsynced successfully, and
  on recovery the segment decodes to the records before the failure only, whatever the checksum
  function is. The record \<open>r'\<close> was acknowledged and is lost.
\<close>

theorem wal_failed_write_hides_later_records:
  assumes bytes: "seg_bytes (w_dir w) (w_active_seqno w) = frames ser crc rs"
    and ok: "\<forall>x\<in>set (r # r' # rs). storable ser de crc x"
    and short: "ser r' = Some p'" "0 < length p'" "length p' < 2 ^ 24"
    and first: "append_nosync ser crc (WriteFails 1) [r] w = (res1, w1)"
    and second: "append_nosync ser crc WriteOk [r'] w1 = (res2, w2)"
    and sync: "wal_sync True w2 = (res3, w3)"
  shows "res2 = Inr (w_active_seqno w) \<and> res3 = Inr ()
     \<and> fst (read_segment de crc (w_dir w3) (w_active_seqno w)) = rs"
proof -
  obtain p where "frame ser crc r = le32 (length p) @ le32 (crc p) @ p"
    using ok by (auto elim: storable_payload)
  then obtain b where b: "take 1 (frame ser crc r) = [b]" by (simp add: le32_def)
  have fr': "frame ser crc r' = le32 (length p') @ le32 (crc p') @ p'"
    using ok short(1) by (auto elim!: storable_payload)
  have w1: "w1 = write_active (take 1 (frame ser crc r)) w"
    using first append_nosync_fail [of "[r]" ser de crc 1 w] ok by simp
  have res2: "res2 = Inr (w_active_seqno w)"
    and w2: "w2 = (write_active (frame ser crc r') w1)\<lparr>w_active_count := w_active_count w1 + 1\<rparr>"
    using second append_nosync_ok [of "[r']" ser de crc w1] ok w1 by auto
  have w3: "res3 = Inr ()" "seg_bytes (w_dir w3) (w_active_seqno w) = frames ser crc rs @ [b] @ frame ser crc r'"
    using sync seg_bytes_sync [of True w2 "w_active_seqno w"] w1 w2 bytes b
    by (auto simp: wal_sync_def)
  let ?d = "frames ser crc rs @ [b] @ frame ser crc r'"
  have "length ?d < length (frames ser crc rs) + 8 + from_le32 (take 4 (drop (length (frames ser crc rs)) ?d))"
    using misaligned_header [OF short(2,3), of b "crc p'"] fr' by simp
  then have "decode_loop de crc ?d (length (frames ser crc rs)) [] = ([], length (frames ser crc rs))"
    by (subst decode_loop.simps) (auto simp: frame_header_len_def Let_def)
  then have "fst (decode_records de crc ?d) = rs"
    using decode_frames_append [of rs ser de crc "[b] @ frame ser crc r'"] ok by simp
  then show ?thesis using res2 w3 by (simp add: fst_read_segment)
qed

theorem wal_failed_write_hides_later_records_witness:
  "\<exists>w1 w2 w3. append_nosync tiny_ser tiny_crc (WriteFails 1) [7] (wal_open om_empty 1) = (Inl OtherIo, w1)
     \<and> append_nosync tiny_ser tiny_crc WriteOk [8] w1 = (Inr 1, w2)
     \<and> wal_sync True w2 = (Inr (), w3)
     \<and> fst (read_segment tiny_de tiny_crc (w_dir w3) 1) = []"
proof -
  obtain r1 w1 where a1: "append_nosync tiny_ser tiny_crc (WriteFails 1) [7] (wal_open om_empty 1) = (r1, w1)"
    by (rule prod.exhaust)
  obtain r2 w2 where a2: "append_nosync tiny_ser tiny_crc WriteOk [8] w1 = (r2, w2)"
    by (rule prod.exhaust)
  obtain r3 w3 where a3: "wal_sync True w2 = (r3, w3)" by (rule prod.exhaust)
  have "r1 = Inl OtherIo"
    using a1 append_nosync_fail [of "[7]" tiny_ser tiny_de tiny_crc 1 "wal_open om_empty 1"] by simp
  then show ?thesis
    using wal_failed_write_hides_later_records [OF _ _ _ _ _ a1 a2 a3, of "[]" tiny_de "[8]"] a1 a2 a3
    by (simp add: tiny_ser_def)
qed

text \<open>
  Recovery finds every segment: the seqnos \<open>list_segment_seqnos\<close> reports are, in ascending
  order, exactly those of the segment files in the directory, and files with other names
  are not reported.
\<close>

theorem list_segment_seqnos_exact:
  assumes "\<forall>n\<in>S. n \<le> u64_max"
    and "set (om_keys dir) = segment_path ` S \<union> others"
    and "\<forall>name\<in>others. \<not> ends_with ''.wal'' name"
  shows "set (list_segment_seqnos dir) = S \<and> sorted (list_segment_seqnos dir)"
proof -
  have none: "seqno_of_name name = None" if "name \<in> others" for name
    using assms(3) that by (auto simp: seqno_of_name_def strip_suffix_def seg_ext_def)
  have path: "seqno_of_name (segment_path n) = Some n" if "n \<in> S" for n
    using that assms(1) by simp
  have "n \<in> set (list_segment_seqnos dir) \<longleftrightarrow> n \<in> S" for n
    unfolding in_seqnos assms(2)
    by (metis UnE UnI1 imageE imageI none option.inject option.simps(3) path)
  moreover have "sorted (list_segment_seqnos dir)"
    by (simp add: list_segment_seqnos_def)
  ultimately show ?thesis by blast
qed

theorem list_segment_seqnos_exact_witness:
  "set (list_segment_seqnos (om_insert (segment_path 4) (append_bytes [1] \<lparr>sf_bytes = [], sf_synced = 0\<rparr>) (om_insert ''x.tmp'' \<lparr>sf_bytes = [], sf_synced = 0\<rparr>
       (om_insert (segment_path 2) \<lparr>sf_bytes = [], sf_synced = 0\<rparr> om_empty)))) = {2, 4}"
proof -
  let ?d = "om_insert (segment_path 4) (append_bytes [1] \<lparr>sf_bytes = [], sf_synced = 0\<rparr>) (om_insert ''x.tmp'' \<lparr>sf_bytes = [], sf_synced = 0\<rparr>
       (om_insert (segment_path 2) \<lparr>sf_bytes = [], sf_synced = 0\<rparr> om_empty))"
  have "set (om_keys ?d) = segment_path ` {2, 4} \<union> {''x.tmp''}"
    by (auto simp: map_simps) (simp add: om_keys_def om_empty_def)
  moreover have "\<forall>name\<in>{''x.tmp''}. \<not> ends_with ''.wal'' name"
    by (simp add: ends_with_def starts_with_def)
  ultimately show ?thesis
    using list_segment_seqnos_exact [of "{2, 4}" ?d "{''x.tmp''}"] by (simp add: u64_max_def)
qed

end
