(* ===== verification/Model.thy ===== *)
theory Model
  imports OrdMap Text "HOL-Library.Word"
begin

text \<open>
  The normalized span model of \<^verbatim>\<open>src/model.rs\<close>: the span record every component works on, JSON
  values as \<open>serde_json\<close> holds them (objects are \<open>BTreeMap\<close>s), the token-usage diagnostic and the
  score object. An \<open>f64\<close> is its 64 IEEE bits, so that it can be stored and compared for identity
  without a model of floating-point arithmetic.
\<close>

type_synonym f64 = "64 word"
type_synonym i32 = int
type_synonym i64 = int

section \<open>JSON values\<close>

datatype jnum = PosInt u64 | NegInt i64 | Float f64

datatype json =
    JNull
  | JBool bool
  | JNum jnum
  | JStr str
  | JArr "json list"
  | JObj "(str \<times> json) list"

definition j_is_number :: "json \<Rightarrow> bool" where
  "j_is_number v = (case v of JNum _ \<Rightarrow> True | _ \<Rightarrow> False)"

definition j_is_string :: "json \<Rightarrow> bool" where
  "j_is_string v = (case v of JStr _ \<Rightarrow> True | _ \<Rightarrow> False)"

definition j_as_str :: "json \<Rightarrow> str option" where
  "j_as_str v = (case v of JStr s \<Rightarrow> Some s | _ \<Rightarrow> None)"

lemma j_kinds [simp]:
  "j_is_number (JNum n)" "\<not> j_is_number (JStr s)" "\<not> j_is_number (JObj m)"
  "\<not> j_is_number (JArr xs)" "\<not> j_is_number JNull" "\<not> j_is_number (JBool b)"
  "j_is_string (JStr s)" "\<not> j_is_string (JNum n)" "\<not> j_is_string (JObj m)"
  "\<not> j_is_string (JArr xs)" "\<not> j_is_string JNull" "\<not> j_is_string (JBool b)"
  "j_as_str (JStr s) = Some s" "j_as_str (JNum n) = None" "j_as_str (JObj m) = None"
  "j_as_str (JArr xs) = None" "j_as_str JNull = None" "j_as_str (JBool b) = None"
  by (simp_all add: j_is_number_def j_is_string_def j_as_str_def)

section \<open>Spans\<close>

datatype dialect = OpenInference | GenAi | Mixed | Unknown

definition dialect_as_str :: "dialect \<Rightarrow> str" where
  "dialect_as_str d =
     (case d of OpenInference \<Rightarrow> ''open_inference'' | GenAi \<Rightarrow> ''gen_ai''
      | Mixed \<Rightarrow> ''mixed'' | Unknown \<Rightarrow> ''unknown'')"

definition dialect_from_str_lenient :: "str \<Rightarrow> dialect" where
  "dialect_from_str_lenient s =
     (if s = ''open_inference'' then OpenInference
      else if s = ''gen_ai'' then GenAi
      else if s = ''mixed'' then Mixed
      else Unknown)"

record tokens =
  tk_prompt :: "u64 option"
  tk_completion :: "u64 option"
  tk_total :: "u64 option"
  tk_cache_read :: "u64 option"
  tk_cache_write :: "u64 option"
  tk_reasoning :: "u64 option"

definition tokens_default :: tokens where
  "tokens_default = \<lparr>tk_prompt = None, tk_completion = None, tk_total = None,
     tk_cache_read = None, tk_cache_write = None, tk_reasoning = None\<rparr>"

definition tokens_is_empty :: "tokens \<Rightarrow> bool" where
  "tokens_is_empty t \<longleftrightarrow> tk_prompt t = None \<and> tk_completion t = None \<and> tk_total t = None \<and>
     tk_cache_read t = None \<and> tk_cache_write t = None \<and> tk_reasoning t = None"

record normalized_span =
  ns_dialect :: dialect
  ns_trace_id :: str
  ns_span_id :: str
  ns_parent_span_id :: "str option"
  ns_name :: str
  ns_otel_kind :: i32
  ns_oi_kind :: "str option"
  ns_start_unix_nano :: u64
  ns_end_unix_nano :: u64
  ns_status_code :: i32
  ns_status_message :: "str option"
  ns_model :: "str option"
  ns_provider :: "str option"
  ns_tokens :: tokens
  ns_cost_usd :: "f64 option"
  ns_input_value :: "str option"
  ns_output_value :: "str option"
  ns_session_id :: "str option"
  ns_user_id :: "str option"
  ns_service_name :: "str option"
  ns_scope_name :: "str option"
  ns_scope_version :: "str option"
  ns_raw_attributes :: "(str, json) omap"

datatype usage_missing_reason = NoUsageField | UnparsedNesting

definition usage_missing_reason_as_str :: "usage_missing_reason \<Rightarrow> str" where
  "usage_missing_reason_as_str r =
     (case r of NoUsageField \<Rightarrow> ''no-usage-field'' | UnparsedNesting \<Rightarrow> ''unparsed-nesting'')"

definition not_model_calls :: "str list" where
  "not_model_calls = [''AGENT'', ''CHAIN'', ''TOOL'']"

definition duration_ns :: "normalized_span \<Rightarrow> u64" where
  "duration_ns s = ns_end_unix_nano s - ns_start_unix_nano s"

definition is_llm_span :: "normalized_span \<Rightarrow> bool" where
  "is_llm_span s =
     (let rest =
        (ns_model s \<noteq> None \<or>
         list_ex (\<lambda>k. starts_with ''gen_ai.request.'' k \<or> starts_with ''gen_ai.response.'' k
                     \<or> starts_with ''gen_ai.usage.'' k) (om_keys (ns_raw_attributes s)))
      in case ns_oi_kind s of
           None \<Rightarrow> rest
         | Some k \<Rightarrow>
             if eq_ignore_ascii_case k ''LLM'' then True
             else if list_ex (\<lambda>n. eq_ignore_ascii_case k n) not_model_calls then False
             else rest)"

text \<open>The inner \<open>walk\<close> of \<open>json_mentions_tokens\<close>.\<close>

fun walk :: "json \<Rightarrow> nat \<Rightarrow> bool" where
  "walk v 0 = False"
| "walk v (Suc d) =
     (case v of
        JObj m \<Rightarrow> list_ex (\<lambda>(k, val).
            contains_str ''token'' (to_ascii_lowercase k) \<and> (j_is_number val \<or> j_is_string val)
            \<or> walk val d) m
      | JArr arr \<Rightarrow> list_ex (\<lambda>val. walk val d) arr
      | _ \<Rightarrow> False)"

definition json_mentions_tokens :: "json \<Rightarrow> bool" where
  "json_mentions_tokens v = walk v 4"

definition usage_missing :: "normalized_span \<Rightarrow> usage_missing_reason option" where
  "usage_missing s =
     (if \<not> is_llm_span s \<or> \<not> tokens_is_empty (ns_tokens s) then None
      else let nested = list_ex (\<lambda>(k, v).
                 (let kl = to_ascii_lowercase k
                  in (contains_str ''usage'' kl \<or> contains_str ''token'' kl)
                     \<and> json_mentions_tokens v)) (ns_raw_attributes s)
           in Some (if nested then UnparsedNesting else NoUsageField))"

section \<open>Scores\<close>

datatype score_target =
    TargetTrace str
  | TargetSpan str
  | TargetSession str
  | TargetRun str

definition score_target_key :: "score_target \<Rightarrow> str" where
  "score_target_key t =
     (case t of
        TargetTrace i \<Rightarrow> ''trace:'' @ i
      | TargetSpan i \<Rightarrow> ''span:'' @ i
      | TargetSession i \<Rightarrow> ''session:'' @ i
      | TargetRun i \<Rightarrow> ''run:'' @ i)"

datatype data_type = Numeric | Categorical | Boolean | TextType

datatype score_source = SrcEval | SrcHuman | SrcApi

record agg_stats =
  ag_n :: u64
  ag_pass_count :: u64
  ag_mean :: f64
  ag_variance :: f64

record score =
  sc_id :: str
  sc_target :: score_target
  sc_name :: str
  sc_num_value :: "f64 option"
  sc_str_value :: "str option"
  sc_data_type :: data_type
  sc_source :: score_source
  sc_comment :: "str option"
  sc_config_id :: "str option"
  sc_agg_stats :: "agg_stats option"
  sc_ts_unix_nano :: u64

section \<open>Lemmas\<close>

lemma dialect_round_trip [simp]: "dialect_from_str_lenient (dialect_as_str d) = d"
  by (cases d) (simp_all add: dialect_from_str_lenient_def dialect_as_str_def)

lemma tokens_default_empty [simp]: "tokens_is_empty tokens_default"
  by (simp add: tokens_is_empty_def tokens_default_def)

lemma score_target_key_inj: "score_target_key a = score_target_key b \<Longrightarrow> a = b"
  by (cases a; cases b) (simp_all add: score_target_key_def)

lemma usage_missing_None_iff:
  "usage_missing s = None \<longleftrightarrow> \<not> is_llm_span s \<or> \<not> tokens_is_empty (ns_tokens s)"
  by (simp add: usage_missing_def Let_def)

text \<open>
  The node of a value that a path of object keys and array positions leads to, and the reading of
  \<open>walk\<close> in those terms.
\<close>

datatype step = Key nat | Pos nat

fun json_at :: "json \<Rightarrow> step list \<Rightarrow> json option" where
  "json_at v [] = Some v"
| "json_at (JObj m) (Key i # ps) = (if i < length m then json_at (snd (m ! i)) ps else None)"
| "json_at (JArr a) (Pos i # ps) = (if i < length a then json_at (a ! i) ps else None)"
| "json_at v ps = None"

definition token_field :: "json \<Rightarrow> bool" where
  "token_field v \<longleftrightarrow> (\<exists>m k val. v = JObj m \<and> (k, val) \<in> set m \<and>
     contains_str ''token'' (to_ascii_lowercase k) \<and> (j_is_number val \<or> j_is_string val))"

lemma walk_path: "walk v d \<Longrightarrow> \<exists>ps w. length ps < d \<and> json_at v ps = Some w \<and> token_field w"
proof (induction v d rule: walk.induct)
  case (2 v d)
  show ?case
  proof (cases v)
    case (JArr arr)
    then obtain x where x: "x \<in> set arr" "walk x d" using 2 by (auto simp: list_ex_iff)
    then obtain i where i: "i < length arr" "x = arr ! i" by (auto simp: in_set_conv_nth)
    obtain ps w where "length ps < d" "json_at x ps = Some w" "token_field w"
      using 2 JArr x by blast
    then have "length (Pos i # ps) < Suc d \<and> json_at v (Pos i # ps) = Some w \<and> token_field w"
      using JArr i by simp
    then show ?thesis by blast
  next
    case (JObj m)
    then obtain k val where kv: "(k, val) \<in> set m" and
      dis: "(contains_str ''token'' (to_ascii_lowercase k) \<and> (j_is_number val \<or> j_is_string val))
        \<or> walk val d" using 2 by (auto simp: list_ex_iff)
    from kv obtain i where i: "i < length m" "m ! i = (k, val)" by (auto simp: in_set_conv_nth)
    from dis show ?thesis
    proof
      assume "contains_str ''token'' (to_ascii_lowercase k) \<and> (j_is_number val \<or> j_is_string val)"
      then have "token_field v" using JObj kv by (auto simp: token_field_def)
      then show ?thesis by (intro exI [of _ "[]"]) simp
    next
      assume "walk val d"
      then obtain ps w where "length ps < d" "json_at val ps = Some w" "token_field w"
        using 2(2) JObj kv by fastforce
      then have "length (Key i # ps) < Suc d \<and> json_at v (Key i # ps) = Some w \<and> token_field w"
        using JObj i by simp
      then show ?thesis by blast
    qed
  qed (use 2 in auto)
qed simp

lemma path_walk: "json_at v ps = Some w \<Longrightarrow> token_field w \<Longrightarrow> length ps < d \<Longrightarrow> walk v d"
proof (induction v ps arbitrary: d rule: json_at.induct)
  case (1 v)
  then obtain d' where "d = Suc d'" by (cases d) auto
  then show ?case using 1 by (fastforce simp: token_field_def list_ex_iff)
next
  case (2 m i ps)
  then obtain d' where d: "d = Suc d'" by (cases d) auto
  have i: "i < length m" using 2 by (auto split: if_splits)
  have "walk (snd (m ! i)) d'" using 2 d i by auto
  then show ?case using d i by (auto simp: list_ex_iff intro!: bexI [of _ "m ! i"])
next
  case (3 a i ps)
  then obtain d' where d: "d = Suc d'" by (cases d) auto
  have i: "i < length a" using 3 by (auto split: if_splits)
  have "walk (a ! i) d'" using 3 d i by auto
  then show ?case using d i by (auto simp: list_ex_iff intro!: bexI [of _ "a ! i"])
qed simp_all

lemma json_mentions_tokens_iff:
  "json_mentions_tokens v \<longleftrightarrow>
     (\<exists>ps w. length ps < 4 \<and> json_at v ps = Some w \<and> token_field w)"
  unfolding json_mentions_tokens_def using walk_path path_walk by blast

end
