(* ===== verification/Index.thy ===== *)
theory Index
  imports OrdMap Text "HOL-Library.Product_Lexorder"
begin

text \<open>
  The commit index of \<^verbatim>\<open>src/store/index.rs\<close>. redb is a library: a table is an ordered map, a multimap
  table the ordered map of its \<open>(key, value)\<close> pairs, and a write transaction is one function, since
  it commits all of its changes or none. The table operations the code calls are those \<open>om\<close>
  interprets.
\<close>

record block_meta =
  bm_rel_path :: str
  bm_max_start_unix_nano :: u64
  bm_trace_ids :: "str list"

record index =
  ix_meta :: "(str, u64) omap"
  ix_blocks :: "(str, u64) omap"
  ix_trace_blocks :: "(str \<times> str, unit) omap"

definition watermark_key :: str where
  "watermark_key = ''watermark''"

definition index_open :: index where
  "index_open = \<lparr>ix_meta = om_empty, ix_blocks = om_empty, ix_trace_blocks = om_empty\<rparr>"

definition watermark :: "index \<Rightarrow> u64" where
  "watermark ix = (case om_get (ix_meta ix) watermark_key of Some v \<Rightarrow> v | None \<Rightarrow> 0)"

text \<open>One block's rows of the two tables, as both commits insert them.\<close>

definition insert_traces :: "str \<Rightarrow> str list \<Rightarrow> (str \<times> str, unit) omap \<Rightarrow> (str \<times> str, unit) omap" where
  "insert_traces rel traces tbl = fold (\<lambda>t. om_insert (t, rel) ()) traces tbl"

definition remove_traces :: "str \<Rightarrow> str list \<Rightarrow> (str \<times> str, unit) omap \<Rightarrow> (str \<times> str, unit) omap" where
  "remove_traces rel traces tbl = fold om_remove (map (\<lambda>t. (t, rel)) traces) tbl"

definition commit_flush :: "u64 \<Rightarrow> block_meta list \<Rightarrow> index \<Rightarrow> index" where
  "commit_flush sealed_seqno blocks ix =
     \<lparr>ix_meta = om_insert watermark_key sealed_seqno (ix_meta ix),
      ix_blocks = fold (\<lambda>b. om_insert (bm_rel_path b) (bm_max_start_unix_nano b)) blocks (ix_blocks ix),
      ix_trace_blocks = fold (\<lambda>b. insert_traces (bm_rel_path b) (bm_trace_ids b)) blocks (ix_trace_blocks ix)\<rparr>"

definition commit_merge :: "block_meta \<Rightarrow> (str \<times> str list) list \<Rightarrow> index \<Rightarrow> index" where
  "commit_merge output inputs ix =
     ix\<lparr>ix_blocks := om_insert (bm_rel_path output) (bm_max_start_unix_nano output)
                      (fold om_remove (map fst inputs) (ix_blocks ix)),
        ix_trace_blocks := insert_traces (bm_rel_path output) (bm_trace_ids output)
                      (fold (\<lambda>(rel, traces). remove_traces rel traces) inputs (ix_trace_blocks ix))\<rparr>"

definition block_count :: "index \<Rightarrow> nat" where
  "block_count ix = length (ix_blocks ix)"

definition all_block_paths :: "index \<Rightarrow> str list" where
  "all_block_paths ix = om_keys (ix_blocks ix)"

definition block_paths_for_trace :: "str \<Rightarrow> index \<Rightarrow> str list" where
  "block_paths_for_trace trace_id ix =
     map snd (filter (\<lambda>p. fst p = trace_id) (om_keys (ix_trace_blocks ix)))"

definition blocks_with_max_start :: "index \<Rightarrow> (str \<times> u64) list" where
  "blocks_with_max_start ix = ix_blocks ix"

definition drop_blocks :: "str list \<Rightarrow> index \<Rightarrow> index" where
  "drop_blocks paths ix =
     (if paths = [] then ix
      else let stale = filter (\<lambda>p. snd p \<in> set paths) (om_keys (ix_trace_blocks ix))
           in ix\<lparr>ix_blocks := fold om_remove paths (ix_blocks ix),
                 ix_trace_blocks := fold om_remove stale (ix_trace_blocks ix)\<rparr>)"

section \<open>What the index says, abstractly\<close>

text \<open>The committed blocks and the trace mappings, as sets.\<close>

definition indexed :: "index \<Rightarrow> str set" where
  "indexed ix = set (all_block_paths ix)"

definition mapped :: "index \<Rightarrow> (str \<times> str) set" where
  "mapped ix = set (om_keys (ix_trace_blocks ix))"

definition index_ok :: "index \<Rightarrow> bool" where
  "index_ok ix \<longleftrightarrow> om_ok (ix_meta ix) \<and> om_ok (ix_blocks ix) \<and> om_ok (ix_trace_blocks ix)
     \<and> snd ` mapped ix \<subseteq> indexed ix"

lemma set_fold_insert:
  "set (om_keys (fold (\<lambda>x. om_insert (f x) (g x)) xs m)) = f ` set xs \<union> set (om_keys m)"
  by (induction xs arbitrary: m) (auto simp: map_simps)

lemma set_fold_remove: "set (om_keys (fold om_remove ks m)) = set (om_keys m) - set ks"
  by (induction ks arbitrary: m) (auto simp: map_simps)

lemma om_ok_insert_traces [simp]: "om_ok m \<Longrightarrow> om_ok (insert_traces rel ts m)"
  unfolding insert_traces_def by (rule om_ok_fold_insert)

lemma om_ok_remove_traces [simp]: "om_ok m \<Longrightarrow> om_ok (remove_traces rel ts m)"
  unfolding remove_traces_def by (rule om_ok_fold_remove)

lemma keys_insert_traces [map_simps]:
  "set (om_keys (insert_traces rel ts m)) = (\<lambda>t. (t, rel)) ` set ts \<union> set (om_keys m)"
  by (simp add: insert_traces_def set_fold_insert)

lemma keys_remove_traces [map_simps]:
  "set (om_keys (remove_traces rel ts m)) = set (om_keys m) - (\<lambda>t. (t, rel)) ` set ts"
  by (simp add: remove_traces_def set_fold_remove)

lemma indexed_open [simp]: "indexed index_open = {}" "mapped index_open = {}" "watermark index_open = 0"
  by (simp_all add: indexed_def mapped_def all_block_paths_def index_open_def om_empty_def om_keys_def
      watermark_def om_get_def)

lemma index_ok_open [simp]: "index_ok index_open"
  by (simp add: index_ok_def index_open_def indexed_def mapped_def om_keys_def om_empty_def om_ok_def)

lemma indexed_commit_flush [simp]:
  "indexed (commit_flush n bs ix) = bm_rel_path ` set bs \<union> indexed ix"
  by (simp add: indexed_def all_block_paths_def commit_flush_def set_fold_insert)

lemma mapped_commit_flush [simp]:
  "mapped (commit_flush n bs ix) =
     (\<Union>b\<in>set bs. (\<lambda>t. (t, bm_rel_path b)) ` set (bm_trace_ids b)) \<union> mapped ix"
proof -
  have "set (om_keys (fold (\<lambda>b. insert_traces (bm_rel_path b) (bm_trace_ids b)) bs m)) =
     (\<Union>b\<in>set bs. (\<lambda>t. (t, bm_rel_path b)) ` set (bm_trace_ids b)) \<union> set (om_keys m)" for m
    by (induction bs arbitrary: m) (auto simp: map_simps)
  then show ?thesis by (simp add: mapped_def commit_flush_def)
qed

lemma watermark_commit_flush [simp]: "watermark (commit_flush n bs ix) = n"
  by (simp add: watermark_def commit_flush_def map_simps)

lemma indexed_commit_merge [simp]:
  "indexed (commit_merge out ins ix) = insert (bm_rel_path out) (indexed ix - fst ` set ins)"
  by (simp add: indexed_def all_block_paths_def commit_merge_def map_simps set_fold_remove)

lemma mapped_commit_merge [simp]:
  "mapped (commit_merge out ins ix) =
     (\<lambda>t. (t, bm_rel_path out)) ` set (bm_trace_ids out) \<union>
     (mapped ix - (\<Union>(rel, ts)\<in>set ins. (\<lambda>t. (t, rel)) ` set ts))"
proof -
  have "set (om_keys (fold (\<lambda>(rel, traces). remove_traces rel traces) ins m)) =
     set (om_keys m) - (\<Union>(rel, ts)\<in>set ins. (\<lambda>t. (t, rel)) ` set ts)" for m
    by (induction ins arbitrary: m) (auto simp: map_simps)
  then show ?thesis by (simp add: mapped_def commit_merge_def map_simps)
qed

lemma watermark_commit_merge [simp]: "watermark (commit_merge out ins ix) = watermark ix"
  by (simp add: watermark_def commit_merge_def)

lemma indexed_drop_blocks [simp]: "indexed (drop_blocks ps ix) = indexed ix - set ps"
  by (auto simp: indexed_def all_block_paths_def drop_blocks_def Let_def set_fold_remove)

lemma mapped_drop_blocks [simp]: "mapped (drop_blocks ps ix) = {m \<in> mapped ix. snd m \<notin> set ps}"
  by (auto simp: mapped_def drop_blocks_def Let_def set_fold_remove)

lemma watermark_drop_blocks [simp]: "watermark (drop_blocks ps ix) = watermark ix"
  by (simp add: watermark_def drop_blocks_def Let_def)

lemma block_paths_for_trace_iff: "p \<in> set (block_paths_for_trace t ix) \<longleftrightarrow> (t, p) \<in> mapped ix"
  by (force simp: block_paths_for_trace_def mapped_def)

lemma index_ok_commit_flush: "index_ok ix \<Longrightarrow> index_ok (commit_flush n bs ix)"
proof -
  have traces: "om_ok m \<Longrightarrow> om_ok (fold (\<lambda>b. insert_traces (bm_rel_path b) (bm_trace_ids b)) bs m)" for m
    by (induction bs arbitrary: m) auto
  assume "index_ok ix"
  then show ?thesis
    by (auto simp: index_ok_def) (auto simp: commit_flush_def traces om_ok_fold_insert)
qed

lemma index_ok_drop_blocks: "index_ok ix \<Longrightarrow> index_ok (drop_blocks ps ix)"
  by (auto simp: index_ok_def) (auto simp: drop_blocks_def Let_def om_ok_fold_remove)

lemma mapped_commit_merge_other:
  assumes "\<forall>(rel, ts)\<in>set ins. \<forall>t. (t, rel) \<in> mapped ix \<longrightarrow> t \<in> set ts"
    and "(t, p) \<in> mapped (commit_merge out ins ix)" and "p \<noteq> bm_rel_path out"
  shows "(t, p) \<in> mapped ix \<and> p \<notin> fst ` set ins"
proof -
  have m: "(t, p) \<in> mapped ix" "\<And>ts. (p, ts) \<in> set ins \<Longrightarrow> t \<notin> set ts"
    using assms(2,3) by auto
  have "p \<notin> fst ` set ins"
  proof
    assume "p \<in> fst ` set ins"
    then obtain ts where "(p, ts) \<in> set ins" by auto
    with assms(1) m show False by blast
  qed
  with m(1) show ?thesis by simp
qed

lemma mapped_commit_merge_keep:
  "(t, p) \<in> mapped ix \<Longrightarrow> p \<notin> fst ` set ins \<Longrightarrow> (t, p) \<in> mapped (commit_merge out ins ix)"
  by force

lemma index_ok_commit_merge:
  assumes "index_ok ix"
    and "\<forall>(rel, ts)\<in>set ins. \<forall>t. (t, rel) \<in> mapped ix \<longrightarrow> t \<in> set ts"
  shows "index_ok (commit_merge out ins ix)"
proof -
  have traces: "om_ok m \<Longrightarrow> om_ok (fold (\<lambda>(rel, traces). remove_traces rel traces) ins m)" for m
    by (induction ins arbitrary: m) auto
  have "p \<in> indexed (commit_merge out ins ix)" if "(t, p) \<in> mapped (commit_merge out ins ix)" for t p
  proof (cases "p = bm_rel_path out")
    case False
    with mapped_commit_merge_other [OF assms(2) that] assms(1) show ?thesis
      by (force simp: index_ok_def)
  qed simp
  then have "snd ` mapped (commit_merge out ins ix) \<subseteq> indexed (commit_merge out ins ix)"
    by (metis image_subsetI prod.collapse)
  moreover have "om_ok (ix_meta (commit_merge out ins ix)) \<and> om_ok (ix_blocks (commit_merge out ins ix))
      \<and> om_ok (ix_trace_blocks (commit_merge out ins ix))"
    using assms(1) by (simp add: index_ok_def commit_merge_def traces om_ok_fold_remove)
  ultimately show ?thesis by (simp add: index_ok_def)
qed

text \<open>
  A merge commit swaps the inputs for the output and nothing else: the committed blocks afterwards
  are the old ones without the inputs, plus the output; no trace points at a retired block any more;
  the mappings of every other block are as they were; and the watermark does not move.
\<close>

theorem commit_merge_swaps_exactly:
  assumes "index_ok ix" and "bm_rel_path out \<notin> fst ` set ins"
    and "\<forall>(rel, ts)\<in>set ins. \<forall>t. (t, rel) \<in> mapped ix \<longrightarrow> t \<in> set ts"
  shows "indexed (commit_merge out ins ix) = insert (bm_rel_path out) (indexed ix - fst ` set ins)
     \<and> (\<forall>rel\<in>fst ` set ins. \<forall>t. rel \<notin> set (block_paths_for_trace t (commit_merge out ins ix)))
     \<and> (\<forall>t rel. rel \<noteq> bm_rel_path out \<longrightarrow> rel \<notin> fst ` set ins \<longrightarrow>
          (rel \<in> set (block_paths_for_trace t (commit_merge out ins ix)) \<longleftrightarrow>
           rel \<in> set (block_paths_for_trace t ix)))
     \<and> watermark (commit_merge out ins ix) = watermark ix
     \<and> index_ok (commit_merge out ins ix)"
proof (intro conjI)
  show "\<forall>rel\<in>fst ` set ins. \<forall>t. rel \<notin> set (block_paths_for_trace t (commit_merge out ins ix))"
    using mapped_commit_merge_other [OF assms(3)] assms(2) by (metis block_paths_for_trace_iff)
  show "\<forall>t rel. rel \<noteq> bm_rel_path out \<longrightarrow> rel \<notin> fst ` set ins \<longrightarrow>
      (rel \<in> set (block_paths_for_trace t (commit_merge out ins ix)) \<longleftrightarrow>
       rel \<in> set (block_paths_for_trace t ix))"
    using mapped_commit_merge_other [OF assms(3)] mapped_commit_merge_keep
    by (metis block_paths_for_trace_iff)
qed (simp_all add: index_ok_commit_merge [OF assms(1,3)])

definition example_index :: index where
  "example_index = commit_flush 2
     [\<lparr>bm_rel_path = ''a'', bm_max_start_unix_nano = 5, bm_trace_ids = [''t'']\<rparr>,
      \<lparr>bm_rel_path = ''b'', bm_max_start_unix_nano = 6, bm_trace_ids = [''t'', ''u'']\<rparr>] index_open"

theorem commit_merge_swaps_exactly_witness:
  "indexed (commit_merge \<lparr>bm_rel_path = ''m'', bm_max_start_unix_nano = 6, bm_trace_ids = [''t'', ''u'']\<rparr>
       [(''a'', [''t'']), (''b'', [''t'', ''u''])] example_index) = {''m''}"
proof -
  have "index_ok example_index"
    by (simp add: example_index_def index_ok_commit_flush)
  moreover have "indexed example_index = {''a'', ''b''}"
    "mapped example_index = {(''t'', ''a''), (''t'', ''b''), (''u'', ''b'')}"
    by (auto simp: example_index_def)
  ultimately show ?thesis
    using commit_merge_swaps_exactly [of example_index
        "\<lparr>bm_rel_path = ''m'', bm_max_start_unix_nano = 6, bm_trace_ids = [''t'', ''u'']\<rparr>"
        "[(''a'', [''t'']), (''b'', [''t'', ''u''])]"] by auto
qed

end
