(* ===== verification/Cold.thy ===== *)
theory Cold
  imports Model Index Wal "HOL-Library.Monad_Syntax"
begin

text \<open>
  The cold tier of \<^verbatim>\<open>src/store/cold.rs\<close>: block provenance as it is written into and read back from
  a block's key-value metadata, the columnar batch a block holds, and the operations that write and
  read a block. Arrow columns are typed lists; \<open>serde_json\<close> (\<open>js\<close>, \<open>jp\<close>), \<open>chrono\<close>'s rendering
  of an hour and the crate version are parameters.
\<close>

section \<open>Provenance\<close>

datatype block_kind = Flush | Merged

definition block_kind_as_str :: "block_kind \<Rightarrow> str" where
  "block_kind_as_str k = (case k of Flush \<Rightarrow> ''flush'' | Merged \<Rightarrow> ''merged'')"

record provenance =
  pv_kind :: block_kind
  pv_seqno_lo :: u64
  pv_seqno_hi :: u64
  pv_merged_from :: "str list"
  pv_price_tables :: "str list"
  pv_declared :: bool

definition provenance_flush :: "u64 \<Rightarrow> provenance" where
  "provenance_flush seqno = \<lparr>pv_kind = Flush, pv_seqno_lo = seqno, pv_seqno_hi = seqno,
     pv_merged_from = [], pv_price_tables = [], pv_declared = True\<rparr>"

definition provenance_merged :: "u64 \<Rightarrow> u64 \<Rightarrow> str list \<Rightarrow> provenance" where
  "provenance_merged lo hi merged_from = \<lparr>pv_kind = Merged, pv_seqno_lo = lo, pv_seqno_hi = hi,
     pv_merged_from = merged_from, pv_price_tables = [], pv_declared = True\<rparr>"

definition with_price_tables :: "str list \<Rightarrow> provenance \<Rightarrow> provenance" where
  "with_price_tables versions p = p\<lparr>pv_price_tables := versions\<rparr>"

definition meta_format :: str where "meta_format = ''evald.format''"
definition meta_block_kind :: str where "meta_block_kind = ''evald.block_kind''"
definition meta_seqno_lo :: str where "meta_seqno_lo = ''evald.seqno_lo''"
definition meta_seqno_hi :: str where "meta_seqno_hi = ''evald.seqno_hi''"
definition meta_merged_from :: str where "meta_merged_from = ''evald.merged_from''"
definition meta_writer :: str where "meta_writer = ''evald.writer''"
definition meta_price_tables :: str where "meta_price_tables = ''evald.price_tables''"

lemmas meta_keys = meta_format_def meta_block_kind_def meta_seqno_lo_def meta_seqno_hi_def
  meta_merged_from_def meta_writer_def meta_price_tables_def

text \<open>
  \<open>format\<close> is \<open>FORMAT_VERSION\<close>, \<open>writer\<close> the crate version and \<open>js\<close> \<open>serde_json::to_string\<close>, whose
  error falls back to an empty array.
\<close>

definition key_value_metadata ::
  "nat \<Rightarrow> str \<Rightarrow> (str list \<Rightarrow> str option) \<Rightarrow> provenance \<Rightarrow> (str \<times> str option) list" where
  "key_value_metadata format writer js p =
     [(meta_format, Some (dec_of format)),
      (meta_block_kind, Some (block_kind_as_str (pv_kind p))),
      (meta_seqno_lo, Some (dec_of (pv_seqno_lo p))),
      (meta_seqno_hi, Some (dec_of (pv_seqno_hi p))),
      (meta_writer, Some writer)]
     @ (if pv_kind p = Merged
        then [(meta_merged_from, Some (case js (pv_merged_from p) of Some s \<Rightarrow> s | None \<Rightarrow> ''[]''))]
        else [])
     @ (if pv_price_tables p \<noteq> []
        then [(meta_price_tables, Some (case js (pv_price_tables p) of Some s \<Rightarrow> s | None \<Rightarrow> ''[]''))]
        else [])"

definition stem_range :: "str \<Rightarrow> block_kind \<times> u64 \<times> u64" where
  "stem_range stem =
     (let flush = (let seqno = (case parse_u64 (hd (split_on (CHR ''-'') stem)) of
                                  Some n \<Rightarrow> n | None \<Rightarrow> 0)
                   in (Flush, seqno, seqno))
      in case opt_or (strip_prefix ''merged-'' stem) (strip_prefix ''day-'' stem) of
           None \<Rightarrow> flush
         | Some rest \<Rightarrow>
             (case split_on (CHR ''-'') rest of
                a # b # _ \<Rightarrow>
                  (case (parse_u64 a, parse_u64 b) of
                     (Some lo, Some hi) \<Rightarrow> (Merged, lo, hi)
                   | _ \<Rightarrow> flush)
              | _ \<Rightarrow> flush))"

text \<open>The closure \<open>get\<close>: the first entry with the key, if it has a value.\<close>

definition kv_get :: "(str \<times> str option) list option \<Rightarrow> str \<Rightarrow> str option" where
  "kv_get kv key =
     (case kv of
        None \<Rightarrow> None
      | Some l \<Rightarrow> (case find (\<lambda>e. fst e = key) l of None \<Rightarrow> None | Some e \<Rightarrow> snd e))"

definition from_key_values ::
  "(str \<Rightarrow> str list option) \<Rightarrow> (str \<times> str option) list option \<Rightarrow> str \<Rightarrow> provenance" where
  "from_key_values jp kv stem =
     (let kind = (case kv_get kv meta_block_kind of
                    Some s \<Rightarrow> if s = ''merged'' then Some Merged
                              else if s = ''flush'' then Some Flush else None
                  | None \<Rightarrow> None);
          list = (\<lambda>key. case kv_get kv key of
                    None \<Rightarrow> []
                  | Some s \<Rightarrow> (case jp s of Some xs \<Rightarrow> xs | None \<Rightarrow> []));
          declared = do {
            k \<leftarrow> kind;
            lo \<leftarrow> kv_get kv meta_seqno_lo;
            hi \<leftarrow> kv_get kv meta_seqno_hi;
            lo' \<leftarrow> parse_u64 lo;
            hi' \<leftarrow> parse_u64 hi;
            Some (k, lo', hi')
          }
      in case declared of
           Some (k, lo, hi) \<Rightarrow>
             \<lparr>pv_kind = k, pv_seqno_lo = lo, pv_seqno_hi = hi,
              pv_merged_from = list meta_merged_from,
              pv_price_tables = list meta_price_tables, pv_declared = True\<rparr>
         | None \<Rightarrow>
             (case stem_range stem of
                (k, lo, hi) \<Rightarrow>
                  \<lparr>pv_kind = k, pv_seqno_lo = lo, pv_seqno_hi = hi, pv_merged_from = [],
                   pv_price_tables = [], pv_declared = False\<rparr>))"

section \<open>The columnar batch\<close>

datatype col_type = TUtf8 | TI32 | TU64 | TF64

datatype column =
    Utf8Col "str option list"
  | I32Col "i32 option list"
  | U64Col "u64 option list"
  | F64Col "f64 option list"

definition schema :: "(str \<times> col_type \<times> bool) list" where
  "schema =
     [(''dialect'', TUtf8, False), (''trace_id'', TUtf8, False), (''span_id'', TUtf8, False),
      (''parent_span_id'', TUtf8, True), (''name'', TUtf8, False), (''otel_kind'', TI32, False),
      (''oi_kind'', TUtf8, True), (''start_unix_nano'', TU64, False),
      (''end_unix_nano'', TU64, False), (''status_code'', TI32, False),
      (''status_message'', TUtf8, True), (''model'', TUtf8, True), (''provider'', TUtf8, True),
      (''prompt_tokens'', TU64, True), (''completion_tokens'', TU64, True),
      (''total_tokens'', TU64, True), (''cache_read_tokens'', TU64, True),
      (''cache_write_tokens'', TU64, True), (''reasoning_tokens'', TU64, True),
      (''cost_usd'', TF64, True), (''input_value'', TUtf8, True), (''output_value'', TUtf8, True),
      (''session_id'', TUtf8, True), (''user_id'', TUtf8, True), (''service_name'', TUtf8, True),
      (''scope_name'', TUtf8, True), (''scope_version'', TUtf8, True),
      (''raw_attributes_json'', TUtf8, False)]"

text \<open>\<open>RecordBatch::try_new\<close>: the column count, types, lengths and nullability match the schema.\<close>

definition col_len :: "column \<Rightarrow> nat" where
  "col_len c = (case c of Utf8Col xs \<Rightarrow> length xs | I32Col xs \<Rightarrow> length xs
     | U64Col xs \<Rightarrow> length xs | F64Col xs \<Rightarrow> length xs)"

definition col_fits :: "str \<times> col_type \<times> bool \<Rightarrow> column \<Rightarrow> bool" where
  "col_fits f c =
     (case (fst (snd f), c) of
        (TUtf8, Utf8Col xs) \<Rightarrow> snd (snd f) \<or> None \<notin> set xs
      | (TI32, I32Col xs) \<Rightarrow> snd (snd f) \<or> None \<notin> set xs
      | (TU64, U64Col xs) \<Rightarrow> snd (snd f) \<or> None \<notin> set xs
      | (TF64, F64Col xs) \<Rightarrow> snd (snd f) \<or> None \<notin> set xs
      | _ \<Rightarrow> False)"

definition try_new :: "(str \<times> col_type \<times> bool) list \<Rightarrow> column list \<Rightarrow> column list option" where
  "try_new sch cols =
     (if list_all2 col_fits sch cols \<and> list_all (\<lambda>c. col_len c = col_len (hd cols)) cols
      then Some cols else None)"

definition build_batch ::
  "((str, json) omap \<Rightarrow> str option) \<Rightarrow> normalized_span list \<Rightarrow> column list option" where
  "build_batch js spans = do {
     raws \<leftarrow> those (map (\<lambda>s. js (ns_raw_attributes s)) spans);
     try_new schema
       [Utf8Col (map (\<lambda>s. Some (dialect_as_str (ns_dialect s))) spans),
        Utf8Col (map (\<lambda>s. Some (ns_trace_id s)) spans),
        Utf8Col (map (\<lambda>s. Some (ns_span_id s)) spans),
        Utf8Col (map ns_parent_span_id spans),
        Utf8Col (map (\<lambda>s. Some (ns_name s)) spans),
        I32Col (map (\<lambda>s. Some (ns_otel_kind s)) spans),
        Utf8Col (map ns_oi_kind spans),
        U64Col (map (\<lambda>s. Some (ns_start_unix_nano s)) spans),
        U64Col (map (\<lambda>s. Some (ns_end_unix_nano s)) spans),
        I32Col (map (\<lambda>s. Some (ns_status_code s)) spans),
        Utf8Col (map ns_status_message spans),
        Utf8Col (map ns_model spans),
        Utf8Col (map ns_provider spans),
        U64Col (map (\<lambda>s. tk_prompt (ns_tokens s)) spans),
        U64Col (map (\<lambda>s. tk_completion (ns_tokens s)) spans),
        U64Col (map (\<lambda>s. tk_total (ns_tokens s)) spans),
        U64Col (map (\<lambda>s. tk_cache_read (ns_tokens s)) spans),
        U64Col (map (\<lambda>s. tk_cache_write (ns_tokens s)) spans),
        U64Col (map (\<lambda>s. tk_reasoning (ns_tokens s)) spans),
        F64Col (map ns_cost_usd spans),
        Utf8Col (map ns_input_value spans),
        Utf8Col (map ns_output_value spans),
        Utf8Col (map ns_session_id spans),
        Utf8Col (map ns_user_id spans),
        Utf8Col (map ns_service_name spans),
        Utf8Col (map ns_scope_name spans),
        Utf8Col (map ns_scope_version spans),
        Utf8Col (map Some raws)]
   }"

definition str_col :: "column list \<Rightarrow> nat \<Rightarrow> str option list option" where
  "str_col batch idx = (case batch ! idx of Utf8Col xs \<Rightarrow> Some xs | _ \<Rightarrow> None)"

definition u64_col :: "column list \<Rightarrow> nat \<Rightarrow> u64 option list option" where
  "u64_col batch idx = (case batch ! idx of U64Col xs \<Rightarrow> Some xs | _ \<Rightarrow> None)"

definition i32_col :: "column list \<Rightarrow> nat \<Rightarrow> i32 option list option" where
  "i32_col batch idx = (case batch ! idx of I32Col xs \<Rightarrow> Some xs | _ \<Rightarrow> None)"

definition f64_col :: "column list \<Rightarrow> nat \<Rightarrow> f64 option list option" where
  "f64_col batch idx = (case batch ! idx of F64Col xs \<Rightarrow> Some xs | _ \<Rightarrow> None)"

text \<open>\<open>value(i)\<close> of a column; a null slot reads as the type's zero.\<close>

definition str_val :: "str option list \<Rightarrow> nat \<Rightarrow> str" where
  "str_val xs i = (case xs ! i of Some v \<Rightarrow> v | None \<Rightarrow> [])"

definition u64_val :: "u64 option list \<Rightarrow> nat \<Rightarrow> u64" where
  "u64_val xs i = (case xs ! i of Some v \<Rightarrow> v | None \<Rightarrow> 0)"

definition i32_val :: "i32 option list \<Rightarrow> nat \<Rightarrow> i32" where
  "i32_val xs i = (case xs ! i of Some v \<Rightarrow> v | None \<Rightarrow> 0)"

text \<open>\<open>opt_str\<close>, \<open>opt_u64\<close> and \<open>opt_f64\<close>: the slot itself, null as \<open>None\<close>.\<close>

definition opt_at :: "'a option list \<Rightarrow> nat \<Rightarrow> 'a option" where
  "opt_at xs i = xs ! i"

definition decode_batch ::
  "(str \<Rightarrow> (str, json) omap option) \<Rightarrow> column list \<Rightarrow> normalized_span list option" where
  "decode_batch jp batch = do {
     dialect \<leftarrow> str_col batch 0;
     trace_id \<leftarrow> str_col batch 1;
     span_id \<leftarrow> str_col batch 2;
     parent_span_id \<leftarrow> str_col batch 3;
     nm \<leftarrow> str_col batch 4;
     otel_kind \<leftarrow> i32_col batch 5;
     oi_kind \<leftarrow> str_col batch 6;
     start \<leftarrow> u64_col batch 7;
     fin \<leftarrow> u64_col batch 8;
     status_code \<leftarrow> i32_col batch 9;
     status_message \<leftarrow> str_col batch 10;
     model \<leftarrow> str_col batch 11;
     provider \<leftarrow> str_col batch 12;
     prompt \<leftarrow> u64_col batch 13;
     completion \<leftarrow> u64_col batch 14;
     total \<leftarrow> u64_col batch 15;
     cache_read \<leftarrow> u64_col batch 16;
     cache_write \<leftarrow> u64_col batch 17;
     reasoning \<leftarrow> u64_col batch 18;
     cost \<leftarrow> f64_col batch 19;
     input_value \<leftarrow> str_col batch 20;
     output_value \<leftarrow> str_col batch 21;
     session_id \<leftarrow> str_col batch 22;
     user_id \<leftarrow> str_col batch 23;
     service_name \<leftarrow> str_col batch 24;
     scope_name \<leftarrow> str_col batch 25;
     scope_version \<leftarrow> str_col batch 26;
     raw_attributes_json \<leftarrow> str_col batch 27;
     those (map (\<lambda>i. map_option (\<lambda>raw_attributes.
       \<lparr>ns_dialect = dialect_from_str_lenient (str_val dialect i),
        ns_trace_id = str_val trace_id i,
        ns_span_id = str_val span_id i,
        ns_parent_span_id = opt_at parent_span_id i,
        ns_name = str_val nm i,
        ns_otel_kind = i32_val otel_kind i,
        ns_oi_kind = opt_at oi_kind i,
        ns_start_unix_nano = u64_val start i,
        ns_end_unix_nano = u64_val fin i,
        ns_status_code = i32_val status_code i,
        ns_status_message = opt_at status_message i,
        ns_model = opt_at model i,
        ns_provider = opt_at provider i,
        ns_tokens = \<lparr>tk_prompt = opt_at prompt i, tk_completion = opt_at completion i,
          tk_total = opt_at total i, tk_cache_read = opt_at cache_read i,
          tk_cache_write = opt_at cache_write i, tk_reasoning = opt_at reasoning i\<rparr>,
        ns_cost_usd = opt_at cost i,
        ns_input_value = opt_at input_value i,
        ns_output_value = opt_at output_value i,
        ns_session_id = opt_at session_id i,
        ns_user_id = opt_at user_id i,
        ns_service_name = opt_at service_name i,
        ns_scope_name = opt_at scope_name i,
        ns_scope_version = opt_at scope_version i,
        ns_raw_attributes = raw_attributes\<rparr>) (jp (str_val raw_attributes_json i)))
       [0..<col_len (hd batch)])
   }"

section \<open>Blocks on disk\<close>

text \<open>
  What the code takes from libraries: the two \<open>serde_json\<close> codecs, \<open>chrono\<close>'s rendering of an hour
  (\<open>%Y/%m/%d/%H\<close> of the seconds), the constants of the build, and the length of a Parquet file.
\<close>

record codec =
  cx_js_list :: "str list \<Rightarrow> str option"
  cx_jp_list :: "str \<Rightarrow> str list option"
  cx_js_map :: "(str, json) omap \<Rightarrow> str option"
  cx_jp_map :: "str \<Rightarrow> (str, json) omap option"
  cx_hour :: "nat \<Rightarrow> str"
  cx_format :: nat
  cx_version :: str
  cx_file_len :: "column list list \<Rightarrow> u64"

text \<open>A Parquet file: its key-value metadata, its batches, its modification time.\<close>

record block_file =
  bf_kv :: "(str \<times> str option) list option"
  bf_batches :: "column list list"
  bf_mtime :: nat

type_synonym files = "(str, block_file) omap"

definition partition_of :: "codec \<Rightarrow> u64 \<Rightarrow> str" where
  "partition_of cx start_unix_nano = cx_hour cx (start_unix_nano div 1000000000)"

text \<open>
  How far the calls into the file system get: \<open>StageTmp\<close> fails after the temporary file exists,
  \<open>StagePublished\<close> after the rename.
\<close>

datatype write_stage = StageOk | StageTmp | StagePublished

definition parquet_path :: "str \<Rightarrow> str \<Rightarrow> str" where
  "parquet_path dir stem = dir @ ''/'' @ stem @ ''.parquet''"

definition tmp_path :: "str \<Rightarrow> str \<Rightarrow> str" where
  "tmp_path dir stem = dir @ ''/'' @ stem @ ''.parquet.tmp''"

definition max_start :: "normalized_span list \<Rightarrow> u64" where
  "max_start spans = foldl max 0 (map ns_start_unix_nano spans)"

definition trace_set :: "str list \<Rightarrow> str list" where
  "trace_set ts = om_keys (fold (\<lambda>t. om_insert t ()) ts om_empty)"

definition write_block ::
  "codec \<Rightarrow> write_stage \<Rightarrow> nat \<Rightarrow> str \<Rightarrow> str \<Rightarrow> str \<Rightarrow> normalized_span list \<Rightarrow> provenance \<Rightarrow> files
     \<Rightarrow> (io_error + block_meta) \<times> files" where
  "write_block cx stage now blocks_subdir part stem spans prov fs =
     (let rel_dir = blocks_subdir @ ''/'' @ part;
          rel_path = parquet_path rel_dir stem;
          tmp = tmp_path rel_dir stem
      in case build_batch (cx_js_map cx) spans of
           None \<Rightarrow> (Inl OtherIo, fs)
         | Some batch \<Rightarrow>
             let file = \<lparr>bf_kv = Some (key_value_metadata (cx_format cx) (cx_version cx) (cx_js_list cx) prov),
                         bf_batches = [batch], bf_mtime = now\<rparr>;
                 fs1 = om_insert tmp file fs;
                 fs2 = om_insert rel_path file (om_remove tmp fs1)
             in case stage of
                  StageTmp \<Rightarrow> (Inl OtherIo, fs1)
                | StagePublished \<Rightarrow> (Inl OtherIo, fs2)
                | StageOk \<Rightarrow>
                    (Inr \<lparr>bm_rel_path = rel_path, bm_max_start_unix_nano = max_start spans,
                          bm_trace_ids = trace_set (map ns_trace_id spans)\<rparr>, fs2))"

definition batches_spans :: "codec \<Rightarrow> column list list \<Rightarrow> normalized_span list option" where
  "batches_spans cx bs = map_option concat (those (map (decode_batch (cx_jp_map cx)) bs))"

definition read_block :: "codec \<Rightarrow> files \<Rightarrow> str \<Rightarrow> io_error + normalized_span list" where
  "read_block cx fs path =
     (case om_get fs path of
        None \<Rightarrow> Inl NotFound
      | Some f \<Rightarrow> (case batches_spans cx (bf_batches f) of None \<Rightarrow> Inl OtherIo | Some spans \<Rightarrow> Inr spans))"

text \<open>\<open>Path::file_stem\<close>: the last component, up to its last dot.\<close>

definition file_stem :: "str \<Rightarrow> str" where
  "file_stem path =
     (let name = last (split_on (CHR ''/'') path);
          parts = split_on (CHR ''.'') name
      in if length parts < 2 \<or> butlast parts = [[]] then name else join_with (CHR ''.'') (butlast parts))"

definition batch_rows :: "column list \<Rightarrow> nat" where
  "batch_rows b = col_len (hd b)"

definition read_provenance :: "codec \<Rightarrow> files \<Rightarrow> str \<Rightarrow> io_error + provenance \<times> u64" where
  "read_provenance cx fs path =
     (case om_get fs path of
        None \<Rightarrow> Inl NotFound
      | Some f \<Rightarrow> Inr (from_key_values (cx_jp_list cx) (bf_kv f) (file_stem path),
                        sum_list (map batch_rows (bf_batches f))))"

section \<open>A batch, row by row\<close>

definition slots :: "column \<Rightarrow> str option list" where
  "slots c = (case c of Utf8Col xs \<Rightarrow> xs | _ \<Rightarrow> [])"

definition u64_slots :: "column \<Rightarrow> u64 option list" where
  "u64_slots c = (case c of U64Col xs \<Rightarrow> xs | _ \<Rightarrow> [])"

definition i32_slots :: "column \<Rightarrow> i32 option list" where
  "i32_slots c = (case c of I32Col xs \<Rightarrow> xs | _ \<Rightarrow> [])"

definition f64_slots :: "column \<Rightarrow> f64 option list" where
  "f64_slots c = (case c of F64Col xs \<Rightarrow> xs | _ \<Rightarrow> [])"

definition decode_row :: "(str \<Rightarrow> (str, json) omap option) \<Rightarrow> column list \<Rightarrow> nat \<Rightarrow> normalized_span option" where
  "decode_row jp b i = map_option (\<lambda>raw.
     \<lparr>ns_dialect = dialect_from_str_lenient (str_val (slots (b ! 0)) i),
      ns_trace_id = str_val (slots (b ! 1)) i,
      ns_span_id = str_val (slots (b ! 2)) i,
      ns_parent_span_id = slots (b ! 3) ! i,
      ns_name = str_val (slots (b ! 4)) i,
      ns_otel_kind = i32_val (i32_slots (b ! 5)) i,
      ns_oi_kind = slots (b ! 6) ! i,
      ns_start_unix_nano = u64_val (u64_slots (b ! 7)) i,
      ns_end_unix_nano = u64_val (u64_slots (b ! 8)) i,
      ns_status_code = i32_val (i32_slots (b ! 9)) i,
      ns_status_message = slots (b ! 10) ! i,
      ns_model = slots (b ! 11) ! i,
      ns_provider = slots (b ! 12) ! i,
      ns_tokens = \<lparr>tk_prompt = u64_slots (b ! 13) ! i, tk_completion = u64_slots (b ! 14) ! i,
        tk_total = u64_slots (b ! 15) ! i, tk_cache_read = u64_slots (b ! 16) ! i,
        tk_cache_write = u64_slots (b ! 17) ! i, tk_reasoning = u64_slots (b ! 18) ! i\<rparr>,
      ns_cost_usd = f64_slots (b ! 19) ! i,
      ns_input_value = slots (b ! 20) ! i,
      ns_output_value = slots (b ! 21) ! i,
      ns_session_id = slots (b ! 22) ! i,
      ns_user_id = slots (b ! 23) ! i,
      ns_service_name = slots (b ! 24) ! i,
      ns_scope_name = slots (b ! 25) ! i,
      ns_scope_version = slots (b ! 26) ! i,
      ns_raw_attributes = raw\<rparr>) (jp (str_val (slots (b ! 27)) i))"

lemma decode_row_fields:
  assumes "decode_row jp b i = Some s"
  shows "ns_trace_id s = str_val (slots (b ! 1)) i" "ns_span_id s = str_val (slots (b ! 2)) i"
    "ns_start_unix_nano s = u64_val (u64_slots (b ! 7)) i"
  using assms by (auto simp: decode_row_def)

text \<open>A batch that \<open>try_new\<close> accepts for the schema.\<close>

definition batch_ok :: "column list \<Rightarrow> bool" where
  "batch_ok b \<longleftrightarrow> try_new schema b = Some b"

lemma length_schema [simp]: "length schema = 28"
  by (simp add: schema_def)

lemma batch_okD:
  assumes "batch_ok b"
  shows "length b = 28" "i < 28 \<Longrightarrow> col_fits (schema ! i) (b ! i)" "c \<in> set b \<Longrightarrow> col_len c = batch_rows b"
  using assms
  by (auto simp: batch_ok_def try_new_def list_all2_conv_all_nth list_all_iff batch_rows_def split: if_splits)

lemma col_fits_cases:
  "col_fits f c \<Longrightarrow> fst (snd f) = TUtf8 \<Longrightarrow> c = Utf8Col (slots c)"
  "col_fits f c \<Longrightarrow> fst (snd f) = TU64 \<Longrightarrow> c = U64Col (u64_slots c)"
  "col_fits f c \<Longrightarrow> fst (snd f) = TI32 \<Longrightarrow> c = I32Col (i32_slots c)"
  "col_fits f c \<Longrightarrow> fst (snd f) = TF64 \<Longrightarrow> c = F64Col (f64_slots c)"
  by (auto simp: col_fits_def slots_def u64_slots_def i32_slots_def f64_slots_def
      split: column.splits col_type.splits)

lemma col_of_ok:
  assumes "batch_ok b" and "i < 28"
  shows "fst (snd (schema ! i)) = TUtf8 \<Longrightarrow> b ! i = Utf8Col (slots (b ! i))"
    "fst (snd (schema ! i)) = TU64 \<Longrightarrow> b ! i = U64Col (u64_slots (b ! i))"
    "fst (snd (schema ! i)) = TI32 \<Longrightarrow> b ! i = I32Col (i32_slots (b ! i))"
    "fst (snd (schema ! i)) = TF64 \<Longrightarrow> b ! i = F64Col (f64_slots (b ! i))"
  using batch_okD(2) [OF assms] col_fits_cases by blast+

lemma col_ok:
  assumes "batch_ok b" and "i < 28"
  shows "fst (snd (schema ! i)) = TUtf8 \<Longrightarrow> str_col b i = Some (slots (b ! i))"
    "fst (snd (schema ! i)) = TU64 \<Longrightarrow> u64_col b i = Some (u64_slots (b ! i))"
    "fst (snd (schema ! i)) = TI32 \<Longrightarrow> i32_col b i = Some (i32_slots (b ! i))"
    "fst (snd (schema ! i)) = TF64 \<Longrightarrow> f64_col b i = Some (f64_slots (b ! i))"
  using col_of_ok [OF assms]
  by (auto simp: str_col_def u64_col_def i32_col_def f64_col_def split: column.splits)

lemma decode_batch_rows:
  assumes "batch_ok b"
  shows "decode_batch jp b = those (map (decode_row jp b) [0..<batch_rows b])"
proof -
  note c = col_ok [OF assms]
  have cols: "str_col b 0 = Some (slots (b ! 0))" "str_col b 1 = Some (slots (b ! 1))"
    "str_col b 2 = Some (slots (b ! 2))" "str_col b 3 = Some (slots (b ! 3))"
    "str_col b 4 = Some (slots (b ! 4))" "i32_col b 5 = Some (i32_slots (b ! 5))"
    "str_col b 6 = Some (slots (b ! 6))" "u64_col b 7 = Some (u64_slots (b ! 7))"
    "u64_col b 8 = Some (u64_slots (b ! 8))" "i32_col b 9 = Some (i32_slots (b ! 9))"
    "str_col b 10 = Some (slots (b ! 10))" "str_col b 11 = Some (slots (b ! 11))"
    "str_col b 12 = Some (slots (b ! 12))" "u64_col b 13 = Some (u64_slots (b ! 13))"
    "u64_col b 14 = Some (u64_slots (b ! 14))" "u64_col b 15 = Some (u64_slots (b ! 15))"
    "u64_col b 16 = Some (u64_slots (b ! 16))" "u64_col b 17 = Some (u64_slots (b ! 17))"
    "u64_col b 18 = Some (u64_slots (b ! 18))" "f64_col b 19 = Some (f64_slots (b ! 19))"
    "str_col b 20 = Some (slots (b ! 20))" "str_col b 21 = Some (slots (b ! 21))"
    "str_col b 22 = Some (slots (b ! 22))" "str_col b 23 = Some (slots (b ! 23))"
    "str_col b 24 = Some (slots (b ! 24))" "str_col b 25 = Some (slots (b ! 25))"
    "str_col b 26 = Some (slots (b ! 26))" "str_col b 27 = Some (slots (b ! 27))"
    by (rule c; simp add: schema_def)+
  show ?thesis
    by (simp add: decode_batch_def cols decode_row_def [abs_def] opt_at_def batch_rows_def
        del: One_nat_def)
qed

section \<open>Keeping some rows of a batch\<close>

text \<open>\<open>filter_record_batch\<close>: every column keeps the slots whose flag is set.\<close>

definition keep_flagged :: "bool list \<Rightarrow> 'a list \<Rightarrow> 'a list" where
  "keep_flagged keep xs = map fst (filter snd (zip xs keep))"

definition filter_column :: "bool list \<Rightarrow> column \<Rightarrow> column" where
  "filter_column keep c = (case c of
     Utf8Col xs \<Rightarrow> Utf8Col (keep_flagged keep xs) | I32Col xs \<Rightarrow> I32Col (keep_flagged keep xs)
   | U64Col xs \<Rightarrow> U64Col (keep_flagged keep xs) | F64Col xs \<Rightarrow> F64Col (keep_flagged keep xs))"

definition filter_record_batch :: "bool list \<Rightarrow> column list \<Rightarrow> column list" where
  "filter_record_batch keep b = map (filter_column keep) b"

definition kept_rows :: "bool list \<Rightarrow> nat list" where
  "kept_rows keep = filter ((!) keep) [0..<length keep]"

lemma keep_flagged_simps [simp]:
  "keep_flagged [] xs = []" "keep_flagged keep [] = []"
  "keep_flagged (k # keep) (x # xs) = (if k then x # keep_flagged keep xs else keep_flagged keep xs)"
  by (simp_all add: keep_flagged_def)

lemma kept_rows_Cons: "kept_rows (k # keep) = (if k then [0] else []) @ map Suc (kept_rows keep)"
proof -
  have "[0..<length (k # keep)] = 0 # map Suc [0..<length keep]"
    unfolding list.size map_Suc_upt by (simp add: upt_conv_Cons del: upt_Suc)
  then show ?thesis
    unfolding kept_rows_def by (simp add: filter_map comp_def del: upt_Suc)
qed

lemma keep_flagged_rows: "length xs = length keep \<Longrightarrow> keep_flagged keep xs = map ((!) xs) (kept_rows keep)"
proof (induction keep arbitrary: xs)
  case Nil
  then show ?case by (simp add: kept_rows_def)
next
  case (Cons k keep)
  then obtain x ys where "xs = x # ys" by (cases xs) auto
  with Cons show ?case by (simp add: kept_rows_Cons)
qed

lemma kept_rows_lt: "i \<in> set (kept_rows keep) \<Longrightarrow> i < length keep"
  by (auto simp: kept_rows_def)

lemma slots_filter [simp]:
  "slots (filter_column keep c) = keep_flagged keep (slots c)"
  "u64_slots (filter_column keep c) = keep_flagged keep (u64_slots c)"
  "i32_slots (filter_column keep c) = keep_flagged keep (i32_slots c)"
  "f64_slots (filter_column keep c) = keep_flagged keep (f64_slots c)"
  by (simp_all add: slots_def u64_slots_def i32_slots_def f64_slots_def filter_column_def split: column.splits)

lemma set_keep_flagged: "set (keep_flagged keep xs) \<subseteq> set xs"
  by (auto simp: keep_flagged_def dest: set_zip_leftD)

lemma keep_flagged_notin: "x \<notin> set xs \<Longrightarrow> x \<notin> set (keep_flagged keep xs)"
  using set_keep_flagged [of keep xs] by (rule contra_subsetD)

lemma col_fits_filter: "col_fits f c \<Longrightarrow> col_fits f (filter_column keep c)"
  by (cases f; cases c; cases "fst (snd f)")
    (auto simp: col_fits_def filter_column_def keep_flagged_notin)

lemma col_len_filter:
  "col_len c = length keep \<Longrightarrow> col_len (filter_column keep c) = length (kept_rows keep)"
  by (auto simp: col_len_def filter_column_def keep_flagged_rows split: column.splits)

lemma filter_record_batch_ok:
  assumes "batch_ok b" and "length keep = batch_rows b"
  shows "batch_ok (filter_record_batch keep b)" "batch_rows (filter_record_batch keep b) = length (kept_rows keep)"
proof -
  have len: "length b = 28" and ne: "b \<noteq> []"
    using batch_okD(1) [OF assms(1)] by auto
  have cl: "col_len c = length keep" if "c \<in> set b" for c
    using batch_okD(3) [OF assms(1) that] assms(2) by simp
  show rows: "batch_rows (filter_record_batch keep b) = length (kept_rows keep)"
    using ne cl by (cases b) (auto simp: batch_rows_def filter_record_batch_def col_len_filter)
  have "list_all2 col_fits schema (filter_record_batch keep b)"
    using batch_okD(2) [OF assms(1)] len
    by (auto simp: list_all2_conv_all_nth filter_record_batch_def col_fits_filter)
  moreover have "list_all (\<lambda>c. col_len c = col_len (hd (filter_record_batch keep b))) (filter_record_batch keep b)"
    using cl rows by (auto simp: list_all_iff batch_rows_def filter_record_batch_def col_len_filter)
  ultimately show "batch_ok (filter_record_batch keep b)"
    by (simp add: batch_ok_def try_new_def)
qed

text \<open>A column of a well-formed batch has one slot for each row.\<close>

lemma slot_lengths:
  assumes "batch_ok b" and "i < 28"
  shows "fst (snd (schema ! i)) = TUtf8 \<Longrightarrow> length (slots (b ! i)) = batch_rows b"
    "fst (snd (schema ! i)) = TU64 \<Longrightarrow> length (u64_slots (b ! i)) = batch_rows b"
    "fst (snd (schema ! i)) = TI32 \<Longrightarrow> length (i32_slots (b ! i)) = batch_rows b"
    "fst (snd (schema ! i)) = TF64 \<Longrightarrow> length (f64_slots (b ! i)) = batch_rows b"
proof -
  have "col_len (b ! i) = batch_rows b"
    using batch_okD(1,3) [OF assms(1)] assms(2) nth_mem [of i b] by simp
  then show "fst (snd (schema ! i)) = TUtf8 \<Longrightarrow> length (slots (b ! i)) = batch_rows b"
    "fst (snd (schema ! i)) = TU64 \<Longrightarrow> length (u64_slots (b ! i)) = batch_rows b"
    "fst (snd (schema ! i)) = TI32 \<Longrightarrow> length (i32_slots (b ! i)) = batch_rows b"
    "fst (snd (schema ! i)) = TF64 \<Longrightarrow> length (f64_slots (b ! i)) = batch_rows b"
    using col_of_ok [OF assms] by (simp_all add: col_len_def split: column.splits)
qed

lemma decode_row_filter:
  assumes "batch_ok b" and "length keep = batch_rows b" and "j < length (kept_rows keep)"
  shows "decode_row jp (filter_record_batch keep b) j = decode_row jp b (kept_rows keep ! j)"
proof -
  have at: "filter_record_batch keep b ! i = filter_column keep (b ! i)" if "i < 28" for i
    using that batch_okD(1) [OF assms(1)] by (simp add: filter_record_batch_def)
  have nth: "keep_flagged keep xs ! j = xs ! (kept_rows keep ! j)" if "length xs = batch_rows b" for xs :: "'x list"
    using that assms(2,3) by (simp add: keep_flagged_rows)
  note l = slot_lengths [OF assms(1)]
  have ls: "length (slots (b ! i)) = batch_rows b"
    if "i \<in> {0,1,2,3,4,6,10,11,12,20,21,22,23,24,25,26,27}" for i
    using that by (intro l(1)) (auto simp: schema_def)
  have lu: "length (u64_slots (b ! i)) = batch_rows b" if "i \<in> {7,8,13,14,15,16,17,18}" for i
    using that by (intro l(2)) (auto simp: schema_def)
  have li: "length (i32_slots (b ! i)) = batch_rows b" if "i \<in> {5,9}" for i
    using that by (intro l(3)) (auto simp: schema_def)
  have lf: "length (f64_slots (b ! 19)) = batch_rows b"
    by (intro l(4)) (auto simp: schema_def)
  show ?thesis
    by (simp add: decode_row_def at str_val_def u64_val_def i32_val_def
        nth [OF ls] nth [OF lu] nth [OF li] nth [OF lf] del: One_nat_def)
qed

lemma those_map_some: "(\<And>x. x \<in> set xs \<Longrightarrow> f x = Some (g x)) \<Longrightarrow> those (map f xs) = Some (map g xs)"
  by (induction xs) auto

lemma those_map_nth: "those (map f [0..<n]) = Some ys \<Longrightarrow> length ys = n \<and> (\<forall>i<n. f i = Some (ys ! i))"
proof (induction n arbitrary: ys)
  case (Suc n)
  have those_snoc: "those (zs @ [z]) = (case those zs of None \<Rightarrow> None | Some ws \<Rightarrow> map_option (\<lambda>w. ws @ [w]) z)"
    for zs :: "'x option list" and z
    by (induction zs) (auto simp: option.map_comp comp_def split: option.splits)
  have e: "map f [0..<Suc n] = map f [0..<n] @ [f n]" by simp
  obtain ws w where "those (map f [0..<n]) = Some ws" "f n = Some w" "ys = ws @ [w]"
    using Suc.prems unfolding e those_snoc by (auto split: option.splits)
  with Suc.IH [of ws] show ?case by (auto simp: nth_append less_Suc_eq)
qed simp

text \<open>Decoding commutes with dropping rows.\<close>

lemma decode_batch_filter:
  assumes "batch_ok b" and "length keep = batch_rows b" and "decode_batch jp b = Some spans"
  shows "decode_batch jp (filter_record_batch keep b) = Some (keep_flagged keep spans)"
proof -
  have d: "length spans = batch_rows b" "\<forall>i<batch_rows b. decode_row jp b i = Some (spans ! i)"
    using assms(3) those_map_nth unfolding decode_batch_rows [OF assms(1)] by blast+
  let ?n = "length (kept_rows keep)"
  have "decode_row jp (filter_record_batch keep b) j = Some (spans ! (kept_rows keep ! j))" if "j < ?n" for j
    using decode_row_filter [OF assms(1,2) that] d(2) kept_rows_lt [of "kept_rows keep ! j" keep] that assms(2)
    by simp
  then have "those (map (decode_row jp (filter_record_batch keep b)) [0..<?n]) =
      Some (map (\<lambda>j. spans ! (kept_rows keep ! j)) [0..<?n])"
    by (intro those_map_some) simp
  also have "map (\<lambda>j. spans ! (kept_rows keep ! j)) [0..<?n] = keep_flagged keep spans"
    unfolding keep_flagged_rows [OF trans [OF d(1) assms(2) [symmetric]]]
    by (rule nth_equalityI) simp_all
  finally show ?thesis
    using filter_record_batch_ok [OF assms(1,2)] by (simp add: decode_batch_rows)
qed

section \<open>Round trips\<close>

text \<open>
  A span whose attributes \<open>serde_json\<close> gives back. The rest of a span needs no assumption: its
  columns are typed.
\<close>

definition span_fits :: "codec \<Rightarrow> normalized_span \<Rightarrow> bool" where
  "span_fits cx s \<longleftrightarrow>
     (case cx_js_map cx (ns_raw_attributes s) of
        None \<Rightarrow> False | Some j \<Rightarrow> cx_jp_map cx j = Some (ns_raw_attributes s))"

lemma span_fits_js:
  "span_fits cx s \<Longrightarrow> \<exists>j. cx_js_map cx (ns_raw_attributes s) = Some j \<and> cx_jp_map cx j = Some (ns_raw_attributes s)"
  by (auto simp: span_fits_def split: option.splits)

definition raw_json :: "codec \<Rightarrow> normalized_span \<Rightarrow> str" where
  "raw_json cx s = (case cx_js_map cx (ns_raw_attributes s) of None \<Rightarrow> [] | Some j \<Rightarrow> j)"

definition columns_of :: "codec \<Rightarrow> normalized_span list \<Rightarrow> column list" where
  "columns_of cx spans =
     [Utf8Col (map (\<lambda>s. Some (dialect_as_str (ns_dialect s))) spans),
      Utf8Col (map (\<lambda>s. Some (ns_trace_id s)) spans),
      Utf8Col (map (\<lambda>s. Some (ns_span_id s)) spans),
      Utf8Col (map ns_parent_span_id spans),
      Utf8Col (map (\<lambda>s. Some (ns_name s)) spans),
      I32Col (map (\<lambda>s. Some (ns_otel_kind s)) spans),
      Utf8Col (map ns_oi_kind spans),
      U64Col (map (\<lambda>s. Some (ns_start_unix_nano s)) spans),
      U64Col (map (\<lambda>s. Some (ns_end_unix_nano s)) spans),
      I32Col (map (\<lambda>s. Some (ns_status_code s)) spans),
      Utf8Col (map ns_status_message spans),
      Utf8Col (map ns_model spans),
      Utf8Col (map ns_provider spans),
      U64Col (map (\<lambda>s. tk_prompt (ns_tokens s)) spans),
      U64Col (map (\<lambda>s. tk_completion (ns_tokens s)) spans),
      U64Col (map (\<lambda>s. tk_total (ns_tokens s)) spans),
      U64Col (map (\<lambda>s. tk_cache_read (ns_tokens s)) spans),
      U64Col (map (\<lambda>s. tk_cache_write (ns_tokens s)) spans),
      U64Col (map (\<lambda>s. tk_reasoning (ns_tokens s)) spans),
      F64Col (map ns_cost_usd spans),
      Utf8Col (map ns_input_value spans),
      Utf8Col (map ns_output_value spans),
      Utf8Col (map ns_session_id spans),
      Utf8Col (map ns_user_id spans),
      Utf8Col (map ns_service_name spans),
      Utf8Col (map ns_scope_name spans),
      Utf8Col (map ns_scope_version spans),
      Utf8Col (map (\<lambda>s. Some (raw_json cx s)) spans)]"

lemma try_new_columns: "try_new schema (columns_of cx spans) = Some (columns_of cx spans)"
proof -
  have "list_all2 col_fits schema (columns_of cx spans)"
    by (simp add: schema_def columns_of_def col_fits_def image_iff)
  moreover have "list_all (\<lambda>c. col_len c = length spans) (columns_of cx spans)"
    "col_len (hd (columns_of cx spans)) = length spans"
    by (simp_all add: columns_of_def col_len_def)
  ultimately show ?thesis by (simp add: try_new_def)
qed

lemma build_batch_columns:
  assumes "\<forall>s\<in>set spans. span_fits cx s"
  shows "build_batch (cx_js_map cx) spans = Some (columns_of cx spans)"
proof -
  have "those (map (\<lambda>s. cx_js_map cx (ns_raw_attributes s)) spans) = Some (map (raw_json cx) spans)"
    using assms by (intro those_map_some) (auto simp: raw_json_def dest!: span_fits_js)
  then show ?thesis
    using try_new_columns [of cx spans] by (simp add: build_batch_def columns_of_def comp_def)
qed

lemma columns_ok: "batch_ok (columns_of cx spans)" "batch_rows (columns_of cx spans) = length spans"
  by (simp_all add: batch_ok_def try_new_columns) (simp add: batch_rows_def columns_of_def col_len_def)

lemma decode_row_columns:
  assumes "i < length spans" and "span_fits cx (spans ! i)"
  shows "decode_row (cx_jp_map cx) (columns_of cx spans) i = Some (spans ! i)"
proof -
  have "cx_jp_map cx (raw_json cx (spans ! i)) = Some (ns_raw_attributes (spans ! i))"
    using span_fits_js [OF assms(2)] by (auto simp: raw_json_def)
  then show ?thesis
    using assms(1)
    by (simp add: decode_row_def columns_of_def slots_def u64_slots_def i32_slots_def f64_slots_def
        str_val_def u64_val_def i32_val_def dialect_round_trip)
qed

lemma decode_columns:
  assumes "\<forall>s\<in>set spans. span_fits cx s"
  shows "decode_batch (cx_jp_map cx) (columns_of cx spans) = Some spans"
proof -
  have "those (map (decode_row (cx_jp_map cx) (columns_of cx spans)) [0..<length spans]) =
      Some (map ((!) spans) [0..<length spans])"
    by (intro those_map_some decode_row_columns) (use assms in auto)
  then show ?thesis
    by (simp add: decode_batch_rows columns_ok map_nth)
qed

text \<open>A codec for the witnesses: attributes only when empty, lists of names character by character.\<close>

definition tiny_js_list :: "str list \<Rightarrow> str option" where
  "tiny_js_list xs = Some (concat (map (\<lambda>s. concat (map (\<lambda>c. [CHR ''a'', c]) s) @ ''b'') xs))"

fun tiny_jp_from :: "str \<Rightarrow> str \<Rightarrow> str list option" where
  "tiny_jp_from acc [] = (if acc = [] then Some [] else None)"
| "tiny_jp_from acc (x # xs) =
     (if x = CHR ''b'' then map_option ((#) acc) (tiny_jp_from [] xs)
      else case xs of [] \<Rightarrow> None | c # ys \<Rightarrow> tiny_jp_from (acc @ [c]) ys)"

definition tiny_codec :: codec where
  "tiny_codec = \<lparr>cx_js_list = tiny_js_list, cx_jp_list = tiny_jp_from [],
     cx_js_map = (\<lambda>m. if m = [] then Some ''{}'' else None),
     cx_jp_map = (\<lambda>s. if s = ''{}'' then Some [] else None),
     cx_hour = (\<lambda>n. ''1970/01/01/00''), cx_format = 1, cx_version = ''0.3.0'',
     cx_file_len = (\<lambda>bs. 100)\<rparr>"

lemma tiny_jp_chars:
  "tiny_jp_from acc (concat (map (\<lambda>c. [CHR ''a'', c]) s) @ CHR ''b'' # rest) =
     map_option ((#) (acc @ s)) (tiny_jp_from [] rest)"
  by (induction s arbitrary: acc) auto

lemma tiny_list_round_trip: "tiny_js_list xs = Some j \<Longrightarrow> tiny_jp_from [] j = Some xs"
proof -
  have "tiny_jp_from [] (concat (map (\<lambda>s. concat (map (\<lambda>c. [CHR ''a'', c]) s) @ ''b'') xs)) = Some xs"
  proof (induction xs)
    case (Cons s xs)
    then show ?case using tiny_jp_chars [of "[]" s] by simp
  qed simp
  then show "tiny_js_list xs = Some j \<Longrightarrow> tiny_jp_from [] j = Some xs"
    by (auto simp: tiny_js_list_def)
qed

definition plain_span :: "str \<Rightarrow> str \<Rightarrow> u64 \<Rightarrow> normalized_span" where
  "plain_span t s start = \<lparr>ns_dialect = OpenInference, ns_trace_id = t, ns_span_id = s,
     ns_parent_span_id = None, ns_name = ''op'', ns_otel_kind = 1, ns_oi_kind = Some ''LLM'',
     ns_start_unix_nano = start, ns_end_unix_nano = start + 1, ns_status_code = 0,
     ns_status_message = None, ns_model = None, ns_provider = None, ns_tokens = tokens_default,
     ns_cost_usd = None, ns_input_value = None, ns_output_value = None, ns_session_id = None,
     ns_user_id = None, ns_service_name = None, ns_scope_name = None, ns_scope_version = None,
     ns_raw_attributes = []\<rparr>"

lemma plain_span_fits [simp]: "span_fits tiny_codec (plain_span t s n)"
  by (simp add: span_fits_def tiny_codec_def plain_span_def)

lemma plain_span_sel [simp]:
  "ns_trace_id (plain_span t s n) = t" "ns_span_id (plain_span t s n) = s"
  "ns_start_unix_nano (plain_span t s n) = n"
  by (simp_all add: plain_span_def)

text \<open>
  C25. A block gives back the spans it was built from, every field of them and in order: the batch
  \<open>build_batch\<close> makes fits the schema, and \<open>decode_batch\<close> of it is the input, provided only that
  \<open>serde_json\<close> gives back each span's attribute map.
\<close>

theorem build_decode_round_trip:
  assumes "\<forall>s\<in>set spans. span_fits cx s"
  shows "\<exists>b. build_batch (cx_js_map cx) spans = Some b \<and> batch_ok b
     \<and> decode_batch (cx_jp_map cx) b = Some spans"
  using build_batch_columns [OF assms] decode_columns [OF assms] columns_ok by blast

theorem build_decode_round_trip_witness:
  "\<exists>b. build_batch (cx_js_map tiny_codec) [plain_span ''t'' ''s'' 5] = Some b \<and> batch_ok b
     \<and> decode_batch (cx_jp_map tiny_codec) b = Some [plain_span ''t'' ''s'' 5]"
  by (rule build_decode_round_trip) simp

lemma kv_get_simps [simp]:
  "kv_get None key = None" "kv_get (Some []) key = None"
  "kv_get (Some (e # l)) key = (if fst e = key then snd e else kv_get (Some l) key)"
  by (simp_all add: kv_get_def)

lemma meta_keys_distinct [simp]:
  "meta_format \<noteq> meta_block_kind" "meta_format \<noteq> meta_seqno_lo" "meta_format \<noteq> meta_seqno_hi"
  "meta_format \<noteq> meta_merged_from" "meta_format \<noteq> meta_price_tables"
  "meta_block_kind \<noteq> meta_seqno_lo" "meta_block_kind \<noteq> meta_seqno_hi"
  "meta_block_kind \<noteq> meta_merged_from" "meta_block_kind \<noteq> meta_price_tables"
  "meta_seqno_lo \<noteq> meta_seqno_hi" "meta_seqno_lo \<noteq> meta_merged_from"
  "meta_seqno_lo \<noteq> meta_price_tables" "meta_seqno_hi \<noteq> meta_merged_from"
  "meta_seqno_hi \<noteq> meta_price_tables" "meta_writer \<noteq> meta_merged_from"
  "meta_writer \<noteq> meta_price_tables" "meta_merged_from \<noteq> meta_price_tables"
  by (simp_all add: meta_keys)

lemma kv_get_metadata:
  "kv_get (Some (key_value_metadata n w js p)) meta_block_kind = Some (block_kind_as_str (pv_kind p))"
  "kv_get (Some (key_value_metadata n w js p)) meta_seqno_lo = Some (dec_of (pv_seqno_lo p))"
  "kv_get (Some (key_value_metadata n w js p)) meta_seqno_hi = Some (dec_of (pv_seqno_hi p))"
  "js (pv_merged_from p) = Some j \<Longrightarrow>
     kv_get (Some (key_value_metadata n w js p)) meta_merged_from = (if pv_kind p = Merged then Some j else None)"
  "js (pv_price_tables p) = Some k \<Longrightarrow>
     kv_get (Some (key_value_metadata n w js p)) meta_price_tables =
       (if pv_price_tables p \<noteq> [] then Some k else None)"
  by (simp_all add: key_value_metadata_def meta_keys_distinct [symmetric])

text \<open>What the provenance round trip needs: both lists survive \<open>serde_json\<close>, the seqnos are \<open>u64\<close>.\<close>

definition provenance_fits :: "codec \<Rightarrow> provenance \<Rightarrow> bool" where
  "provenance_fits cx p \<longleftrightarrow>
     (case (cx_js_list cx (pv_merged_from p), cx_js_list cx (pv_price_tables p)) of
        (Some j, Some k) \<Rightarrow> cx_jp_list cx j = Some (pv_merged_from p) \<and> cx_jp_list cx k = Some (pv_price_tables p)
      | _ \<Rightarrow> False)
     \<and> pv_seqno_lo p \<le> u64_max \<and> pv_seqno_hi p \<le> u64_max
     \<and> (pv_kind p = Flush \<longrightarrow> pv_merged_from p = [])"

lemma provenance_round_trip0:
  assumes "provenance_fits cx p"
  shows "from_key_values (cx_jp_list cx) (Some (key_value_metadata n w (cx_js_list cx) p)) stem =
     p\<lparr>pv_declared := True\<rparr>"
proof -
  obtain j k where jk: "cx_js_list cx (pv_merged_from p) = Some j" "cx_js_list cx (pv_price_tables p) = Some k"
    "cx_jp_list cx j = Some (pv_merged_from p)" "cx_jp_list cx k = Some (pv_price_tables p)"
    using assms by (auto simp: provenance_fits_def split: option.splits)
  note g = kv_get_metadata(1-3) kv_get_metadata(4) [where js = "cx_js_list cx", OF jk(1)]
    kv_get_metadata(5) [where js = "cx_js_list cx", OF jk(2)]
  have n: "pv_seqno_lo p \<le> u64_max" "pv_seqno_hi p \<le> u64_max" "pv_kind p = Flush \<Longrightarrow> pv_merged_from p = []"
    using assms by (auto simp: provenance_fits_def)
  show ?thesis
    using n jk(3,4)
    by (cases "pv_kind p") (auto simp: from_key_values_def g block_kind_as_str_def parse_dec_of)
qed

text \<open>
  A block is self-describing: whatever provenance a block was written with, flush or merge, is what
  reading its key-value metadata gives back (and marked as declared), whatever the file is called.
\<close>

theorem provenance_round_trip:
  assumes "provenance_fits cx p"
  shows "from_key_values (cx_jp_list cx)
      (Some (key_value_metadata (cx_format cx) (cx_version cx) (cx_js_list cx) p)) stem =
    p\<lparr>pv_declared := True\<rparr>"
  using assms by (rule provenance_round_trip0)

theorem provenance_round_trip_witness:
  "from_key_values (cx_jp_list tiny_codec)
     (Some (key_value_metadata (cx_format tiny_codec) (cx_version tiny_codec) (cx_js_list tiny_codec)
        (with_price_tables [''2026-06''] (provenance_merged 3 9 [''blocks/a'', ''blocks/b''])))) ''renamed'' =
   with_price_tables [''2026-06''] (provenance_merged 3 9 [''blocks/a'', ''blocks/b''])"
proof -
  have "provenance_fits tiny_codec
      (with_price_tables [''2026-06''] (provenance_merged 3 9 [''blocks/a'', ''blocks/b'']))"
    by (simp add: provenance_fits_def with_price_tables_def provenance_merged_def tiny_codec_def
        tiny_js_list_def u64_max_def)
  from provenance_round_trip [OF this, of "''renamed''"] show ?thesis
    by (simp add: with_price_tables_def provenance_merged_def)
qed

text \<open>The names the engine itself gives say the same range.\<close>

lemma stem_range_merged:
  assumes "lo \<le> u64_max" and "hi \<le> u64_max"
  shows "stem_range (''merged-'' @ dec020 lo @ ''-'' @ dec020 hi) = (Merged, lo, hi)"
    "stem_range (''day-'' @ dec020 lo @ ''-'' @ dec020 hi) = (Merged, lo, hi)"
proof -
  have sp: "split_on (CHR ''-'') (dec020 lo @ CHR ''-'' # dec020 hi) = [dec020 lo, dec020 hi]"
    by simp
  have m: "strip_prefix ''merged-'' (''merged-'' @ t) = Some t" for t
    by (rule strip_prefix_append)
  have d: "strip_prefix ''day-'' (''day-'' @ t) = Some t" "strip_prefix ''merged-'' (''day-'' @ t) = None" for t
    by (simp_all add: strip_prefix_def starts_with_def)
  show "stem_range (''merged-'' @ dec020 lo @ ''-'' @ dec020 hi) = (Merged, lo, hi)"
    unfolding stem_range_def Let_def m using sp assms by (simp add: parse_dec020)
  show "stem_range (''day-'' @ dec020 lo @ ''-'' @ dec020 hi) = (Merged, lo, hi)"
    unfolding stem_range_def Let_def d using sp assms by (simp add: parse_dec020)
qed

lemma stem_range_flush:
  assumes "n \<le> u64_max"
  shows "stem_range (dec020 n @ ''-'' @ dec_of idx) = (Flush, n, n)"
proof -
  obtain c cs where c: "dec020 n = c # cs" "is_digit c"
    using dec020_digits [of n] by (cases "dec020 n") auto
  then have "strip_prefix ''merged-'' (dec020 n @ t) = None" "strip_prefix ''day-'' (dec020 n @ t) = None" for t
    by (auto simp: strip_prefix_def starts_with_def is_digit_def)
  moreover have "split_on (CHR ''-'') (dec020 n @ CHR ''-'' # dec_of idx) = [dec020 n, dec_of idx]"
    by simp
  ultimately show ?thesis
    using assms by (simp add: stem_range_def parse_dec020)
qed

section \<open>Writing and reading a block\<close>

lemma set_trace_set [simp]: "set (trace_set ts) = set ts"
proof -
  have "set (om_keys (fold (\<lambda>t. om_insert t ()) ts m)) = set ts \<union> set (om_keys m)" for m
    by (induction ts arbitrary: m) (auto simp: map_simps)
  then show ?thesis by (simp add: trace_set_def om_keys_def om_empty_def)
qed

lemma foldl_max: "foldl max (a :: nat) xs = Max (insert a (set xs))"
proof (induction xs arbitrary: a)
  case (Cons x xs)
  have "Max (insert (max a x) (set xs)) = Max (insert a (insert x (set xs)))"
    by (cases "set xs = {}") (simp_all add: max.assoc)
  then show ?case using Cons by simp
qed simp

lemma max_start_ge: "s \<in> set spans \<Longrightarrow> ns_start_unix_nano s \<le> max_start spans"
  by (simp add: max_start_def foldl_max del: foldl_map)

lemma max_start_attained: "max_start spans = 0 \<or> (\<exists>s\<in>set spans. max_start spans = ns_start_unix_nano s)"
proof -
  have "max_start spans \<in> insert 0 (set (map ns_start_unix_nano spans))"
    unfolding max_start_def foldl_max by (intro Max_in) auto
  then show ?thesis by auto
qed

lemma tmp_not_parquet [simp]: "tmp_path dir stem \<noteq> parquet_path dir' stem'"
  "parquet_path dir' stem' \<noteq> tmp_path dir stem"
proof -
  have "last (tmp_path dir stem) = CHR ''p''" "last (parquet_path dir' stem') = CHR ''t''"
    by (simp_all add: tmp_path_def parquet_path_def)
  then show "tmp_path dir stem \<noteq> parquet_path dir' stem'" "parquet_path dir' stem' \<noteq> tmp_path dir stem"
    by auto
qed

lemma read_block_other:
  "om_get fs' p = om_get fs p \<Longrightarrow> read_block cx fs' p = read_block cx fs p"
  by (simp add: read_block_def)

lemma batches_spans_one [simp]:
  "batches_spans cx [b] = decode_batch (cx_jp_map cx) b"
  by (simp add: batches_spans_def option.map_comp comp_def split: option.splits)

text \<open>Every outcome: no file but the output and its temporary file changes.\<close>

lemma write_block_other:
  "p \<noteq> parquet_path (sub @ ''/'' @ part) stem \<Longrightarrow> p \<noteq> tmp_path (sub @ ''/'' @ part) stem \<Longrightarrow>
     om_get (snd (write_block cx stage now sub part stem spans prov fs)) p = om_get fs p"
  by (auto simp: write_block_def Let_def map_simps split: option.splits write_stage.splits)

lemma write_block_om_ok [simp]:
  "om_ok fs \<Longrightarrow> om_ok (snd (write_block cx stage now sub part stem spans prov fs))"
  by (auto simp: write_block_def Let_def split: option.splits write_stage.splits)

lemma write_block_Inr:
  assumes "write_block cx stage now sub part stem spans prov fs = (Inr meta, fs')"
    and "\<forall>s\<in>set spans. span_fits cx s"
  shows "bm_rel_path meta = parquet_path (sub @ ''/'' @ part) stem"
    "bm_max_start_unix_nano meta = max_start spans"
    "set (bm_trace_ids meta) = ns_trace_id ` set spans"
    "om_get fs' (bm_rel_path meta) =
       Some \<lparr>bf_kv = Some (key_value_metadata (cx_format cx) (cx_version cx) (cx_js_list cx) prov),
             bf_batches = [columns_of cx spans], bf_mtime = now\<rparr>"
    "read_block cx fs' (bm_rel_path meta) = Inr spans"
    "om_get fs' (tmp_path (sub @ ''/'' @ part) stem) = None"
  using assms
  by (auto simp: write_block_def Let_def build_batch_columns map_simps read_block_def decode_columns
      split: write_stage.splits)

lemma write_block_succeeds:
  assumes "\<forall>s\<in>set spans. span_fits cx s"
  shows "\<exists>meta fs'. write_block cx StageOk now sub part stem spans prov fs = (Inr meta, fs')"
  by (simp add: write_block_def Let_def build_batch_columns [OF assms])

lemma file_stem_parquet:
  assumes "CHR ''/'' \<notin> set stem" and "CHR ''.'' \<notin> set stem" and "stem \<noteq> []"
  shows "file_stem (parquet_path dir stem) = stem"
proof -
  have "last (split_on (CHR ''/'') (dir @ CHR ''/'' # t)) = t" if "CHR ''/'' \<notin> set t" for t
  proof -
    have "split_on (CHR ''/'') (join_with (CHR ''/'') (split_on (CHR ''/'') dir) @ CHR ''/'' # t) =
        split_on (CHR ''/'') dir @ split_on (CHR ''/'') t"
      by (intro split_on_append_seps) (auto dest: split_on_no_sep)
    then show ?thesis using that by (simp add: join_split)
  qed
  from this [of "stem @ ''.parquet''"] assms(1)
  have n: "last (split_on (CHR ''/'') (parquet_path dir stem)) = stem @ ''.parquet''"
    by (simp add: parquet_path_def)
  have "split_on (CHR ''.'') (stem @ CHR ''.'' # ''parquet'') = [stem, ''parquet'']"
    using assms(2) by simp
  then show ?thesis
    unfolding file_stem_def n using assms(3) by simp
qed

end
