(* ===== verification/SpanKeys.thy ===== *)
theory SpanKeys
  imports Model
begin

text \<open>
  A span's identity for de-duplication: \<open>SpanKey\<close>, \<open>decode_hex\<close>, \<open>key_of\<close> and \<open>span_key\<close> of
  \<^verbatim>\<open>src/store/mod.rs\<close>. The read path, the flush and the merge all drop a span whose key was
  seen before, so two different spans must never get one key.
\<close>

datatype span_key = OtlpKey "byte list" | OtherKey str str

text \<open>The closure \<open>nibble\<close>: lowercase digits only.\<close>

definition nibble :: "char \<Rightarrow> nat option" where
  "nibble c =
     (if 48 \<le> code c \<and> code c \<le> 57 then Some (code c - 48)
      else if 97 \<le> code c \<and> code c \<le> 102 then Some (code c - 97 + 10)
      else None)"

text \<open>The loop of \<open>decode_hex\<close>; \<open>(hi << 4) | lo\<close> of two nibbles is \<open>16 * hi + lo\<close>.\<close>

fun decode_pairs :: "str \<Rightarrow> byte list option" where
  "decode_pairs [] = Some []"
| "decode_pairs [c] = None"
| "decode_pairs (a # b # r) =
     (case nibble a of
        None \<Rightarrow> None
      | Some hi \<Rightarrow>
          (case nibble b of
             None \<Rightarrow> None
           | Some lo \<Rightarrow> map_option (\<lambda>out. (16 * hi + lo) # out) (decode_pairs r)))"

definition decode_hex :: "nat \<Rightarrow> str \<Rightarrow> byte list option" where
  "decode_hex n s = (if length s \<noteq> n * 2 then None else decode_pairs s)"

definition key_of :: "str \<Rightarrow> str \<Rightarrow> span_key" where
  "key_of trace_id span_id =
     (case (decode_hex 16 trace_id, decode_hex 8 span_id) of
        (Some trace, Some span) \<Rightarrow> OtlpKey (trace @ span)
      | _ \<Rightarrow> OtherKey trace_id span_id)"

definition span_key :: "normalized_span \<Rightarrow> span_key" where
  "span_key s = key_of (ns_trace_id s) (ns_span_id s)"

section \<open>Lemmas\<close>

lemma nibble_lt: "nibble c = Some d \<Longrightarrow> d < 16"
  by (auto simp: nibble_def split: if_splits)

lemma nibble_code: "nibble c = Some d \<Longrightarrow> code c = (if d < 10 then 48 + d else 87 + d)"
  by (auto simp: nibble_def split: if_splits)

lemma nibble_inj: "nibble a = Some d \<Longrightarrow> nibble b = Some d \<Longrightarrow> a = b"
  by (metis nibble_code of_char_eq_iff)

lemma nibble_hex_digit [simp]: "d < 16 \<Longrightarrow> nibble (hex_digit d) = Some d"
  by (auto simp: nibble_def code_hex_digit)

lemma decode_pairs_length: "decode_pairs s = Some bs \<Longrightarrow> length s = 2 * length bs"
  by (induction s arbitrary: bs rule: decode_pairs.induct) (auto split: option.splits)

lemma decode_pairs_inj: "decode_pairs s = Some bs \<Longrightarrow> decode_pairs t = Some bs \<Longrightarrow> s = t"
proof (induction s arbitrary: bs t rule: decode_pairs.induct)
  case 1
  then have "length t = 0" by (auto dest: decode_pairs_length)
  then show ?case by simp
next
  case (3 a b r)
  from "3.prems"(1) obtain hi lo out where s: "nibble a = Some hi" "nibble b = Some lo"
    "decode_pairs r = Some out" "bs = (16 * hi + lo) # out"
    by (auto split: option.splits)
  have "2 \<le> length t"
    using decode_pairs_length [OF "3.prems"(2)] s(4) by simp
  then obtain a' b' r' where t: "t = a' # b' # r'"
    by (metis One_nat_def Suc_1 Suc_le_length_iff)
  from "3.prems"(2) t s(4) obtain hi' lo' where t': "nibble a' = Some hi'" "nibble b' = Some lo'"
    "decode_pairs r' = Some out" "16 * hi' + lo' = 16 * hi + lo"
    by (auto split: option.splits)
  have "lo < 16" "lo' < 16" using nibble_lt s(2) t'(2) by auto
  then have "(16 * hi + lo) div 16 = hi" "(16 * hi' + lo') div 16 = hi'" by simp_all
  then have hi: "hi' = hi" using t'(4) by metis
  then have lo: "lo' = lo" using t'(4) by simp
  moreover have "r = r'" using "3.IH" s(1-3) t'(3) by blast
  ultimately show ?case using s t t' hi lo nibble_inj by blast
qed auto

lemma decode_hex_Some: "decode_hex n s = Some bs \<Longrightarrow> length bs = n"
  by (auto simp: decode_hex_def dest: decode_pairs_length split: if_splits)

lemma decode_hex_inj: "decode_hex n s = Some bs \<Longrightarrow> decode_hex n t = Some bs \<Longrightarrow> s = t"
  by (auto simp: decode_hex_def dest: decode_pairs_inj split: if_splits)

lemma decode_pairs_encode:
  "\<forall>b\<in>set bs. b < 256 \<Longrightarrow> decode_pairs (hex_encode bs) = Some bs"
  unfolding hex_encode_def by (induction bs) auto

lemma decode_hex_encode:
  "\<forall>b\<in>set bs. b < 256 \<Longrightarrow> decode_hex (length bs) (hex_encode bs) = Some bs"
  by (simp add: decode_hex_def decode_pairs_encode)

lemma key_of_cases:
  obtains (Otlp) trace span where "decode_hex 16 t = Some trace" "decode_hex 8 s = Some span"
      "key_of t s = OtlpKey (trace @ span)"
    | (Other) "key_of t s = OtherKey t s"
  by (cases "decode_hex 16 t"; cases "decode_hex 8 s") (auto simp: key_of_def)

lemma key_of_eq: "key_of t s = key_of t' s' \<longleftrightarrow> t = t' \<and> s = s'"
proof
  assume eq: "key_of t s = key_of t' s'"
  consider (same) tr sp where "decode_hex 16 t = Some tr" "decode_hex 8 s = Some sp"
      "decode_hex 16 t' = Some tr" "decode_hex 8 s' = Some sp"
    | (other) "OtherKey t s = OtherKey t' s'"
    using eq
    by (cases rule: key_of_cases [of t s]; cases rule: key_of_cases [of t' s'])
      (auto dest!: decode_hex_Some)
  then show "t = t' \<and> s = s'"
    by cases (auto dest: decode_hex_inj)
qed simp

lemma span_key_eq:
  "span_key a = span_key b \<longleftrightarrow> ns_trace_id a = ns_trace_id b \<and> ns_span_id a = ns_span_id b"
  by (simp add: span_key_def key_of_eq)

section \<open>Properties\<close>

text \<open>
  De-duplication keys never collide: two spans get the same \<open>SpanKey\<close> exactly when both
  their trace ids and their span ids are equal, whether or not the ids are canonical hex.
\<close>

theorem span_key_exact:
  "key_of t s = key_of t' s' \<longleftrightarrow> t = t' \<and> s = s'"
  by (rule key_of_eq)

text \<open>
  Ids the normalizer writes are canonical: the lowercase hex of a 16-byte trace id and an 8-byte
  span id decodes back to exactly those bytes, so such a span takes the compact key.
\<close>

theorem canonical_ids_take_the_otlp_key:
  assumes "length trace = 16" and "length span = 8"
    and "\<forall>b\<in>set trace. b < 256" and "\<forall>b\<in>set span. b < 256"
  shows "key_of (hex_encode trace) (hex_encode span) = OtlpKey (trace @ span)"
  using decode_hex_encode [OF assms(3)] decode_hex_encode [OF assms(4)] assms(1,2)
  by (simp add: key_of_def)

theorem canonical_ids_take_the_otlp_key_witness:
  "key_of (hex_encode (replicate 16 171)) (hex_encode (replicate 8 5))
     = OtlpKey (replicate 16 171 @ replicate 8 5)"
  by (rule canonical_ids_take_the_otlp_key) simp_all

end
