(* ===== verification/Writer.thy ===== *)
theory Writer
  imports Wal Cold SpanKeys
begin

text \<open>
  The write path of \<^verbatim>\<open>src/store/mod.rs\<close>: the hot tier, and the single writer task that appends a
  group of commands to the log, commits the group with one fsync, publishes it to the hot tier and
  acknowledges it. A command carries an identifier that stands for its reply channel; the replies
  sent are the list of identifiers and results, in order. The outcome of every call into the file
  system is an argument.
\<close>

section \<open>The hot tier\<close>

type_synonym hot_tier = "(u64, normalized_span list) omap"

definition load_segment :: "u64 \<Rightarrow> normalized_span list \<Rightarrow> hot_tier \<Rightarrow> hot_tier" where
  "load_segment seqno spans hot = (if spans = [] then hot else om_insert seqno spans hot)"

definition hot_push :: "u64 \<Rightarrow> normalized_span list \<Rightarrow> hot_tier \<Rightarrow> hot_tier" where
  "hot_push seqno spans hot = om_alter seqno [] (\<lambda>held. held @ spans) hot"

definition drop_segment :: "u64 \<Rightarrow> hot_tier \<Rightarrow> hot_tier" where
  "drop_segment seqno hot = om_remove seqno hot"

definition segment :: "u64 \<Rightarrow> hot_tier \<Rightarrow> normalized_span list option" where
  "segment seqno hot = om_get hot seqno"

definition segnos :: "hot_tier \<Rightarrow> u64 list" where
  "segnos hot = om_keys hot"

definition all_spans :: "hot_tier \<Rightarrow> normalized_span list" where
  "all_spans hot = concat (om_values hot)"

definition hot_len :: "hot_tier \<Rightarrow> usize" where
  "hot_len hot = sum_list (map length (om_values hot))"

text \<open>\<open>Store::hot_spans\<close>: one span for each identity, the first to arrive.\<close>

definition hot_spans :: "hot_tier \<Rightarrow> normalized_span list" where
  "hot_spans hot = first_copies span_key (all_spans hot)"

section \<open>Commands\<close>

datatype store_error = Backpressure | Closed | DiskFull u64 u64 | Io io_error

datatype cmd = Append nat "normalized_span list" | Seal nat

type_synonym ack = "nat \<times> (store_error + unit)"

definition is_seal :: "cmd \<Rightarrow> bool" where
  "is_seal c = (case c of Seal _ \<Rightarrow> True | Append _ _ \<Rightarrow> False)"

record writer =
  wr_wal :: wal
  wr_hot :: hot_tier
  wr_active_seqno :: u64
  wr_rejections :: u64
  wr_ingested :: u64
  wr_usage :: "normalized_span list list option"

text \<open>How the file system answers during one group.\<close>

record group_io =
  gi_write :: "nat \<Rightarrow> write_outcome"
  gi_sync :: bool
  gi_seal :: bool
  gi_seal_now :: bool

definition group_commit_max :: usize where
  "group_commit_max = 128"

text \<open>The drain after the blocking \<open>recv\<close>: at most \<open>n\<close> commands, and none behind a seal.\<close>

fun drain :: "nat \<Rightarrow> cmd list \<Rightarrow> cmd list \<times> cmd list" where
  "drain 0 queue = ([], queue)"
| "drain (Suc n) [] = ([], [])"
| "drain (Suc n) (c # queue) =
     (if is_seal c then ([c], queue)
      else let (cmds, rest) = drain n queue in (c # cmds, rest))"

definition over_limit :: "usize \<Rightarrow> hot_tier \<Rightarrow> bool" where
  "over_limit max_hot_spans hot \<longleftrightarrow> max_hot_spans \<noteq> 0 \<and> max_hot_spans \<le> hot_len hot"

type_synonym pending = "(u64 \<times> normalized_span list \<times> nat) list"

text \<open>Phase 1: what it leaves is the replies, the pending appends and the seal's reply channel.\<close>

fun phase1 ::
  "(normalized_span \<Rightarrow> byte list option) \<Rightarrow> (byte list \<Rightarrow> nat) \<Rightarrow> (nat \<Rightarrow> write_outcome) \<Rightarrow> bool
     \<Rightarrow> cmd list \<Rightarrow> writer \<Rightarrow> ack list \<times> pending \<times> nat option \<times> writer" where
  "phase1 ser crc io over [] w = ([], [], None, w)"
| "phase1 ser crc io over (Append i spans # cmds) w =
     (if over then
        let (acks, pend, seal_ack, w') =
              phase1 ser crc io over cmds (w\<lparr>wr_rejections := wr_rejections w + length spans\<rparr>)
        in ((i, Inl Backpressure) # acks, pend, seal_ack, w')
      else
        (case append_nosync ser crc (io i) spans (wr_wal w) of
           (Inr seqno, wal') \<Rightarrow>
             let (acks, pend, seal_ack, w') = phase1 ser crc io over cmds (w\<lparr>wr_wal := wal'\<rparr>)
             in (acks, (seqno, spans, i) # pend, seal_ack, w')
         | (Inl e, wal') \<Rightarrow>
             let (acks, pend, seal_ack, w') = phase1 ser crc io over cmds (w\<lparr>wr_wal := wal'\<rparr>)
             in ((i, Inl (Io e)) # acks, pend, seal_ack, w')))"
| "phase1 ser crc io over (Seal i # cmds) w =
     (case phase1 ser crc io over cmds w of
        (acks, pend, seal_ack, w') \<Rightarrow>
          (acks, pend, (case seal_ack of None \<Rightarrow> Some i | Some j \<Rightarrow> Some j), w'))"

text \<open>One committed append: counted, recorded, published, acknowledged.\<close>

definition publish :: "u64 \<times> normalized_span list \<times> nat \<Rightarrow> writer \<Rightarrow> writer" where
  "publish p w =
     (case p of (seqno, spans, i) \<Rightarrow>
        w\<lparr>wr_ingested := wr_ingested w + length spans,
          wr_usage := map_option (\<lambda>u. u @ [spans]) (wr_usage w),
          wr_hot := hot_push seqno spans (wr_hot w)\<rparr>)"

definition seal :: "bool \<Rightarrow> writer \<Rightarrow> (io_error + u64) \<times> writer" where
  "seal ok w =
     (case seal_and_rotate ok (wr_wal w) of
        (Inl e, wal') \<Rightarrow> (Inl e, w\<lparr>wr_wal := wal'\<rparr>)
      | (Inr sealed, wal') \<Rightarrow> (Inr sealed, w\<lparr>wr_wal := wal', wr_active_seqno := w_active_seqno wal'\<rparr>))"

text \<open>Phase 2: the fsync, then the acknowledgements, then the seal at the threshold.\<close>

definition phase2 :: "group_io \<Rightarrow> usize \<Rightarrow> pending \<Rightarrow> writer \<Rightarrow> ack list \<times> writer" where
  "phase2 io seal_threshold pend w =
     (if pend = [] then ([], w)
      else case wal_sync (gi_sync io) (wr_wal w) of
             (res, wal') \<Rightarrow>
               let w1 = w\<lparr>wr_wal := wal'\<rparr>;
                   (acks, w2) = (case res of
                     Inr _ \<Rightarrow> (map (\<lambda>(_, _, i). (i, Inr ())) pend, fold publish pend w1)
                   | Inl e \<Rightarrow> (map (\<lambda>(_, _, i). (i, Inl (Io e))) pend, w1))
               in (acks, if seal_threshold \<le> w_active_count (wr_wal w2) then snd (seal (gi_seal io) w2) else w2))"

text \<open>One turn of \<open>writer_loop\<close> on the commands \<open>drain\<close> took.\<close>

definition writer_group ::
  "(normalized_span \<Rightarrow> byte list option) \<Rightarrow> (byte list \<Rightarrow> nat) \<Rightarrow> group_io \<Rightarrow> usize \<Rightarrow> usize
     \<Rightarrow> cmd list \<Rightarrow> writer \<Rightarrow> ack list \<times> writer" where
  "writer_group ser crc io seal_threshold max_hot_spans cmds w =
     (let (acks1, pend, seal_ack, w1) =
            phase1 ser crc (gi_write io) (over_limit max_hot_spans (wr_hot w)) cmds w;
          (acks2, w2) = phase2 io seal_threshold pend w1
      in case seal_ack of
           None \<Rightarrow> (acks1 @ acks2, w2)
         | Some i \<Rightarrow>
             if w_active_count (wr_wal w2) = 0 then (acks1 @ acks2 @ [(i, Inr ())], w2)
             else (case seal (gi_seal_now io) w2 of
                     (Inr _, w3) \<Rightarrow> (acks1 @ acks2 @ [(i, Inr ())], w3)
                   | (Inl e, w3) \<Rightarrow> (acks1 @ acks2 @ [(i, Inl (Io e))], w3)))"

text \<open>\<open>writer_loop\<close> until the queue is empty, one \<open>group_io\<close> for each turn.\<close>

fun writer_loop ::
  "(normalized_span \<Rightarrow> byte list option) \<Rightarrow> (byte list \<Rightarrow> nat) \<Rightarrow> usize \<Rightarrow> usize
     \<Rightarrow> group_io list \<Rightarrow> cmd list \<Rightarrow> writer \<Rightarrow> ack list \<times> writer" where
  "writer_loop ser crc seal_threshold max_hot_spans [] queue w = ([], w)"
| "writer_loop ser crc seal_threshold max_hot_spans (io # ios) queue w =
     (if queue = [] then ([], w)
      else let (cmds, rest) = drain group_commit_max queue;
               (acks, w') = writer_group ser crc io seal_threshold max_hot_spans cmds w;
               (acks', w'') = writer_loop ser crc seal_threshold max_hot_spans ios rest w'
           in (acks @ acks', w''))"

section \<open>The front of the queue\<close>

text \<open>
  \<open>Store::append\<close> up to the channel: \<open>disk_blocked\<close> is the disk floor's verdict, \<open>capacity\<close> the
  channel's bound, \<open>closed\<close> whether the writer is gone. \<open>Inr None\<close> is the no-op of an empty batch.
\<close>

record ingest_gate =
  ig_disk_blocked :: bool
  ig_disk_free :: u64
  ig_disk_min_free :: u64
  ig_disk_blocked_spans :: u64
  ig_capacity :: usize
  ig_queue :: "cmd list"
  ig_closed :: bool

definition reject_if_disk_full :: "usize \<Rightarrow> ingest_gate \<Rightarrow> (store_error + unit) \<times> ingest_gate" where
  "reject_if_disk_full spans g =
     (if spans = 0 then (Inr (), g)
      else if ig_disk_blocked g then
        (Inl (DiskFull (ig_disk_free g) (ig_disk_min_free g)),
         g\<lparr>ig_disk_blocked_spans := ig_disk_blocked_spans g + spans\<rparr>)
      else (Inr (), g))"

definition try_send :: "cmd \<Rightarrow> ingest_gate \<Rightarrow> (store_error + unit) \<times> ingest_gate" where
  "try_send c g =
     (if ig_closed g then (Inl Closed, g)
      else if length (ig_queue g) < ig_capacity g then (Inr (), g\<lparr>ig_queue := ig_queue g @ [c]\<rparr>)
      else (Inl Backpressure, g))"

definition append :: "nat \<Rightarrow> normalized_span list \<Rightarrow> ingest_gate \<Rightarrow> (store_error + nat option) \<times> ingest_gate" where
  "append i spans g =
     (if spans = [] then (Inr None, g)
      else case reject_if_disk_full (length spans) g of
             (Inl e, g') \<Rightarrow> (Inl e, g')
           | (Inr _, g') \<Rightarrow>
               (case try_send (Append i spans) g' of
                  (Inl e, g'') \<Rightarrow> (Inl e, g'')
                | (Inr _, g'') \<Rightarrow> (Inr (Some i), g'')))"

definition seal_now :: "nat \<Rightarrow> ingest_gate \<Rightarrow> (store_error + nat) \<times> ingest_gate" where
  "seal_now i g = (case try_send (Seal i) g of (Inl e, g') \<Rightarrow> (Inl e, g') | (Inr _, g') \<Rightarrow> (Inr i, g'))"

section \<open>The hot tier as a table\<close>

lemma hot_get [simp]:
  "om_get (hot_push n spans hot) m =
     (if m = n then Some ((case om_get hot n of None \<Rightarrow> [] | Some h \<Rightarrow> h) @ spans) else om_get hot m)"
  "om_get (drop_segment n hot) m = (if m = n then None else om_get hot m)"
  "om_get (load_segment n spans hot) m = (if m = n \<and> spans \<noteq> [] then Some spans else om_get hot m)"
  by (simp_all add: hot_push_def drop_segment_def load_segment_def map_simps)

lemma hot_om_ok [simp]:
  "om_ok hot \<Longrightarrow> om_ok (hot_push n spans hot)" "om_ok hot \<Longrightarrow> om_ok (drop_segment n hot)"
  "om_ok hot \<Longrightarrow> om_ok (load_segment n spans hot)"
  by (simp_all add: hot_push_def drop_segment_def load_segment_def)

lemma all_spans_get: "om_ok hot \<Longrightarrow> s \<in> set (all_spans hot) \<longleftrightarrow> (\<exists>n spans. om_get hot n = Some spans \<and> s \<in> set spans)"
  using om_values_set [of hot] unfolding all_spans_def set_concat by blast

lemma hot_len_all_spans: "hot_len hot = length (all_spans hot)"
  by (simp add: hot_len_def all_spans_def length_concat)

lemma hot_len_push: "om_ok hot \<Longrightarrow> hot_len (hot_push n spans hot) = hot_len hot + length spans"
proof -
  have "hot_len (om_insert n v m) + length (case om_get m n of None \<Rightarrow> [] | Some w \<Rightarrow> w) = length v + hot_len m"
    if "om_ok m" for v and m :: hot_tier
    using that
  proof (induction n v m rule: om_insert.induct)
    case (2 k v p m)
    have "om_get m k = None" if "\<not> fst p < k"
      using that 2(2) by (force simp: om_ok_def om_keys_def om_get_def map_of_eq_None_iff)
    moreover have "om_ok m" using 2(2) by (simp add: om_ok_def om_keys_def)
    ultimately show ?case using 2(1)
      by (cases p) (auto simp: om_get_def hot_len_def om_values_def split: option.splits)
  qed (simp add: om_get_def hot_len_def om_values_def)
  note ins = this
  assume "om_ok hot"
  from ins [OF this, of "(case om_get hot n of None \<Rightarrow> [] | Some w \<Rightarrow> w) @ spans"] show ?thesis
    by (simp add: hot_push_def om_alter_def)
qed

section \<open>Every command is answered once\<close>

definition cmd_id :: "cmd \<Rightarrow> nat" where
  "cmd_id c = (case c of Append i _ \<Rightarrow> i | Seal i \<Rightarrow> i)"

lemma is_seal_simps [simp]: "\<not> is_seal (Append i spans)" "is_seal (Seal i)"
  by (simp_all add: is_seal_def)

lemma cmd_id_simps [simp]: "cmd_id (Append i spans) = i" "cmd_id (Seal i) = i"
  by (simp_all add: cmd_id_def)

lemma drain_split: "drain n queue = (cmds, rest) \<Longrightarrow> queue = cmds @ rest \<and> length cmds \<le> n"
  by (induction n queue arbitrary: cmds rule: drain.induct) (auto split: if_splits prod.splits)

lemma drain_no_inner_seal: "drain n queue = (cmds, rest) \<Longrightarrow> c \<in> set (butlast cmds) \<Longrightarrow> \<not> is_seal c"
  by (induction n queue arbitrary: cmds rule: drain.induct) (auto split: if_splits prod.splits)

lemma drain_progress: "drain (Suc n) (c # queue) = (cmds, rest) \<Longrightarrow> length rest < length (c # queue)"
  by (auto split: if_splits prod.splits dest!: drain_split)

text \<open>A group \<open>drain\<close> can take: appends, then at most one seal.\<close>

definition group_shape :: "cmd list \<Rightarrow> bool" where
  "group_shape cmds \<longleftrightarrow> (\<forall>c\<in>set (butlast cmds). \<not> is_seal c)"

lemma group_shape_Append [simp]: "group_shape (Append i spans # cmds) \<longleftrightarrow> group_shape cmds"
  by (cases cmds) (auto simp: group_shape_def)

lemma group_shape_Seal [simp]: "group_shape (Seal i # cmds) \<longleftrightarrow> cmds = []"
  by (cases cmds) (auto simp: group_shape_def)

lemma drain_shape: "drain n queue = (cmds, rest) \<Longrightarrow> group_shape cmds"
  unfolding group_shape_def using drain_no_inner_seal by blast

lemma phase1_ids:
  "phase1 ser crc io over cmds w = (acks, pend, seal_ack, w') \<Longrightarrow> group_shape cmds \<Longrightarrow>
     mset (map fst acks) + mset (map (snd \<circ> snd) pend)
       + (case seal_ack of None \<Rightarrow> {#} | Some i \<Rightarrow> {#i#}) = mset (map cmd_id cmds)"
proof (induction ser crc io over cmds w arbitrary: acks pend seal_ack w' rule: phase1.induct)
  case (2 ser crc io over i spans cmds w)
  have sh: "group_shape cmds" using 2(5) by simp
  show ?case
  proof (cases over)
    case True
    obtain a p sa v where r: "phase1 ser crc io over cmds (w\<lparr>wr_rejections := wr_rejections w + length spans\<rparr>) = (a, p, sa, v)"
      by (metis prod_cases4)
    show ?thesis using 2(1) [OF True r sh] 2(4) True r by auto
  next
    case False
    obtain res wal' where ap: "append_nosync ser crc (io i) spans (wr_wal w) = (res, wal')" by (rule prod.exhaust)
    obtain a p sa v where r: "phase1 ser crc io over cmds (w\<lparr>wr_wal := wal'\<rparr>) = (a, p, sa, v)"
      by (metis prod_cases4)
    show ?thesis
    proof (cases res)
      case (Inl e)
      show ?thesis using 2(2) [OF False ap [symmetric] Inl r sh] 2(4) False ap Inl r by auto
    next
      case (Inr n)
      show ?thesis using 2(3) [OF False ap [symmetric] Inr r sh] 2(4) False ap Inr r by auto
    qed
  qed
qed auto

lemma phase2_acks:
  "phase2 io thr pend w = (acks, w') \<Longrightarrow> pend \<noteq> [] \<Longrightarrow>
     \<exists>r. acks = map (\<lambda>(_, _, i). (i, r)) pend \<and> (gi_sync io \<longleftrightarrow> r = Inr ())"
  by (auto simp: phase2_def wal_sync_def Let_def split: if_splits)

lemma phase2_ids: "phase2 io thr pend w = (acks, w') \<Longrightarrow> map fst acks = map (snd \<circ> snd) pend"
proof (cases "pend = []")
  case False
  assume "phase2 io thr pend w = (acks, w')"
  from phase2_acks [OF this False] obtain r where "acks = map (\<lambda>(_, _, i). (i, r)) pend" by blast
  then show ?thesis by (simp add: comp_def case_prod_beta)
qed (auto simp: phase2_def)

lemma writer_group_ids:
  assumes "writer_group ser crc io thr mx cmds w = (acks, w')" and "group_shape cmds"
  shows "mset (map fst acks) = mset (map cmd_id cmds)"
proof -
  obtain acks1 pend seal_ack w1 where p1: "phase1 ser crc (gi_write io) (over_limit mx (wr_hot w)) cmds w = (acks1, pend, seal_ack, w1)"
    by (metis prod_cases4)
  obtain acks2 w2 where p2: "phase2 io thr pend w1 = (acks2, w2)" by (rule prod.exhaust)
  have "mset (map fst acks) = mset (map fst acks1) + mset (map fst acks2)
      + (case seal_ack of None \<Rightarrow> {#} | Some i \<Rightarrow> {#i#})"
    using assms(1) by (auto simp: writer_group_def p1 p2 split: option.splits if_splits prod.splits sum.splits)
  then show ?thesis
    using phase1_ids [OF p1 assms(2)] by (simp only: phase2_ids [OF p2])
qed

lemma writer_loop_ids:
  "writer_loop ser crc thr mx ios queue w = (acks, w') \<Longrightarrow> length queue \<le> length ios \<Longrightarrow>
     mset (map fst acks) = mset (map cmd_id queue)"
proof (induction ser crc thr mx ios queue w arbitrary: acks w' rule: writer_loop.induct)
  case (2 ser crc thr mx io ios queue w)
  show ?case
  proof (cases "queue = []")
    case False
    obtain cmds rest where d: "drain group_commit_max queue = (cmds, rest)" by (rule prod.exhaust)
    obtain acks1 w1 where g: "writer_group ser crc io thr mx cmds w = (acks1, w1)" by (rule prod.exhaust)
    obtain acks2 w2 where l: "writer_loop ser crc thr mx ios rest w1 = (acks2, w2)" by (rule prod.exhaust)
    have "acks = acks1 @ acks2" using 2(2) False d g l by simp
    moreover have "length rest < length queue"
      using d False drain_progress [of 127] by (cases queue) (auto simp: group_commit_max_def numeral_eq_Suc)
    then have "mset (map fst acks2) = mset (map cmd_id rest)"
      using 2(1) [OF False d [symmetric] refl g [symmetric] refl l] 2(3) by simp
    ultimately show ?thesis
      using writer_group_ids [OF g drain_shape [OF d]] drain_split [OF d] by simp
  qed (use 2 in simp)
qed simp

text \<open>
  C16. Every append and every seal that reached the writer is answered exactly once, whatever the file
  system does, and groups never take more than 128 commands or reach past a seal: the replies of the
  whole run are, as a multiset, the reply channels of the commands.
\<close>

theorem every_command_answered_once:
  assumes "length queue \<le> length ios"
  shows "mset (map fst (fst (writer_loop ser crc thr mx ios queue w))) = mset (map cmd_id queue)
     \<and> (\<forall>cmds rest. drain group_commit_max queue = (cmds, rest) \<longrightarrow>
          queue = cmds @ rest \<and> length cmds \<le> 128 \<and> (\<forall>c\<in>set (butlast cmds). \<not> is_seal c))"
  using writer_loop_ids [OF prod.collapse [symmetric] assms] drain_split [of group_commit_max queue]
    drain_shape [of group_commit_max queue]
  by (auto simp: group_shape_def group_commit_max_def)

text \<open>A span codec for the witnesses, for one span.\<close>

definition demo_span :: normalized_span where
  "demo_span = plain_span ''t'' ''a'' 5"

definition demo_ser :: "normalized_span \<Rightarrow> byte list option" where
  "demo_ser s = (if s = demo_span then Some [7] else None)"

definition demo_de :: "byte list \<Rightarrow> normalized_span option" where
  "demo_de p = (if p = [7] then Some demo_span else None)"

lemma demo_storable [simp]: "storable demo_ser demo_de tiny_crc demo_span"
  by (simp add: storable_def demo_ser_def demo_de_def tiny_crc_def)

definition idle_writer :: writer where
  "idle_writer = \<lparr>wr_wal = wal_open om_empty 1, wr_hot = om_empty, wr_active_seqno = 1,
     wr_rejections = 0, wr_ingested = 0, wr_usage = None\<rparr>"

definition good_io :: group_io where
  "good_io = \<lparr>gi_write = (\<lambda>_. WriteOk), gi_sync = True, gi_seal = True, gi_seal_now = True\<rparr>"

theorem every_command_answered_once_witness:
  "mset (map fst (fst (writer_loop (\<lambda>_. None) tiny_crc 100 0 [good_io, good_io]
     [Append 4 [plain_span ''t'' ''s'' 5], Seal 9] idle_writer))) = {#4, 9#}"
proof -
  have len: "length [Append 4 [plain_span ''t'' ''s'' 5], Seal 9] \<le> length [good_io, good_io]" by simp
  show ?thesis
    using every_command_answered_once [OF len, of "\<lambda>_. None" tiny_crc 100 0 idle_writer] by simp
qed

end
