(* ===== verification/Flush.thy ===== *)
theory Flush
  imports Writer
begin

text \<open>
  What moves spans from the hot tier to cold blocks and what recovers after a crash
  (\<^verbatim>\<open>src/store/mod.rs\<close>): \<open>flush_pending\<close> and \<open>flush_one\<close> with the three steps of the commit protocol,
  \<open>sweep_orphans\<close>, the recovery of \<open>Store::open\<close>, and retention (\<open>reclaim_before_in\<close>).
\<close>

record store =
  st_wal_dir :: wal_dir
  st_hot :: hot_tier
  st_index :: index
  st_files :: files

definition blocks_subdir :: str where
  "blocks_subdir = ''blocks''"

section \<open>Flushing a segment\<close>

text \<open>The partitions of a segment, in the order of their keys.\<close>

definition by_partition :: "codec \<Rightarrow> normalized_span list \<Rightarrow> (str, normalized_span list) omap" where
  "by_partition cx spans =
     fold (\<lambda>s. om_alter (partition_of cx (ns_start_unix_nano s)) [] (\<lambda>g. g @ [s])) spans om_empty"

definition flush_stem :: "u64 \<Rightarrow> nat \<Rightarrow> str" where
  "flush_stem seqno idx = dec020 seqno @ ''-'' @ dec_of idx"

text \<open>Step 1: the loop over the partitions; \<open>stage\<close> says how each write ends.\<close>

fun write_partitions ::
  "codec \<Rightarrow> (nat \<Rightarrow> write_stage) \<Rightarrow> nat \<Rightarrow> str \<Rightarrow> u64 \<Rightarrow> nat \<Rightarrow> (str \<times> normalized_span list) list \<Rightarrow> files
     \<Rightarrow> (io_error + block_meta list) \<times> files" where
  "write_partitions cx stage now version seqno idx [] fs = (Inr [], fs)"
| "write_partitions cx stage now version seqno idx ((part, grp) # rest) fs =
     (case write_block cx (stage idx) now blocks_subdir part (flush_stem seqno idx) grp
             (with_price_tables [version] (provenance_flush seqno)) fs of
        (Inl e, fs') \<Rightarrow> (Inl e, fs')
      | (Inr meta, fs') \<Rightarrow>
          (case write_partitions cx stage now version seqno (idx + 1) rest fs' of
             (Inl e, fs'') \<Rightarrow> (Inl e, fs'')
           | (Inr metas, fs'') \<Rightarrow> (Inr (meta # metas), fs'')))"

text \<open>How the calls of one flush end: the block writes, the index commit, the segment's removal.\<close>

record flush_io =
  fi_stage :: "nat \<Rightarrow> write_stage"
  fi_commit :: bool
  fi_delete :: bool

definition flush_one ::
  "codec \<Rightarrow> flush_io \<Rightarrow> nat \<Rightarrow> str \<Rightarrow> u64 \<Rightarrow> store \<Rightarrow> (io_error + unit) \<times> store" where
  "flush_one cx io now version seqno st =
     (case segment seqno (st_hot st) of
        None \<Rightarrow> (Inr (), st)
      | Some held \<Rightarrow>
          let spans = first_copies span_key held in
          (case write_partitions cx (fi_stage io) now version seqno 0 (by_partition cx spans) (st_files st) of
             (Inl e, fs) \<Rightarrow> (Inl e, st\<lparr>st_files := fs\<rparr>)
           | (Inr blocks, fs) \<Rightarrow>
               if \<not> fi_commit io then (Inl OtherIo, st\<lparr>st_files := fs\<rparr>)
               else let st1 = st\<lparr>st_files := fs, st_index := commit_flush seqno blocks (st_index st)\<rparr>
                    in if \<not> fi_delete io then (Inl OtherIo, st1)
                       else (Inr (), st1\<lparr>st_wal_dir := delete_segment (st_wal_dir st) seqno,
                                         st_hot := drop_segment seqno (st_hot st)\<rparr>)))"

definition pending_seqnos :: "u64 \<Rightarrow> store \<Rightarrow> u64 list" where
  "pending_seqnos active st =
     filter (\<lambda>s. watermark (st_index st) < s \<and> s < active) (segnos (st_hot st))"

fun flush_each ::
  "codec \<Rightarrow> (u64 \<Rightarrow> flush_io) \<Rightarrow> nat \<Rightarrow> str \<Rightarrow> u64 list \<Rightarrow> store \<Rightarrow> (io_error + unit) \<times> store" where
  "flush_each cx io now version [] st = (Inr (), st)"
| "flush_each cx io now version (seqno # rest) st =
     (case flush_one cx (io seqno) now version seqno st of
        (Inl e, st') \<Rightarrow> (Inl e, st')
      | (Inr _, st') \<Rightarrow> flush_each cx io now version rest st')"

definition flush_pending ::
  "codec \<Rightarrow> (u64 \<Rightarrow> flush_io) \<Rightarrow> nat \<Rightarrow> str \<Rightarrow> u64 \<Rightarrow> store \<Rightarrow> (io_error + unit) \<times> store" where
  "flush_pending cx io now version active st =
     flush_each cx io now version (pending_seqnos active st) st"

section \<open>Recovery\<close>

text \<open>The files under \<^verbatim>\<open>blocks/\<close> the index does not name, and the temporary ones, are removed.\<close>

definition is_orphan :: "index \<Rightarrow> str \<Rightarrow> bool" where
  "is_orphan ix p \<longleftrightarrow> ends_with ''.tmp'' p \<or> (ends_with ''.parquet'' p \<and> p \<notin> set (all_block_paths ix))"

definition sweep_orphans :: "index \<Rightarrow> files \<Rightarrow> files" where
  "sweep_orphans ix fs = filter (\<lambda>f. \<not> is_orphan ix (fst f)) fs"

text \<open>The loop of \<open>Store::open\<close> over the segments: the directory, the hot tier, the highest seqno.\<close>

fun load_segments ::
  "(byte list \<Rightarrow> normalized_span option) \<Rightarrow> (byte list \<Rightarrow> nat) \<Rightarrow> u64 \<Rightarrow> u64 list
     \<Rightarrow> wal_dir \<Rightarrow> hot_tier \<Rightarrow> u64 \<Rightarrow> wal_dir \<times> hot_tier \<times> u64" where
  "load_segments de crc wm [] dir hot max_seqno = (dir, hot, max_seqno)"
| "load_segments de crc wm (seqno # rest) dir hot max_seqno =
     (if seqno \<le> wm then load_segments de crc wm rest (delete_segment dir seqno) hot max_seqno
      else (case read_segment de crc dir seqno of
              (spans, dir') \<Rightarrow>
                load_segments de crc wm rest dir' (load_segment seqno spans hot) (max max_seqno seqno)))"

definition store_open ::
  "(byte list \<Rightarrow> normalized_span option) \<Rightarrow> (byte list \<Rightarrow> nat) \<Rightarrow> wal_dir \<Rightarrow> index \<Rightarrow> files
     \<Rightarrow> store \<times> wal \<times> u64" where
  "store_open de crc dir ix fs =
     (let wm = watermark ix;
          (dir', hot, max_seqno) = load_segments de crc wm (list_segment_seqnos dir) dir om_empty wm;
          active = max_seqno + 1;
          wal = wal_open dir' active
      in (\<lparr>st_wal_dir = w_dir wal, st_hot = hot, st_index = ix, st_files = sweep_orphans ix fs\<rparr>,
          wal, active))"

section \<open>Retention\<close>

record reclaim_report =
  rr_cutoff :: u64
  rr_blocks_dropped :: usize
  rr_bytes_reclaimed :: u64
  rr_blocks_kept :: usize
  rr_oldest_kept :: "u64 option"
  rr_dry_run :: bool

definition expired_blocks :: "u64 \<Rightarrow> index \<Rightarrow> (str \<times> u64) list" where
  "expired_blocks cutoff ix = filter (\<lambda>(_, ms). ms < cutoff) (blocks_with_max_start ix)"

definition kept_blocks :: "u64 \<Rightarrow> index \<Rightarrow> (str \<times> u64) list" where
  "kept_blocks cutoff ix = filter (\<lambda>(_, ms). \<not> ms < cutoff) (blocks_with_max_start ix)"

definition block_bytes :: "codec \<Rightarrow> files \<Rightarrow> str \<Rightarrow> u64" where
  "block_bytes cx fs p = (case om_get fs p of None \<Rightarrow> 0 | Some f \<Rightarrow> cx_file_len cx (bf_batches f))"

definition reclaim_before :: "codec \<Rightarrow> u64 \<Rightarrow> bool \<Rightarrow> store \<Rightarrow> reclaim_report \<times> store" where
  "reclaim_before cx cutoff dry_run st =
     (let drop_paths = map fst (expired_blocks cutoff (st_index st));
          bytes = foldl (\<lambda>n p. sat_add n (block_bytes cx (st_files st) p)) 0 drop_paths;
          kept = map snd (kept_blocks cutoff (st_index st));
          report = \<lparr>rr_cutoff = cutoff, rr_blocks_dropped = length drop_paths,
                    rr_bytes_reclaimed = bytes, rr_blocks_kept = length kept,
                    rr_oldest_kept = foldl (\<lambda>old m. Some (case old of None \<Rightarrow> m | Some v \<Rightarrow> min v m)) None kept,
                    rr_dry_run = dry_run\<rparr>
      in if \<not> dry_run \<and> drop_paths \<noteq> []
         then (report, st\<lparr>st_index := drop_blocks drop_paths (st_index st),
                          st_files := fold om_remove drop_paths (st_files st)\<rparr>)
         else (report, st))"

text \<open>\<open>retention_cutoff\<close>: \<open>now\<close> is \<open>None\<close> when the clock is before the epoch.\<close>

definition retention_cutoff :: "nat option \<Rightarrow> nat \<Rightarrow> u64 option" where
  "retention_cutoff now window = (case now of None \<Rightarrow> None | Some n \<Rightarrow> Some (min (n - window) u64_max))"

section \<open>Partitions\<close>

lemma by_partition_get:
  "om_get (by_partition cx spans) p =
     (let g = filter (\<lambda>s. partition_of cx (ns_start_unix_nano s) = p) spans
      in if g = [] then None else Some g)"
proof (induction spans rule: rev_induct)
  case Nil
  then show ?case by (simp add: by_partition_def map_simps)
next
  case (snoc s spans)
  have "by_partition cx (spans @ [s]) =
      om_alter (partition_of cx (ns_start_unix_nano s)) [] (\<lambda>g. g @ [s]) (by_partition cx spans)"
    by (simp add: by_partition_def)
  with snoc show ?case by (auto simp: map_simps Let_def)
qed

lemma by_partition_ok [simp]: "om_ok (by_partition cx spans)"
proof (induction spans rule: rev_induct)
  case (snoc s spans)
  then show ?case by (simp add: by_partition_def)
qed (simp add: by_partition_def)

lemma by_partition_set: "(part, grp) \<in> set (by_partition cx spans) \<Longrightarrow>
     grp = filter (\<lambda>s. partition_of cx (ns_start_unix_nano s) = part) spans \<and> grp \<noteq> []"
  by (auto simp: om_in_set_get by_partition_get Let_def split: if_splits)

lemma by_partition_spans: "(\<Union>g\<in>snd ` set (by_partition cx spans). set g) = set spans"
proof (intro equalityI subsetI)
  fix s assume "s \<in> (\<Union>g\<in>snd ` set (by_partition cx spans). set g)"
  then obtain part g where "(part, g) \<in> set (by_partition cx spans)" "s \<in> set g" by auto
  then show "s \<in> set spans" using by_partition_set [of part g cx spans] by simp
next
  fix s assume s: "s \<in> set spans"
  let ?p = "partition_of cx (ns_start_unix_nano s)"
  let ?g = "filter (\<lambda>x. partition_of cx (ns_start_unix_nano x) = ?p) spans"
  have "s \<in> set ?g" using s by simp
  moreover then have "?g \<noteq> []" by (metis empty_iff empty_set)
  then have "(?p, ?g) \<in> set (by_partition cx spans)"
    by (simp add: om_in_set_get by_partition_get)
  ultimately show "s \<in> (\<Union>g\<in>snd ` set (by_partition cx spans). set g)" by force
qed

section \<open>Block names\<close>

lemma parquet_path_inj:
  assumes "parquet_path d s = parquet_path d' s'" and "CHR ''/'' \<notin> set s" and "CHR ''/'' \<notin> set s'"
  shows "d = d' \<and> s = s'"
proof -
  have "rev (d @ ''/'' @ s) = rev (d' @ ''/'' @ s')"
    using assms(1) by (simp add: parquet_path_def)
  then have "rev s @ CHR ''/'' # rev d = rev s' @ CHR ''/'' # rev d'" by simp
  then have "split_once (CHR ''/'') (rev s @ CHR ''/'' # rev d) =
      split_once (CHR ''/'') (rev s' @ CHR ''/'' # rev d')" by simp
  then show ?thesis using assms(2,3) by simp
qed

lemma flush_stem_plain [simp]:
  "CHR ''/'' \<notin> set (flush_stem n i)" "CHR ''.'' \<notin> set (flush_stem n i)" "flush_stem n i \<noteq> []"
proof -
  have "CHR ''.'' \<notin> set (dec020 n)" "CHR ''.'' \<notin> set (dec_of i)"
    using dec020_digits [of n] dec_of_digits [of i] digit_not(3) by blast+
  then show "CHR ''.'' \<notin> set (flush_stem n i)" by (simp add: flush_stem_def)
qed (simp_all add: flush_stem_def)

lemma flush_stem_inj: "flush_stem n i = flush_stem m j \<longleftrightarrow> n = m \<and> i = j"
proof
  assume "flush_stem n i = flush_stem m j"
  then have "split_once (CHR ''-'') (dec020 n @ CHR ''-'' # dec_of i) =
      split_once (CHR ''-'') (dec020 m @ CHR ''-'' # dec_of j)"
    by (simp add: flush_stem_def)
  then show "n = m \<and> i = j" by (simp add: dec020_inj dec_of_inj)
qed simp

definition flush_path :: "str \<Rightarrow> u64 \<Rightarrow> nat \<Rightarrow> str" where
  "flush_path part seqno idx = parquet_path (blocks_subdir @ ''/'' @ part) (flush_stem seqno idx)"

lemma flush_path_inj: "flush_path p n i = flush_path q m j \<longleftrightarrow> p = q \<and> n = m \<and> i = j"
proof
  assume "flush_path p n i = flush_path q m j"
  from parquet_path_inj [OF this [unfolded flush_path_def] flush_stem_plain(1) flush_stem_plain(1)]
  show "p = q \<and> n = m \<and> i = j" by (simp add: flush_stem_inj)
qed simp

section \<open>What a flush leaves on disk\<close>

text \<open>The spans of the committed blocks that can be read.\<close>

definition block_spans :: "codec \<Rightarrow> files \<Rightarrow> str \<Rightarrow> normalized_span set" where
  "block_spans cx fs p = (case read_block cx fs p of Inl _ \<Rightarrow> {} | Inr spans \<Rightarrow> set spans)"

definition cold_spans :: "codec \<Rightarrow> index \<Rightarrow> files \<Rightarrow> normalized_span set" where
  "cold_spans cx ix fs = (\<Union>p\<in>indexed ix. block_spans cx fs p)"

lemma block_spans_other: "om_get fs' p = om_get fs p \<Longrightarrow> block_spans cx fs' p = block_spans cx fs p"
  by (simp add: block_spans_def read_block_def)

lemma block_spans_read: "read_block cx fs p = Inr spans \<Longrightarrow> block_spans cx fs p = set spans"
  by (simp add: block_spans_def)

lemma cold_spans_other:
  "(\<And>p. p \<in> indexed ix \<Longrightarrow> om_get fs' p = om_get fs p) \<Longrightarrow> cold_spans cx ix fs' = cold_spans cx ix fs"
  unfolding cold_spans_def by (rule SUP_cong [OF refl]) (rule block_spans_other)

lemma cold_spansI: "p \<in> indexed ix \<Longrightarrow> s \<in> block_spans cx fs p \<Longrightarrow> s \<in> cold_spans cx ix fs"
  unfolding cold_spans_def by blast

definition block_reads :: "codec \<Rightarrow> files \<Rightarrow> block_meta \<Rightarrow> normalized_span list \<Rightarrow> bool" where
  "block_reads cx fs b spans \<longleftrightarrow> read_block cx fs (bm_rel_path b) = Inr spans
     \<and> set (bm_trace_ids b) = ns_trace_id ` set spans \<and> bm_max_start_unix_nano b = max_start spans
     \<and> (\<exists>f. om_get fs (bm_rel_path b) = Some f \<and> list_all batch_ok (bf_batches f))"

lemma block_reads_other:
  "om_get fs' (bm_rel_path b) = om_get fs (bm_rel_path b) \<Longrightarrow> block_reads cx fs' b spans = block_reads cx fs b spans"
  by (simp add: block_reads_def read_block_def)

lemma write_partitions_spec:
  assumes "write_partitions cx stage now v n idx parts fs = (r, fs')"
    and "\<forall>(p, g)\<in>set parts. \<forall>s\<in>set g. span_fits cx s"
  shows "(\<forall>q. (\<forall>p k. idx \<le> k \<longrightarrow> q \<noteq> flush_path p n k) \<longrightarrow>
            (\<forall>d stem. q \<noteq> tmp_path d stem) \<longrightarrow> om_get fs' q = om_get fs q)
     \<and> (\<forall>blocks. r = Inr blocks \<longrightarrow>
          map bm_rel_path blocks = map (\<lambda>(k, p, g). flush_path p n k) (enumerate idx parts)
          \<and> list_all2 (\<lambda>b (p, g). block_reads cx fs' b g) blocks parts)
     \<and> (om_ok fs \<longrightarrow> om_ok fs')"
  using assms
proof (induction cx stage now v n idx parts fs arbitrary: r fs' rule: write_partitions.induct)
  case (2 cx stage now v n idx part grp rest fs)
  let ?prov = "with_price_tables [v] (provenance_flush n)"
  obtain r1 fs1 where w: "write_block cx (stage idx) now blocks_subdir part (flush_stem n idx) grp ?prov fs = (r1, fs1)"
    by (rule prod.exhaust)
  have other1: "om_get fs1 q = om_get fs q" if "q \<noteq> flush_path part n idx" "\<forall>d stem. q \<noteq> tmp_path d stem" for q
    using write_block_other [of q blocks_subdir part "flush_stem n idx" cx "stage idx" now grp ?prov fs] w that
    by (simp add: flush_path_def)
  have ok1: "om_ok fs \<Longrightarrow> om_ok fs1"
    using write_block_om_ok [of fs cx "stage idx" now blocks_subdir part "flush_stem n idx" grp ?prov] w by simp
  show ?case
  proof (cases r1)
    case (Inl e)
    then have "r = Inl e" "fs' = fs1" using 2(2) w by auto
    then show ?thesis using other1 ok1 by auto
  next
    case (Inr meta)
    obtain r2 fs2 where rec: "write_partitions cx stage now v n (idx + 1) rest fs1 = (r2, fs2)"
      by (rule prod.exhaust)
    have fit: "\<forall>s\<in>set grp. span_fits cx s" "\<forall>(p, g)\<in>set rest. \<forall>s\<in>set g. span_fits cx s"
      using 2(3) by auto
    note IH = 2(1) [OF w [symmetric] Inr rec fit(2)]
    have fs': "fs' = fs2" "r = (case r2 of Inl e \<Rightarrow> Inl e | Inr ms \<Rightarrow> Inr (meta # ms))"
      using 2(2) w Inr rec by (auto split: sum.splits)
    have path: "bm_rel_path meta = flush_path part n idx"
      and reads: "block_reads cx fs1 meta grp"
      using write_block_Inr [OF w [unfolded Inr] fit(1)] by (simp_all add: flush_path_def block_reads_def columns_ok)
    have "om_get fs2 (flush_path part n idx) = om_get fs1 (flush_path part n idx)"
    proof -
      have "\<forall>p k. idx + 1 \<le> k \<longrightarrow> flush_path part n idx \<noteq> flush_path p n k"
        by (auto simp: flush_path_inj)
      moreover have "\<forall>d stem. flush_path part n idx \<noteq> tmp_path d stem" by (simp add: flush_path_def)
      ultimately show ?thesis using IH by blast
    qed
    then have reads2: "block_reads cx fs2 meta grp"
      using reads path block_reads_other [of fs2 meta fs1 cx grp] by simp
    have other2: "om_get fs2 q = om_get fs q"
      if "\<forall>p k. idx \<le> k \<longrightarrow> q \<noteq> flush_path p n k" "\<forall>d stem. q \<noteq> tmp_path d stem" for q
    proof -
      have "\<forall>p k. idx + 1 \<le> k \<longrightarrow> q \<noteq> flush_path p n k" "q \<noteq> flush_path part n idx"
        using that(1) by auto
      then show ?thesis using IH other1 that(2) by metis
    qed
    show ?thesis
      using IH fs' path reads2 other2 ok1 by (auto split: sum.splits)
  qed
qed auto

lemma enumerate_paths:
  "set (map (\<lambda>(k, p, g). flush_path p n k) (enumerate i parts)) \<subseteq> {flush_path p n k |p k. i \<le> k}"
  by (induction parts arbitrary: i) force+

text \<open>No committed block has a name this flush would write.\<close>

definition fresh_seqno :: "index \<Rightarrow> u64 \<Rightarrow> bool" where
  "fresh_seqno ix n \<longleftrightarrow> (\<forall>p\<in>indexed ix. (\<forall>d k. p \<noteq> flush_path d n k) \<and> (\<forall>d stem. p \<noteq> tmp_path d stem))"

lemma write_partitions_indexed:
  assumes "write_partitions cx stage now v n 0 parts fs = (r, fs')"
    and "\<forall>(p, g)\<in>set parts. \<forall>s\<in>set g. span_fits cx s"
    and "fresh_seqno ix n" and "p \<in> indexed ix"
  shows "om_get fs' p = om_get fs p"
  using write_partitions_spec [OF assms(1,2)] assms(3,4) unfolding fresh_seqno_def by blast

lemma commit_flush_cold:
  assumes w: "write_partitions cx stage now v n 0 parts fs = (Inr blocks, fs')"
    and fit: "\<forall>(p, g)\<in>set parts. \<forall>s\<in>set g. span_fits cx s" and fresh: "fresh_seqno ix n"
  shows "cold_spans cx (commit_flush n blocks ix) fs' = cold_spans cx ix fs \<union> (\<Union>g\<in>snd ` set parts. set g)"
proof -
  have reads: "list_all2 (\<lambda>b (p, g). block_reads cx fs' b g) blocks parts"
    using write_partitions_spec [OF w fit] by blast
  have old: "block_spans cx fs' p = block_spans cx fs p" if "p \<in> indexed ix" for p
    using write_partitions_indexed [OF w fit fresh that] by (rule block_spans_other)
  have new: "(\<Union>b\<in>set blocks. block_spans cx fs' (bm_rel_path b)) = (\<Union>g\<in>snd ` set parts. set g)"
    using reads
    by (induction blocks parts rule: list_all2_induct) (auto simp: block_reads_def case_prod_beta block_spans_read)
  have "cold_spans cx (commit_flush n blocks ix) fs' =
      (\<Union>b\<in>set blocks. block_spans cx fs' (bm_rel_path b)) \<union> (\<Union>p\<in>indexed ix. block_spans cx fs' p)"
    by (simp add: cold_spans_def UN_Un)
  also have "(\<Union>p\<in>indexed ix. block_spans cx fs' p) = cold_spans cx ix fs"
    using old by (simp add: cold_spans_def)
  finally show ?thesis using new by blast
qed

lemma fit_partitions:
  assumes "\<forall>s\<in>set spans. span_fits cx s"
  shows "\<forall>(p, g)\<in>set (by_partition cx spans). \<forall>s\<in>set g. span_fits cx s"
proof -
  have "span_fits cx s" if "(p, g) \<in> set (by_partition cx spans)" "s \<in> set g" for p g s
    using by_partition_set [OF that(1)] that(2) assms by simp
  then show ?thesis by blast
qed

lemma flush_one_effect:
  assumes seg: "om_get (st_hot st) n = Some held" and fit: "\<forall>s\<in>set held. span_fits cx s"
    and fresh: "fresh_seqno (st_index st) n"
    and run: "flush_one cx io now v n st = (r, st')"
  shows "(st_index st' = st_index st \<and> st_hot st' = st_hot st \<and> st_wal_dir st' = st_wal_dir st
          \<and> cold_spans cx (st_index st') (st_files st') = cold_spans cx (st_index st) (st_files st)
          \<and> r \<noteq> Inr ())
     \<or> (watermark (st_index st') = n
          \<and> cold_spans cx (st_index st') (st_files st') =
              cold_spans cx (st_index st) (st_files st) \<union> set (first_copies span_key held)
          \<and> ((r = Inr () \<and> st_hot st' = drop_segment n (st_hot st)
                \<and> st_wal_dir st' = delete_segment (st_wal_dir st) n)
             \<or> (r \<noteq> Inr () \<and> st_hot st' = st_hot st \<and> st_wal_dir st' = st_wal_dir st)))"
proof -
  let ?spans = "first_copies span_key held"
  let ?parts = "by_partition cx ?spans"
  have fit': "\<forall>(p, g)\<in>set ?parts. \<forall>s\<in>set g. span_fits cx s"
    using fit first_copies_subset0 [of span_key held] by (intro fit_partitions) blast
  obtain r1 fs where w: "write_partitions cx (fi_stage io) now v n 0 ?parts (st_files st) = (r1, fs)"
    by (rule prod.exhaust)
  have old: "cold_spans cx (st_index st) fs = cold_spans cx (st_index st) (st_files st)"
    using write_partitions_indexed [OF w fit' fresh] by (rule cold_spans_other)
  show ?thesis
  proof (cases r1)
    case (Inl e)
    then have "r = Inl e" "st' = st\<lparr>st_files := fs\<rparr>"
      using run w seg by (simp_all add: flush_one_def segment_def)
    then show ?thesis using old by simp
  next
    case (Inr blocks)
    have cold: "cold_spans cx (commit_flush n blocks (st_index st)) fs =
        cold_spans cx (st_index st) (st_files st) \<union> set ?spans"
      using commit_flush_cold [OF w [unfolded Inr] fit' fresh] by (simp only: by_partition_spans)
    let ?st1 = "st\<lparr>st_files := fs, st_index := commit_flush n blocks (st_index st)\<rparr>"
    have cases: "(\<not> fi_commit io \<and> r = Inl OtherIo \<and> st' = st\<lparr>st_files := fs\<rparr>)
      \<or> (fi_commit io \<and> \<not> fi_delete io \<and> r = Inl OtherIo \<and> st' = ?st1)
      \<or> (r = Inr () \<and> st' = ?st1\<lparr>st_wal_dir := delete_segment (st_wal_dir st) n,
                                 st_hot := drop_segment n (st_hot st)\<rparr>)"
      using run w seg Inr by (simp add: flush_one_def segment_def Let_def split: if_splits)
    then show ?thesis
      by (elim disjE conjE) (simp_all add: old cold)
  qed
qed

text \<open>
  C2. The commit protocol never loses a segment: wherever a flush stops (a block write, the index
  commit, the segment's removal), afterwards either the segment is still in the hot tier and its
  log file untouched, or one span of every identity it held is in a committed, readable block; a
  flush that succeeds drops the segment from both and moves the watermark to it; and no span of
  another committed block is touched.
\<close>

theorem flush_one_never_loses:
  assumes "om_get (st_hot st) n = Some held" and "\<forall>s\<in>set held. span_fits cx s"
    and "fresh_seqno (st_index st) n"
    and "flush_one cx io now v n st = (r, st')"
  shows "cold_spans cx (st_index st) (st_files st) \<subseteq> cold_spans cx (st_index st') (st_files st')
     \<and> ((om_get (st_hot st') n = Some held \<and> st_wal_dir st' = st_wal_dir st)
        \<or> span_key ` set held \<subseteq> span_key ` cold_spans cx (st_index st') (st_files st'))
     \<and> (r = Inr () \<longrightarrow> om_get (st_hot st') n = None \<and> seg_bytes (st_wal_dir st') n = []
          \<and> watermark (st_index st') = n)
     \<and> (\<forall>m. m \<noteq> n \<longrightarrow> om_get (st_hot st') m = om_get (st_hot st) m)"
proof -
  have keys: "span_key ` set (first_copies span_key held) = span_key ` set held"
    by (simp add: copy_simps)
  from flush_one_effect [OF assms] show ?thesis
  proof (elim disjE conjE)
    assume "st_index st' = st_index st" "st_hot st' = st_hot st" "st_wal_dir st' = st_wal_dir st"
      "cold_spans cx (st_index st') (st_files st') = cold_spans cx (st_index st) (st_files st)" "r \<noteq> Inr ()"
    then show ?thesis using assms(1) by simp
  next
    assume c: "cold_spans cx (st_index st') (st_files st') =
        cold_spans cx (st_index st) (st_files st) \<union> set (first_copies span_key held)"
      and w: "watermark (st_index st') = n"
    have keys': "span_key ` set held \<subseteq> span_key ` cold_spans cx (st_index st') (st_files st')"
      unfolding c keys [symmetric] by (rule image_mono) (rule Un_upper2)
    {
      assume "r = Inr ()" "st_hot st' = drop_segment n (st_hot st)"
        "st_wal_dir st' = delete_segment (st_wal_dir st) n"
      then show ?thesis using w keys' c by simp
    next
      assume "r \<noteq> Inr ()" "st_hot st' = st_hot st" "st_wal_dir st' = st_wal_dir st"
      then show ?thesis using w keys' c by simp
    }
  qed
qed

definition demo_store :: store where
  "demo_store = \<lparr>st_wal_dir = w_dir (wal_open om_empty 3),
     st_hot = om_insert 3 [plain_span ''t'' ''a'' 5, plain_span ''t'' ''b'' 6, plain_span ''t'' ''a'' 7] om_empty,
     st_index = index_open, st_files = om_empty\<rparr>"

theorem flush_one_never_loses_witness:
  "let (r, st') = flush_one tiny_codec
       \<lparr>fi_stage = (\<lambda>_. StageOk), fi_commit = True, fi_delete = False\<rparr> 0 ''v'' 3 demo_store
   in om_get (st_hot st') 3 = om_get (st_hot demo_store) 3 \<and> st_wal_dir st' = st_wal_dir demo_store
      \<or> span_key ` set [plain_span ''t'' ''a'' 5, plain_span ''t'' ''b'' 6]
          \<subseteq> span_key ` cold_spans tiny_codec (st_index st') (st_files st')"
proof -
  let ?io = "\<lparr>fi_stage = (\<lambda>_. StageOk), fi_commit = True, fi_delete = False\<rparr>"
  let ?held = "[plain_span ''t'' ''a'' 5, plain_span ''t'' ''b'' 6, plain_span ''t'' ''a'' 7]"
  obtain r st' where run: "flush_one tiny_codec ?io 0 ''v'' 3 demo_store = (r, st')"
    by (rule prod.exhaust)
  have seg: "om_get (st_hot demo_store) 3 = Some ?held"
    by (simp add: demo_store_def map_simps)
  have fit: "\<forall>s\<in>set ?held. span_fits tiny_codec s" by simp
  have "fresh_seqno (st_index demo_store) 3"
    by (simp add: fresh_seqno_def demo_store_def)
  from flush_one_never_loses [OF seg fit this run] seg show ?thesis
    unfolding run by auto
qed

end
