(* ===== verification/Recovery.thy ===== *)
theory Recovery
  imports Flush
begin

text \<open>
  What a crash leaves of the log and what \<open>Store::open\<close> makes of it. A crash cuts every segment file
  at some byte that is not before its fsynced length; the index and the published blocks are as the
  last commit left them.
\<close>

section \<open>What a segment holds for good\<close>

text \<open>What a write that failed partway, or a crash, leaves behind the last whole frame: the start of further frames.\<close>

definition torn_tail ::
  "(normalized_span \<Rightarrow> byte list option) \<Rightarrow> (byte list \<Rightarrow> normalized_span option) \<Rightarrow> (byte list \<Rightarrow> nat)
     \<Rightarrow> byte list \<Rightarrow> bool" where
  "torn_tail ser de crc t \<longleftrightarrow> (\<exists>rs u. frames ser crc rs = t @ u \<and> (\<forall>r\<in>set rs. storable ser de crc r))"

definition seg_holds ::
  "(normalized_span \<Rightarrow> byte list option) \<Rightarrow> (byte list \<Rightarrow> normalized_span option) \<Rightarrow> (byte list \<Rightarrow> nat)
     \<Rightarrow> wal_dir \<Rightarrow> u64 \<Rightarrow> normalized_span set \<Rightarrow> bool" where
  "seg_holds ser de crc dir n durable \<longleftrightarrow>
     (\<exists>rs1 t. seg_bytes dir n = frames ser crc rs1 @ t
        \<and> (\<forall>r\<in>set rs1. storable ser de crc r) \<and> torn_tail ser de crc t
        \<and> length (frames ser crc rs1) \<le> seg_synced dir n \<and> durable \<subseteq> set rs1)"

definition wal_names_ok :: "wal_dir \<Rightarrow> bool" where
  "wal_names_ok dir \<longleftrightarrow> om_ok dir \<and> (\<forall>name\<in>set (om_keys dir). \<exists>n\<le>u64_max. name = segment_path n)"

text \<open>\<open>at_byte name\<close> is where the crash cuts the file \<open>name\<close>, if that is past what was fsynced.\<close>

definition crash_file :: "nat \<Rightarrow> seg_file \<Rightarrow> seg_file" where
  "crash_file k f = (let bs = take (max k (sf_synced f)) (sf_bytes f) in \<lparr>sf_bytes = bs, sf_synced = length bs\<rparr>)"

definition crash_dir :: "(str \<Rightarrow> nat) \<Rightarrow> wal_dir \<Rightarrow> wal_dir" where
  "crash_dir at_byte dir = map (\<lambda>(name, f). (name, crash_file (at_byte name) f)) dir"

lemma crash_get: "om_get (crash_dir at_byte dir) name = map_option (crash_file (at_byte name)) (om_get dir name)"
  unfolding om_get_def crash_dir_def by (induction dir) auto

lemma crash_keys [simp]: "om_keys (crash_dir at_byte dir) = om_keys dir"
  by (simp add: om_keys_def crash_dir_def comp_def case_prod_beta)

lemma crash_names_ok [simp]: "wal_names_ok (crash_dir at_byte dir) = wal_names_ok dir"
  by (simp add: wal_names_ok_def om_ok_def)

lemma crash_bytes:
  "seg_bytes (crash_dir at_byte dir) n =
     take (max (at_byte (segment_path n)) (seg_synced dir n)) (seg_bytes dir n)"
  "seg_synced (crash_dir at_byte dir) n = length (seg_bytes (crash_dir at_byte dir) n)"
  by (simp_all add: seg_bytes_def seg_synced_def crash_get crash_file_def Let_def split: option.splits)

lemma torn_tail_Nil [simp]: "torn_tail ser de crc []"
  unfolding torn_tail_def by (rule exI [of _ "[]"], rule exI [of _ "[]"]) simp

lemma torn_tail_frames: "\<forall>r\<in>set rs. storable ser de crc r \<Longrightarrow> torn_tail ser de crc (take k (frames ser crc rs))"
  unfolding torn_tail_def by (rule exI [of _ rs], rule exI [of _ "drop k (frames ser crc rs)"]) simp

lemma torn_tail_after:
  assumes "torn_tail ser de crc t" and "\<forall>r\<in>set rs. storable ser de crc r"
  shows "torn_tail ser de crc (frames ser crc rs @ t)"
proof -
  obtain rs' u where "frames ser crc rs' = t @ u" "\<forall>r\<in>set rs'. storable ser de crc r"
    using assms(1) unfolding torn_tail_def by blast
  then show ?thesis
    unfolding torn_tail_def using assms(2) by (intro exI [of _ "rs @ rs'"] exI [of _ u]) auto
qed

lemma seg_holds_mono: "seg_holds ser de crc dir n D \<Longrightarrow> D' \<subseteq> D \<Longrightarrow> seg_holds ser de crc dir n D'"
  unfolding seg_holds_def by blast

lemma seg_holds_same:
  "seg_bytes dir' n = seg_bytes dir n \<Longrightarrow> seg_synced dir' n = seg_synced dir n \<Longrightarrow>
     seg_holds ser de crc dir' n D = seg_holds ser de crc dir n D"
  by (simp add: seg_holds_def)

lemma seg_holds_empty: "seg_bytes dir n = [] \<Longrightarrow> seg_holds ser de crc dir n {}"
  unfolding seg_holds_def by (rule exI [of _ "[]"], rule exI [of _ "[]"]) simp

section \<open>Reading a segment after a crash\<close>

text \<open>The records a directory's segment decodes to.\<close>

definition seg_recs ::
  "(byte list \<Rightarrow> normalized_span option) \<Rightarrow> (byte list \<Rightarrow> nat) \<Rightarrow> wal_dir \<Rightarrow> u64 \<Rightarrow> normalized_span list" where
  "seg_recs de crc dir n = fst (decode_records de crc (seg_bytes dir n))"

text \<open>A segment that is whole: all of it frames, all of it fsynced.\<close>

definition seg_whole ::
  "(normalized_span \<Rightarrow> byte list option) \<Rightarrow> (byte list \<Rightarrow> normalized_span option) \<Rightarrow> (byte list \<Rightarrow> nat)
     \<Rightarrow> wal_dir \<Rightarrow> u64 \<Rightarrow> normalized_span list \<Rightarrow> bool" where
  "seg_whole ser de crc dir n rs \<longleftrightarrow> seg_bytes dir n = frames ser crc rs
     \<and> (\<forall>r\<in>set rs. storable ser de crc r) \<and> seg_synced dir n = length (seg_bytes dir n)"

lemma seg_whole_holds: "seg_whole ser de crc dir n rs \<Longrightarrow> seg_holds ser de crc dir n (set rs)"
  unfolding seg_whole_def seg_holds_def by (rule exI [of _ rs], rule exI [of _ "[]"]) simp

lemma take_min_append: "take a bs = take (min a (length bs)) (bs @ u)"
  by (cases "a \<le> length bs") simp_all

lemma seg_holds_crash:
  assumes "seg_holds ser de crc dir n D"
  obtains rs where "\<forall>r\<in>set rs. storable ser de crc r" "D \<subseteq> set rs"
    "decode_records de crc (seg_bytes (crash_dir at_byte dir) n) = (rs, length (frames ser crc rs))"
    "take (length (frames ser crc rs)) (seg_bytes (crash_dir at_byte dir) n) = frames ser crc rs"
proof -
  obtain rs1 t where h: "seg_bytes dir n = frames ser crc rs1 @ t" "\<forall>r\<in>set rs1. storable ser de crc r"
    "torn_tail ser de crc t" "length (frames ser crc rs1) \<le> seg_synced dir n" "D \<subseteq> set rs1"
    using assms unfolding seg_holds_def by blast
  obtain rs2 u where tail: "frames ser crc rs2 = t @ u" "\<forall>r\<in>set rs2. storable ser de crc r"
    using h(3) unfolding torn_tail_def by blast
  have rs: "seg_bytes dir n @ u = frames ser crc (rs1 @ rs2)" "\<forall>r\<in>set (rs1 @ rs2). storable ser de crc r"
    "length (frames ser crc rs1) \<le> seg_synced dir n" "D \<subseteq> set rs1"
    using h tail by auto
  define k where "k = min (max (at_byte (segment_path n)) (seg_synced dir n)) (length (seg_bytes dir n))"
  have img: "seg_bytes (crash_dir at_byte dir) n = take k (frames ser crc (rs1 @ rs2))"
    unfolding crash_bytes rs(1) [symmetric] k_def by (rule take_min_append)
  obtain m where m: "m \<le> length (rs1 @ rs2)"
    "decode_records de crc (take k (frames ser crc (rs1 @ rs2))) =
       (take m (rs1 @ rs2), length (frames ser crc (take m (rs1 @ rs2))))"
    "\<forall>j\<le>length (rs1 @ rs2). length (frames ser crc (take j (rs1 @ rs2))) \<le> k \<longrightarrow> j \<le> m"
    "take (length (frames ser crc (take m (rs1 @ rs2)))) (take k (frames ser crc (rs1 @ rs2)))
       = frames ser crc (take m (rs1 @ rs2))"
    using decode_take_frames [OF rs(2)] by blast
  have "length (frames ser crc (take (length rs1) (rs1 @ rs2))) \<le> k"
    using rs(3) h(1) by (simp add: k_def)
  then have "length rs1 \<le> m" using m(3) by simp
  then have "D \<subseteq> set (take m (rs1 @ rs2))" using rs(4) by auto
  moreover have "\<forall>r\<in>set (take m (rs1 @ rs2)). storable ser de crc r"
    using rs(2) by (meson in_set_takeD)
  ultimately show thesis using that [of "take m (rs1 @ rs2)"] m(2,4) img by simp
qed

section \<open>Recovery, segment by segment\<close>

definition recoverable ::
  "(normalized_span \<Rightarrow> byte list option) \<Rightarrow> (byte list \<Rightarrow> normalized_span option) \<Rightarrow> (byte list \<Rightarrow> nat)
     \<Rightarrow> wal_dir \<Rightarrow> u64 \<Rightarrow> normalized_span list \<Rightarrow> bool" where
  "recoverable ser de crc dir n rs \<longleftrightarrow>
     decode_records de crc (seg_bytes dir n) = (rs, length (frames ser crc rs))
     \<and> take (length (frames ser crc rs)) (seg_bytes dir n) = frames ser crc rs
     \<and> (\<forall>r\<in>set rs. storable ser de crc r) \<and> seg_synced dir n = length (seg_bytes dir n)"

lemma recoverable_cong:
  "om_get dir' (segment_path n) = om_get dir (segment_path n) \<Longrightarrow>
     recoverable ser de crc dir' n rs = recoverable ser de crc dir n rs"
  by (simp add: recoverable_def seg_bytes_def seg_synced_def)

lemma seg_whole_cong:
  "om_get dir' (segment_path n) = om_get dir (segment_path n) \<Longrightarrow>
     seg_whole ser de crc dir' n rs = seg_whole ser de crc dir n rs"
  by (simp add: seg_whole_def seg_bytes_def seg_synced_def)

lemma read_segment_get:
  "name \<noteq> segment_path n \<Longrightarrow> om_get (snd (read_segment de crc dir n)) name = om_get dir name"
  by (auto simp: read_segment_def map_simps case_prod_beta split: option.splits)

lemma read_recoverable:
  assumes "recoverable ser de crc dir n rs"
  shows "fst (read_segment de crc dir n) = rs" "seg_whole ser de crc (snd (read_segment de crc dir n)) n rs"
proof -
  note d = assms [unfolded recoverable_def]
  show "fst (read_segment de crc dir n) = rs" using d by (simp add: fst_read_segment)
  have bytes: "seg_bytes (snd (read_segment de crc dir n)) n = frames ser crc rs"
    using d by (simp add: seg_bytes_read_segment)
  have "seg_synced (snd (read_segment de crc dir n)) n = length (frames ser crc rs)"
  proof (cases "om_get dir (segment_path n)")
    case None
    then show ?thesis using d by (simp add: read_segment_def seg_synced_def seg_bytes_def)
  next
    case (Some f)
    then have f: "seg_bytes dir n = sf_bytes f" "seg_synced dir n = sf_synced f"
      by (simp_all add: seg_bytes_def seg_synced_def)
    show ?thesis
    proof (cases "length (frames ser crc rs) < length (sf_bytes f)")
      case True
      then show ?thesis using d Some f by (simp add: read_segment_def seg_synced_def map_simps)
    next
      case False
      have "length (frames ser crc rs) \<le> length (sf_bytes f)"
      proof -
        have "length (take (length (frames ser crc rs)) (seg_bytes dir n)) = length (frames ser crc rs)"
          by (simp only: d)
        then show ?thesis unfolding length_take f by linarith
      qed
      then have len: "length (frames ser crc rs) = length (sf_bytes f)" using False by simp
      have dec: "decode_records de crc (sf_bytes f) = (rs, length (frames ser crc rs))"
        using d [THEN conjunct1] by (simp only: f)
      have syn: "sf_synced f = length (sf_bytes f)"
        using d [THEN conjunct2, THEN conjunct2, THEN conjunct2] by (simp only: f)
      show ?thesis by (simp add: read_segment_def seg_synced_def Some dec len syn)
    qed
  qed
  then show "seg_whole ser de crc (snd (read_segment de crc dir n)) n rs"
    using bytes d by (simp add: seg_whole_def)
qed

lemma names_ok_read: "wal_names_ok dir \<Longrightarrow> wal_names_ok (snd (read_segment de crc dir n))"
proof (cases "om_get dir (segment_path n)")
  case (Some f)
  assume ok: "wal_names_ok dir"
  have "segment_path n \<in> set (om_keys dir)" using Some by (simp add: om_keys_get)
  then have "n \<le> u64_max" using ok by (auto simp: wal_names_ok_def)
  then show ?thesis
    using Some ok by (auto simp: read_segment_def wal_names_ok_def map_simps case_prod_beta)
qed (simp add: read_segment_def)

lemma names_ok_delete: "wal_names_ok dir \<Longrightarrow> wal_names_ok (delete_segment dir n)"
  by (auto simp: wal_names_ok_def delete_segment_def map_simps)

lemma delete_get: "om_get (delete_segment dir n) name = (if name = segment_path n then None else om_get dir name)"
  by (simp add: delete_segment_def map_simps)

lemma load_segments_spec:
  assumes "load_segments de crc wm seqnos dir hot mx = (dir', hot', mx')"
    and "distinct seqnos" and "wal_names_ok dir" and "om_ok hot"
    and "\<forall>n\<in>set seqnos. wm < n \<longrightarrow> recoverable ser de crc dir n (R n)"
  shows "(\<forall>n. om_get hot' n = (if n \<in> set seqnos \<and> wm < n \<and> R n \<noteq> [] then Some (R n) else om_get hot n))
     \<and> (\<forall>n\<in>set seqnos. if wm < n then seg_whole ser de crc dir' n (R n) else om_get dir' (segment_path n) = None)
     \<and> (\<forall>n. n \<notin> set seqnos \<longrightarrow> om_get dir' (segment_path n) = om_get dir (segment_path n))
     \<and> mx' = Max (insert mx {n \<in> set seqnos. wm < n}) \<and> om_ok hot' \<and> wal_names_ok dir'"
  using assms
proof (induction de crc wm seqnos dir hot mx arbitrary: dir' hot' mx' rule: load_segments.induct)
  case (2 de crc wm n rest dir hot mx)
  have dist: "n \<notin> set rest" "distinct rest" using 2(4) by auto
  show ?case
  proof (cases "n \<le> wm")
    case True
    have run: "load_segments de crc wm rest (delete_segment dir n) hot mx = (dir', hot', mx')"
      using 2(3) True by simp
    have rec: "\<forall>k\<in>set rest. wm < k \<longrightarrow> recoverable ser de crc (delete_segment dir n) k (R k)"
    proof (intro ballI impI)
      fix k assume k: "k \<in> set rest" "wm < k"
      then have "k \<noteq> n" using dist by blast
      then show "recoverable ser de crc (delete_segment dir n) k (R k)"
        using 2(7) k recoverable_cong [of "delete_segment dir n" k dir] by (simp add: delete_get)
    qed
    note IH = 2(1) [OF True run dist(2) names_ok_delete [OF 2(5)] 2(6) rec]
    have "{k \<in> set (n # rest). wm < k} = {k \<in> set rest. wm < k}" using True by auto
    then show ?thesis
      using IH True dist(1) by (auto simp: delete_get)
  next
    case False
    obtain spans dir1 where rd: "read_segment de crc dir n = (spans, dir1)" by (rule prod.exhaust)
    have "recoverable ser de crc dir n (R n)" using 2(7) False by simp
    from read_recoverable [OF this] rd
    have spans: "spans = R n" and whole: "seg_whole ser de crc dir1 n (R n)" by simp_all
    have dir1: "om_get dir1 name = om_get dir name" if "name \<noteq> segment_path n" for name
      using read_segment_get [OF that, of de crc dir] rd by simp
    have run: "load_segments de crc wm rest dir1 (load_segment n (R n) hot) (max mx n) = (dir', hot', mx')"
      using 2(3) False rd spans by simp
    have rec: "\<forall>k\<in>set rest. wm < k \<longrightarrow> recoverable ser de crc dir1 k (R k)"
    proof (intro ballI impI)
      fix k assume k: "k \<in> set rest" "wm < k"
      then have "k \<noteq> n" using dist by blast
      then show "recoverable ser de crc dir1 k (R k)"
        using 2(7) k recoverable_cong [of dir1 k dir] by (simp add: dir1)
    qed
    have names: "wal_names_ok dir1" using names_ok_read [OF 2(5), of de crc n] rd by simp
    note IH = 2(2) [OF False rd [symmetric] run [folded spans] dist(2) names _ rec]
    have IH': "(\<forall>k. om_get hot' k = (if k \<in> set rest \<and> wm < k \<and> R k \<noteq> [] then Some (R k)
          else om_get (load_segment n (R n) hot) k))
       \<and> (\<forall>k\<in>set rest. if wm < k then seg_whole ser de crc dir' k (R k) else om_get dir' (segment_path k) = None)
       \<and> (\<forall>k. k \<notin> set rest \<longrightarrow> om_get dir' (segment_path k) = om_get dir1 (segment_path k))
       \<and> mx' = Max (insert (max mx n) {k \<in> set rest. wm < k}) \<and> om_ok hot' \<and> wal_names_ok dir'"
      using IH 2(6) spans by simp
    have "om_get dir' (segment_path n) = om_get dir1 (segment_path n)" using IH' dist(1) by blast
    then have whole': "seg_whole ser de crc dir' n (R n)"
      using whole seg_whole_cong [of dir' n dir1] by simp
    have "{k \<in> set (n # rest). wm < k} = insert n {k \<in> set rest. wm < k}" using False by auto
    moreover have "Max (insert (max mx n) A) = Max (insert mx (insert n A))" if "finite A" for A
      using that by (cases "A = {}") (simp_all add: max.assoc)
    ultimately have mx': "mx' = Max (insert mx {k \<in> set (n # rest). wm < k})"
      using IH' by simp
    have hot': "\<forall>k. om_get hot' k = (if k \<in> set (n # rest) \<and> wm < k \<and> R k \<noteq> [] then Some (R k) else om_get hot k)"
      using IH' False dist(1) by auto
    show ?thesis
      using IH' hot' whole' mx' dir1 False by auto
  qed
qed auto

lemma canonical_seqnos:
  assumes "wal_names_ok dir"
  shows "set (list_segment_seqnos dir) = {n. n \<le> u64_max \<and> segment_path n \<in> set (om_keys dir)}"
    "distinct (list_segment_seqnos dir)"
proof -
  have ok: "\<exists>n\<le>u64_max. name = segment_path n" if "name \<in> set (om_keys dir)" for name
    using assms that by (auto simp: wal_names_ok_def)
  show "set (list_segment_seqnos dir) = {n. n \<le> u64_max \<and> segment_path n \<in> set (om_keys dir)}"
  proof (intro set_eqI iffI)
    fix n assume "n \<in> set (list_segment_seqnos dir)"
    then obtain name where name: "name \<in> set (om_keys dir)" "seqno_of_name name = Some n"
      by (auto simp: in_seqnos)
    with ok [OF name(1)] show "n \<in> {n. n \<le> u64_max \<and> segment_path n \<in> set (om_keys dir)}" by auto
  next
    fix n assume n: "n \<in> {n. n \<le> u64_max \<and> segment_path n \<in> set (om_keys dir)}"
    then have "seqno_of_name (segment_path n) = Some n" by simp
    then show "n \<in> set (list_segment_seqnos dir)" unfolding in_seqnos using n by blast
  qed
  have inj: "inj_on seqno_of_name (set (om_keys dir))"
  proof (rule inj_onI)
    fix a b assume "a \<in> set (om_keys dir)" "b \<in> set (om_keys dir)" "seqno_of_name a = seqno_of_name b"
    moreover from this ok obtain n m where "n \<le> u64_max" "a = segment_path n" "m \<le> u64_max" "b = segment_path m"
      by meson
    ultimately show "a = b" by simp
  qed
  have "distinct (List.map_filter f xs)" if "distinct xs" "inj_on f (set xs)" for f :: "str \<Rightarrow> u64 option" and xs
    using that
  proof (induction xs)
    case (Cons x xs)
    have "y \<notin> set (List.map_filter f xs)" if "f x = Some y" for y
      using Cons.prems that by (auto simp: List.map_filter_def inj_on_def)
    then show ?case using Cons by (auto simp: map_filter_simps inj_on_def split: option.splits)
  qed (simp add: map_filter_simps)
  moreover have "distinct (om_keys dir)"
    using assms om_ok_distinct by (auto simp: wal_names_ok_def)
  ultimately show "distinct (list_segment_seqnos dir)"
    using inj by (simp add: list_segment_seqnos_def)
qed

lemma sweep_get: "om_get (sweep_orphans ix fs) p = (if is_orphan ix p then None else om_get fs p)"
  unfolding om_get_def sweep_orphans_def by (induction fs) auto

lemma sweep_om_ok: "om_ok fs \<Longrightarrow> om_ok (sweep_orphans ix fs)"
  by (simp add: om_ok_def om_keys_def sweep_orphans_def sorted_wrt_map sorted_wrt_filter)

lemma not_orphan: "p \<in> indexed ix \<Longrightarrow> \<not> ends_with ''.tmp'' p \<Longrightarrow> \<not> is_orphan ix p"
  by (simp add: is_orphan_def indexed_def)

lemma open_segment_get:
  "om_get (open_segment_file dir n) name =
     (if name = segment_path n then Some (case om_get dir name of None \<Rightarrow> \<lparr>sf_bytes = [], sf_synced = 0\<rparr> | Some f \<Rightarrow> f)
      else om_get dir name)"
  by (auto simp: open_segment_file_def map_simps)

lemma open_names_ok: "wal_names_ok dir \<Longrightarrow> n \<le> u64_max \<Longrightarrow> wal_names_ok (open_segment_file dir n)"
  by (auto simp: wal_names_ok_def open_segment_file_def om_alter_def map_simps)

text \<open>Everything \<open>Store::open\<close> establishes, from a directory whose segments can be recovered.\<close>

lemma store_open_spec:
  assumes names: "wal_names_ok dir" and rec: "\<forall>n. wm < n \<longrightarrow> recoverable ser de crc dir n (R n)"
    and wm: "wm = watermark ix"
    and run: "store_open de crc dir ix fs = (st, w, active)"
  shows "st_index st = ix" "st_files st = sweep_orphans ix fs" "om_ok (st_hot st)"
    "w_dir w = st_wal_dir st" "w_active_seqno w = active" "w_active_count w = 0" "wm < active"
    "\<And>n. om_get (st_hot st) n = (if wm < n \<and> R n \<noteq> [] then Some (R n) else None)"
    "\<And>n. wm < n \<Longrightarrow> seg_whole ser de crc (st_wal_dir st) n (R n)"
    "\<And>n. n \<le> wm \<Longrightarrow> seg_bytes (st_wal_dir st) n = []"
    "\<And>n. active \<le> n \<Longrightarrow> seg_bytes (st_wal_dir st) n = []"
    "active \<le> u64_max \<Longrightarrow> wal_names_ok (st_wal_dir st)"
    "active = wm + 1 \<or> (\<exists>n. active = n + 1 \<and> segment_path n \<in> set (om_keys dir))"
proof -
  let ?seqnos = "list_segment_seqnos dir"
  obtain dir' hot mx where ld: "load_segments de crc wm ?seqnos dir om_empty wm = (dir', hot, mx)"
    by (metis prod_cases3)
  note S = canonical_seqnos [OF names]
  have spec: "(\<forall>n. om_get hot n = (if n \<in> set ?seqnos \<and> wm < n \<and> R n \<noteq> [] then Some (R n) else om_get om_empty n))
     \<and> (\<forall>n\<in>set ?seqnos. if wm < n then seg_whole ser de crc dir' n (R n) else om_get dir' (segment_path n) = None)
     \<and> (\<forall>n. n \<notin> set ?seqnos \<longrightarrow> om_get dir' (segment_path n) = om_get dir (segment_path n))
     \<and> mx = Max (insert wm {n \<in> set ?seqnos. wm < n}) \<and> om_ok hot \<and> wal_names_ok dir'"
    by (rule load_segments_spec [OF ld S(2) names om_ok_empty]) (use rec in blast)
  have absent: "om_get dir (segment_path n) = None" if "n \<notin> set ?seqnos" for n
  proof (rule ccontr)
    assume "om_get dir (segment_path n) \<noteq> None"
    then have "segment_path n \<in> set (om_keys dir)" by (simp add: om_keys_get)
    then have "n \<le> u64_max" using names by (auto simp: wal_names_ok_def)
    with \<open>segment_path n \<in> set (om_keys dir)\<close> that S(1) show False by blast
  qed
  have noR: "R n = []" if "n \<notin> set ?seqnos" "wm < n" for n
    using rec that absent [OF that(1)] by (auto simp: recoverable_def seg_bytes_def)
  have st: "active = mx + 1" "w = wal_open dir' active" "st_wal_dir st = w_dir w" "st_hot st = hot"
    "st_index st = ix" "st_files st = sweep_orphans ix fs"
    using run by (auto simp: store_open_def Let_def wm [symmetric] ld)
  have mx: "wm \<le> mx" "\<And>n. n \<in> set ?seqnos \<Longrightarrow> wm < n \<Longrightarrow> n \<le> mx"
    using spec by (auto intro: Max_ge)
  have sdir: "st_wal_dir st = open_segment_file dir' active"
    using st by (simp add: wal_open_def)
  show "st_index st = ix" "st_files st = sweep_orphans ix fs" "om_ok (st_hot st)"
    "w_dir w = st_wal_dir st" "w_active_seqno w = active" "w_active_count w = 0"
    using st spec by (simp_all add: wal_open_def)
  show "wm < active" using st(1) mx(1) by simp
  show "om_get (st_hot st) n = (if wm < n \<and> R n \<noteq> [] then Some (R n) else None)" for n
    using spec noR [of n] st by (auto simp: map_simps)
  have empty: "seg_whole ser de crc (st_wal_dir st) n []"
    if "om_get dir' (segment_path n) = None" for n
    unfolding sdir seg_whole_def
    using that by (cases "n = active") (auto simp: seg_bytes_def seg_synced_def open_segment_get)
  have none': "om_get dir' (segment_path n) = None" if "n \<notin> set ?seqnos \<or> n \<le> wm" for n
    using that spec absent [of n] by (cases "n \<in> set ?seqnos") auto
  show "seg_whole ser de crc (st_wal_dir st) n (R n)" if "wm < n" for n
  proof (cases "n \<in> set ?seqnos")
    case True
    then have "n \<noteq> active" using mx(2) [of n] that st(1) by auto
    then have "om_get (st_wal_dir st) (segment_path n) = om_get dir' (segment_path n)"
      unfolding sdir by (simp add: open_segment_get)
    then show ?thesis using spec True that seg_whole_cong by metis
  next
    case False
    then show ?thesis using empty none' noR that by simp
  qed
  show "seg_bytes (st_wal_dir st) n = []" if "n \<le> wm" for n
    using empty [of n] none' [of n] that by (simp add: seg_whole_def)
  show "seg_bytes (st_wal_dir st) n = []" if "active \<le> n" for n
  proof -
    have "n \<notin> set ?seqnos \<or> n \<le> wm" using mx(2) [of n] that st(1) by (cases "wm < n") auto
    then show ?thesis using empty [of n] none' [of n] by (simp add: seg_whole_def)
  qed
  show "wal_names_ok (st_wal_dir st)" if "active \<le> u64_max"
    using open_names_ok spec that sdir by simp
  have "mx \<in> insert wm {n \<in> set ?seqnos. wm < n}"
    using spec by (metis (no_types, lifting) Max_in finite_insert finite_set insert_not_empty rev_finite_subset mem_Collect_eq subsetI)
  then show "active = wm + 1 \<or> (\<exists>n. active = n + 1 \<and> segment_path n \<in> set (om_keys dir))"
    using st(1) S(1) by auto
qed

text \<open>The records recovery finds in a segment are those the crash left whole.\<close>

lemma crash_recoverable:
  assumes "seg_holds ser de crc dir n D"
  shows "recoverable ser de crc (crash_dir at_byte dir) n (seg_recs de crc (crash_dir at_byte dir) n)"
    "D \<subseteq> set (seg_recs de crc (crash_dir at_byte dir) n)"
proof -
  obtain rs where rs: "\<forall>r\<in>set rs. storable ser de crc r" "D \<subseteq> set rs"
    "decode_records de crc (seg_bytes (crash_dir at_byte dir) n) = (rs, length (frames ser crc rs))"
    "take (length (frames ser crc rs)) (seg_bytes (crash_dir at_byte dir) n) = frames ser crc rs"
    using seg_holds_crash [OF assms] by blast
  have e: "seg_recs de crc (crash_dir at_byte dir) n = rs" by (simp add: seg_recs_def rs(3))
  show "D \<subseteq> set (seg_recs de crc (crash_dir at_byte dir) n)" unfolding e by (rule rs(2))
  show "recoverable ser de crc (crash_dir at_byte dir) n (seg_recs de crc (crash_dir at_byte dir) n)"
    unfolding e recoverable_def using rs crash_bytes(2) by blast
qed

lemma whole_recoverable:
  assumes "seg_whole ser de crc dir n rs"
  shows "recoverable ser de crc (crash_dir at_byte dir) n rs"
proof -
  have "seg_bytes (crash_dir at_byte dir) n = seg_bytes dir n"
    using assms by (simp add: crash_bytes seg_whole_def)
  then show ?thesis
    using assms decode_frames [of rs ser de crc]
    by (simp add: recoverable_def seg_whole_def crash_bytes(2))
qed

lemma sweep_indexed:
  assumes "\<forall>p\<in>indexed ix. \<not> ends_with ''.tmp'' p" and "p \<in> indexed ix"
  shows "om_get (sweep_orphans ix fs) p = om_get fs p"
  using assms not_orphan [of p ix] by (simp add: sweep_get)

lemma sweep_cold: "\<forall>p\<in>indexed ix. \<not> ends_with ''.tmp'' p \<Longrightarrow> cold_spans cx ix (sweep_orphans ix fs) = cold_spans cx ix fs"
  by (rule cold_spans_other) (rule sweep_indexed)

text \<open>
  C3. A crash loses nothing that was acknowledged: let the log hold, for each segment, a set of fsynced
  spans, and let the crash cut every file anywhere past its fsynced bytes. Then opening the store
  puts every such span of the segments above the watermark back into the hot tier, leaves every
  committed block readable as it was, and starts a fresh, empty active segment above all others.
\<close>

theorem recovery_keeps_durable_spans:
  assumes "wal_names_ok dir" and "\<forall>n. seg_holds ser de crc dir n (D n)"
    and "\<forall>p\<in>indexed ix. \<not> ends_with ''.tmp'' p"
    and "store_open de crc (crash_dir at_byte dir) ix fs = (st, w, active)"
  shows "(\<forall>n>watermark ix. D n \<subseteq> set (case om_get (st_hot st) n of None \<Rightarrow> [] | Some held \<Rightarrow> held))
     \<and> cold_spans cx (st_index st) (st_files st) = cold_spans cx ix fs
     \<and> (\<forall>n held. om_get (st_hot st) n = Some held \<longrightarrow> watermark ix < n \<and> n < active)
     \<and> seg_bytes (st_wal_dir st) active = [] \<and> w_active_seqno w = active"
proof -
  let ?R = "seg_recs de crc (crash_dir at_byte dir)"
  have rec: "\<forall>n. watermark ix < n \<longrightarrow> recoverable ser de crc (crash_dir at_byte dir) n (?R n)"
    using crash_recoverable(1) assms(2) by blast
  note spec = store_open_spec [OF _ rec refl assms(4)]
  have names: "wal_names_ok (crash_dir at_byte dir)" using assms(1) by simp
  have "D n \<subseteq> set (case om_get (st_hot st) n of None \<Rightarrow> [] | Some held \<Rightarrow> held)" if "watermark ix < n" for n
  proof -
    have "D n \<subseteq> set (?R n)" using crash_recoverable(2) assms(2) by blast
    then show ?thesis using that spec(8) [OF names, of n] by (cases "?R n = []") auto
  qed
  moreover have "n < active" if "om_get (st_hot st) n = Some held" for n held
  proof (rule ccontr)
    assume "\<not> n < active"
    then have "seg_bytes (st_wal_dir st) n = []" using spec(11) [OF names, of n] by simp
    moreover have "?R n \<noteq> []" "watermark ix < n" using that spec(8) [OF names, of n] by (auto split: if_splits)
    ultimately have "frames ser crc (?R n) = []" "\<forall>r\<in>set (?R n). storable ser de crc r"
      using spec(9) [OF names, of n] by (auto simp: seg_whole_def)
    then show False
      using \<open>?R n \<noteq> []\<close> length_frame [of ser de crc "hd (?R n)"]
      by (cases "?R n") (auto simp: frame_header_len_def)
  qed
  ultimately show ?thesis
    using spec(1,2,5) spec(8,11) names sweep_cold [OF assms(3)] by (auto split: if_splits)
qed

definition demo_dir :: wal_dir where
  "demo_dir = om_insert (segment_path 3) \<lparr>sf_bytes = frames demo_ser tiny_crc [demo_span], sf_synced = 9\<rparr> om_empty"

lemma demo_dir_holds: "seg_holds demo_ser demo_de tiny_crc demo_dir n (if n = 3 then {demo_span} else {})"
proof (cases "n = 3")
  case True
  have "length (frame demo_ser tiny_crc demo_span) = 9"
    by (simp add: frame_def encode_record_def demo_ser_def)
  then show ?thesis
    unfolding seg_holds_def
    by (intro exI [of _ "[demo_span]"] exI [of _ "[]"])
      (simp add: True seg_bytes_def seg_synced_def demo_dir_def map_simps)
next
  case False
  then show ?thesis
    using seg_holds_empty [of demo_dir n] by (simp add: seg_bytes_def demo_dir_def map_simps)
qed

lemma demo_dir_names: "wal_names_ok demo_dir"
  by (auto simp: wal_names_ok_def demo_dir_def map_simps u64_max_def) (simp add: om_keys_def om_empty_def)

theorem recovery_keeps_durable_spans_witness:
  "\<exists>st w active. store_open demo_de tiny_crc (crash_dir (\<lambda>_. 0) demo_dir) index_open om_empty = (st, w, active)
     \<and> demo_span \<in> set (case om_get (st_hot st) 3 of None \<Rightarrow> [] | Some held \<Rightarrow> held)"
proof -
  obtain st w active where run: "store_open demo_de tiny_crc (crash_dir (\<lambda>_. 0) demo_dir) index_open om_empty = (st, w, active)"
    by (metis prod_cases3)
  have "\<forall>n. seg_holds demo_ser demo_de tiny_crc demo_dir n (if n = 3 then {demo_span} else {})"
    using demo_dir_holds by blast
  from recovery_keeps_durable_spans [OF demo_dir_names this _ run] have
    "\<forall>n>0. (if n = 3 then {demo_span} else {}) \<subseteq> set (case om_get (st_hot st) n of None \<Rightarrow> [] | Some held \<Rightarrow> held)"
    by simp
  then have "{demo_span} \<subseteq> set (case om_get (st_hot st) 3 of None \<Rightarrow> [] | Some held \<Rightarrow> held)"
    by (metis zero_less_numeral)
  then show ?thesis using run by blast
qed

text \<open>
  C33. Opening is idempotent: a crash right after an open, before anything else is written, and a second
  open find the same hot tier, the same index and the same block files, so a crash loop never
  loses or duplicates a span.
\<close>

theorem recovery_idempotent:
  assumes "wal_names_ok dir" and "\<forall>n. seg_holds ser de crc dir n (D n)"
    and "store_open de crc (crash_dir at_byte dir) ix fs = (st, w, active)" and "active \<le> u64_max"
    and "store_open de crc (crash_dir at_byte' (st_wal_dir st)) (st_index st) (st_files st) = (st', w', active')"
  shows "st_hot st' = st_hot st \<and> st_index st' = st_index st \<and> st_files st' = st_files st"
proof -
  let ?R = "seg_recs de crc (crash_dir at_byte dir)"
  have rec: "\<forall>n. watermark ix < n \<longrightarrow> recoverable ser de crc (crash_dir at_byte dir) n (?R n)"
    using crash_recoverable(1) assms(2) by blast
  have names: "wal_names_ok (crash_dir at_byte dir)" using assms(1) by simp
  note spec = store_open_spec [OF names rec refl assms(3)]
  have rec': "\<forall>n. watermark ix < n \<longrightarrow> recoverable ser de crc (crash_dir at_byte' (st_wal_dir st)) n (?R n)"
    using spec(9) whole_recoverable by blast
  have names': "wal_names_ok (crash_dir at_byte' (st_wal_dir st))"
    using spec(12) assms(4) by simp
  have ix: "watermark ix = watermark (st_index st)" using spec(1) by simp
  note spec' = store_open_spec [OF names' rec' ix assms(5)]
  have "st_hot st' = st_hot st"
    by (rule om_ext [OF spec'(3) spec(3)]) (simp only: spec'(8) spec(8))
  moreover have "sweep_orphans ix (sweep_orphans ix fs) = sweep_orphans ix fs"
    by (simp add: sweep_orphans_def)
  ultimately show ?thesis using spec'(1,2) spec(1,2) by simp
qed

theorem recovery_idempotent_witness:
  "\<exists>st w active st' w' active'.
     store_open demo_de tiny_crc (crash_dir (\<lambda>_. 0) demo_dir) index_open om_empty = (st, w, active)
     \<and> store_open demo_de tiny_crc (crash_dir (\<lambda>_. 5) (st_wal_dir st)) (st_index st) (st_files st) = (st', w', active')
     \<and> st_hot st' = st_hot st"
proof -
  obtain st w active where run: "store_open demo_de tiny_crc (crash_dir (\<lambda>_. 0) demo_dir) index_open om_empty = (st, w, active)"
    by (metis prod_cases3)
  obtain st' w' active' where run': "store_open demo_de tiny_crc (crash_dir (\<lambda>_. 5) (st_wal_dir st))
      (st_index st) (st_files st) = (st', w', active')"
    by (metis prod_cases3)
  have h: "\<forall>n. seg_holds demo_ser demo_de tiny_crc demo_dir n (if n = 3 then {demo_span} else {})"
    using demo_dir_holds by blast
  have rec: "\<forall>n. 0 < n \<longrightarrow> recoverable demo_ser demo_de tiny_crc (crash_dir (\<lambda>_. 0) demo_dir) n
      (seg_recs demo_de tiny_crc (crash_dir (\<lambda>_. 0) demo_dir) n)"
    using crash_recoverable(1) h by blast
  have names: "wal_names_ok (crash_dir (\<lambda>_. 0) demo_dir)" using demo_dir_names by simp
  have "0 = watermark index_open" by simp
  from store_open_spec(13) [OF names rec this run] have "active \<le> u64_max"
    by (auto simp: demo_dir_def map_simps u64_max_def) (simp add: om_keys_def om_empty_def)
  from recovery_idempotent [OF demo_dir_names h run this run'] show ?thesis
    using run run' by blast
qed

end
