(* ===== verification/Merge.thy ===== *)
theory Merge
  imports Flush
begin

text \<open>
  Cold-to-cold compaction (\<^verbatim>\<open>src/store/merge.rs\<close>): the planner (slots of the partition tree, size
  tiers, row-capped chunks), the rewrite of a chunk as one block with its commit protocol, the pass
  over hours and closed days, and the aged sweep of files the index does not name. Times are
  nanosecond counts; the calendar day and the clock are arguments.
\<close>

record merge_policy =
  mp_hour_threshold :: usize
  mp_max_spans_per_block :: usize
  mp_day_merge :: bool
  mp_day_quiet :: nat
  mp_unlink_grace :: nat

definition merge_policy_default :: merge_policy where
  "merge_policy_default = \<lparr>mp_hour_threshold = 16, mp_max_spans_per_block = 1000000,
     mp_day_merge = True, mp_day_quiet = 3600 * 10 ^ 9, mp_unlink_grace = 60 * 10 ^ 9\<rparr>"

definition merge_enabled :: "merge_policy \<Rightarrow> bool" where
  "merge_enabled p \<longleftrightarrow> 0 < mp_hour_threshold p"

datatype merge_scope = Tick | FullScope

record merge_report =
  mr_merges :: usize
  mr_blocks_in :: usize
  mr_blocks_out :: usize
  mr_spans :: u64
  mr_bytes_in :: u64
  mr_bytes_out :: u64
  mr_dry_run :: bool

definition empty_report :: "bool \<Rightarrow> merge_report" where
  "empty_report dry_run = \<lparr>mr_merges = 0, mr_blocks_in = 0, mr_blocks_out = 0, mr_spans = 0,
     mr_bytes_in = 0, mr_bytes_out = 0, mr_dry_run = dry_run\<rparr>"

definition is_noop :: "merge_report \<Rightarrow> bool" where
  "is_noop r \<longleftrightarrow> mr_merges r = 0"

record candidate =
  cd_rel :: str
  cd_rows :: u64
  cd_bytes :: u64
  cd_modified :: "nat option"
  cd_seqno_lo :: u64
  cd_seqno_hi :: u64
  cd_price_tables :: "str list"

section \<open>The partition tree\<close>

datatype slot = Hour str str | Day str

definition numeric :: "str \<Rightarrow> bool" where
  "numeric s \<longleftrightarrow> 2 \<le> length s \<and> list_all is_digit s"

definition slot_of :: "str \<Rightarrow> slot option" where
  "slot_of rel =
     (let parts = split_on (CHR ''/'') rel
      in if hd parts \<noteq> blocks_subdir \<or> \<not> ends_with ''.parquet'' rel then None
         else if length parts = 6 \<and> list_all numeric (take 4 (drop 1 parts)) then
           Some (Hour (join_with (CHR ''/'') (take 5 parts)) (join_with (CHR ''/'') (take 4 parts)))
         else if length parts = 5 \<and> list_all numeric (take 3 (drop 1 parts)) then
           Some (Day (join_with (CHR ''/'') (take 4 parts)))
         else None)"

definition day_is_closed :: "str \<Rightarrow> str \<Rightarrow> bool" where
  "day_is_closed day_dir today =
     (case strip_prefix ''blocks/'' day_dir of None \<Rightarrow> False | Some d \<Rightarrow> d < today)"

type_synonym grouped = "(str, str list) omap"

definition grp_push :: "str \<Rightarrow> str \<Rightarrow> grouped \<Rightarrow> grouped" where
  "grp_push dir rel g = om_alter dir [] (\<lambda>rels. rels @ [rel]) g"

definition group_blocks :: "index \<Rightarrow> grouped \<times> grouped" where
  "group_blocks ix =
     fold (\<lambda>(rel, _) (hours, days).
        case slot_of rel of
          Some (Hour hour day) \<Rightarrow> (grp_push hour rel hours, grp_push day rel days)
        | Some (Day day) \<Rightarrow> (hours, grp_push day rel days)
        | None \<Rightarrow> (hours, days))
       (blocks_with_max_start ix) (om_empty, om_empty)"

section \<open>Planning\<close>

fun candidates :: "codec \<Rightarrow> files \<Rightarrow> str list \<Rightarrow> io_error + candidate list" where
  "candidates cx fs [] = Inr []"
| "candidates cx fs (rel # rels) =
     (case om_get fs rel of
        None \<Rightarrow> candidates cx fs rels
      | Some f \<Rightarrow>
          (case read_provenance cx fs rel of
             Inl e \<Rightarrow> Inl e
           | Inr (prov, rows) \<Rightarrow>
               (case candidates cx fs rels of
                  Inl e \<Rightarrow> Inl e
                | Inr cs \<Rightarrow>
                    Inr (\<lparr>cd_rel = rel, cd_rows = rows, cd_bytes = cx_file_len cx (bf_batches f),
                          cd_modified = Some (bf_mtime f), cd_seqno_lo = pv_seqno_lo prov,
                          cd_seqno_hi = pv_seqno_hi prov, cd_price_tables = pv_price_tables prov\<rparr> # cs))))"

definition is_quiet :: "candidate list \<Rightarrow> nat \<Rightarrow> nat \<Rightarrow> bool" where
  "is_quiet cands now quiet =
     list_all (\<lambda>c. case cd_modified c of
        None \<Rightarrow> False
      | Some m \<Rightarrow> m \<le> now \<and> quiet \<le> now - m) cands"

fun ilog2 :: "nat \<Rightarrow> nat" where
  "ilog2 n = (if n < 2 then 0 else Suc (ilog2 (n div 2)))"

declare ilog2.simps [simp del]

definition tier :: "u64 \<Rightarrow> nat" where
  "tier rows = ilog2 (max rows 1)"

text \<open>The loop of \<open>chunks\<close>: the current chunk, its row count, and what is left.\<close>

fun chunk_loop :: "nat \<Rightarrow> candidate list \<Rightarrow> u64 \<Rightarrow> candidate list \<Rightarrow> candidate list list" where
  "chunk_loop mx current rows [] = (if current \<noteq> [] then [current] else [])"
| "chunk_loop mx current rows (c # cs) =
     (if current \<noteq> [] \<and> mx < sat_add rows (cd_rows c)
      then current # chunk_loop mx [c] (sat_add 0 (cd_rows c)) cs
      else chunk_loop mx (current @ [c]) (sat_add rows (cd_rows c)) cs)"

definition chunks :: "candidate list \<Rightarrow> usize \<Rightarrow> candidate list list" where
  "chunks cands max_spans =
     chunk_loop (max max_spans 1) [] 0 (sort_key (\<lambda>c. (cd_seqno_lo c, cd_rel c)) cands)"

section \<open>Rewriting the rows\<close>

fun keep_flags :: "'k set \<Rightarrow> 'k list \<Rightarrow> bool list \<times> 'k set" where
  "keep_flags seen [] = ([], seen)"
| "keep_flags seen (k # ks) =
     (let (flags, seen') = keep_flags (insert k seen) ks in ((k \<notin> seen) # flags, seen'))"

definition batch_first_copies :: "column list \<Rightarrow> span_key set \<Rightarrow> io_error + (column list \<times> u64 \<times> span_key set)" where
  "batch_first_copies b seen =
     (case (str_col b 1, str_col b 2) of
        (Some traces, Some spans) \<Rightarrow>
          let (keep, seen') = keep_flags seen
                (map (\<lambda>i. key_of (str_val traces i) (str_val spans i)) [0..<batch_rows b]);
              dropped = length (filter (\<lambda>k. \<not> k) keep)
          in Inr ((if dropped = 0 then b else filter_record_batch keep b), dropped, seen')
      | _ \<Rightarrow> Inl InvalidData)"

definition collect_keys :: "column list \<Rightarrow> str list \<Rightarrow> u64 \<Rightarrow> io_error + (str list \<times> u64)" where
  "collect_keys b traces mx =
     (case (str_col b 1, u64_col b 7) of
        (Some ts, Some starts) \<Rightarrow>
          Inr (trace_set (traces @ map (str_val ts) [0..<batch_rows b]),
               foldl (\<lambda>m i. case starts ! i of None \<Rightarrow> m | Some v \<Rightarrow> max m v) mx [0..<batch_rows b])
      | _ \<Rightarrow> Inl InvalidData)"

record merge_acc =
  ma_per_input :: "(str \<times> str list) list"
  ma_all_traces :: "str list"
  ma_max_start :: u64
  ma_rows_written :: u64
  ma_seen :: "span_key set"
  ma_copies :: u64
  ma_out :: "column list list"

text \<open>The batches of one input.\<close>

fun merge_batches :: "column list list \<Rightarrow> str list \<Rightarrow> merge_acc \<Rightarrow> io_error + (str list \<times> merge_acc)" where
  "merge_batches [] traces acc = Inr (traces, acc)"
| "merge_batches (b # bs) traces acc =
     (case try_new schema b of
        None \<Rightarrow> Inl InvalidData
      | Some b' \<Rightarrow>
          (case collect_keys b' traces (ma_max_start acc) of
             Inl e \<Rightarrow> Inl e
           | Inr (traces', mx) \<Rightarrow>
               (case batch_first_copies b' (ma_seen acc) of
                  Inl e \<Rightarrow> Inl e
                | Inr (kept, dropped, seen') \<Rightarrow>
                    merge_batches bs traces'
                      (acc\<lparr>ma_max_start := mx, ma_seen := seen', ma_copies := ma_copies acc + dropped,
                           ma_rows_written := ma_rows_written acc + batch_rows kept,
                           ma_out := (if 0 < batch_rows kept then ma_out acc @ [kept] else ma_out acc)\<rparr>))))"

fun merge_inputs :: "files \<Rightarrow> candidate list \<Rightarrow> merge_acc \<Rightarrow> io_error + merge_acc" where
  "merge_inputs fs [] acc = Inr acc"
| "merge_inputs fs (c # cs) acc =
     (case om_get fs (cd_rel c) of
        None \<Rightarrow> Inl NotFound
      | Some f \<Rightarrow>
          (case merge_batches (bf_batches f) [] acc of
             Inl e \<Rightarrow> Inl e
           | Inr (traces, acc') \<Rightarrow>
               merge_inputs fs cs
                 (acc'\<lparr>ma_all_traces := trace_set (ma_all_traces acc' @ traces),
                       ma_per_input := ma_per_input acc' @ [(cd_rel c, traces)]\<rparr>)))"

definition merge_acc_start :: merge_acc where
  "merge_acc_start = \<lparr>ma_per_input = [], ma_all_traces = [], ma_max_start = 0, ma_rows_written = 0,
     ma_seen = {}, ma_copies = 0, ma_out = []\<rparr>"

text \<open>
  How the file system and the index answer: how far the output's write gets, after how many inputs a
  retirement stamp fails (\<open>None\<close>: none does), whether the commit succeeds.
\<close>

record merge_io =
  mi_stage :: write_stage
  mi_stamp_fails :: "nat option"
  mi_commit :: bool

definition good_merge_io :: merge_io where
  "good_merge_io = \<lparr>mi_stage = StageOk, mi_stamp_fails = None, mi_commit = True\<rparr>"

definition mark_retired :: "nat \<Rightarrow> str \<Rightarrow> files \<Rightarrow> files" where
  "mark_retired now rel fs =
     (case om_get fs rel of None \<Rightarrow> fs | Some f \<Rightarrow> om_insert rel (f\<lparr>bf_mtime := now\<rparr>) fs)"

record merge_state =
  ms_index :: index
  ms_files :: files
  ms_report :: merge_report

definition merge_stem :: "str \<Rightarrow> candidate list \<Rightarrow> str" where
  "merge_stem prefx chunk =
     prefx @ ''-'' @ dec020 (case map cd_seqno_lo chunk of [] \<Rightarrow> 0 | l # ls \<Rightarrow> foldl min l ls)
       @ ''-'' @ dec020 (case map cd_seqno_hi chunk of [] \<Rightarrow> 0 | h # hs \<Rightarrow> foldl max h hs)"

definition out_path :: "str \<Rightarrow> str \<Rightarrow> candidate list \<Rightarrow> str" where
  "out_path out_dir prefx chunk = parquet_path out_dir (merge_stem prefx chunk)"

definition merge_chunk ::
  "codec \<Rightarrow> merge_io \<Rightarrow> nat \<Rightarrow> str \<Rightarrow> str \<Rightarrow> candidate list \<Rightarrow> bool \<Rightarrow> merge_state
     \<Rightarrow> (io_error + unit) \<times> merge_state" where
  "merge_chunk cx io now out_dir prefx chunk dry_run s =
     (let seqno_lo = (case map cd_seqno_lo chunk of [] \<Rightarrow> 0 | l # ls \<Rightarrow> foldl min l ls);
          seqno_hi = (case map cd_seqno_hi chunk of [] \<Rightarrow> 0 | h # hs \<Rightarrow> foldl max h hs);
          out_rel = out_path out_dir prefx chunk;
          tmp = tmp_path out_dir (merge_stem prefx chunk)
      in if list_ex (\<lambda>c. cd_rel c = out_rel) chunk then (Inr (), s)
         else
           let r = ms_report s;
               s1 = s\<lparr>ms_report := r\<lparr>mr_merges := mr_merges r + 1, mr_blocks_in := mr_blocks_in r + length chunk,
                       mr_blocks_out := mr_blocks_out r + 1, mr_spans := mr_spans r + sum_list (map cd_rows chunk),
                       mr_bytes_in := mr_bytes_in r + sum_list (map cd_bytes chunk)\<rparr>\<rparr>
           in if dry_run then (Inr (), s1)
              else
                let prov = with_price_tables (trace_set (concat (map cd_price_tables chunk)))
                             (provenance_merged seqno_lo seqno_hi (map cd_rel chunk));
                    kv = key_value_metadata (cx_format cx) (cx_version cx) (cx_js_list cx) prov
                in case merge_inputs (ms_files s) chunk merge_acc_start of
                     Inl e \<Rightarrow> (Inl e, s1\<lparr>ms_files := om_insert tmp \<lparr>bf_kv = Some kv, bf_batches = [], bf_mtime = now\<rparr> (ms_files s)\<rparr>)
                   | Inr acc \<Rightarrow>
                       let file = \<lparr>bf_kv = Some kv, bf_batches = ma_out acc, bf_mtime = now\<rparr>;
                           fs1 = om_insert tmp file (ms_files s);
                           fs2 = om_insert out_rel file (om_remove tmp fs1);
                           meta = \<lparr>bm_rel_path = out_rel, bm_max_start_unix_nano = ma_max_start acc,
                                   bm_trace_ids = ma_all_traces acc\<rparr>;
                           rels = map fst (ma_per_input acc)
                       in case mi_stage io of
                            StageTmp \<Rightarrow> (Inl OtherIo, s1\<lparr>ms_files := fs1\<rparr>)
                          | StagePublished \<Rightarrow> (Inl OtherIo, s1\<lparr>ms_files := fs2\<rparr>)
                          | StageOk \<Rightarrow>
                              (case mi_stamp_fails io of
                                 Some k \<Rightarrow> (Inl OtherIo, s1\<lparr>ms_files := fold (mark_retired now) (take k rels) fs2\<rparr>)
                               | None \<Rightarrow>
                                   let fs3 = fold (mark_retired now) rels fs2;
                                       s2 = s1\<lparr>ms_files := fs3\<rparr>
                                   in if \<not> mi_commit io then (Inl OtherIo, s2)
                                      else (Inr (), s2\<lparr>ms_index := commit_merge meta (ma_per_input acc) (ms_index s),
                                             ms_report := (ms_report s2)\<lparr>mr_bytes_out :=
                                               mr_bytes_out (ms_report s2) + cx_file_len cx (ma_out acc)\<rparr>\<rparr>)))"

section \<open>A merge pass\<close>

text \<open>The chunks of one group, in order; \<open>io\<close> is indexed by the output's path.\<close>

fun merge_chunks ::
  "codec \<Rightarrow> (str \<Rightarrow> merge_io) \<Rightarrow> nat \<Rightarrow> str \<Rightarrow> str \<Rightarrow> bool \<Rightarrow> candidate list list \<Rightarrow> merge_state
     \<Rightarrow> (io_error + unit) \<times> merge_state" where
  "merge_chunks cx io now dir prefx dry_run [] s = (Inr (), s)"
| "merge_chunks cx io now dir prefx dry_run (chunk # rest) s =
     (if length chunk < 2 then merge_chunks cx io now dir prefx dry_run rest s
      else case merge_chunk cx (io (out_path dir prefx chunk)) now dir prefx chunk dry_run s of
             (Inl e, s') \<Rightarrow> (Inl e, s')
           | (Inr _, s') \<Rightarrow> merge_chunks cx io now dir prefx dry_run rest s')"

definition by_tier :: "candidate list \<Rightarrow> (nat, candidate list) omap" where
  "by_tier cands = fold (\<lambda>c. om_alter (tier (cd_rows c)) [] (\<lambda>g. g @ [c])) cands om_empty"

definition hour_groups :: "merge_policy \<Rightarrow> merge_scope \<Rightarrow> candidate list \<Rightarrow> candidate list list" where
  "hour_groups policy scope cands =
     (case scope of
        FullScope \<Rightarrow> [cands]
      | Tick \<Rightarrow> filter (\<lambda>g. mp_hour_threshold policy \<le> length g) (om_values (by_tier cands)))"

definition min_blocks :: "merge_policy \<Rightarrow> merge_scope \<Rightarrow> usize" where
  "min_blocks policy scope = (case scope of Tick \<Rightarrow> mp_hour_threshold policy | FullScope \<Rightarrow> 2)"

text \<open>The inputs a dry run would consume: those of the chunks with at least two blocks.\<close>

definition chunk_rels :: "candidate list list \<Rightarrow> str set" where
  "chunk_rels cs = (\<Union>c\<in>set cs. if length c < 2 then {} else cd_rel ` set c)"

fun hour_phase ::
  "codec \<Rightarrow> (str \<Rightarrow> merge_io) \<Rightarrow> nat \<Rightarrow> merge_policy \<Rightarrow> merge_scope \<Rightarrow> bool \<Rightarrow> (str \<times> str list) list
     \<Rightarrow> str set \<Rightarrow> merge_state \<Rightarrow> (io_error + str set) \<times> merge_state" where
  "hour_phase cx io now policy scope dry_run [] consumed s = (Inr consumed, s)"
| "hour_phase cx io now policy scope dry_run ((hour_dir, rels) # rest) consumed s =
     (if length rels < min_blocks policy scope
      then hour_phase cx io now policy scope dry_run rest consumed s
      else case candidates cx (ms_files s) rels of
             Inl e \<Rightarrow> (Inl e, s)
           | Inr cands \<Rightarrow>
               let planned = concat (map (\<lambda>g. chunks g (mp_max_spans_per_block policy))
                               (hour_groups policy scope cands));
                   consumed' = (if dry_run then consumed \<union> chunk_rels planned else consumed)
               in case merge_chunks cx io now hour_dir ''merged'' dry_run planned s of
                    (Inl e, s') \<Rightarrow> (Inl e, s')
                  | (Inr _, s') \<Rightarrow> hour_phase cx io now policy scope dry_run rest consumed' s')"

fun day_phase ::
  "codec \<Rightarrow> (str \<Rightarrow> merge_io) \<Rightarrow> nat \<Rightarrow> str \<Rightarrow> merge_policy \<Rightarrow> merge_scope \<Rightarrow> bool \<Rightarrow> str set
     \<Rightarrow> (str \<times> str list) list \<Rightarrow> merge_state \<Rightarrow> (io_error + unit) \<times> merge_state" where
  "day_phase cx io now today policy scope dry_run consumed [] s = (Inr (), s)"
| "day_phase cx io now today policy scope dry_run consumed ((day_dir, rels0) # rest) s =
     (let rels = filter (\<lambda>r. r \<notin> consumed) rels0
      in if \<not> day_is_closed day_dir today \<or> length rels < 2
         then day_phase cx io now today policy scope dry_run consumed rest s
         else case candidates cx (ms_files s) rels of
                Inl e \<Rightarrow> (Inl e, s)
              | Inr cands \<Rightarrow>
                  if scope = Tick \<and> \<not> is_quiet cands now (mp_day_quiet policy)
                  then day_phase cx io now today policy scope dry_run consumed rest s
                  else (case merge_chunks cx io now day_dir ''day'' dry_run
                               (chunks cands (mp_max_spans_per_block policy)) s of
                          (Inl e, s') \<Rightarrow> (Inl e, s')
                        | (Inr _, s') \<Rightarrow> day_phase cx io now today policy scope dry_run consumed rest s'))"

definition merge_cold ::
  "codec \<Rightarrow> (str \<Rightarrow> merge_io) \<Rightarrow> nat \<Rightarrow> str \<Rightarrow> merge_policy \<Rightarrow> merge_scope \<Rightarrow> bool \<Rightarrow> index \<Rightarrow> files
     \<Rightarrow> (io_error + unit) \<times> merge_state" where
  "merge_cold cx io now today policy scope dry_run ix fs =
     (let s0 = \<lparr>ms_index = ix, ms_files = fs, ms_report = empty_report dry_run\<rparr>
      in if scope = Tick \<and> \<not> merge_enabled policy then (Inr (), s0)
         else case hour_phase cx io now policy scope dry_run (fst (group_blocks ix)) {} s0 of
                (Inl e, s1) \<Rightarrow> (Inl e, s1)
              | (Inr consumed, s1) \<Rightarrow>
                  if mp_day_merge policy
                  then day_phase cx io now today policy scope dry_run consumed
                         (snd (group_blocks (ms_index s1))) s1
                  else (Inr (), s1))"

section \<open>The aged sweep\<close>

definition is_stray :: "index \<Rightarrow> str \<Rightarrow> bool" where
  "is_stray ix p \<longleftrightarrow> (if ends_with ''.tmp'' p then True
     else if ends_with ''.parquet'' p then p \<notin> set (all_block_paths ix) else False)"

definition old_enough :: "nat \<Rightarrow> nat \<Rightarrow> block_file \<Rightarrow> bool" where
  "old_enough now older_than f \<longleftrightarrow> bf_mtime f \<le> now \<and> older_than \<le> now - bf_mtime f"

definition sweep_unindexed :: "nat \<Rightarrow> nat \<Rightarrow> index \<Rightarrow> files \<Rightarrow> nat \<times> files" where
  "sweep_unindexed now older_than ix fs =
     (let gone = filter (\<lambda>(p, f). is_stray ix p \<and> old_enough now older_than f) fs
      in (length gone, filter (\<lambda>(p, f). \<not> (is_stray ix p \<and> old_enough now older_than f)) fs))"

section \<open>What a chunk's rewrite holds\<close>

lemma keep_flags_length [simp]: "length (fst (keep_flags seen ks)) = length ks"
  by (induction seen ks rule: keep_flags.induct) (auto simp: case_prod_beta)

lemma keep_flags_first_copies:
  "keep_flagged (fst (keep_flags seen (map key xs))) xs = fst (first_copies_from key seen xs)"
  "snd (keep_flags seen (map key xs)) = snd (first_copies_from key seen xs)"
proof (induction xs arbitrary: seen)
  case (Cons x xs)
  {
    case 1
    then show ?case using Cons [of "insert (key x) seen"] by (auto simp: case_prod_beta insert_absorb)
  next
    case 2
    then show ?case using Cons [of "insert (key x) seen"] by (auto simp: case_prod_beta insert_absorb)
  }
qed simp_all

lemma keep_all: "length (filter (\<lambda>k. \<not> k) keep) = 0 \<Longrightarrow> length xs = length keep \<Longrightarrow> keep_flagged keep xs = xs"
proof (induction keep arbitrary: xs)
  case (Cons k keep)
  then show ?case by (cases xs) (auto split: if_splits)
qed simp

lemma decoded_columns:
  assumes "batch_ok b" and "decode_batch jp b = Some spans"
  shows "length spans = batch_rows b"
    "map (\<lambda>i. key_of (str_val (slots (b ! 1)) i) (str_val (slots (b ! 2)) i)) [0..<batch_rows b] = map span_key spans"
    "map (str_val (slots (b ! 1))) [0..<batch_rows b] = map ns_trace_id spans"
    "\<And>i. i < batch_rows b \<Longrightarrow> u64_val (u64_slots (b ! 7)) i = ns_start_unix_nano (spans ! i)"
proof -
  have d: "length spans = batch_rows b" "\<forall>i<batch_rows b. decode_row jp b i = Some (spans ! i)"
    using assms(2) those_map_nth unfolding decode_batch_rows [OF assms(1)] by blast+
  have f: "str_val (slots (b ! 1)) i = ns_trace_id (spans ! i)" "str_val (slots (b ! 2)) i = ns_span_id (spans ! i)"
    "u64_val (u64_slots (b ! 7)) i = ns_start_unix_nano (spans ! i)" if "i < batch_rows b" for i
    using decode_row_fields [OF d(2) [rule_format, OF that]] by (simp_all only:)
  show "length spans = batch_rows b" by (rule d(1))
  show "map (\<lambda>i. key_of (str_val (slots (b ! 1)) i) (str_val (slots (b ! 2)) i)) [0..<batch_rows b] = map span_key spans"
    using d(1) f(1,2) by (intro nth_equalityI) (simp_all add: span_key_def)
  show "map (str_val (slots (b ! 1))) [0..<batch_rows b] = map ns_trace_id spans"
    using d(1) f(1) by (intro nth_equalityI) simp_all
  show "u64_val (u64_slots (b ! 7)) i = ns_start_unix_nano (spans ! i)" if "i < batch_rows b" for i
    using f(3) that .
qed

lemma batch_cols:
  assumes "batch_ok b"
  shows "str_col b 1 = Some (slots (b ! 1))" "str_col b 2 = Some (slots (b ! 2))"
    "u64_col b 7 = Some (u64_slots (b ! 7))"
  by (rule col_ok [OF assms]; simp add: schema_def)+

text \<open>Dropping copies of a batch, seen as spans.\<close>

lemma batch_first_copies_spans:
  assumes "batch_ok b" and "decode_batch jp b = Some spans"
  obtains kept dropped where
    "batch_first_copies b seen = Inr (kept, dropped, seen \<union> span_key ` set spans)"
    "batch_ok kept" "decode_batch jp kept = Some (fst (first_copies_from span_key seen spans))"
    "batch_rows kept = length (fst (first_copies_from span_key seen spans))"
proof -
  note d = decoded_columns [OF assms]
  define keep where "keep = fst (keep_flags seen (map span_key spans))"
  have len: "length keep = batch_rows b" using d(1) by (simp add: keep_def)
  have kf: "keep_flagged keep spans = fst (first_copies_from span_key seen spans)"
    by (simp add: keep_def keep_flags_first_copies)
  have seen': "snd (keep_flags seen (map span_key spans)) = seen \<union> span_key ` set spans"
    by (simp add: keep_flags_first_copies copy_simps)
  let ?kept = "if length (filter (\<lambda>k. \<not> k) keep) = 0 then b else filter_record_batch keep b"
  have run: "batch_first_copies b seen =
      Inr (?kept, length (filter (\<lambda>k. \<not> k) keep), seen \<union> span_key ` set spans)"
    using d(2) seen' by (simp add: batch_first_copies_def batch_cols [OF assms(1)] keep_def case_prod_beta del: One_nat_def)
  have "batch_ok ?kept \<and> decode_batch jp ?kept = Some (keep_flagged keep spans)"
  proof (cases "length (filter (\<lambda>k. \<not> k) keep) = 0")
    case True
    then have "keep_flagged keep spans = spans" using len d(1) by (intro keep_all) simp_all
    then show ?thesis using True assms by simp
  next
    case False
    then show ?thesis
      using filter_record_batch_ok [OF assms(1) len] decode_batch_filter [OF assms(1) len assms(2)] by simp
  qed
  then have k: "batch_ok ?kept" "decode_batch jp ?kept = Some (fst (first_copies_from span_key seen spans))"
    using kf by simp_all
  show thesis
    by (rule that [OF run k decoded_columns(1) [OF k, symmetric]])
qed

lemma batches_spans_simps [simp]:
  "batches_spans cx [] = Some []"
  "batches_spans cx (b # bs) =
     (case decode_batch (cx_jp_map cx) b of None \<Rightarrow> None
      | Some xs \<Rightarrow> (case batches_spans cx bs of None \<Rightarrow> None | Some ys \<Rightarrow> Some (xs @ ys)))"
  by (auto simp: batches_spans_def split: option.splits)

lemma batches_spans_append:
  "batches_spans cx (as @ bs) =
     (case batches_spans cx as of None \<Rightarrow> None
      | Some xs \<Rightarrow> (case batches_spans cx bs of None \<Rightarrow> None | Some ys \<Rightarrow> Some (xs @ ys)))"
  by (induction as) (auto split: option.splits)

lemma foldl_max_nat: "foldl max (a::nat) zs = max a (foldl max 0 zs)"
proof (induction zs arbitrary: a)
  case (Cons z zs)
  show ?case using Cons [of "max a z"] Cons [of z] by (simp add: max.assoc)
qed simp

lemma max_start_append: "max_start (xs @ ys) = max (max_start xs) (max_start ys)"
  unfolding max_start_def map_append foldl_append by (rule foldl_max_nat)

lemma foldl_max_start: "foldl max m (map ns_start_unix_nano spans) = max m (max_start spans)"
  unfolding max_start_def by (rule foldl_max_nat)

lemma collect_keys_spans:
  assumes "batch_ok b" and "decode_batch jp b = Some spans"
  obtains ts where "collect_keys b traces mx = Inr (ts, max mx (max_start spans))"
    "set ts = set traces \<union> ns_trace_id ` set spans"
proof -
  note d = decoded_columns [OF assms]
  have step: "(case u64_slots (b ! 7) ! i of None \<Rightarrow> m | Some v \<Rightarrow> max m v) = max m (u64_val (u64_slots (b ! 7)) i)" for m i
    by (simp add: u64_val_def split: option.splits)
  have "foldl (\<lambda>m i. max m (u64_val (u64_slots (b ! 7)) i)) mx is =
      foldl max mx (map (u64_val (u64_slots (b ! 7))) is)" for "is"
    by (induction "is" arbitrary: mx) auto
  moreover have "map (u64_val (u64_slots (b ! 7))) [0..<batch_rows b] = map ns_start_unix_nano spans"
    using d(1,4) by (intro nth_equalityI) simp_all
  ultimately have mx: "foldl (\<lambda>m i. case u64_slots (b ! 7) ! i of None \<Rightarrow> m | Some v \<Rightarrow> max m v) mx [0..<batch_rows b]
      = max mx (max_start spans)"
    by (simp add: step foldl_max_start)
  show thesis
  proof (rule that)
    show "collect_keys b traces mx = Inr (trace_set (traces @ map ns_trace_id spans), max mx (max_start spans))"
      by (simp only: collect_keys_def batch_cols [OF assms(1)] option.case prod.case mx d(3))
  qed simp
qed

lemma batch_ok_try [simp]: "batch_ok b \<Longrightarrow> try_new schema b = Some b"
  by (simp add: batch_ok_def)

lemma merge_batches_spec:
  assumes "list_all batch_ok bs" and "batches_spans cx bs = Some spans"
    and "list_all batch_ok (ma_out acc)" and "batches_spans cx (ma_out acc) = Some out"
  shows "\<exists>ts acc'. merge_batches bs traces acc = Inr (ts, acc')
     \<and> set ts = set traces \<union> ns_trace_id ` set spans
     \<and> ma_max_start acc' = max (ma_max_start acc) (max_start spans)
     \<and> ma_seen acc' = ma_seen acc \<union> span_key ` set spans
     \<and> list_all batch_ok (ma_out acc')
     \<and> batches_spans cx (ma_out acc') = Some (out @ fst (first_copies_from span_key (ma_seen acc) spans))
     \<and> ma_per_input acc' = ma_per_input acc \<and> ma_all_traces acc' = ma_all_traces acc"
  using assms
proof (induction bs arbitrary: spans traces acc out)
  case Nil
  then show ?case by (simp add: max_start_def)
next
  case (Cons b bs)
  obtain xs ys where xs: "decode_batch (cx_jp_map cx) b = Some xs" and ys: "batches_spans cx bs = Some ys"
    and spans: "spans = xs @ ys"
    using Cons.prems(2) by (auto split: option.splits)
  have ok: "batch_ok b" "list_all batch_ok bs" using Cons.prems(1) by auto
  obtain ts where ck: "collect_keys b traces (ma_max_start acc) = Inr (ts, max (ma_max_start acc) (max_start xs))"
    "set ts = set traces \<union> ns_trace_id ` set xs"
    using collect_keys_spans [OF ok(1) xs] by blast
  obtain kept dropped where fc:
    "batch_first_copies b (ma_seen acc) = Inr (kept, dropped, ma_seen acc \<union> span_key ` set xs)"
    "batch_ok kept" "decode_batch (cx_jp_map cx) kept = Some (fst (first_copies_from span_key (ma_seen acc) xs))"
    "batch_rows kept = length (fst (first_copies_from span_key (ma_seen acc) xs))"
    using batch_first_copies_spans [OF ok(1) xs] by blast
  define acc1 where "acc1 = acc\<lparr>ma_max_start := max (ma_max_start acc) (max_start xs),
     ma_seen := ma_seen acc \<union> span_key ` set xs, ma_copies := ma_copies acc + dropped,
     ma_rows_written := ma_rows_written acc + batch_rows kept,
     ma_out := (if 0 < batch_rows kept then ma_out acc @ [kept] else ma_out acc)\<rparr>"
  have step: "merge_batches (b # bs) traces acc = merge_batches bs ts acc1"
    by (simp add: ok ck fc acc1_def)
  have out1: "list_all batch_ok (ma_out acc1)"
    "batches_spans cx (ma_out acc1) = Some (out @ fst (first_copies_from span_key (ma_seen acc) xs))"
    using Cons.prems(3,4) fc by (auto simp: acc1_def batches_spans_append)
  from Cons.IH [OF ok(2) ys out1, of ts] obtain ts' acc' where
    IH: "merge_batches bs ts acc1 = Inr (ts', acc')" "set ts' = set ts \<union> ns_trace_id ` set ys"
      "ma_max_start acc' = max (ma_max_start acc1) (max_start ys)"
      "ma_seen acc' = ma_seen acc1 \<union> span_key ` set ys" "list_all batch_ok (ma_out acc')"
      "batches_spans cx (ma_out acc') = Some ((out @ fst (first_copies_from span_key (ma_seen acc) xs)) @
         fst (first_copies_from span_key (ma_seen acc1) ys))"
      "ma_per_input acc' = ma_per_input acc1" "ma_all_traces acc' = ma_all_traces acc1"
    by blast
  have a1: "ma_seen acc1 = ma_seen acc \<union> span_key ` set xs" "ma_max_start acc1 = max (ma_max_start acc) (max_start xs)"
    "ma_per_input acc1 = ma_per_input acc" "ma_all_traces acc1 = ma_all_traces acc"
    by (simp_all add: acc1_def)
  show ?case
  proof (intro exI conjI)
    show "merge_batches (b # bs) traces acc = Inr (ts', acc')" using step IH(1) by simp
    show "set ts' = set traces \<union> ns_trace_id ` set spans" using IH(2) ck(2) spans by auto
    show "ma_max_start acc' = max (ma_max_start acc) (max_start spans)"
      using IH(3) a1(2) spans by (simp add: max_start_append max.assoc)
    show "ma_seen acc' = ma_seen acc \<union> span_key ` set spans" using IH(4) a1(1) spans by auto
    show "list_all batch_ok (ma_out acc')" by (rule IH(5))
    show "batches_spans cx (ma_out acc') = Some (out @ fst (first_copies_from span_key (ma_seen acc) spans))"
      using IH(6) a1(1) spans by (simp add: first_copies_append)
    show "ma_per_input acc' = ma_per_input acc" "ma_all_traces acc' = ma_all_traces acc"
      using IH(7,8) a1(3,4) by simp_all
  qed
qed

text \<open>A block file whose batches fit the schema and decode to \<open>spans\<close>.\<close>

definition block_whole :: "codec \<Rightarrow> files \<Rightarrow> str \<Rightarrow> normalized_span list \<Rightarrow> bool" where
  "block_whole cx fs p spans \<longleftrightarrow>
     (case om_get fs p of
        None \<Rightarrow> False
      | Some f \<Rightarrow> list_all batch_ok (bf_batches f) \<and> batches_spans cx (bf_batches f) = Some spans)"

lemma block_whole_read: "block_whole cx fs p spans \<Longrightarrow> read_block cx fs p = Inr spans"
  by (auto simp: block_whole_def read_block_def split: option.splits)

lemma merge_inputs_spec:
  assumes "list_all2 (\<lambda>c spans. block_whole cx fs (cd_rel c) spans) cs contents"
    and "list_all batch_ok (ma_out acc)" and "batches_spans cx (ma_out acc) = Some out"
  shows "\<exists>acc'. merge_inputs fs cs acc = Inr acc'
     \<and> list_all batch_ok (ma_out acc')
     \<and> batches_spans cx (ma_out acc') = Some (out @ fst (first_copies_from span_key (ma_seen acc) (concat contents)))
     \<and> ma_max_start acc' = max (ma_max_start acc) (max_start (concat contents))
     \<and> set (ma_all_traces acc') = set (ma_all_traces acc) \<union> ns_trace_id ` set (concat contents)
     \<and> (\<exists>pis. ma_per_input acc' = ma_per_input acc @ pis \<and> map fst pis = map cd_rel cs
          \<and> list_all2 (\<lambda>(_, ts) spans. set ts = ns_trace_id ` set spans) pis contents)"
  using assms
proof (induction cs contents arbitrary: acc out rule: list_all2_induct)
  case Nil
  then show ?case by (simp add: max_start_def)
next
  case (Cons c cs spans contents)
  obtain f where f: "om_get fs (cd_rel c) = Some f" "list_all batch_ok (bf_batches f)"
    "batches_spans cx (bf_batches f) = Some spans"
    using Cons.hyps(1) by (auto simp: block_whole_def split: option.splits)
  obtain ts acc1 where b: "merge_batches (bf_batches f) [] acc = Inr (ts, acc1)"
    "set ts = ns_trace_id ` set spans" "ma_max_start acc1 = max (ma_max_start acc) (max_start spans)"
    "ma_seen acc1 = ma_seen acc \<union> span_key ` set spans" "list_all batch_ok (ma_out acc1)"
    "batches_spans cx (ma_out acc1) = Some (out @ fst (first_copies_from span_key (ma_seen acc) spans))"
    "ma_per_input acc1 = ma_per_input acc" "ma_all_traces acc1 = ma_all_traces acc"
    using merge_batches_spec [OF f(2,3) Cons.prems, of "[]"] by auto
  define acc2 where "acc2 = acc1\<lparr>ma_all_traces := trace_set (ma_all_traces acc1 @ ts),
     ma_per_input := ma_per_input acc1 @ [(cd_rel c, ts)]\<rparr>"
  have step: "merge_inputs fs (c # cs) acc = merge_inputs fs cs acc2"
    by (simp add: f(1) b(1) acc2_def)
  have o2: "list_all batch_ok (ma_out acc2)"
    "batches_spans cx (ma_out acc2) = Some (out @ fst (first_copies_from span_key (ma_seen acc) spans))"
    using b by (simp_all add: acc2_def)
  have a2: "ma_seen acc2 = ma_seen acc \<union> span_key ` set spans"
    "ma_max_start acc2 = max (ma_max_start acc) (max_start spans)"
    "set (ma_all_traces acc2) = set (ma_all_traces acc) \<union> ns_trace_id ` set spans"
    "ma_per_input acc2 = ma_per_input acc @ [(cd_rel c, ts)]"
    using b by (simp_all add: acc2_def)
  from Cons.IH [OF o2] obtain acc' pis where
    IH: "merge_inputs fs cs acc2 = Inr acc'" "list_all batch_ok (ma_out acc')"
      "batches_spans cx (ma_out acc') = Some ((out @ fst (first_copies_from span_key (ma_seen acc) spans))
         @ fst (first_copies_from span_key (ma_seen acc2) (concat contents)))"
      "ma_max_start acc' = max (ma_max_start acc2) (max_start (concat contents))"
      "set (ma_all_traces acc') = set (ma_all_traces acc2) \<union> ns_trace_id ` set (concat contents)"
      "ma_per_input acc' = ma_per_input acc2 @ pis" "map fst pis = map cd_rel cs"
      "list_all2 (\<lambda>(_, ts) spans. set ts = ns_trace_id ` set spans) pis contents"
    by blast
  show ?case
  proof (intro exI conjI)
    show "merge_inputs fs (c # cs) acc = Inr acc'" using step IH(1) by simp
    show "list_all batch_ok (ma_out acc')" by (rule IH(2))
    show "batches_spans cx (ma_out acc') =
        Some (out @ fst (first_copies_from span_key (ma_seen acc) (concat (spans # contents))))"
      using IH(3) a2(1) by (simp add: first_copies_append)
    show "ma_max_start acc' = max (ma_max_start acc) (max_start (concat (spans # contents)))"
      using IH(4) a2(2) by (simp add: max_start_append max.assoc)
    show "set (ma_all_traces acc') = set (ma_all_traces acc) \<union> ns_trace_id ` set (concat (spans # contents))"
      using IH(5) a2(3) by auto
    show "ma_per_input acc' = ma_per_input acc @ ((cd_rel c, ts) # pis)"
      using IH(6) a2(4) by simp
    show "map fst ((cd_rel c, ts) # pis) = map cd_rel (c # cs)" using IH(7) by simp
    show "list_all2 (\<lambda>(_, ts) spans. set ts = ns_trace_id ` set spans) ((cd_rel c, ts) # pis) (spans # contents)"
      using IH(8) b(2) by simp
  qed
qed

section \<open>What a chunk's merge does to the store\<close>

text \<open>The part of a file that reads depend on.\<close>

definition content :: "files \<Rightarrow> str \<Rightarrow> ((str \<times> str option) list option \<times> column list list) option" where
  "content fs p = map_option (\<lambda>f. (bf_kv f, bf_batches f)) (om_get fs p)"

lemma read_block_content:
  "read_block cx fs p = (case content fs p of None \<Rightarrow> Inl NotFound
     | Some c \<Rightarrow> (case batches_spans cx (snd c) of None \<Rightarrow> Inl OtherIo | Some spans \<Rightarrow> Inr spans))"
  by (simp add: content_def read_block_def split: option.splits)

lemma block_whole_content:
  "block_whole cx fs p spans = (case content fs p of None \<Rightarrow> False
     | Some c \<Rightarrow> list_all batch_ok (snd c) \<and> batches_spans cx (snd c) = Some spans)"
  by (simp add: content_def block_whole_def split: option.splits)

lemma content_read: "content fs' p = content fs p \<Longrightarrow> read_block cx fs' p = read_block cx fs p"
  unfolding read_block_content by simp

lemma content_whole: "content fs' p = content fs p \<Longrightarrow> block_whole cx fs' p spans = block_whole cx fs p spans"
  unfolding block_whole_content by simp

lemma content_block_spans: "content fs' p = content fs p \<Longrightarrow> block_spans cx fs' p = block_spans cx fs p"
  unfolding block_spans_def read_block_content by simp

lemma content_cold_spans:
  "(\<And>p. p \<in> indexed ix \<Longrightarrow> content fs' p = content fs p) \<Longrightarrow> cold_spans cx ix fs' = cold_spans cx ix fs"
  unfolding cold_spans_def by (rule SUP_cong [OF refl]) (rule content_block_spans)

lemma content_retired [simp]: "content (mark_retired now rel fs) p = content fs p"
  by (simp add: content_def mark_retired_def map_simps split: option.splits)

lemma content_fold_retired [simp]: "content (fold (mark_retired now) rels fs) p = content fs p"
  by (induction rels arbitrary: fs) auto

lemma retired_om_ok: "om_ok fs \<Longrightarrow> om_ok (fold (mark_retired now) rels fs)"
proof -
  have "om_ok fs \<Longrightarrow> om_ok (mark_retired now r fs)" for r fs
    by (simp add: mark_retired_def split: option.splits)
  then show "om_ok fs \<Longrightarrow> om_ok (fold (mark_retired now) rels fs)"
    by (induction rels arbitrary: fs) auto
qed

text \<open>The three ways a chunk's merge ends.\<close>

lemma merge_chunk_cases:
  assumes inputs: "list_all2 (\<lambda>c spans. block_whole cx (ms_files s) (cd_rel c) spans) chunk contents"
    and run: "merge_chunk cx io now out_dir prefx chunk False s = (r, s')"
  obtains (skipped) "s' = s" "out_path out_dir prefx chunk \<in> cd_rel ` set chunk" "r = Inr ()"
  | (abandoned) "ms_index s' = ms_index s" "r \<noteq> Inr ()"
      "\<And>p. p \<noteq> out_path out_dir prefx chunk \<Longrightarrow> p \<noteq> tmp_path out_dir (merge_stem prefx chunk) \<Longrightarrow>
         content (ms_files s') p = content (ms_files s) p"
      "om_ok (ms_files s) \<Longrightarrow> om_ok (ms_files s')"
  | (merged) meta pis where "r = Inr ()" "ms_index s' = commit_merge meta pis (ms_index s)"
      "bm_rel_path meta = out_path out_dir prefx chunk"
      "bm_max_start_unix_nano meta = max_start (concat contents)"
      "set (bm_trace_ids meta) = ns_trace_id ` set (concat contents)"
      "map fst pis = map cd_rel chunk"
      "list_all2 (\<lambda>(_, ts) spans. set ts = ns_trace_id ` set spans) pis contents"
      "out_path out_dir prefx chunk \<notin> cd_rel ` set chunk"
      "block_whole cx (ms_files s') (out_path out_dir prefx chunk) (first_copies span_key (concat contents))"
      "\<And>p. p \<noteq> out_path out_dir prefx chunk \<Longrightarrow> p \<noteq> tmp_path out_dir (merge_stem prefx chunk) \<Longrightarrow>
         content (ms_files s') p = content (ms_files s) p"
      "om_ok (ms_files s) \<Longrightarrow> om_ok (ms_files s')"
proof (cases "list_ex (\<lambda>c. cd_rel c = out_path out_dir prefx chunk) chunk")
  case True
  then have "s' = s" "r = Inr ()"
    using run by (simp_all add: merge_chunk_def Let_def)
  moreover have "out_path out_dir prefx chunk \<in> cd_rel ` set chunk"
    using True by (force simp: list_ex_iff)
  ultimately have "s' = s" "r = Inr ()" "out_path out_dir prefx chunk \<in> cd_rel ` set chunk" by auto
  then show thesis using skipped by blast
next
  case False
  let ?out = "out_path out_dir prefx chunk" and ?tmp = "tmp_path out_dir (merge_stem prefx chunk)"
  obtain acc pis where acc: "merge_inputs (ms_files s) chunk merge_acc_start = Inr acc"
    "list_all batch_ok (ma_out acc)"
    "batches_spans cx (ma_out acc) = Some (first_copies span_key (concat contents))"
    "ma_max_start acc = max_start (concat contents)"
    "set (ma_all_traces acc) = ns_trace_id ` set (concat contents)"
    "ma_per_input acc = pis" "map fst pis = map cd_rel chunk"
    "list_all2 (\<lambda>(_, ts) spans. set ts = ns_trace_id ` set spans) pis contents"
    using merge_inputs_spec [OF inputs, of merge_acc_start "[]"]
    by (auto simp: merge_acc_start_def first_copies_def)
  have ne: "?tmp \<noteq> ?out" by (simp add: out_path_def)
  define out_file where "out_file = \<lparr>bf_kv = Some (key_value_metadata (cx_format cx) (cx_version cx) (cx_js_list cx)
      (with_price_tables (trace_set (concat (map cd_price_tables chunk)))
        (provenance_merged (case map cd_seqno_lo chunk of [] \<Rightarrow> 0 | l # ls \<Rightarrow> foldl min l ls)
           (case map cd_seqno_hi chunk of [] \<Rightarrow> 0 | h # hs \<Rightarrow> foldl max h hs) (map cd_rel chunk)))),
      bf_batches = ma_out acc, bf_mtime = now\<rparr>"
  define fs1 where "fs1 = om_insert ?tmp out_file (ms_files s)"
  define fs2 where "fs2 = om_insert ?out out_file (om_remove ?tmp fs1)"
  have other: "content fs1 p = content (ms_files s) p" "content fs2 p = content (ms_files s) p"
    if "p \<noteq> ?out" "p \<noteq> ?tmp" for p
    using that by (simp_all add: content_def fs1_def fs2_def map_simps)
  have ok: "om_ok (ms_files s) \<Longrightarrow> om_ok fs1" "om_ok (ms_files s) \<Longrightarrow> om_ok fs2"
    by (simp_all add: fs1_def fs2_def)
  have whole: "block_whole cx fs2 ?out (first_copies span_key (concat contents))"
    using acc(2,3) by (simp add: block_whole_def fs2_def map_simps out_file_def)
  define meta where "meta = \<lparr>bm_rel_path = ?out, bm_max_start_unix_nano = ma_max_start acc, bm_trace_ids = ma_all_traces acc\<rparr>"
  have forms: "(ms_index s' = ms_index s \<and> r \<noteq> Inr () \<and>
      (ms_files s' = fs1 \<or> (\<exists>k. ms_files s' = fold (mark_retired now) (take k (map fst pis)) fs2)))
    \<or> (ms_index s' = commit_merge meta pis (ms_index s) \<and> r = Inr ()
      \<and> ms_files s' = fold (mark_retired now) (map fst pis) fs2)"
  proof (cases "mi_stage io")
    case StageOk
    show ?thesis
    proof (cases "mi_stamp_fails io")
      case None
      then show ?thesis
        using run False StageOk acc(6)
        by (cases "mi_commit io")
          (auto simp: merge_chunk_def Let_def acc(1) fs1_def fs2_def out_file_def meta_def
            intro!: exI [of _ "length pis"])
    next
      case (Some k)
      then show ?thesis
        using run False StageOk acc(6)
        by (auto simp: merge_chunk_def Let_def acc(1) fs1_def fs2_def out_file_def meta_def)
    qed
  next
    case StageTmp
    then show ?thesis
      using run False by (auto simp: merge_chunk_def Let_def acc(1) fs1_def out_file_def)
  next
    case StagePublished
    then show ?thesis
      using run False
      by (auto simp: merge_chunk_def Let_def acc(1) fs1_def fs2_def out_file_def intro!: exI [of _ 0])
  qed
  then show thesis
  proof (elim disjE conjE exE)
    assume "ms_index s' = ms_index s" "r \<noteq> Inr ()" "ms_files s' = fs1"
    then show thesis using abandoned other ok by simp
  next
    fix k assume "ms_index s' = ms_index s" "r \<noteq> Inr ()"
      "ms_files s' = fold (mark_retired now) (take k (map fst pis)) fs2"
    then show thesis using abandoned other ok by (simp add: retired_om_ok)
  next
    assume "ms_index s' = commit_merge meta pis (ms_index s)" "r = Inr ()"
      and fs: "ms_files s' = fold (mark_retired now) (map fst pis) fs2"
    moreover have "?out \<notin> cd_rel ` set chunk" using False by (auto simp: list_ex_iff)
    moreover have "block_whole cx (ms_files s') ?out (first_copies span_key (concat contents))"
      unfolding fs using whole content_whole content_fold_retired by metis
    ultimately show thesis
      using merged [of meta pis] acc other ok by (simp add: meta_def fs retired_om_ok)
  qed
qed

lemma UN_zip:
  assumes "list_all2 (\<lambda>c spans. f c = set spans) cs contents"
  shows "(\<Union>c\<in>set cs. f c) = set (concat contents)"
  using assms by (induction cs contents rule: list_all2_induct) auto

lemma inputs_content:
  assumes "list_all2 (\<lambda>c spans. block_whole cx fs (cd_rel c) spans) chunk contents"
    and "\<forall>c\<in>set chunk. content fs' (cd_rel c) = content fs (cd_rel c)"
  shows "list_all2 (\<lambda>c spans. block_whole cx fs' (cd_rel c) spans) chunk contents"
  using assms by (induction chunk contents rule: list_all2_induct) (auto simp: block_whole_content)

lemma inputs_block_spans:
  assumes "list_all2 (\<lambda>c spans. block_whole cx fs (cd_rel c) spans) chunk contents"
  shows "(\<Union>p\<in>cd_rel ` set chunk. block_spans cx fs p) = set (concat contents)"
proof -
  have "list_all2 (\<lambda>c spans. block_spans cx fs (cd_rel c) = set spans) chunk contents"
    using assms by (rule list_all2_mono) (simp add: block_spans_read block_whole_read)
  from UN_zip [OF this] show ?thesis by simp
qed

text \<open>What \<open>merge_chunk\<close> needs of the index: the inputs are committed, the output's names are free.\<close>

definition merge_ready :: "index \<Rightarrow> str \<Rightarrow> str \<Rightarrow> candidate list \<Rightarrow> bool" where
  "merge_ready ix out_dir prefx chunk \<longleftrightarrow>
     cd_rel ` set chunk \<subseteq> indexed ix
     \<and> out_path out_dir prefx chunk \<notin> indexed ix - cd_rel ` set chunk
     \<and> tmp_path out_dir (merge_stem prefx chunk) \<notin> indexed ix"

lemma merge_chunk_keeps:
  assumes inputs: "list_all2 (\<lambda>c spans. block_whole cx (ms_files s) (cd_rel c) spans) chunk contents"
    and ready: "merge_ready (ms_index s) out_dir prefx chunk"
    and run: "merge_chunk cx io now out_dir prefx chunk False s = (r, s')"
  shows "span_key ` cold_spans cx (ms_index s') (ms_files s') = span_key ` cold_spans cx (ms_index s) (ms_files s)"
    "cold_spans cx (ms_index s') (ms_files s') \<subseteq> cold_spans cx (ms_index s) (ms_files s)"
proof -
  let ?ix = "ms_index s" and ?fs = "ms_files s" and ?out = "out_path out_dir prefx chunk"
  let ?rels = "cd_rel ` set chunk" and ?kept = "first_copies span_key (concat contents)"
  have "span_key ` cold_spans cx (ms_index s') (ms_files s') = span_key ` cold_spans cx ?ix ?fs
      \<and> cold_spans cx (ms_index s') (ms_files s') \<subseteq> cold_spans cx ?ix ?fs"
  proof (rule merge_chunk_cases [OF inputs run])
    assume "s' = s"
    then show ?thesis by simp
  next
    assume ix: "ms_index s' = ?ix" and r: "r \<noteq> Inr ()"
      and same: "\<And>p. p \<noteq> ?out \<Longrightarrow> p \<noteq> tmp_path out_dir (merge_stem prefx chunk) \<Longrightarrow>
         content (ms_files s') p = content ?fs p"
    have "?out \<notin> ?rels"
    proof
      assume "?out \<in> ?rels"
      then have "list_ex (\<lambda>c. cd_rel c = ?out) chunk" by (force simp: list_ex_iff)
      then show False using run r by (simp add: merge_chunk_def Let_def)
    qed
    then have "p \<noteq> ?out \<and> p \<noteq> tmp_path out_dir (merge_stem prefx chunk)" if "p \<in> indexed ?ix" for p
      using ready that unfolding merge_ready_def by blast
    then have "content (ms_files s') p = content ?fs p" if "p \<in> indexed ?ix" for p
      using same that by blast
    then have "cold_spans cx ?ix (ms_files s') = cold_spans cx ?ix ?fs" by (rule content_cold_spans)
    then show ?thesis using ix by simp
  next
    fix meta pis
    assume ix: "ms_index s' = commit_merge meta pis ?ix" and out: "bm_rel_path meta = ?out"
      and pis: "map fst pis = map cd_rel chunk" and fresh: "?out \<notin> ?rels"
      and whole: "block_whole cx (ms_files s') ?out ?kept"
      and same: "\<And>p. p \<noteq> ?out \<Longrightarrow> p \<noteq> tmp_path out_dir (merge_stem prefx chunk) \<Longrightarrow>
         content (ms_files s') p = content ?fs p"
    have "fst ` set pis = ?rels" using pis by (metis set_map)
    then have idx: "indexed (ms_index s') = insert ?out (indexed ?ix - ?rels)"
      by (simp add: ix out)
    have rest: "block_spans cx (ms_files s') p = block_spans cx ?fs p" if "p \<in> indexed ?ix - ?rels" for p
    proof (rule content_block_spans, rule same)
      show "p \<noteq> ?out" "p \<noteq> tmp_path out_dir (merge_stem prefx chunk)"
        using ready that unfolding merge_ready_def by blast+
    qed
    have new: "cold_spans cx (ms_index s') (ms_files s') = set ?kept \<union> (\<Union>p\<in>indexed ?ix - ?rels. block_spans cx ?fs p)"
      using rest whole by (simp add: cold_spans_def idx block_spans_read block_whole_read)
    have "indexed ?ix = ?rels \<union> (indexed ?ix - ?rels)" using ready by (auto simp: merge_ready_def)
    then have old: "cold_spans cx ?ix ?fs = set (concat contents) \<union> (\<Union>p\<in>indexed ?ix - ?rels. block_spans cx ?fs p)"
      unfolding cold_spans_def inputs_block_spans [OF inputs, symmetric] by (metis UN_Un)
    have "span_key ` set ?kept = span_key ` set (concat contents)" by (simp only: copy_simps)
    moreover have "set ?kept \<subseteq> set (concat contents)" by (rule first_copies_subset0)
    ultimately show ?thesis unfolding new old image_Un by blast
  qed
  then show "span_key ` cold_spans cx (ms_index s') (ms_files s') = span_key ` cold_spans cx ?ix ?fs"
    "cold_spans cx (ms_index s') (ms_files s') \<subseteq> cold_spans cx ?ix ?fs" by auto
qed

text \<open>
  C4. Merging never loses and never invents: whatever happens to a chunk's merge (it is skipped, a write,
  a stamp or the commit fails, it succeeds), the committed, readable identities are afterwards the
  same ones, and every span served afterwards was served before; this needs the output's name to
  be free, or taken by one of the inputs.
\<close>

theorem merge_chunk_preserves_identities:
  assumes "list_all2 (\<lambda>c spans. block_whole cx (ms_files s) (cd_rel c) spans) chunk contents"
    and "merge_ready (ms_index s) out_dir prefx chunk"
    and "merge_chunk cx io now out_dir prefx chunk False s = (r, s')"
  shows "span_key ` cold_spans cx (ms_index s') (ms_files s') = span_key ` cold_spans cx (ms_index s) (ms_files s)
     \<and> cold_spans cx (ms_index s') (ms_files s') \<subseteq> cold_spans cx (ms_index s) (ms_files s)"
  using merge_chunk_keeps [OF assms] by blast

text \<open>A store of four one-span blocks of one closed day, all flushed from segment 1.\<close>

definition demo_block :: "normalized_span \<Rightarrow> block_file" where
  "demo_block s = \<lparr>bf_kv = None, bf_batches = [columns_of tiny_codec [s]], bf_mtime = 0\<rparr>"

definition demo_cand :: "str \<Rightarrow> candidate" where
  "demo_cand rel = \<lparr>cd_rel = rel, cd_rows = 1, cd_bytes = 100, cd_modified = Some 0,
     cd_seqno_lo = 1, cd_seqno_hi = 1, cd_price_tables = []\<rparr>"

definition demo_paths :: "str list" where
  "demo_paths = [''blocks/a'', ''blocks/b'', ''blocks/c'', ''blocks/d'']"

definition demo_spans :: "normalized_span list" where
  "demo_spans = [plain_span ''t'' ''a'' 1, plain_span ''t'' ''b'' 2, plain_span ''t'' ''c'' 3, plain_span ''t'' ''d'' 4]"

definition demo_merge_state :: merge_state where
  "demo_merge_state = \<lparr>ms_index = commit_flush 1 (map (\<lambda>(p, s). \<lparr>bm_rel_path = p,
       bm_max_start_unix_nano = ns_start_unix_nano s, bm_trace_ids = [ns_trace_id s]\<rparr>) (zip demo_paths demo_spans)) index_open,
     ms_files = fold (\<lambda>(p, s). om_insert p (demo_block s)) (zip demo_paths demo_spans) om_empty,
     ms_report = empty_report False\<rparr>"

lemma demo_whole:
  "block_whole tiny_codec (ms_files demo_merge_state) ''blocks/a'' [plain_span ''t'' ''a'' 1]"
  "block_whole tiny_codec (ms_files demo_merge_state) ''blocks/b'' [plain_span ''t'' ''b'' 2]"
  "block_whole tiny_codec (ms_files demo_merge_state) ''blocks/c'' [plain_span ''t'' ''c'' 3]"
  "block_whole tiny_codec (ms_files demo_merge_state) ''blocks/d'' [plain_span ''t'' ''d'' 4]"
  by (simp_all add: block_whole_def demo_merge_state_def demo_paths_def demo_spans_def map_simps
      demo_block_def columns_ok decode_columns)

lemma demo_indexed: "indexed (ms_index demo_merge_state) = {''blocks/a'', ''blocks/b'', ''blocks/c'', ''blocks/d''}"
  by (simp add: demo_merge_state_def demo_paths_def demo_spans_def insert_commute)

lemma demo_free [simp]: "parquet_path ''blocks/x'' st \<noteq> ''blocks/'' @ [c]" "tmp_path ''blocks/x'' st \<noteq> ''blocks/'' @ [c]"
  by (simp_all add: parquet_path_def tmp_path_def)

theorem merge_chunk_preserves_identities_witness:
  "span_key ` cold_spans tiny_codec
      (ms_index (snd (merge_chunk tiny_codec good_merge_io 9 ''blocks/x'' ''day'' [demo_cand ''blocks/a'', demo_cand ''blocks/b''] False demo_merge_state)))
      (ms_files (snd (merge_chunk tiny_codec good_merge_io 9 ''blocks/x'' ''day'' [demo_cand ''blocks/a'', demo_cand ''blocks/b''] False demo_merge_state)))
   = span_key ` cold_spans tiny_codec (ms_index demo_merge_state) (ms_files demo_merge_state)"
proof -
  let ?chunk = "[demo_cand ''blocks/a'', demo_cand ''blocks/b'']"
  have inputs: "list_all2 (\<lambda>c spans. block_whole tiny_codec (ms_files demo_merge_state) (cd_rel c) spans) ?chunk
      [[plain_span ''t'' ''a'' 1], [plain_span ''t'' ''b'' 2]]"
    using demo_whole by (simp add: demo_cand_def)
  have "merge_ready (ms_index demo_merge_state) ''blocks/x'' ''day'' ?chunk"
    using demo_free by (auto simp: merge_ready_def demo_indexed demo_cand_def out_path_def)
  from merge_chunk_preserves_identities [OF inputs this prod.collapse [symmetric]] show ?thesis by blast
qed

text \<open>With nothing failing, a chunk whose output is not one of its inputs is merged.\<close>

lemma merge_chunk_good:
  assumes "list_all2 (\<lambda>c spans. block_whole cx (ms_files s) (cd_rel c) spans) chunk contents"
  shows "fst (merge_chunk cx good_merge_io now out_dir prefx chunk False s) = Inr ()"
proof -
  obtain acc where "merge_inputs (ms_files s) chunk merge_acc_start = Inr acc"
    using merge_inputs_spec [OF assms, of merge_acc_start "[]"] by (auto simp: merge_acc_start_def)
  then show ?thesis by (simp add: merge_chunk_def good_merge_io_def Let_def)
qed

lemma merge_chunk_good_cold:
  assumes inputs: "list_all2 (\<lambda>c spans. block_whole cx (ms_files s) (cd_rel c) spans) chunk contents"
    and fresh: "out_path out_dir prefx chunk \<notin> cd_rel ` set chunk"
    and run: "merge_chunk cx good_merge_io now out_dir prefx chunk False s = (r, s')"
  shows "indexed (ms_index s') = insert (out_path out_dir prefx chunk) (indexed (ms_index s) - cd_rel ` set chunk)"
    "block_whole cx (ms_files s') (out_path out_dir prefx chunk) (first_copies span_key (concat contents))"
    "\<And>p. p \<noteq> out_path out_dir prefx chunk \<Longrightarrow> p \<noteq> tmp_path out_dir (merge_stem prefx chunk) \<Longrightarrow>
       content (ms_files s') p = content (ms_files s) p"
proof -
  have r: "r = Inr ()" using merge_chunk_good [OF inputs] run by (metis fst_conv)
  have "indexed (ms_index s') = insert (out_path out_dir prefx chunk) (indexed (ms_index s) - cd_rel ` set chunk)
    \<and> block_whole cx (ms_files s') (out_path out_dir prefx chunk) (first_copies span_key (concat contents))
    \<and> (\<forall>p. p \<noteq> out_path out_dir prefx chunk \<longrightarrow> p \<noteq> tmp_path out_dir (merge_stem prefx chunk) \<longrightarrow>
       content (ms_files s') p = content (ms_files s) p)"
  proof (rule merge_chunk_cases [OF inputs run])
    fix meta pis assume ix: "ms_index s' = commit_merge meta pis (ms_index s)"
      and out: "bm_rel_path meta = out_path out_dir prefx chunk" and pis: "map fst pis = map cd_rel chunk"
      and rest: "block_whole cx (ms_files s') (out_path out_dir prefx chunk) (first_copies span_key (concat contents))"
        "\<And>p. p \<noteq> out_path out_dir prefx chunk \<Longrightarrow> p \<noteq> tmp_path out_dir (merge_stem prefx chunk) \<Longrightarrow>
           content (ms_files s') p = content (ms_files s) p"
    have "fst ` set pis = cd_rel ` set chunk" using pis by (metis set_map)
    then show ?thesis using rest by (simp add: ix out)
  qed (use fresh r in auto)
  then show "indexed (ms_index s') = insert (out_path out_dir prefx chunk) (indexed (ms_index s) - cd_rel ` set chunk)"
    "block_whole cx (ms_files s') (out_path out_dir prefx chunk) (first_copies span_key (concat contents))"
    "\<And>p. p \<noteq> out_path out_dir prefx chunk \<Longrightarrow> p \<noteq> tmp_path out_dir (merge_stem prefx chunk) \<Longrightarrow>
       content (ms_files s') p = content (ms_files s) p" by auto
qed

lemma foldl_min_Min: "foldl min (x :: nat) xs = Min (set (x # xs))"
proof (induction xs arbitrary: x)
  case (Cons a xs)
  then show ?case by (cases "xs = []") (simp_all add: min.assoc)
qed simp

lemma foldl_max_Max: "foldl max (x :: nat) xs = Max (set (x # xs))"
proof (induction xs arbitrary: x)
  case (Cons a xs)
  then show ?case by (cases "xs = []") (simp_all add: max.assoc)
qed simp

lemma merge_stem_range:
  "chunk \<noteq> [] \<Longrightarrow> merge_stem prefx chunk =
     prefx @ ''-'' @ dec020 (Min (cd_seqno_lo ` set chunk)) @ ''-'' @ dec020 (Max (cd_seqno_hi ` set chunk))"
  by (cases chunk) (simp_all add: merge_stem_def foldl_min_Min foldl_max_Max)

text \<open>
  C31. Two chunks of one day directory that cover the same seqno range destroy each other: whatever blocks they
  hold, their lowest and highest seqnos alone name the output, so when both merges succeed, the second
  output replaces the first and every span of the first chunk is gone from the committed blocks (unless
  another block has it), although both merges report success.
\<close>

theorem day_merge_name_collision_loses_spans:
  assumes in1: "list_all2 (\<lambda>c spans. block_whole cx (ms_files s) (cd_rel c) spans) chunk1 contents1"
    and in2: "list_all2 (\<lambda>c spans. block_whole cx (ms_files s) (cd_rel c) spans) chunk2 contents2"
    and rels: "cd_rel ` set chunk1 \<subseteq> indexed (ms_index s)" "cd_rel ` set chunk2 \<subseteq> indexed (ms_index s)"
    and free: "out_path d ''day'' chunk1 \<notin> indexed (ms_index s)" "tmp_path d (merge_stem ''day'' chunk1) \<notin> indexed (ms_index s)"
    and chunks: "chunk1 \<noteq> []" "chunk2 \<noteq> []"
    and range: "Min (cd_seqno_lo ` set chunk2) = Min (cd_seqno_lo ` set chunk1)"
      "Max (cd_seqno_hi ` set chunk2) = Max (cd_seqno_hi ` set chunk1)"
    and run1: "merge_chunk cx good_merge_io now d ''day'' chunk1 False s = (r1, s1)"
    and run2: "merge_chunk cx good_merge_io now d ''day'' chunk2 False s1 = (r2, s2)"
  shows "r1 = Inr () \<and> r2 = Inr ()
     \<and> cold_spans cx (ms_index s2) (ms_files s2) =
         set (first_copies span_key (concat contents2))
         \<union> (\<Union>p\<in>indexed (ms_index s) - cd_rel ` set chunk1 - cd_rel ` set chunk2. block_spans cx (ms_files s) p)"
proof -
  let ?out = "out_path d ''day'' chunk1"
  have same: "merge_stem ''day'' chunk2 = merge_stem ''day'' chunk1" by (simp add: merge_stem_range chunks range)
  have out2: "out_path d ''day'' chunk2 = ?out" using same by (simp add: out_path_def)
  have fresh1: "?out \<notin> cd_rel ` set chunk1" and fresh2: "out_path d ''day'' chunk2 \<notin> cd_rel ` set chunk2"
    using free rels out2 by auto
  note c1 = merge_chunk_good_cold [OF in1 fresh1 run1]
  have keep: "content (ms_files s1) p = content (ms_files s) p" if "p \<in> indexed (ms_index s)" for p
  proof (rule c1(3))
    show "p \<noteq> ?out" "p \<noteq> tmp_path d (merge_stem ''day'' chunk1)" using free that by blast+
  qed
  have in2': "list_all2 (\<lambda>c spans. block_whole cx (ms_files s1) (cd_rel c) spans) chunk2 contents2"
    by (rule inputs_content [OF in2]) (use keep rels(2) in blast)
  note c2 = merge_chunk_good_cold [OF in2' fresh2 run2]
  have idx: "indexed (ms_index s2) = insert ?out (indexed (ms_index s) - cd_rel ` set chunk1 - cd_rel ` set chunk2)"
    using c2(1) c1(1) fresh2 out2 by auto
  have keep2: "block_spans cx (ms_files s2) p = block_spans cx (ms_files s) p" if "p \<in> indexed (ms_index s)" for p
  proof (rule content_block_spans)
    have "p \<noteq> ?out" "p \<noteq> tmp_path d (merge_stem ''day'' chunk2)" using that free same by auto
    then show "content (ms_files s2) p = content (ms_files s) p"
      using c2(3) keep [OF that] out2 by simp
  qed
  have "cold_spans cx (ms_index s2) (ms_files s2) =
      block_spans cx (ms_files s2) ?out \<union> (\<Union>p\<in>indexed (ms_index s) - cd_rel ` set chunk1 - cd_rel ` set chunk2. block_spans cx (ms_files s) p)"
    unfolding cold_spans_def idx using keep2 by simp
  moreover have "block_spans cx (ms_files s2) ?out = set (first_copies span_key (concat contents2))"
    using c2(2) by (simp add: out2 block_spans_read block_whole_read)
  moreover have "r1 = Inr ()" "r2 = Inr ()"
    using merge_chunk_good [OF in1, of now d "''day''"] merge_chunk_good [OF in2', of now d "''day''"] run1 run2 by simp_all
  ultimately show ?thesis by simp
qed

theorem day_merge_name_collision_loses_spans_witness:
  "chunks (map demo_cand demo_paths) 2 =
     [[demo_cand ''blocks/a'', demo_cand ''blocks/b''], [demo_cand ''blocks/c'', demo_cand ''blocks/d'']]
   \<and> (\<exists>r1 s1 r2 s2.
     merge_chunk tiny_codec good_merge_io 9 ''blocks/x'' ''day'' [demo_cand ''blocks/a'', demo_cand ''blocks/b''] False demo_merge_state = (r1, s1)
     \<and> merge_chunk tiny_codec good_merge_io 9 ''blocks/x'' ''day'' [demo_cand ''blocks/c'', demo_cand ''blocks/d''] False s1 = (r2, s2)
     \<and> plain_span ''t'' ''a'' 1 \<notin> cold_spans tiny_codec (ms_index s2) (ms_files s2))"
proof
  let ?c1 = "[demo_cand ''blocks/a'', demo_cand ''blocks/b'']" and ?c2 = "[demo_cand ''blocks/c'', demo_cand ''blocks/d'']"
  show "chunks (map demo_cand demo_paths) 2 = [?c1, ?c2]"
    by (simp add: chunks_def demo_paths_def demo_cand_def sat_add_def u64_max_def)
  obtain r1 s1 where run1: "merge_chunk tiny_codec good_merge_io 9 ''blocks/x'' ''day'' ?c1 False demo_merge_state = (r1, s1)"
    by (rule prod.exhaust)
  obtain r2 s2 where run2: "merge_chunk tiny_codec good_merge_io 9 ''blocks/x'' ''day'' ?c2 False s1 = (r2, s2)"
    by (rule prod.exhaust)
  have in1: "list_all2 (\<lambda>c spans. block_whole tiny_codec (ms_files demo_merge_state) (cd_rel c) spans) ?c1
      [[plain_span ''t'' ''a'' 1], [plain_span ''t'' ''b'' 2]]"
    and in2: "list_all2 (\<lambda>c spans. block_whole tiny_codec (ms_files demo_merge_state) (cd_rel c) spans) ?c2
      [[plain_span ''t'' ''c'' 3], [plain_span ''t'' ''d'' 4]]"
    using demo_whole by (simp_all add: demo_cand_def)
  have "cold_spans tiny_codec (ms_index s2) (ms_files s2) =
      set (first_copies span_key (concat [[plain_span ''t'' ''c'' 3], [plain_span ''t'' ''d'' 4]]))
      \<union> (\<Union>p\<in>indexed (ms_index demo_merge_state) - cd_rel ` set ?c1 - cd_rel ` set ?c2.
            block_spans tiny_codec (ms_files demo_merge_state) p)"
    using day_merge_name_collision_loses_spans [OF in1 in2 _ _ _ _ _ _ _ _ run1 run2] demo_free
    by (simp add: demo_indexed demo_cand_def out_path_def merge_stem_def)
  moreover have "indexed (ms_index demo_merge_state) - cd_rel ` set ?c1 - cd_rel ` set ?c2 = {}"
    by (auto simp: demo_indexed demo_cand_def)
  ultimately have "cold_spans tiny_codec (ms_index s2) (ms_files s2) \<subseteq> {plain_span ''t'' ''c'' 3, plain_span ''t'' ''d'' 4}"
    using first_copies_subset0 [of span_key "concat [[plain_span ''t'' ''c'' 3], [plain_span ''t'' ''d'' 4]]"] by auto
  then have "plain_span ''t'' ''a'' 1 \<notin> cold_spans tiny_codec (ms_index s2) (ms_files s2)"
    by (auto simp: plain_span_def)
  then show "\<exists>r1 s1 r2 s2.
     merge_chunk tiny_codec good_merge_io 9 ''blocks/x'' ''day'' ?c1 False demo_merge_state = (r1, s1)
     \<and> merge_chunk tiny_codec good_merge_io 9 ''blocks/x'' ''day'' ?c2 False s1 = (r2, s2)
     \<and> plain_span ''t'' ''a'' 1 \<notin> cold_spans tiny_codec (ms_index s2) (ms_files s2)"
    using run1 run2 by blast
qed

section \<open>Planning\<close>

lemma chunk_loop_concat: "concat (chunk_loop mx current rows cs) = current @ cs"
  by (induction mx current rows cs rule: chunk_loop.induct) auto

lemma chunk_loop_nonempty: "c \<in> set (chunk_loop mx current rows cs) \<Longrightarrow> c \<noteq> []"
  by (induction mx current rows cs rule: chunk_loop.induct) (auto split: if_splits)

definition rows_of :: "candidate list \<Rightarrow> u64" where
  "rows_of cs = sum_list (map cd_rows cs)"

lemma chunk_loop_rows:
  "c \<in> set (chunk_loop mx current rows cs) \<Longrightarrow> rows = rows_of current \<or> u64_max \<le> rows_of current \<and> rows = u64_max
     \<Longrightarrow> (length current \<le> 1 \<or> rows \<le> mx) \<Longrightarrow> mx < u64_max \<Longrightarrow>
     length c \<le> 1 \<or> rows_of c \<le> mx"
proof (induction mx current rows cs rule: chunk_loop.induct)
  case (1 mx current rows)
  then show ?case by (auto split: if_splits)
next
  case (2 mx current rows d cs)
  have add: "sat_add rows (cd_rows d) = rows_of (current @ [d])
      \<or> u64_max \<le> rows_of (current @ [d]) \<and> sat_add rows (cd_rows d) = u64_max"
    using 2(4) by (auto simp: sat_add_def rows_of_def)
  have one: "sat_add 0 (cd_rows d) = rows_of [d] \<or> u64_max \<le> rows_of [d] \<and> sat_add 0 (cd_rows d) = u64_max"
    by (auto simp: sat_add_def rows_of_def)
  show ?case
  proof (cases "current \<noteq> [] \<and> mx < sat_add rows (cd_rows d)")
    case True
    then consider "c = current" | "c \<in> set (chunk_loop mx [d] (sat_add 0 (cd_rows d)) cs)"
      using 2(3) by auto
    then show ?thesis
    proof cases
      case 1
      then show ?thesis using 2(4,5,6) by auto
    next
      case 2
      from "2.IH"(1) [OF True 2 one] "2.prems"(4) show ?thesis by simp
    qed
  next
    case False
    have c: "c \<in> set (chunk_loop mx (current @ [d]) (sat_add rows (cd_rows d)) cs)"
      using 2(3) unfolding chunk_loop.simps if_not_P [OF False] .
    have "length (current @ [d]) \<le> 1 \<or> sat_add rows (cd_rows d) \<le> mx" using False by auto
    from "2.IH"(2) [OF False c add this "2.prems"(4)] show ?thesis .
  qed
qed

text \<open>
  The planner's chunks partition the group in seqno order: together they are the candidates, sorted
  by lowest seqno and then path, none is empty, and a chunk of more than one block never holds
  more rows than the cap, so a merged block never exceeds it.
\<close>

theorem chunks_partition_and_respect_the_cap:
  assumes "max_spans < u64_max"
  shows "concat (chunks cands max_spans) = sort_key (\<lambda>c. (cd_seqno_lo c, cd_rel c)) cands
     \<and> (\<forall>c\<in>set (chunks cands max_spans). c \<noteq> [] \<and> (1 < length c \<longrightarrow> rows_of c \<le> max max_spans 1))"
proof -
  have "1 < length c \<longrightarrow> rows_of c \<le> max max_spans 1" if "c \<in> set (chunks cands max_spans)" for c
    using chunk_loop_rows [OF that [unfolded chunks_def]] assms by (auto simp: rows_of_def u64_max_def)
  then show ?thesis
    using chunk_loop_nonempty by (auto simp: chunks_def chunk_loop_concat)
qed

theorem chunks_partition_and_respect_the_cap_witness:
  "concat (chunks (map demo_cand demo_paths) 2) = map demo_cand demo_paths"
  using chunks_partition_and_respect_the_cap [of 2 "map demo_cand demo_paths"]
  by (simp add: u64_max_def demo_paths_def demo_cand_def)

text \<open>Size tiers.\<close>

lemma ilog2_bounds: "0 < n \<Longrightarrow> 2 ^ ilog2 n \<le> n \<and> n < 2 ^ Suc (ilog2 n)"
proof (induction n rule: ilog2.induct)
  case (1 n)
  show ?case
  proof (cases "n < 2")
    case True
    then have "n = 1" using 1(2) by simp
    then show ?thesis by (simp add: ilog2.simps)
  next
    case False
    then have "0 < n div 2" by simp
    from 1(1) [OF False this] have b: "2 ^ ilog2 (n div 2) \<le> n div 2" "n div 2 < 2 ^ Suc (ilog2 (n div 2))" by auto
    have "2 * (n div 2) \<le> n" "n < 2 * (n div 2) + 2" by linarith+
    moreover have "ilog2 n = Suc (ilog2 (n div 2))" using False by (simp add: ilog2.simps [of n])
    ultimately show ?thesis using b by simp
  qed
qed

lemma ilog2_mono_strict: "0 < n \<Longrightarrow> 2 * 2 ^ ilog2 n \<le> m \<Longrightarrow> ilog2 n < ilog2 m"
proof (rule ccontr)
  assume n: "0 < n" "2 * 2 ^ ilog2 n \<le> m" "\<not> ilog2 n < ilog2 m"
  have "0 < (2::nat) * 2 ^ ilog2 n" by simp
  then have "0 < m" using n(2) by linarith
  then have "m < 2 ^ Suc (ilog2 m)" using ilog2_bounds by blast
  also have "(2::nat) ^ Suc (ilog2 m) \<le> 2 ^ Suc (ilog2 n)" using n(3) by (intro power_increasing) simp_all
  finally show False using n(2) by simp
qed

text \<open>
  Size tiering makes progress: blocks of one tier hold row counts within a factor of two, and merging
  two or more non-empty blocks of a tier without dropping a copy yields a block of a strictly higher
  tier, so it is not an input of the same tier's next pass.
\<close>

theorem merged_rows_reach_a_higher_tier:
  assumes "2 \<le> length cs" and "\<forall>c\<in>set cs. tier (cd_rows c) = t \<and> 0 < cd_rows c"
  shows "t < tier (rows_of cs) \<and> (\<forall>a\<in>set cs. \<forall>b\<in>set cs. cd_rows a < 2 * cd_rows b)"
proof -
  have each: "2 ^ t \<le> cd_rows c" "cd_rows c < 2 ^ Suc t" if "c \<in> set cs" for c
  proof -
    have "0 < cd_rows c" "tier (cd_rows c) = t" using assms(2) that by auto
    then have "max (cd_rows c) 1 = cd_rows c" "ilog2 (cd_rows c) = t" by (simp_all add: tier_def)
    then show "2 ^ t \<le> cd_rows c" "cd_rows c < 2 ^ Suc t"
      using ilog2_bounds [OF \<open>0 < cd_rows c\<close>] by simp_all
  qed
  obtain a b ds where cs: "cs = a # b # ds"
    using assms(1) by (metis One_nat_def Suc_1 Suc_le_length_iff)
  have "2 * 2 ^ t \<le> rows_of cs"
    using each(1) [of a] each(1) [of b] by (simp add: cs rows_of_def)
  moreover have t: "t = ilog2 (cd_rows a)" "0 < cd_rows a"
  proof -
    show "0 < cd_rows a" using assms(2) cs by simp
    moreover have "tier (cd_rows a) = t" using assms(2) cs by simp
    moreover have "max (cd_rows a) 1 = cd_rows a" using \<open>0 < cd_rows a\<close> by simp
    ultimately show "t = ilog2 (cd_rows a)" by (simp add: tier_def)
  qed
  moreover have "0 < rows_of cs" using t(2) by (simp add: cs rows_of_def)
  ultimately have "t < ilog2 (rows_of cs)" using ilog2_mono_strict by simp
  moreover have "max (rows_of cs) 1 = rows_of cs" using \<open>0 < rows_of cs\<close> by simp
  moreover have "cd_rows x < 2 * cd_rows y" if "x \<in> set cs" "y \<in> set cs" for x y
    using each(2) [OF that(1)] each(1) [OF that(2)] by simp
  ultimately show ?thesis by (simp add: tier_def)
qed

theorem merged_rows_reach_a_higher_tier_witness:
  "tier 1 < tier (rows_of (map demo_cand demo_paths))"
proof -
  have t: "\<forall>c\<in>set (map demo_cand demo_paths). tier (cd_rows c) = 0 \<and> 0 < cd_rows c"
    by (simp add: demo_paths_def demo_cand_def tier_def ilog2.simps)
  have "2 \<le> length (map demo_cand demo_paths)" by (simp add: demo_paths_def)
  from merged_rows_reach_a_higher_tier [OF this t] have "0 < tier (rows_of (map demo_cand demo_paths))" ..
  moreover have "tier 1 = 0" by (simp add: tier_def ilog2.simps)
  ultimately show ?thesis by simp
qed

section \<open>Why an hour's merges do not collide\<close>

definition chunk_lo :: "candidate list \<Rightarrow> u64" where
  "chunk_lo chunk = (case map cd_seqno_lo chunk of [] \<Rightarrow> 0 | l # ls \<Rightarrow> foldl min l ls)"

definition chunk_hi :: "candidate list \<Rightarrow> u64" where
  "chunk_hi chunk = (case map cd_seqno_hi chunk of [] \<Rightarrow> 0 | h # hs \<Rightarrow> foldl max h hs)"

lemma merge_stem_alt: "merge_stem prefx chunk = prefx @ ''-'' @ dec020 (chunk_lo chunk) @ ''-'' @ dec020 (chunk_hi chunk)"
  by (simp add: merge_stem_def chunk_lo_def chunk_hi_def)

lemma foldl_min_mem: "foldl min (l::nat) ls \<in> insert l (set ls)"
proof (induction ls arbitrary: l)
  case (Cons a ls)
  show ?case using Cons [of "min l a"] by (cases "l \<le> a") auto
qed simp

lemma foldl_max_mem: "foldl max (l::nat) ls \<in> insert l (set ls)"
proof (induction ls arbitrary: l)
  case (Cons a ls)
  show ?case using Cons [of "max l a"] by (cases "l \<le> a") auto
qed simp

lemma chunk_lo_mem: "chunk \<noteq> [] \<Longrightarrow> chunk_lo chunk \<in> cd_seqno_lo ` set chunk"
proof (cases chunk)
  case (Cons c cs)
  then show ?thesis using foldl_min_mem [of "cd_seqno_lo c" "map cd_seqno_lo cs"] by (simp add: chunk_lo_def)
qed simp

lemma chunk_hi_mem: "chunk \<noteq> [] \<Longrightarrow> chunk_hi chunk \<in> cd_seqno_hi ` set chunk"
proof (cases chunk)
  case (Cons c cs)
  then show ?thesis using foldl_max_mem [of "cd_seqno_hi c" "map cd_seqno_hi cs"] by (simp add: chunk_hi_def)
qed simp

lemma dot_notin_dec020 [simp]: "CHR ''.'' \<notin> set (dec020 n)"
  using dec020_digits [of n] digit_not(3) by blast

text \<open>A block whose name says the range its metadata says.\<close>

definition honest_name :: "candidate \<Rightarrow> bool" where
  "honest_name c \<longleftrightarrow> fst (snd (stem_range (file_stem (cd_rel c)))) = cd_seqno_lo c"

text \<open>
  C34. An hour's merge never takes the name of another live block: as long as the blocks of the hour start at
  different seqnos and their names say the range they hold, a block that already has the name of a
  chunk's output is one of the chunk's own inputs, which \<open>merge_chunk\<close> refuses to overwrite.
\<close>

theorem hour_merge_output_is_fresh:
  assumes "distinct (map cd_seqno_lo cands)" and "\<forall>c\<in>set cands. honest_name c \<and> cd_seqno_hi c \<le> u64_max \<and> cd_seqno_lo c \<le> u64_max"
    and "set chunk \<subseteq> set cands" and "chunk \<noteq> []"
    and "q \<in> set cands" and "cd_rel q = out_path hour_dir ''merged'' chunk"
  shows "q \<in> set chunk"
proof -
  obtain c where c: "c \<in> set chunk" "chunk_lo chunk = cd_seqno_lo c"
    using chunk_lo_mem [OF assms(4)] by auto
  obtain c' where c': "c' \<in> set chunk" "chunk_hi chunk = cd_seqno_hi c'"
    using chunk_hi_mem [OF assms(4)] by auto
  have bounds: "chunk_lo chunk \<le> u64_max" "chunk_hi chunk \<le> u64_max"
    using assms(2,3) c c' by auto
  have "file_stem (cd_rel q) = merge_stem ''merged'' chunk"
    unfolding assms(6) out_path_def by (rule file_stem_parquet) (simp_all add: merge_stem_alt)
  then have "stem_range (file_stem (cd_rel q)) = (Merged, chunk_lo chunk, chunk_hi chunk)"
    using stem_range_merged(1) [OF bounds] by (simp add: merge_stem_alt)
  moreover have "honest_name q" using assms(2,5) by blast
  ultimately have "cd_seqno_lo q = cd_seqno_lo c" using c(2) by (simp add: honest_name_def)
  moreover have "c \<in> set cands" using c(1) assms(3) by blast
  ultimately have "q = c" using assms(1,5) by (auto simp: distinct_map inj_on_def)
  then show ?thesis using c(1) by simp
qed

definition demo_hour_cand :: "u64 \<Rightarrow> candidate" where
  "demo_hour_cand n = (demo_cand (flush_path ''h'' n 0))\<lparr>cd_seqno_lo := n, cd_seqno_hi := n\<rparr>"

definition demo_merged_cand :: candidate where
  "demo_merged_cand = (demo_cand (out_path ''blocks/h'' ''merged'' (map demo_hour_cand [1, 2])))\<lparr>cd_seqno_lo := 1, cd_seqno_hi := 2\<rparr>"

theorem hour_merge_output_is_fresh_witness:
  "cd_rel demo_merged_cand = out_path ''blocks/h'' ''merged'' [demo_merged_cand, demo_hour_cand 2]
     \<and> demo_merged_cand \<in> set [demo_merged_cand, demo_hour_cand 2]"
proof -
  have h: "honest_name (demo_hour_cand 2)"
  proof -
    have "file_stem (flush_path ''h'' 2 0) = flush_stem 2 0"
      unfolding flush_path_def by (rule file_stem_parquet) simp_all
    then show ?thesis
      using stem_range_flush [of 2 0] by (simp add: honest_name_def demo_hour_cand_def demo_cand_def flush_stem_def u64_max_def)
  qed
  have stem: "merge_stem ''merged'' (map demo_hour_cand [1, 2]) = ''merged-'' @ dec020 1 @ ''-'' @ dec020 2"
    by (simp add: merge_stem_def demo_hour_cand_def numeral_2_eq_2)
  have "file_stem (cd_rel demo_merged_cand) = ''merged-'' @ dec020 1 @ ''-'' @ dec020 2"
    unfolding demo_merged_cand_def out_path_def stem by (simp add: demo_cand_def file_stem_parquet)
  then have m: "honest_name demo_merged_cand"
    using stem_range_merged [of 1 2] by (simp add: honest_name_def demo_merged_cand_def u64_max_def)
  have rel: "cd_rel demo_merged_cand = out_path ''blocks/h'' ''merged'' [demo_merged_cand, demo_hour_cand 2]"
    by (simp add: demo_merged_cand_def out_path_def merge_stem_def demo_hour_cand_def demo_cand_def numeral_2_eq_2)
  have "demo_merged_cand \<in> set [demo_merged_cand, demo_hour_cand 2]"
    by (rule hour_merge_output_is_fresh [OF _ _ _ _ _ rel, of "[demo_merged_cand, demo_hour_cand 2]"])
      (use h m in \<open>simp_all add: demo_merged_cand_def demo_hour_cand_def u64_max_def\<close>)
  then show ?thesis using rel by simp
qed

section \<open>The sweeps\<close>

lemma sweep_unindexed_get:
  "om_get (snd (sweep_unindexed now older ix fs)) p =
     (case om_get fs p of None \<Rightarrow> None
      | Some f \<Rightarrow> if is_stray ix p \<and> old_enough now older f then None else Some f)" if "distinct (om_keys fs)"
  using that unfolding om_get_def sweep_unindexed_def
  by (induction fs) (auto simp: om_keys_def Let_def map_of_eq_None_iff split: option.splits)

lemma sweep_unindexed_count:
  "fst (sweep_unindexed now older ix fs) + length (snd (sweep_unindexed now older ix fs)) = length fs"
  unfolding sweep_unindexed_def Let_def fst_conv snd_conv case_prod_beta by (rule sum_length_filter_compl)

text \<open>
  C35. The sweeps touch only what the index does not name: neither the aged sweep nor the one at open
  removes or changes a committed block; the aged sweep removes exactly the stray files that have
  been unreferenced for the grace period, keeps the younger ones for the readers still using them,
  and reports how many it removed.
\<close>

theorem sweeps_remove_only_unreferenced_files:
  assumes "om_ok fs" and "\<forall>p\<in>indexed ix. \<not> ends_with ''.tmp'' p"
  shows "(\<forall>p\<in>indexed ix. om_get (snd (sweep_unindexed now older ix fs)) p = om_get fs p
              \<and> om_get (sweep_orphans ix fs) p = om_get fs p)
     \<and> (\<forall>p f. om_get fs p = Some f \<longrightarrow>
          (om_get (snd (sweep_unindexed now older ix fs)) p = None \<longleftrightarrow>
             (ends_with ''.tmp'' p \<or> ends_with ''.parquet'' p \<and> p \<notin> indexed ix)
             \<and> bf_mtime f \<le> now \<and> older \<le> now - bf_mtime f))
     \<and> fst (sweep_unindexed now older ix fs) = length fs - length (snd (sweep_unindexed now older ix fs))"
proof -
  note get = sweep_unindexed_get [OF om_ok_distinct [OF assms(1)]]
  have s1: "\<not> is_stray ix p" "\<not> is_orphan ix p" if "p \<in> indexed ix" for p
    using assms(2) that by (auto simp: is_stray_def is_orphan_def indexed_def)
  have g1: "om_get (snd (sweep_unindexed now older ix fs)) p = om_get fs p \<and> om_get (sweep_orphans ix fs) p = om_get fs p"
    if "p \<in> indexed ix" for p
  proof -
    have "om_get (sweep_orphans ix fs) p = om_get fs p"
      unfolding om_get_def sweep_orphans_def using s1(2) [OF that] by (induction fs) auto
    then show ?thesis using s1(1) [OF that] get by (simp split: option.splits)
  qed
  have "fst (sweep_unindexed now older ix fs) = length fs - length (snd (sweep_unindexed now older ix fs))"
    using sweep_unindexed_count [of now older ix fs] by simp
  then show ?thesis
    using g1 get by (auto simp: is_stray_def old_enough_def indexed_def split: if_splits)
qed

theorem sweeps_remove_only_unreferenced_files_witness:
  "om_get (snd (sweep_unindexed 90 60 index_open (om_insert ''x.tmp'' (demo_block demo_span) om_empty))) ''x.tmp'' = None"
proof -
  have e: "ends_with ''.tmp'' ''x.tmp''" by (simp add: ends_with_def starts_with_def)
  have "\<forall>p\<in>indexed index_open. \<not> ends_with ''.tmp'' p" by simp
  from sweeps_remove_only_unreferenced_files [OF om_ok_insert [OF om_ok_empty] this, of 90 60 "''x.tmp''" "demo_block demo_span"]
  show ?thesis by (simp add: map_simps demo_block_def e)
qed

end
