(* ===== verification/TopN.thy ===== *)
theory TopN
  imports Prelude "HOL-Library.Product_Lexorder"
begin

text \<open>
  The bounded selection of \<^verbatim>\<open>src/store/mod.rs\<close> (\<open>TopN\<close>, \<open>Loser\<close>, \<open>Rows\<close>): the newest
  \<open>limit\<close> items, kept in a heap whose maximum is the item that loses next. \<open>BinaryHeap\<close> is a library
  type; what the code relies on is stated by the locale \<open>max_heap\<close>, and the ordered list of the
  heap's items provides it.
\<close>

section \<open>Losers\<close>

record 'a loser =
  l_start :: nat
  l_seq :: nat
  l_item :: 'a

text \<open>
  \<open>Ord::cmp\<close>: reversed on the start, then the sequence number. \<open>a \<le> b\<close> means \<open>b\<close> loses no
  later than \<open>a\<close>.
\<close>

definition loser_le :: "'a loser \<Rightarrow> 'a loser \<Rightarrow> bool" where
  "loser_le a b \<longleftrightarrow> l_start b < l_start a \<or> (l_start b = l_start a \<and> l_seq a \<le> l_seq b)"

section \<open>The heap interface\<close>

locale max_heap =
  fixes h_empty :: "'h"
    and h_push :: "'a loser \<Rightarrow> 'h \<Rightarrow> 'h"
    and h_pop :: "'h \<Rightarrow> 'h"
    and h_sorted :: "'h \<Rightarrow> 'a loser list"
    and h_ok :: "'h \<Rightarrow> bool"
  assumes ok_empty: "h_ok h_empty"
    and ok_push: "h_ok h \<Longrightarrow> h_ok (h_push x h)"
    and ok_pop: "h_ok h \<Longrightarrow> h_ok (h_pop h)"
    and sorted_empty: "h_sorted h_empty = []"
    and sorted_ok: "h_ok h \<Longrightarrow> sorted_wrt loser_le (h_sorted h)"
    and mset_push: "h_ok h \<Longrightarrow> mset (h_sorted (h_push x h)) = add_mset x (mset (h_sorted h))"
    and sorted_pop: "h_ok h \<Longrightarrow> h_sorted (h_pop h) = butlast (h_sorted h)"

section \<open>Sorted lists of losers\<close>

lemma loser_le_refl [simp]: "loser_le a a"
  by (simp add: loser_le_def)

lemma loser_le_trans: "loser_le a b \<Longrightarrow> loser_le b c \<Longrightarrow> loser_le a c"
  by (auto simp: loser_le_def)

lemma loser_le_total: "loser_le a b \<or> loser_le b a"
  by (auto simp: loser_le_def)

lemma loser_le_antisym: "loser_le a b \<Longrightarrow> loser_le b a \<Longrightarrow> l_seq a = l_seq b"
  by (auto simp: loser_le_def)

lemma loser_le_same_seq: "loser_le a b \<Longrightarrow> loser_le b a \<Longrightarrow> l_start a = l_start b"
  by (auto simp: loser_le_def)

fun loser_insert :: "'a loser \<Rightarrow> 'a loser list \<Rightarrow> 'a loser list" where
  "loser_insert x [] = [x]"
| "loser_insert x (y # ys) = (if loser_le y x then y # loser_insert x ys else x # y # ys)"

lemma mset_loser_insert [simp]: "mset (loser_insert x xs) = add_mset x (mset xs)"
  by (induction xs) auto

lemma set_loser_insert [simp]: "set (loser_insert x xs) = insert x (set xs)"
  by (induction xs) auto

lemma length_loser_insert [simp]: "length (loser_insert x xs) = Suc (length xs)"
  by (induction xs) auto

lemma sorted_loser_insert:
  "sorted_wrt loser_le xs \<Longrightarrow> sorted_wrt loser_le (loser_insert x xs)"
proof (induction xs)
  case (Cons y ys)
  show ?case
  proof (cases "loser_le y x")
    case False
    then have "loser_le x y" using loser_le_total by blast
    then show ?thesis using Cons False loser_le_trans by auto
  qed (use Cons in auto)
qed simp

lemma sorted_wrt_butlast: "sorted_wrt R xs \<Longrightarrow> sorted_wrt R (butlast xs)"
  by (induction xs rule: rev_induct) (auto simp: sorted_wrt_append)

text \<open>Insertion into the ordered list and a cut commute: what falls off never comes back.\<close>

lemma take_loser_insert:
  assumes "sorted_wrt loser_le xs"
  shows "take n (loser_insert x (take n xs)) = take n (loser_insert x xs)"
  using assms
proof (induction xs arbitrary: n)
  case (Cons y ys)
  then show ?case
    by (cases n) (auto simp: take_Cons' split: if_splits)
qed simp

text \<open>With distinct sequence numbers the order is total, so a sorted list is unique.\<close>

lemma loser_sorted_unique:
  "sorted_wrt loser_le xs \<Longrightarrow> sorted_wrt loser_le ys \<Longrightarrow> mset xs = mset ys \<Longrightarrow>
     distinct (map l_seq xs) \<Longrightarrow> xs = ys"
proof (induction xs arbitrary: ys)
  case (Cons x xs)
  obtain y zs where ys: "ys = y # zs" using Cons.prems(3) by (cases ys) auto
  have set_eq: "set (x # xs) = set ys" using Cons.prems(3) by (metis set_mset_mset)
  have "loser_le x y" "loser_le y x"
    using Cons.prems(1,2) set_eq ys by (metis list.set_intros(1) loser_le_refl set_ConsD sorted_wrt.simps(2))+
  then have "l_seq x = l_seq y" by (rule loser_le_antisym)
  moreover have "y \<in> set (x # xs)" using set_eq ys by simp
  ultimately have "x = y" using Cons.prems(4) by auto
  then show ?case using Cons ys by auto
qed simp

lemma butlast_cut: "length h \<le> Suc n \<Longrightarrow> (if n < length h then butlast h else h) = take n h"
  by (cases "length h = Suc n") (auto simp: butlast_conv_take)

context max_heap begin

lemma bounded_push:
  assumes "h_ok h" and "h_sorted h = take n xs" and "sorted_wrt loser_le xs"
    and "distinct (map l_seq (x # xs))"
  shows "h_sorted (if n < length (h_sorted (h_push x h)) then h_pop (h_push x h) else h_push x h)
    = take n (loser_insert x xs)"
proof -
  have "mset (map l_seq (loser_insert x (take n xs))) = mset (map l_seq (x # take n xs))"
    by simp
  then have "distinct (map l_seq (loser_insert x (take n xs)))"
    using assms(4) by (metis distinct.simps(2) distinct_take in_set_takeD list.simps(9) mset_eq_imp_distinct_iff take_map)
  then have push: "h_sorted (h_push x h) = loser_insert x (take n xs)"
    using loser_sorted_unique [of "loser_insert x (take n xs)" "h_sorted (h_push x h)"]
      mset_push [OF assms(1)] sorted_ok [OF ok_push [OF assms(1)]] assms(2,3)
    by (simp add: sorted_loser_insert sorted_wrt_take)
  have "h_sorted (if n < length (h_sorted (h_push x h)) then h_pop (h_push x h) else h_push x h)
      = take n (h_sorted (h_push x h))"
    using butlast_cut [of "h_sorted (h_push x h)" n] sorted_pop [OF ok_push [OF assms(1)]]
    by (auto simp: push)
  then show ?thesis by (simp add: push take_loser_insert [OF assms(3)])
qed

end

interpretation lh: max_heap "[]" loser_insert butlast "\<lambda>h. h" "sorted_wrt loser_le"
  by unfold_locales (auto simp: sorted_loser_insert sorted_wrt_butlast)

section \<open>The bounded selection\<close>

record 'a top_n =
  t_heap :: "'a loser list"
  t_limit :: nat
  t_seq :: nat

definition top_n_new :: "nat \<Rightarrow> 'a top_n" where
  "top_n_new limit = \<lparr>t_heap = [], t_limit = limit, t_seq = 0\<rparr>"

definition top_n_push :: "nat \<Rightarrow> 'a \<Rightarrow> 'a top_n \<Rightarrow> 'a top_n" where
  "top_n_push start item t =
     (let heap = loser_insert \<lparr>l_start = start, l_seq = t_seq t, l_item = item\<rparr> (t_heap t)
      in t\<lparr>t_heap := (if t_limit t < length heap then butlast heap else heap),
           t_seq := t_seq t + 1\<rparr>)"

definition top_n_into_vec :: "'a top_n \<Rightarrow> 'a list" where
  "top_n_into_vec t = map l_item (t_heap t)"

text \<open>\<open>cloned\<close>: the survivors as owned items, with the same starts and sequence numbers.\<close>

definition top_n_cloned :: "'a top_n \<Rightarrow> 'a top_n" where
  "top_n_cloned t =
     \<lparr>t_heap = map (\<lambda>l. \<lparr>l_start = l_start l, l_seq = l_seq l, l_item = l_item l\<rparr>) (t_heap t),
      t_limit = t_limit t, t_seq = t_seq t\<rparr>"

text \<open>\<open>Rows\<close>; \<open>None\<close> stands for the limit \<open>usize::MAX\<close>.\<close>

datatype 'a rows = Top "'a top_n" | All "(nat \<times> 'a) list"

definition rows_new :: "nat option \<Rightarrow> 'a rows" where
  "rows_new limit = (case limit of None \<Rightarrow> All [] | Some n \<Rightarrow> Top (top_n_new n))"

definition rows_push :: "nat \<Rightarrow> 'a \<Rightarrow> 'a rows \<Rightarrow> 'a rows" where
  "rows_push start item r =
     (case r of Top t \<Rightarrow> Top (top_n_push start item t) | All xs \<Rightarrow> All (xs @ [(start, item)]))"

definition rows_into_vec :: "'a rows \<Rightarrow> 'a list" where
  "rows_into_vec r =
     (case r of Top t \<Rightarrow> top_n_into_vec t | All xs \<Rightarrow> map snd (sort_key_desc fst xs))"

text \<open>Pushing a sequence of candidates.\<close>

definition push_all :: "(nat \<times> 'a) list \<Rightarrow> 'a rows \<Rightarrow> 'a rows" where
  "push_all xs r = fold (\<lambda>(start, item). rows_push start item) xs r"

section \<open>The selection is the head of the stable sort\<close>

text \<open>The reference: newest first, ties in insertion order, at most \<open>limit\<close> of them.\<close>

definition newest :: "nat option \<Rightarrow> (nat \<times> 'a) list \<Rightarrow> 'a list" where
  "newest limit xs =
     (let all = map snd (sort_key_desc fst xs)
      in case limit of None \<Rightarrow> all | Some n \<Rightarrow> take n all)"

definition losers :: "(nat \<times> 'a) list \<Rightarrow> 'a loser list" where
  "losers xs = map (\<lambda>(i, s, a). \<lparr>l_start = s, l_seq = i, l_item = a\<rparr>) (enumerate 0 xs)"

lemma losers_snoc:
  "losers (xs @ [(s, a)]) = losers xs @ [\<lparr>l_start = s, l_seq = length xs, l_item = a\<rparr>]"
  by (simp add: losers_def enumerate_append_eq)

lemma losers_seq: "map l_seq (losers xs) = [0..<length xs]"
proof (induction xs rule: rev_induct)
  case Nil
  then show ?case by (simp add: losers_def)
next
  case (snoc p xs)
  then show ?case by (cases p) (simp add: losers_snoc)
qed

lemma losers_seq_less: "l \<in> set (losers xs) \<Longrightarrow> l_seq l < length xs"
  using losers_seq [of xs] by (metis atLeastLessThan_iff image_eqI list.set_map set_upt)

text \<open>All candidates in losing order; inserting the next candidate puts it behind its equals.\<close>

fun sorted_losers :: "'a loser list \<Rightarrow> 'a loser list" where
  "sorted_losers [] = []"
| "sorted_losers (x # xs) = loser_insert x (sorted_losers xs)"

definition all_losers :: "(nat \<times> 'a) list \<Rightarrow> 'a loser list" where
  "all_losers xs = sorted_losers (rev (losers xs))"

lemma all_losers_snoc:
  "all_losers (xs @ [(s, a)]) =
     loser_insert \<lparr>l_start = s, l_seq = length xs, l_item = a\<rparr> (all_losers xs)"
  by (simp add: all_losers_def losers_snoc)

lemma set_sorted_losers [simp]: "set (sorted_losers xs) = set xs"
  by (induction xs) auto

lemma length_sorted_losers [simp]: "length (sorted_losers xs) = length xs"
  by (induction xs) auto

lemma set_all_losers [simp]: "set (all_losers xs) = set (losers xs)"
  by (simp add: all_losers_def)

lemma length_all_losers [simp]: "length (all_losers xs) = length xs"
  by (simp add: all_losers_def losers_def)

lemma sorted_all_losers: "sorted_wrt loser_le (all_losers xs)"
proof -
  have "sorted_wrt loser_le (sorted_losers ys)" for ys :: "'a loser list"
    by (induction ys) (auto simp: sorted_loser_insert)
  then show ?thesis by (simp add: all_losers_def)
qed

lemma distinct_all_losers: "distinct (map l_seq (all_losers xs))"
proof -
  have "mset (sorted_losers ys) = mset ys" for ys :: "'a loser list" by (induction ys) auto
  then have "mset (map l_seq (all_losers xs)) = mset (map l_seq (losers xs))"
    by (simp add: all_losers_def)
  then show ?thesis using losers_seq [of xs] by (metis distinct_upt mset_eq_imp_distinct_iff)
qed

lemma map_insert_desc:
  assumes "\<forall>l\<in>set ls. l_seq l < l_seq x" and "sorted_wrt loser_le ls"
  shows "map (\<lambda>l. (l_start l, l_item l)) (loser_insert x ls) =
    rev (insort_key fst (l_start x, l_item x) (rev (map (\<lambda>l. (l_start l, l_item l)) ls)))"
  using assms
proof (induction ls)
  case (Cons y ys)
  let ?p = "\<lambda>l. (l_start l, l_item l)"
  have app: "insort_key fst (l_start x, l_item x) (zs @ [?p y]) =
      (if l_start y < l_start x then zs @ [?p y] @ [?p x] else insort_key fst (l_start x, l_item x) zs @ [?p y])"
    if "\<forall>z\<in>set zs. fst z \<le> l_start y" for zs
    using that by (induction zs) auto
  have le: "\<forall>z\<in>set (rev (map ?p ys)). fst z \<le> l_start y"
    using Cons.prems(2) by (auto simp: loser_le_def)
  have ins: "loser_le y x \<longleftrightarrow> \<not> l_start y < l_start x"
    using Cons.prems(1) by (auto simp: loser_le_def)
  show ?case
    using Cons app [OF le] ins by auto
qed simp

lemma all_losers_desc:
  "map (\<lambda>l. (l_start l, l_item l)) (all_losers xs) = sort_key_desc fst xs"
proof (induction xs rule: rev_induct)
  case (snoc p xs)
  obtain s a where p: "p = (s, a)" by (rule prod.exhaust)
  have "\<forall>l\<in>set (all_losers xs). l_seq l < length xs"
    by (simp add: losers_seq_less)
  then show ?case
    using snoc map_insert_desc [OF _ sorted_all_losers, of xs "\<lparr>l_start = s, l_seq = length xs, l_item = a\<rparr>"]
    by (simp add: p all_losers_snoc sort_key_desc_def)
qed (simp add: all_losers_def losers_def sort_key_desc_def)

lemma all_losers_items: "map l_item (all_losers xs) = map snd (sort_key_desc fst xs)"
  unfolding all_losers_desc [symmetric] by simp

lemma push_all_top:
  "push_all xs (rows_new (Some n)) =
     Top \<lparr>t_heap = take n (all_losers xs), t_limit = n, t_seq = length xs\<rparr>"
proof (induction xs rule: rev_induct)
  case Nil
  then show ?case by (simp add: push_all_def rows_new_def top_n_new_def all_losers_def losers_def)
next
  case (snoc p xs)
  obtain s a where p: "p = (s, a)" by (rule prod.exhaust)
  let ?l = "\<lparr>l_start = s, l_seq = length xs, l_item = a\<rparr>"
  have fresh: "distinct (map l_seq (?l # all_losers xs))"
    using losers_seq_less [of _ xs] by (fastforce simp: distinct_all_losers)
  have "push_all (xs @ [p]) (rows_new (Some n)) = rows_push s a (push_all xs (rows_new (Some n)))"
    by (simp add: push_all_def p)
  also have "\<dots> = Top \<lparr>t_heap = take n (loser_insert ?l (all_losers xs)), t_limit = n,
      t_seq = Suc (length xs)\<rparr>"
    using lh.bounded_push [OF sorted_wrt_take [OF sorted_all_losers] refl sorted_all_losers fresh]
    by (simp add: snoc rows_push_def top_n_push_def Let_def)
  finally show ?case by (simp add: p all_losers_snoc)
qed

lemma push_all_all: "push_all xs (All ys) = All (ys @ xs)"
  by (induction xs arbitrary: ys) (auto simp: push_all_def rows_push_def)

lemma push_all_append: "push_all (xs @ ys) r = push_all ys (push_all xs r)"
  by (simp add: push_all_def)

lemma top_n_cloned_id [simp]: "top_n_cloned t = t"
  unfolding top_n_cloned_def by (cases t) (simp add: map_idI)

lemma rows_newest: "rows_into_vec (push_all xs (rows_new limit)) = newest limit xs"
proof (cases limit)
  case None
  then show ?thesis by (simp add: rows_new_def push_all_all rows_into_vec_def newest_def)
next
  case (Some n)
  then show ?thesis
    by (simp add: push_all_top rows_into_vec_def top_n_into_vec_def newest_def
        all_losers_items [symmetric] take_map)
qed

text \<open>
  C10. The bounded heap answers the query exactly: whatever candidates are pushed, in whatever order
  and with whatever ties, the selection yields the newest \<open>limit\<close> of them, newest first and ties in
  insertion order, the same list a stable sort of all the candidates would give.
\<close>

theorem top_n_is_the_stable_sort_prefix:
  "rows_into_vec (push_all xs (rows_new (Some n))) = take n (map snd (sort_key_desc fst xs))"
  by (simp add: rows_newest newest_def)

text \<open>
  The selection never holds more than \<open>limit\<close> candidates, whatever is pushed.
\<close>

theorem top_n_bounded:
  "\<exists>t. push_all xs (rows_new (Some n)) = Top t \<and> length (t_heap t) = min n (length xs)"
  by (simp add: push_all_top min.commute)

end
