(* ===== verification/Query.thy ===== *)
theory Query
  imports TopN Flush
begin

text \<open>
  The read path of \<^verbatim>\<open>src/store/mod.rs\<close>: \<open>Store::query\<close>, \<open>trace\<close> and \<open>span_count\<close> over the hot tier and
  the committed cold blocks. The hot tier is read first, under its lock; the blocks are listed and
  read afterwards, while flushes and merges go on, so the two attempts of the retry loop each have
  their own view: the index at the listing and the files at the reads.
\<close>

definition trace_matches :: "str option \<Rightarrow> normalized_span \<Rightarrow> bool" where
  "trace_matches filt s = (case filt of Some t \<Rightarrow> ns_trace_id s = t | None \<Rightarrow> True)"

definition with_start :: "normalized_span list \<Rightarrow> (nat \<times> normalized_span) list" where
  "with_start spans = map (\<lambda>s. (ns_start_unix_nano s, s)) spans"

text \<open>The hot half: the keys of every matching resident span, and the selection.\<close>

definition query_hot :: "str option \<Rightarrow> nat option \<Rightarrow> hot_tier \<Rightarrow> span_key set \<times> normalized_span rows" where
  "query_hot filt limit hot =
     (let (kept, hot_seen) = first_copies_from span_key {} (filter (trace_matches filt) (all_spans hot))
      in (hot_seen,
          case push_all (with_start kept) (rows_new limit) of
            Top refs \<Rightarrow> Top (top_n_cloned refs)
          | All xs \<Rightarrow> All xs))"

datatype cold_result = Vanished | Failed io_error | Gathered "normalized_span rows"

text \<open>One attempt over the listed blocks; a block that is gone ends the first attempt only.\<close>

fun cold_attempt ::
  "codec \<Rightarrow> files \<Rightarrow> bool \<Rightarrow> str option \<Rightarrow> span_key set \<Rightarrow> str list \<Rightarrow> span_key set
     \<Rightarrow> normalized_span rows \<Rightarrow> cold_result" where
  "cold_attempt cx fs first filt hot_seen [] cold_seen cold = Gathered cold"
| "cold_attempt cx fs first filt hot_seen (rel # rest) cold_seen cold =
     (case read_block cx fs rel of
        Inl e \<Rightarrow> if e = NotFound \<and> first then Vanished else Failed e
      | Inr spans \<Rightarrow>
          let (kept, cold_seen') =
                first_copies_from span_key cold_seen
                  (filter (\<lambda>s. trace_matches filt s \<and> span_key s \<notin> hot_seen) spans)
          in cold_attempt cx fs first filt hot_seen rest cold_seen' (push_all (with_start kept) cold))"

definition block_listing :: "str option \<Rightarrow> index \<Rightarrow> str list" where
  "block_listing filt ix = (case filt of Some t \<Rightarrow> block_paths_for_trace t ix | None \<Rightarrow> all_block_paths ix)"

text \<open>A view is the index when the blocks are listed and the files when they are read.\<close>

type_synonym view = "index \<times> files"

definition query ::
  "codec \<Rightarrow> str option \<Rightarrow> nat option \<Rightarrow> hot_tier \<Rightarrow> view \<Rightarrow> view \<Rightarrow> io_error + normalized_span list" where
  "query cx filt limit hot view1 view2 =
     (if limit = Some 0 then Inr []
      else let (hot_seen, rows) = query_hot filt limit hot;
               attempt = (\<lambda>first (ix, fs). cold_attempt cx fs first filt hot_seen
                            (block_listing filt ix) {} (rows_new limit));
               finish = (\<lambda>cold. Inr (rows_into_vec (push_all (with_start (rows_into_vec cold)) rows)))
           in case attempt True view1 of
                Gathered cold \<Rightarrow> finish cold
              | Failed e \<Rightarrow> Inl e
              | Vanished \<Rightarrow>
                  (case attempt False view2 of
                     Gathered cold \<Rightarrow> finish cold
                   | Failed e \<Rightarrow> Inl e
                   | Vanished \<Rightarrow> Inl NotFound))"

definition trace :: "codec \<Rightarrow> str \<Rightarrow> hot_tier \<Rightarrow> view \<Rightarrow> view \<Rightarrow> io_error + normalized_span list" where
  "trace cx t hot view1 view2 =
     (case query cx (Some t) None hot view1 view2 of
        Inl e \<Rightarrow> Inl e | Inr spans \<Rightarrow> Inr (sort_key ns_start_unix_nano spans))"

definition span_count :: "codec \<Rightarrow> hot_tier \<Rightarrow> view \<Rightarrow> view \<Rightarrow> io_error + nat" where
  "span_count cx hot view1 view2 =
     (case query cx None None hot view1 view2 of Inl e \<Rightarrow> Inl e | Inr spans \<Rightarrow> Inr (length spans))"

section \<open>Selecting in two stages\<close>

lemma insort_key_split:
  "insort_key f x ys = takeWhile (\<lambda>y. f y < f x) ys @ x # dropWhile (\<lambda>y. f y < f x) ys"
  by (induction ys) auto

lemma sorted_dropWhile_length:
  assumes "sorted (map f ys)"
  shows "length (dropWhile (\<lambda>y. f y < (k::'k::linorder)) ys) = length (filter (\<lambda>y. k \<le> f y) ys)"
  using assms
proof (induction ys)
  case (Cons y ys)
  show ?case
  proof (cases "f y < k")
    case False
    then have "\<forall>z\<in>set (y # ys). k \<le> f z" using Cons.prems by auto
    then have "filter (\<lambda>z. k \<le> f z) (y # ys) = y # ys" by (simp add: filter_id_conv)
    then show ?thesis using False by simp
  qed (use Cons in auto)
qed simp

text \<open>An item behind at least \<open>n\<close> that beat it does not reach the first \<open>n\<close>.\<close>

lemma take_desc_snoc:
  assumes "n \<le> length (filter (\<lambda>y. f x \<le> f y) xs)"
  shows "take n (sort_key_desc f (xs @ [x])) = take n (sort_key_desc f xs)"
proof -
  let ?ys = "sort_key f (rev xs)"
  let ?t = "takeWhile (\<lambda>y. f y < f x) ?ys" and ?d = "dropWhile (\<lambda>y. f y < f x) ?ys"
  have "length ?d = length (filter (\<lambda>y. f x \<le> f y) ?ys)" by (simp add: sorted_dropWhile_length)
  also have "\<dots> = length (filter (\<lambda>y. f x \<le> f y) xs)"
    by (metis mset_filter mset_rev mset_sort size_mset)
  finally have n: "n \<le> length ?d" using assms by simp
  have "sort_key_desc f (xs @ [x]) = rev ?d @ x # rev ?t"
    by (simp add: sort_key_desc_def insort_key_split)
  moreover have "sort_key_desc f xs = rev ?d @ rev ?t"
    unfolding sort_key_desc_def by (metis rev_append takeWhile_dropWhile_id)
  ultimately show ?thesis using n by simp
qed

lemma take_desc_behind:
  assumes "n \<le> length c" and "\<forall>y\<in>set c. \<forall>z\<in>set d. f z \<le> f y"
  shows "take n (sort_key_desc f (a @ c @ d)) = take n (sort_key_desc f (a @ c))"
  using assms(2)
proof (induction d rule: rev_induct)
  case (snoc x d)
  have "filter (\<lambda>y. f x \<le> f y) c = c" using snoc.prems by (simp add: filter_id_conv)
  then have "n \<le> length (filter (\<lambda>y. f x \<le> f y) (a @ c @ d))" using assms(1) by simp
  from take_desc_snoc [OF this] snoc show ?case by simp
qed simp

lemma sort_key_filters:
  assumes "\<And>k. filter (\<lambda>y. f y = k) xs = filter (\<lambda>y. f y = k) ys"
  shows "sort_key f xs = sort_key f ys"
proof (rule sym, rule properties_for_sort_key)
  show "mset (sort_key f xs) = mset ys"
  proof -
    have "count (mset xs) a = count (mset ys) a" for a
    proof -
      have "count (mset (filter (\<lambda>y. f y = f a) zs)) a = count (mset zs) a" for zs :: "'b list"
        by (simp add: mset_filter)
      then show ?thesis using assms by metis
    qed
    then show ?thesis by (simp add: multiset_eq_iff)
  qed
  show "filter (\<lambda>x. f k = f x) (sort_key f xs) = filter (\<lambda>x. f k = f x) ys" for k
    using assms [of "f k"] sort_key_stable [of f "f k" xs] by (simp add: eq_commute)
qed simp

lemma desc_sort_suffix: "sort_key_desc f (a @ sort_key_desc f b) = sort_key_desc f (a @ b)"
proof -
  have "sort_key f (rev (a @ sort_key_desc f b)) = sort_key f (rev (a @ b))"
    by (rule sort_key_filters) (simp add: sort_key_desc_def sort_key_stable)
  then show ?thesis by (simp add: sort_key_desc_def)
qed

lemma take_desc_two_stages:
  "take n (sort_key_desc f (a @ take n (sort_key_desc f b))) = take n (sort_key_desc f (a @ b))"
proof (cases "n \<le> length b")
  case True
  let ?c = "sort_key_desc f b"
  have "\<forall>y\<in>set (take n ?c). \<forall>z\<in>set (drop n ?c). f z \<le> f y"
    using sort_key_desc_sorted [of f b]
    by (metis append_take_drop_id sorted_wrt_append)
  then have "take n (sort_key_desc f (a @ take n ?c @ drop n ?c)) = take n (sort_key_desc f (a @ take n ?c))"
    using True by (intro take_desc_behind) simp_all
  then show ?thesis by (simp add: desc_sort_suffix)
qed (simp add: desc_sort_suffix)

lemma newest_two_stages:
  "newest limit (xs @ with_start (newest limit (with_start spans))) = newest limit (xs @ with_start spans)"
proof -
  have ws: "with_start (map snd ps) = ps" if "\<forall>p\<in>set ps. fst p = ns_start_unix_nano (snd p)" for ps
    using that by (induction ps) (auto simp: with_start_def)
  have sorted: "\<forall>p\<in>set (sort_key_desc fst (with_start spans)). fst p = ns_start_unix_nano (snd p)"
    by (auto simp: with_start_def)
  show ?thesis
  proof (cases limit)
    case None
    then show ?thesis using ws [OF sorted] by (simp add: newest_def desc_sort_suffix)
  next
    case (Some n)
    have "\<forall>p\<in>set (take n (sort_key_desc fst (with_start spans))). fst p = ns_start_unix_nano (snd p)"
      using sorted by (meson in_set_takeD)
    from ws [OF this] have
      "newest limit (xs @ with_start (newest limit (with_start spans))) =
         map snd (take n (sort_key_desc fst (xs @ take n (sort_key_desc fst (with_start spans)))))"
      by (simp add: newest_def Some take_map)
    then show ?thesis by (simp add: take_desc_two_stages newest_def Some take_map)
  qed
qed

section \<open>What a query returns\<close>

lemma first_copies_skip:
  "fst (first_copies_from key (A \<union> B) xs) = fst (first_copies_from key A (filter (\<lambda>x. key x \<notin> B) xs))"
proof (induction xs arbitrary: A)
  case (Cons a xs)
  have "insert (key a) (A \<union> B) = insert (key a) A \<union> B" by simp
  then show ?case
    using Cons [of A] Cons [of "insert (key a) A"] by (auto simp: case_prod_beta)
qed simp

lemma push_with_start: "push_all (with_start ys) (push_all (with_start xs) r) = push_all (with_start (xs @ ys)) r"
  by (simp add: with_start_def push_all_append)

text \<open>The spans of the listed blocks, in listing order.\<close>

definition listed_spans :: "codec \<Rightarrow> files \<Rightarrow> str list \<Rightarrow> normalized_span list" where
  "listed_spans cx fs paths =
     concat (map (\<lambda>p. case read_block cx fs p of Inl _ \<Rightarrow> [] | Inr spans \<Rightarrow> spans) paths)"

definition readable :: "codec \<Rightarrow> files \<Rightarrow> str list \<Rightarrow> bool" where
  "readable cx fs paths \<longleftrightarrow> list_all (\<lambda>p. case read_block cx fs p of Inl _ \<Rightarrow> False | Inr _ \<Rightarrow> True) paths"

lemma cold_attempt_gathers:
  "readable cx fs paths \<Longrightarrow>
     cold_attempt cx fs first filt hot_seen paths cold_seen cold =
       Gathered (push_all (with_start (fst (first_copies_from span_key cold_seen
         (filter (\<lambda>s. trace_matches filt s \<and> span_key s \<notin> hot_seen) (listed_spans cx fs paths))))) cold)"
proof (induction cx fs first filt hot_seen paths cold_seen cold rule: cold_attempt.induct)
  case (1 cx fs first filt hot_seen cold_seen cold)
  then show ?case by (simp add: listed_spans_def with_start_def push_all_def)
next
  case (2 cx fs first filt hot_seen rel rest cold_seen cold)
  let ?P = "\<lambda>s. trace_matches filt s \<and> span_key s \<notin> hot_seen"
  obtain spans where rd: "read_block cx fs rel = Inr spans" and rest: "readable cx fs rest"
    using 2(2) by (auto simp: readable_def split: sum.splits)
  obtain kept seen' where k: "first_copies_from span_key cold_seen (filter ?P spans) = (kept, seen')"
    by (rule prod.exhaust)
  have seen': "seen' = cold_seen \<union> span_key ` set (filter ?P spans)"
    using first_copies_seen [of span_key cold_seen "filter ?P spans"] k by simp
  note IH = 2(1) [OF rd k [symmetric] refl rest]
  have "listed_spans cx fs (rel # rest) = spans @ listed_spans cx fs rest"
    by (simp add: listed_spans_def rd)
  then have "fst (first_copies_from span_key cold_seen (filter ?P (listed_spans cx fs (rel # rest)))) =
      kept @ fst (first_copies_from span_key seen' (filter ?P (listed_spans cx fs rest)))"
    using k by (simp add: first_copies_append seen')
  then show ?case using IH rd k by (simp add: push_with_start)
qed

text \<open>What both halves amount to: the newest of the distinct matching spans, hot copies first.\<close>

definition query_spec :: "str option \<Rightarrow> nat option \<Rightarrow> normalized_span list \<Rightarrow> normalized_span list \<Rightarrow> normalized_span list" where
  "query_spec filt limit hot cold =
     newest limit (with_start (first_copies span_key (filter (trace_matches filt) (hot @ cold))))"

lemma query_hot_rows:
  "query_hot filt limit hot =
     (span_key ` set (filter (trace_matches filt) (all_spans hot)),
      push_all (with_start (first_copies span_key (filter (trace_matches filt) (all_spans hot)))) (rows_new limit))"
  using first_copies_seen [of span_key "{}" "filter (trace_matches filt) (all_spans hot)"]
  by (simp add: query_hot_def first_copies_def case_prod_beta split: rows.splits)

lemma query_finish:
  fixes filt :: "str option" and hot cold :: "normalized_span list"
  defines "H \<equiv> filter (trace_matches filt) hot"
  shows "rows_into_vec (push_all (with_start (rows_into_vec (push_all (with_start
      (fst (first_copies_from span_key {} (filter (\<lambda>s. trace_matches filt s \<and> span_key s \<notin> span_key ` set H) cold))))
      (rows_new limit)))) (push_all (with_start (first_copies span_key H)) (rows_new limit)))
    = query_spec filt limit hot cold"
proof -
  let ?C = "filter (trace_matches filt) cold"
  have "filter (\<lambda>s. trace_matches filt s \<and> span_key s \<notin> span_key ` set H) cold =
      filter (\<lambda>s. span_key s \<notin> span_key ` set H) ?C"
    by (simp add: conj_commute)
  then have c: "fst (first_copies_from span_key {} (filter (\<lambda>s. trace_matches filt s \<and> span_key s \<notin> span_key ` set H) cold))
      = fst (first_copies_from span_key (span_key ` set H) ?C)" (is "?K = _")
    using first_copies_skip [of span_key "{}" "span_key ` set H" ?C] by simp
  have all: "first_copies span_key (filter (trace_matches filt) (hot @ cold)) = first_copies span_key H @ ?K"
    unfolding c by (simp add: first_copies_def first_copies_append H_def)
  have "rows_into_vec (push_all (with_start (rows_into_vec (push_all (with_start ?K) (rows_new limit))))
      (push_all (with_start (first_copies span_key H)) (rows_new limit)))
    = newest limit (with_start (first_copies span_key H) @ with_start (newest limit (with_start ?K)))"
    by (simp only: push_all_append [symmetric] rows_newest)
  also have "\<dots> = newest limit (with_start (first_copies span_key H) @ with_start ?K)"
    by (rule newest_two_stages)
  finally show ?thesis
    unfolding query_spec_def all by (simp add: with_start_def)
qed

lemma query_spec_zero: "query_spec filt (Some 0) hot cold = []"
  by (simp add: query_spec_def newest_def)

lemma query_first:
  assumes "readable cx fs1 (block_listing filt ix1)"
  shows "query cx filt limit hot (ix1, fs1) view2 =
     Inr (query_spec filt limit (all_spans hot) (listed_spans cx fs1 (block_listing filt ix1)))"
  using query_finish [of filt "all_spans hot"]
  by (simp add: query_def query_hot_rows cold_attempt_gathers [OF assms] query_spec_zero)

lemma query_second:
  assumes "cold_attempt cx fs1 True filt (span_key ` set (filter (trace_matches filt) (all_spans hot)))
      (block_listing filt ix1) {} (rows_new limit) = Vanished"
    and "readable cx fs2 (block_listing filt ix2)" and "limit \<noteq> Some 0"
  shows "query cx filt limit hot (ix1, fs1) (ix2, fs2) =
     Inr (query_spec filt limit (all_spans hot) (listed_spans cx fs2 (block_listing filt ix2)))"
  using query_finish [of filt "all_spans hot"] assms(1,3)
  by (simp add: query_def query_hot_rows Let_def cold_attempt_gathers [OF assms(2)])

section \<open>Properties\<close>

lemma newest_pairs:
  "newest limit (with_start spans) =
     (let all = sort_key_desc ns_start_unix_nano spans in case limit of None \<Rightarrow> all | Some n \<Rightarrow> take n all)"
proof -
  have pairs: "sort_key fst (map (\<lambda>s. (ns_start_unix_nano s, s)) ys) =
      map (\<lambda>s. (ns_start_unix_nano s, s)) (sort_key ns_start_unix_nano ys)" for ys
  proof (induction ys)
    case (Cons y ys)
    have "insort_key fst (ns_start_unix_nano y, y) (map (\<lambda>s. (ns_start_unix_nano s, s)) zs) =
        map (\<lambda>s. (ns_start_unix_nano s, s)) (insort_key ns_start_unix_nano y zs)" for zs
      by (induction zs) auto
    then show ?case using Cons by simp
  qed simp
  have "map snd (sort_key_desc fst (with_start spans)) = sort_key_desc ns_start_unix_nano spans"
    by (simp add: sort_key_desc_def with_start_def rev_map pairs comp_def)
  then show ?thesis by (simp add: newest_def Let_def)
qed

lemma query_spec_props:
  fixes filt :: "str option" and limit :: "nat option" and hot cold :: "normalized_span list"
  defines "r \<equiv> query_spec filt limit hot cold" and "M \<equiv> filter (trace_matches filt) (hot @ cold)"
  shows "distinct (map span_key r)" "sorted_wrt (\<lambda>a b. ns_start_unix_nano b \<le> ns_start_unix_nano a) r"
    "set r \<subseteq> set M" "\<And>n. limit = Some n \<Longrightarrow> length r \<le> n"
    "\<And>s. s \<in> set r \<Longrightarrow> find (\<lambda>x. span_key x = span_key s) M = Some s"
    "\<And>s. s \<in> set M \<Longrightarrow> span_key s \<notin> span_key ` set r \<Longrightarrow>
       \<exists>n c. limit = Some n \<and> length r = n \<and> c \<in> set M \<and> span_key c = span_key s
         \<and> (\<forall>x\<in>set r. ns_start_unix_nano c \<le> ns_start_unix_nano x)"
proof -
  let ?f = "first_copies span_key M"
  let ?all = "sort_key_desc ns_start_unix_nano ?f"
  have r: "r = (case limit of None \<Rightarrow> ?all | Some n \<Rightarrow> take n ?all)"
    unfolding r_def query_spec_def M_def newest_pairs Let_def ..
  have mall: "mset (map span_key ?all) = mset (map span_key ?f)" by simp
  have dall: "distinct (map span_key ?all)"
    using first_copies_distinct0 [of span_key M] mset_eq_imp_distinct_iff [OF mall] by simp
  have sall: "sorted_wrt (\<lambda>a b. ns_start_unix_nano b \<le> ns_start_unix_nano a) ?all"
    by (rule sort_key_desc_sorted)
  show "distinct (map span_key r)"
    using dall by (cases limit) (simp_all add: r take_map [symmetric] distinct_take)
  show "sorted_wrt (\<lambda>a b. ns_start_unix_nano b \<le> ns_start_unix_nano a) r"
    using sall by (cases limit) (simp_all add: r sorted_wrt_take)
  have rf: "set r \<subseteq> set ?f" by (auto simp: r dest: in_set_takeD split: option.splits)
  show "set r \<subseteq> set M" by (rule subset_trans [OF rf first_copies_subset0])
  show "limit = Some n \<Longrightarrow> length r \<le> n" for n by (simp add: r)
  have find_self: "find (\<lambda>x. span_key x = span_key s) xs = Some s"
    if "s \<in> set xs" "distinct (map span_key xs)" for s xs
    using that by (induction xs) auto
  show "find (\<lambda>x. span_key x = span_key s) M = Some s" if "s \<in> set r" for s
  proof -
    have "s \<in> set ?f" using that rf by blast
    from find_self [OF this first_copies_distinct0] show ?thesis by (simp add: first_copies_find0)
  qed
  show "\<exists>n c. limit = Some n \<and> length r = n \<and> c \<in> set M \<and> span_key c = span_key s
         \<and> (\<forall>x\<in>set r. ns_start_unix_nano c \<le> ns_start_unix_nano x)"
    if s: "s \<in> set M" "span_key s \<notin> span_key ` set r" for s
  proof -
    have "span_key s \<in> span_key ` set ?f" using s(1) by (simp add: copy_simps)
    then obtain c where c: "c \<in> set ?f" "span_key c = span_key s" by auto
    have "limit \<noteq> None"
    proof
      assume "limit = None"
      then have "c \<in> set r" using c by (simp add: r)
      then show False using s(2) c(2) by (metis imageI)
    qed
    then obtain n where n: "limit = Some n" by blast
    have "c \<in> set (drop n ?all)"
    proof -
      have "c \<in> set (take n ?all @ drop n ?all)" using c(1) by simp
      moreover have "set (take n ?all) = set r" using n by (simp add: r)
      then have "c \<notin> set (take n ?all)" using s(2) c(2) by (metis imageI)
      ultimately show ?thesis by (metis UnE set_append)
    qed
    moreover have "sorted_wrt (\<lambda>a b. ns_start_unix_nano b \<le> ns_start_unix_nano a) (take n ?all @ drop n ?all)"
      using sall by simp
    ultimately have "\<forall>x\<in>set (take n ?all). ns_start_unix_nano c \<le> ns_start_unix_nano x"
      unfolding sorted_wrt_append by blast
    then have "\<forall>x\<in>set r. ns_start_unix_nano c \<le> ns_start_unix_nano x"
      by (simp add: r n)
    moreover have "length r = n"
      using \<open>c \<in> set (drop n ?all)\<close> by (cases "n \<le> length ?all") (auto simp: r n)
    ultimately show ?thesis
      using n c first_copies_subset0 [of span_key M] by blast
  qed
qed

text \<open>
  C5. A query answers with the newest distinct spans of hot and cold together: when the listed blocks
  can be read, no identity comes back twice, the spans are newest first and at most the limit of
  them, each is the first copy of its identity (so the hot copy wins over a cold one), and an
  identity that is left out has a first copy no newer than anything returned, behind a full page.
\<close>

theorem query_returns_newest_distinct:
  assumes "readable cx fs (block_listing filt ix)"
    and "M = filter (trace_matches filt) (all_spans hot @ listed_spans cx fs (block_listing filt ix))"
  shows "\<exists>r. query cx filt limit hot (ix, fs) view2 = Inr r
     \<and> distinct (map span_key r)
     \<and> sorted_wrt (\<lambda>a b. ns_start_unix_nano b \<le> ns_start_unix_nano a) r
     \<and> (\<forall>n. limit = Some n \<longrightarrow> length r \<le> n)
     \<and> (\<forall>s\<in>set r. find (\<lambda>x. span_key x = span_key s) M = Some s)
     \<and> (\<forall>s\<in>set M. span_key s \<in> span_key ` set r \<or>
          (\<exists>c\<in>set M. span_key c = span_key s \<and> limit = Some (length r)
             \<and> (\<forall>x\<in>set r. ns_start_unix_nano c \<le> ns_start_unix_nano x)))"
proof -
  note q = query_first [OF assms(1), of limit hot view2]
  note p = query_spec_props [where filt = filt and limit = limit and hot = "all_spans hot"
      and cold = "listed_spans cx fs (block_listing filt ix)", folded assms(2)]
  let ?r = "query_spec filt limit (all_spans hot) (listed_spans cx fs (block_listing filt ix))"
  have "span_key s \<in> span_key ` set ?r \<or> (\<exists>c\<in>set M. span_key c = span_key s \<and> limit = Some (length ?r)
      \<and> (\<forall>x\<in>set ?r. ns_start_unix_nano c \<le> ns_start_unix_nano x))" if "s \<in> set M" for s
  proof (cases "span_key s \<in> span_key ` set ?r")
    case False
    from p(6) [OF that this] obtain n c where c: "limit = Some n" "length ?r = n" "c \<in> set M"
      "span_key c = span_key s" "\<forall>x\<in>set ?r. ns_start_unix_nano c \<le> ns_start_unix_nano x" by (elim exE conjE)
    have "limit = Some (length ?r)" using c(1) c(2) by metis
    then show ?thesis using c(3-5) by blast
  qed simp
  then show ?thesis using q p(1,2,4,5) by blast
qed

text \<open>Two blocks: one with spans of two traces, one with a span of the second trace only.\<close>

definition shelf_spans :: "str \<Rightarrow> normalized_span list" where
  "shelf_spans p = (if p = ''a'' then [plain_span ''t'' ''x'' 5, plain_span ''u'' ''y'' 7] else [plain_span ''u'' ''z'' 9])"

definition shelf_files :: files where
  "shelf_files = fold (\<lambda>p. om_insert p \<lparr>bf_kv = None, bf_batches = [columns_of tiny_codec (shelf_spans p)], bf_mtime = 0\<rparr>)
     [''a'', ''b''] om_empty"

definition shelf_index :: index where
  "shelf_index = commit_flush 1 (map (\<lambda>p. \<lparr>bm_rel_path = p, bm_max_start_unix_nano = max_start (shelf_spans p),
     bm_trace_ids = map ns_trace_id (shelf_spans p)\<rparr>) [''a'', ''b'']) index_open"

lemma shelf_read: "p = ''a'' \<or> p = ''b'' \<Longrightarrow> read_block tiny_codec shelf_files p = Inr (shelf_spans p)"
proof -
  assume p: "p = ''a'' \<or> p = ''b''"
  then have "om_get shelf_files p = Some \<lparr>bf_kv = None, bf_batches = [columns_of tiny_codec (shelf_spans p)], bf_mtime = 0\<rparr>"
    by (auto simp: shelf_files_def map_simps)
  moreover have "\<forall>s\<in>set (shelf_spans p). span_fits tiny_codec s" by (simp add: shelf_spans_def)
  ultimately show ?thesis by (simp add: read_block_def columns_ok decode_columns)
qed

lemma shelf_indexed: "index_ok shelf_index" "indexed shelf_index = {''a'', ''b''}" "all_block_paths shelf_index = [''a'', ''b'']"
  "mapped shelf_index = {(''t'', ''a''), (''u'', ''a''), (''u'', ''b'')}"
proof -
  show ok: "index_ok shelf_index" by (simp add: shelf_index_def index_ok_commit_flush)
  show i: "indexed shelf_index = {''a'', ''b''}" by (auto simp: shelf_index_def)
  show "mapped shelf_index = {(''t'', ''a''), (''u'', ''a''), (''u'', ''b'')}" by (auto simp: shelf_index_def shelf_spans_def)
  show "all_block_paths shelf_index = [''a'', ''b'']" by code_simp
qed

theorem query_returns_newest_distinct_witness:
  "all_block_paths shelf_index = [''a'', ''b''] \<and>
   (\<exists>r. query tiny_codec None (Some 2) (hot_push 1 [demo_span, demo_span] om_empty) (shelf_index, shelf_files) (index_open, om_empty) = Inr r
     \<and> distinct (map span_key r) \<and> length r \<le> 2)"
proof -
  have rd: "readable tiny_codec shelf_files (block_listing None shelf_index)"
    by (simp add: readable_def block_listing_def shelf_indexed shelf_read)
  from query_returns_newest_distinct [OF rd refl, of "Some 2" "hot_push 1 [demo_span, demo_span] om_empty" "(index_open, om_empty)"]
  show ?thesis using shelf_indexed(3) by auto
qed

text \<open>The trace table covers the blocks: a block's row for every trace it holds a span of.\<close>

definition traces_mapped :: "codec \<Rightarrow> index \<Rightarrow> files \<Rightarrow> bool" where
  "traces_mapped cx ix fs \<longleftrightarrow>
     (\<forall>p\<in>indexed ix. \<forall>s\<in>block_spans cx fs p. (ns_trace_id s, p) \<in> mapped ix)"

lemma sorted_pairs_snd:
  fixes ps :: "(str \<times> str) list"
  assumes "sorted_wrt (<) ps"
  shows "sorted_wrt (<) (map snd (filter (\<lambda>p. fst p = t) ps))"
  using assms
proof (induction ps)
  case (Cons p ps)
  then show ?case by (cases p) (auto simp: less_prod_def)
qed simp

lemma block_paths_for_trace_filter:
  assumes "index_ok ix"
  shows "block_paths_for_trace t ix = filter (\<lambda>p. (t, p) \<in> mapped ix) (all_block_paths ix)"
proof (rule strict_sorted_equal)
  have keys: "om_ok (ix_trace_blocks ix)" "om_ok (ix_blocks ix)" "snd ` mapped ix \<subseteq> indexed ix"
    using assms by (auto simp: index_ok_def)
  show "sorted_wrt (<) (block_paths_for_trace t ix)"
    unfolding block_paths_for_trace_def using keys(1) by (intro sorted_pairs_snd) (simp add: om_ok_def)
  show "sorted_wrt (<) (filter (\<lambda>p. (t, p) \<in> mapped ix) (all_block_paths ix))"
    using keys(2) by (simp add: om_ok_def all_block_paths_def sorted_wrt_filter)
  show "set (block_paths_for_trace t ix) = set (filter (\<lambda>p. (t, p) \<in> mapped ix) (all_block_paths ix))"
  proof (intro set_eqI iffI)
    fix p assume "p \<in> set (block_paths_for_trace t ix)"
    then have m: "(t, p) \<in> mapped ix" by (auto simp: block_paths_for_trace_def mapped_def)
    then have "p \<in> indexed ix" using keys(3) by force
    then show "p \<in> set (filter (\<lambda>p. (t, p) \<in> mapped ix) (all_block_paths ix))"
      using m by (simp add: indexed_def)
  next
    fix p assume "p \<in> set (filter (\<lambda>p. (t, p) \<in> mapped ix) (all_block_paths ix))"
    then show "p \<in> set (block_paths_for_trace t ix)"
      by (force simp: block_paths_for_trace_def mapped_def)
  qed
qed

lemma listed_filter:
  assumes "\<forall>p\<in>set paths. \<not> Q p \<longrightarrow> (\<forall>s\<in>block_spans cx fs p. \<not> trace_matches filt s)"
  shows "filter (trace_matches filt) (listed_spans cx fs (filter Q paths)) =
     filter (trace_matches filt) (listed_spans cx fs paths)"
  using assms
  by (induction paths) (auto simp: listed_spans_def block_spans_def filter_empty_conv split: sum.splits)

lemma readable_filter: "readable cx fs paths \<Longrightarrow> readable cx fs (filter Q paths)"
  by (auto simp: readable_def list_all_iff)

lemma trace_listing:
  assumes "index_ok ix" and "traces_mapped cx ix fs"
  shows "filter (trace_matches (Some t)) (listed_spans cx fs (block_paths_for_trace t ix)) =
     filter (trace_matches (Some t)) (listed_spans cx fs (all_block_paths ix))"
  unfolding block_paths_for_trace_filter [OF assms(1)]
  using assms(2)
  by (intro listed_filter) (auto simp: traces_mapped_def indexed_def trace_matches_def)

lemma trace_query_all:
  assumes "index_ok ix" and "traces_mapped cx ix fs" and "readable cx fs (all_block_paths ix)"
  shows "query cx (Some t) limit hot (ix, fs) view2 =
     Inr (query_spec (Some t) limit (all_spans hot) (listed_spans cx fs (all_block_paths ix)))"
proof -
  have "readable cx fs (block_listing (Some t) ix)"
    using assms(1,3) by (simp add: block_listing_def block_paths_for_trace_filter readable_filter)
  from query_first [OF this, of limit hot view2] show ?thesis
    using trace_listing [OF assms(1,2), of t] by (simp add: query_spec_def block_listing_def)
qed

text \<open>
  C26. Looking a trace up through the trace table loses nothing: when the table covers the blocks, the
  query for one trace, which opens only the blocks the table lists for it, answers exactly what the
  selection over every committed block would.
\<close>

theorem trace_query_complete:
  assumes "index_ok ix" and "traces_mapped cx ix fs" and "readable cx fs (all_block_paths ix)"
  shows "query cx (Some t) limit hot (ix, fs) view2 =
     Inr (query_spec (Some t) limit (all_spans hot) (listed_spans cx fs (all_block_paths ix)))"
  using assms by (rule trace_query_all)

theorem trace_query_complete_witness:
  "block_paths_for_trace ''t'' shelf_index = [''a''] \<and>
   query tiny_codec (Some ''t'') None (hot_push 2 [plain_span ''t'' ''h'' 11] om_empty) (shelf_index, shelf_files) (index_open, om_empty) =
     Inr [plain_span ''t'' ''h'' 11, plain_span ''t'' ''x'' 5]"
proof -
  have listed: "listed_spans tiny_codec shelf_files (all_block_paths shelf_index) = shelf_spans ''a'' @ shelf_spans ''b''"
    by (simp add: shelf_indexed listed_spans_def shelf_read)
  have hot: "all_spans (hot_push 2 [plain_span ''t'' ''h'' 11] om_empty) = [plain_span ''t'' ''h'' 11]"
    by (simp add: all_spans_def hot_push_def om_alter_def om_get_def om_empty_def om_values_def)
  have "traces_mapped tiny_codec shelf_index shelf_files"
    by (auto simp: traces_mapped_def shelf_indexed block_spans_def shelf_read shelf_spans_def)
  moreover have "readable tiny_codec shelf_files (all_block_paths shelf_index)"
    by (simp add: readable_def shelf_indexed shelf_read)
  ultimately have "query tiny_codec (Some ''t'') None (hot_push 2 [plain_span ''t'' ''h'' 11] om_empty) (shelf_index, shelf_files) (index_open, om_empty) =
     Inr (query_spec (Some ''t'') None [plain_span ''t'' ''h'' 11] (shelf_spans ''a'' @ shelf_spans ''b''))"
    using trace_query_complete [OF shelf_indexed(1), of tiny_codec shelf_files "''t''" None "hot_push 2 [plain_span ''t'' ''h'' 11] om_empty"
        "(index_open, om_empty)"]
    by (simp only: listed hot)
  moreover have "query_spec (Some ''t'') None [plain_span ''t'' ''h'' 11] (shelf_spans ''a'' @ shelf_spans ''b'') =
     [plain_span ''t'' ''h'' 11, plain_span ''t'' ''x'' 5]"
    by code_simp
  moreover have "block_paths_for_trace ''t'' shelf_index = [''a'']" by code_simp
  ultimately show ?thesis by simp
qed

lemma query_spec_all_keys: "span_key ` set (query_spec None None hot cold) = span_key ` set (hot @ cold)"
proof -
  have "trace_matches None s" for s by (simp add: trace_matches_def)
  then have "filter (trace_matches None) (hot @ cold) = hot @ cold" by (simp add: filter_id_conv)
  moreover have "set (sort_key_desc ns_start_unix_nano (first_copies span_key xs)) = set (first_copies span_key xs)" for xs
    by simp
  ultimately show ?thesis
    by (simp add: query_spec_def newest_pairs copy_simps Let_def)
qed

text \<open>
  \<open>span_count\<close> counts identities: the number of different \<open>(trace_id, span_id)\<close> pairs in the hot tier
  and the committed blocks, however many copies of each there are.
\<close>

theorem span_count_counts_identities:
  assumes "readable cx fs (all_block_paths ix)"
  shows "span_count cx hot (ix, fs) view2 =
     Inr (card ((\<lambda>s. (ns_trace_id s, ns_span_id s)) `
       set (all_spans hot @ listed_spans cx fs (all_block_paths ix))))"
proof -
  let ?cold = "listed_spans cx fs (all_block_paths ix)"
  let ?r = "query_spec None None (all_spans hot) ?cold"
  have "query cx None None hot (ix, fs) view2 = Inr ?r"
    using query_first [of cx fs None ix None hot view2] assms by (simp add: block_listing_def)
  moreover have "length ?r = card (span_key ` set (all_spans hot @ ?cold))"
    using query_spec_props(1) [of None None "all_spans hot" ?cold]
    by (metis distinct_card length_map query_spec_all_keys set_map)
  moreover have "card (span_key ` S) = card ((\<lambda>s. (ns_trace_id s, ns_span_id s)) ` S)" for S
  proof -
    have "span_key ` S = (\<lambda>(t, i). key_of t i) ` (\<lambda>s. (ns_trace_id s, ns_span_id s)) ` S"
      by (simp add: image_image span_key_def)
    moreover have "inj (\<lambda>(t, i). key_of t i)" by (auto simp: inj_on_def key_of_eq)
    ultimately show ?thesis by (metis card_image inj_on_subset subset_UNIV)
  qed
  ultimately show ?thesis by (simp add: span_count_def)
qed

theorem span_count_counts_identities_witness:
  "span_count tiny_codec (hot_push 1 [demo_span, demo_span] om_empty) (index_open, om_empty) (index_open, om_empty) = Inr 1"
proof -
  have e: "all_block_paths index_open = []"
    by (simp add: all_block_paths_def index_open_def om_empty_def om_keys_def)
  then have rd: "readable tiny_codec om_empty (all_block_paths index_open)" by (simp add: readable_def)
  have "all_spans (hot_push 1 [demo_span, demo_span] om_empty) = [demo_span, demo_span]"
    by (simp add: all_spans_def hot_push_def om_alter_def om_get_def om_empty_def om_values_def)
  then show ?thesis
    using span_count_counts_identities [OF rd, of "hot_push 1 [demo_span, demo_span] om_empty" "(index_open, om_empty)"]
    by (simp add: e listed_spans_def)
qed

end
