(* ===== verification/Engine.thy ===== *)
theory Engine
  imports Recovery Merge Query
begin

text \<open>
  The storage engine as a whole: the writer task, the compactor (flush, merge, aged sweep), retention
  and crashes, interleaved in any order, as a step relation on the store's state. Every step is made
  of the component's own operations. Two fields are history only: the spans acknowledged to clients
  and the identities retention dropped; a third records that a write to the active segment has failed partway. The compaction lock makes flush, merge, sweep and retention
  exclude each other; the writer and the readers do not take it. A write to the log may fail
  after any number of bytes. A crash cuts every log file anywhere past its fsynced bytes and may keep or lose
  any block file the index does not name.

  The relation admits everything the code does and names the two steps that put acknowledged spans at risk, its
  hazards: a write to a segment behind an earlier write that failed partway (recovery stops at the torn frame and
  drops what follows, \<open>wal_failed_write_hides_later_records\<close>), and a merge whose output name is that of another live
  block (an hour's names never are, \<open>hour_merge_output_is_fresh\<close>; a day's can be,
  \<open>day_merge_name_collision_loses_spans\<close>). \<open>steps cs H\<close> are the runs whose hazards are among \<open>H\<close>; the
  invariant holds along those of \<open>steps cs {}\<close>.
\<close>

text \<open>Where a flush is between its commit and the drop of the hot segment.\<close>

datatype compactor = Idle | Truncating u64 | Dropping u64

datatype hazard = BehindTornWrite | NameInUse

record sys =
  y_wal :: wal
  y_hot :: hot_tier
  y_active :: u64
  y_pending :: pending
  y_ready :: pending
  y_index :: index
  y_files :: files
  y_comp :: compactor
  y_torn :: bool
  y_acked :: "normalized_span set"
  y_expired :: "span_key set"

record codecs =
  cs_ser :: "normalized_span \<Rightarrow> byte list option"
  cs_de :: "byte list \<Rightarrow> normalized_span option"
  cs_crc :: "byte list \<Rightarrow> nat"
  cs_block :: codec

text \<open>
  The assumption on the two uses of \<open>serde_json\<close>: a span the log gives back is one whose attribute map
  a block gives back.
\<close>

definition codecs_agree :: "codecs \<Rightarrow> bool" where
  "codecs_agree cs \<longleftrightarrow> (\<forall>s. storable (cs_ser cs) (cs_de cs) (cs_crc cs) s \<longrightarrow> span_fits (cs_block cs) s)"

abbreviation sys_cold :: "codecs \<Rightarrow> sys \<Rightarrow> normalized_span set" where
  "sys_cold cs y \<equiv> cold_spans (cs_block cs) (y_index y) (y_files y)"

definition fresh_sys :: sys where
  "fresh_sys = \<lparr>y_wal = wal_open om_empty 1, y_hot = om_empty, y_active = 1, y_pending = [], y_ready = [],
     y_index = index_open, y_files = om_empty, y_comp = Idle, y_torn = False, y_acked = {}, y_expired = {}\<rparr>"

text \<open>The state after \<open>Store::open\<close> on what a crash left.\<close>

definition reopened :: "codecs \<Rightarrow> (str \<Rightarrow> nat) \<Rightarrow> files \<Rightarrow> sys \<Rightarrow> sys" where
  "reopened cs at_byte fs y =
     (case store_open (cs_de cs) (cs_crc cs) (crash_dir at_byte (w_dir (y_wal y))) (y_index y) fs of
        (st, w, active) \<Rightarrow>
          y\<lparr>y_wal := w, y_hot := st_hot st, y_active := active, y_pending := [], y_ready := [],
            y_index := st_index st, y_files := st_files st, y_comp := Idle, y_torn := False\<rparr>)"

text \<open>
  What the log needs of \<open>serde_json\<close> and \<open>crc32fast\<close>: a span either cannot be written, or what is written is read
  back.
\<close>

definition writable :: "codecs \<Rightarrow> normalized_span \<Rightarrow> bool" where
  "writable cs s \<longleftrightarrow> cs_ser cs s = None \<or> storable (cs_ser cs) (cs_de cs) (cs_crc cs) s"

text \<open>A write left bytes in the active segment; the hazard of leaving them behind a torn one.\<close>

definition leaves_bytes :: "wal \<Rightarrow> wal \<Rightarrow> bool" where
  "leaves_bytes w w' \<longleftrightarrow> seg_bytes (w_dir w') (w_active_seqno w) \<noteq> seg_bytes (w_dir w) (w_active_seqno w)"

definition write_hazard :: "sys \<Rightarrow> wal \<Rightarrow> hazard option" where
  "write_hazard y wal' = (if y_torn y \<and> leaves_bytes (y_wal y) wal' then Some BehindTornWrite else None)"

inductive step :: "codecs \<Rightarrow> hazard option \<Rightarrow> sys \<Rightarrow> sys \<Rightarrow> bool" for cs where
  append: "\<lbrakk>y_ready y = []; spans \<noteq> [];
     \<forall>s\<in>set spans. writable cs s;
     append_nosync (cs_ser cs) (cs_crc cs) WriteOk spans (y_wal y) = (Inr n, wal')\<rbrakk> \<Longrightarrow>
     step cs (write_hazard y wal') y (y\<lparr>y_wal := wal', y_pending := y_pending y @ [(n, spans, i)]\<rparr>)"
| append_fails: "\<lbrakk>y_ready y = []; \<forall>s\<in>set spans. writable cs s;
     append_nosync (cs_ser cs) (cs_crc cs) outcome spans (y_wal y) = (Inl e, wal')\<rbrakk> \<Longrightarrow>
     step cs (write_hazard y wal') y (y\<lparr>y_wal := wal', y_torn := y_torn y \<or> leaves_bytes (y_wal y) wal'\<rparr>)"
| sync: "\<lbrakk>y_ready y = []; wal_sync True (y_wal y) = (Inr (), wal')\<rbrakk> \<Longrightarrow>
     step cs None y (y\<lparr>y_wal := wal', y_pending := [], y_ready := y_pending y\<rparr>)"
| sync_fails: "\<lbrakk>y_ready y = []; wal_sync False (y_wal y) = (Inl e, wal')\<rbrakk> \<Longrightarrow>
     step cs None y (y\<lparr>y_wal := wal', y_pending := []\<rparr>)"
| publish: "y_ready y = (n, spans, i) # rest \<Longrightarrow>
     step cs None y (y\<lparr>y_ready := rest, y_hot := hot_push n spans (y_hot y), y_acked := y_acked y \<union> set spans\<rparr>)"
| seal: "\<lbrakk>y_pending y = []; y_ready y = []; y_active y < u64_max;
     seal_and_rotate True (y_wal y) = (Inr n, wal')\<rbrakk> \<Longrightarrow>
     step cs None y (y\<lparr>y_wal := wal', y_active := w_active_seqno wal', y_torn := False\<rparr>)"
| flush_fails: "\<lbrakk>y_comp y = Idle; om_get (y_hot y) n = Some held; watermark (y_index y) < n; n < y_active y;
     write_partitions (cs_block cs) stage now v n 0 (by_partition (cs_block cs) (first_copies span_key held)) (y_files y)
       = (r, fs)\<rbrakk> \<Longrightarrow>
     step cs None y (y\<lparr>y_files := fs\<rparr>)"
| flush_commit: "\<lbrakk>y_comp y = Idle; om_get (y_hot y) n = Some held; watermark (y_index y) < n; n < y_active y;
     \<forall>m\<in>set (segnos (y_hot y)). watermark (y_index y) < m \<longrightarrow> n \<le> m;
     write_partitions (cs_block cs) stage now v n 0 (by_partition (cs_block cs) (first_copies span_key held)) (y_files y)
       = (Inr blocks, fs)\<rbrakk> \<Longrightarrow>
     step cs None y (y\<lparr>y_files := fs, y_index := commit_flush n blocks (y_index y), y_comp := Truncating n\<rparr>)"
| flush_delete: "y_comp y = Truncating n \<Longrightarrow>
     step cs None y (y\<lparr>y_wal := (y_wal y)\<lparr>w_dir := delete_segment (w_dir (y_wal y)) n\<rparr>, y_comp := Dropping n\<rparr>)"
| flush_delete_fails: "y_comp y = Truncating n \<Longrightarrow> step cs None y (y\<lparr>y_comp := Idle\<rparr>)"
| flush_drop: "y_comp y = Dropping n \<Longrightarrow>
     step cs None y (y\<lparr>y_hot := drop_segment n (y_hot y), y_comp := Idle\<rparr>)"
| merge: "\<lbrakk>y_comp y = Idle; prefx = ''merged'' \<or> prefx = ''day''; cd_rel ` set chunk \<subseteq> indexed (y_index y);
     h = (if out_path dir prefx chunk \<in> indexed (y_index y) - cd_rel ` set chunk then Some NameInUse else None);
     merge_chunk (cs_block cs) io now dir prefx chunk False
       \<lparr>ms_index = y_index y, ms_files = y_files y, ms_report = rep\<rparr> = (r, s')\<rbrakk> \<Longrightarrow>
     step cs h y (y\<lparr>y_index := ms_index s', y_files := ms_files s'\<rparr>)"
| sweep: "y_comp y = Idle \<Longrightarrow>
     step cs None y (y\<lparr>y_files := snd (sweep_unindexed now older (y_index y) (y_files y))\<rparr>)"
| reclaim: "\<lbrakk>y_comp y = Idle; paths = map fst (expired_blocks cutoff (y_index y))\<rbrakk> \<Longrightarrow>
     step cs None y (y\<lparr>y_index := drop_blocks paths (y_index y), y_files := fold om_remove (take k paths) (y_files y),
       y_expired := y_expired y \<union> (\<Union>p\<in>set paths. span_key ` block_spans (cs_block cs) (y_files y) p)\<rparr>)"
| crash: "\<lbrakk>y_active (reopened cs at_byte fs y) \<le> u64_max; om_ok fs;
     \<forall>p\<in>indexed (y_index y). om_get fs p = om_get (y_files y) p\<rbrakk> \<Longrightarrow>
     step cs None y (reopened cs at_byte fs y)"

definition steps :: "codecs \<Rightarrow> hazard set \<Rightarrow> sys \<Rightarrow> sys \<Rightarrow> bool" where
  "steps cs H = (\<lambda>y z. \<exists>h. step cs h y z \<and> set_option h \<subseteq> H)\<^sup>*\<^sup>*"

section \<open>The invariant\<close>

definition ready_spans :: "pending \<Rightarrow> normalized_span set" where
  "ready_spans ps = (\<Union>(n, spans, i)\<in>set ps. set spans)"

definition hot_at :: "hot_tier \<Rightarrow> u64 \<Rightarrow> normalized_span set" where
  "hot_at hot n = (case om_get hot n of None \<Rightarrow> {} | Some h \<Rightarrow> set h)"

text \<open>
  A segment's file: whole frames, the durable spans among the fsynced ones, the pending ones somewhere, and
  behind them, if a write was torn, the start of further frames.
\<close>

definition seg_inv :: "codecs \<Rightarrow> bool \<Rightarrow> wal_dir \<Rightarrow> u64 \<Rightarrow> normalized_span set \<Rightarrow> normalized_span set \<Rightarrow> bool" where
  "seg_inv cs torn dir n durable written \<longleftrightarrow>
     (\<exists>rs1 rs2 t. seg_bytes dir n = frames (cs_ser cs) (cs_crc cs) (rs1 @ rs2) @ t
        \<and> (\<forall>r\<in>set (rs1 @ rs2). storable (cs_ser cs) (cs_de cs) (cs_crc cs) r)
        \<and> torn_tail (cs_ser cs) (cs_de cs) (cs_crc cs) t \<and> (t = [] \<or> torn)
        \<and> length (frames (cs_ser cs) (cs_crc cs) rs1) \<le> seg_synced dir n
        \<and> durable \<subseteq> set rs1 \<and> written \<subseteq> set (rs1 @ rs2))"

definition durable_at :: "sys \<Rightarrow> u64 \<Rightarrow> normalized_span set" where
  "durable_at y n =
     (if n \<le> watermark (y_index y) then {}
      else hot_at (y_hot y) n \<union> (if n = y_active y then ready_spans (y_ready y) else {}))"

definition wal_inv :: "codecs \<Rightarrow> sys \<Rightarrow> bool" where
  "wal_inv cs y \<longleftrightarrow> wal_names_ok (w_dir (y_wal y)) \<and> w_active_seqno (y_wal y) = y_active y \<and> y_active y \<le> u64_max
     \<and> watermark (y_index y) < y_active y
     \<and> (\<forall>n. seg_inv cs (n = y_active y \<longrightarrow> y_torn y) (w_dir (y_wal y)) n (durable_at y n) (if n = y_active y then ready_spans (y_pending y) else {}))
     \<and> (\<forall>n>y_active y. seg_bytes (w_dir (y_wal y)) n = [])
     \<and> (\<forall>p\<in>set (y_pending y @ y_ready y). fst p = y_active y \<and>
          (\<forall>s\<in>set (fst (snd p)). storable (cs_ser cs) (cs_de cs) (cs_crc cs) s))"

definition hot_inv :: "codecs \<Rightarrow> sys \<Rightarrow> bool" where
  "hot_inv cs y \<longleftrightarrow> om_ok (y_hot y)
     \<and> (\<forall>n h. om_get (y_hot y) n = Some h \<longrightarrow> n \<le> y_active y
          \<and> (\<forall>s\<in>set h. storable (cs_ser cs) (cs_de cs) (cs_crc cs) s)
          \<and> (n \<le> watermark (y_index y) \<longrightarrow> span_key ` set h \<subseteq> span_key ` sys_cold cs y \<union> y_expired y))"

definition block_inv :: "codecs \<Rightarrow> index \<Rightarrow> files \<Rightarrow> str \<Rightarrow> bool" where
  "block_inv cs ix fs p \<longleftrightarrow> \<not> ends_with ''.tmp'' p
     \<and> (\<forall>d n k. p = flush_path d n k \<longrightarrow> n \<le> watermark ix)
     \<and> (\<exists>spans. block_whole (cs_block cs) fs p spans \<and> {t. (t, p) \<in> mapped ix} = ns_trace_id ` set spans)"

definition index_inv :: "codecs \<Rightarrow> sys \<Rightarrow> bool" where
  "index_inv cs y \<longleftrightarrow> index_ok (y_index y) \<and> om_ok (y_files y)
     \<and> (\<forall>p\<in>indexed (y_index y). block_inv cs (y_index y) (y_files y) p)"

definition comp_inv :: "sys \<Rightarrow> bool" where
  "comp_inv y \<longleftrightarrow> (\<forall>n. y_comp y = Truncating n \<or> y_comp y = Dropping n \<longrightarrow> n = watermark (y_index y))"

definition acked_inv :: "codecs \<Rightarrow> sys \<Rightarrow> bool" where
  "acked_inv cs y \<longleftrightarrow>
     span_key ` y_acked y \<subseteq> span_key ` set (all_spans (y_hot y)) \<union> span_key ` sys_cold cs y \<union> y_expired y"

definition sys_inv :: "codecs \<Rightarrow> sys \<Rightarrow> bool" where
  "sys_inv cs y \<longleftrightarrow> wal_inv cs y \<and> hot_inv cs y \<and> index_inv cs y \<and> comp_inv y \<and> acked_inv cs y"

section \<open>Writer steps\<close>

lemma seg_synced_write [simp]: "seg_synced (w_dir (write_active bs w)) n = seg_synced (w_dir w) n"
  by (simp add: seg_synced_def write_active_def map_simps append_bytes_def split: option.splits)

lemma names_ok_write: "wal_names_ok (w_dir w) \<Longrightarrow> w_active_seqno w \<le> u64_max \<Longrightarrow> wal_names_ok (w_dir (write_active bs w))"
  by (auto simp: wal_names_ok_def write_active_def om_alter_def map_simps)

lemma sync_dir:
  assumes "wal_sync True w = (Inr u, w')"
  shows "w_active_seqno w' = w_active_seqno w" "seg_bytes (w_dir w') n = seg_bytes (w_dir w) n"
    "seg_synced (w_dir w') n = (if n = w_active_seqno w then length (seg_bytes (w_dir w) n) else seg_synced (w_dir w) n)"
    "wal_names_ok (w_dir w) \<Longrightarrow> w_active_seqno w \<le> u64_max \<Longrightarrow> wal_names_ok (w_dir w')"
proof -
  have w': "w' = w\<lparr>w_dir := om_alter (segment_path (w_active_seqno w)) \<lparr>sf_bytes = [], sf_synced = 0\<rparr> fsync_file (w_dir w)\<rparr>"
    using assms by (simp add: wal_sync_def)
  show "w_active_seqno w' = w_active_seqno w" by (simp add: w')
  show "seg_bytes (w_dir w') n = seg_bytes (w_dir w) n"
    by (simp add: w' seg_bytes_def map_simps fsync_file_def split: option.splits)
  show "seg_synced (w_dir w') n = (if n = w_active_seqno w then length (seg_bytes (w_dir w) n) else seg_synced (w_dir w) n)"
    by (auto simp: w' seg_bytes_def seg_synced_def map_simps fsync_file_def split: option.splits)
  show "wal_names_ok (w_dir w) \<Longrightarrow> w_active_seqno w \<le> u64_max \<Longrightarrow> wal_names_ok (w_dir w')"
    by (auto simp: w' wal_names_ok_def om_alter_def map_simps)
qed

lemma seal_dir:
  assumes "seal_and_rotate True w = (Inr n, w')"
  shows "w_active_seqno w' = w_active_seqno w + 1" "seg_bytes (w_dir w') m = seg_bytes (w_dir w) m"
    "seg_synced (w_dir w') m = seg_synced (w_dir w) m"
    "wal_names_ok (w_dir w) \<Longrightarrow> w_active_seqno w < u64_max \<Longrightarrow> wal_names_ok (w_dir w')"
proof -
  have w': "w' = \<lparr>w_dir = open_segment_file (w_dir w) (w_active_seqno w + 1), w_active_seqno = w_active_seqno w + 1, w_active_count = 0\<rparr>"
    using assms by (auto simp: seal_and_rotate_def Let_def)
  show "w_active_seqno w' = w_active_seqno w + 1" "seg_bytes (w_dir w') m = seg_bytes (w_dir w) m"
    by (simp_all add: w')
  show "seg_synced (w_dir w') m = seg_synced (w_dir w) m"
    by (auto simp: w' seg_synced_def open_segment_get split: option.splits)
  show "wal_names_ok (w_dir w) \<Longrightarrow> w_active_seqno w < u64_max \<Longrightarrow> wal_names_ok (w_dir w')"
    using open_names_ok by (simp add: w')
qed

lemma seg_inv_same:
  "seg_bytes dir' n = seg_bytes dir n \<Longrightarrow> seg_synced dir' n = seg_synced dir n \<Longrightarrow>
     seg_inv cs torn dir' n D W = seg_inv cs torn dir n D W"
  by (simp add: seg_inv_def)

lemma seg_inv_mono: "seg_inv cs torn dir n D W \<Longrightarrow> D' \<subseteq> D \<Longrightarrow> W' \<subseteq> W \<Longrightarrow> seg_inv cs torn dir n D' W'"
  unfolding seg_inv_def by (elim exE conjE) (intro exI conjI; assumption?; blast)

lemma seg_inv_torn: "seg_inv cs torn dir n D W \<Longrightarrow> seg_inv cs True dir n D W"
  unfolding seg_inv_def by blast

lemma seg_inv_empty: "seg_bytes dir n = [] \<Longrightarrow> seg_inv cs torn dir n {} {}"
  unfolding seg_inv_def by (rule exI [of _ "[]"], rule exI [of _ "[]"], rule exI [of _ "[]"]) simp

lemma seg_inv_holds:
  assumes "seg_inv cs torn dir n D W"
  shows "seg_holds (cs_ser cs) (cs_de cs) (cs_crc cs) dir n D"
proof -
  obtain rs1 rs2 t where r: "seg_bytes dir n = frames (cs_ser cs) (cs_crc cs) (rs1 @ rs2) @ t"
    "\<forall>r\<in>set (rs1 @ rs2). storable (cs_ser cs) (cs_de cs) (cs_crc cs) r" "torn_tail (cs_ser cs) (cs_de cs) (cs_crc cs) t"
    "length (frames (cs_ser cs) (cs_crc cs) rs1) \<le> seg_synced dir n" "D \<subseteq> set rs1"
    using assms unfolding seg_inv_def by blast
  then have "torn_tail (cs_ser cs) (cs_de cs) (cs_crc cs) (frames (cs_ser cs) (cs_crc cs) rs2 @ t)"
    by (intro torn_tail_after) simp_all
  then show ?thesis unfolding seg_holds_def using r by (intro exI [of _ rs1] exI conjI) auto
qed

lemma seg_inv_append:
  assumes "seg_inv cs False dir n D W" and "\<forall>s\<in>set spans. storable (cs_ser cs) (cs_de cs) (cs_crc cs) s"
    and "seg_bytes dir' n = seg_bytes dir n @ frames (cs_ser cs) (cs_crc cs) spans"
    and "seg_synced dir' n = seg_synced dir n"
  shows "seg_inv cs False dir' n D (W \<union> set spans)"
proof -
  obtain rs1 rs2 where "seg_bytes dir n = frames (cs_ser cs) (cs_crc cs) (rs1 @ rs2)"
    "\<forall>r\<in>set (rs1 @ rs2). storable (cs_ser cs) (cs_de cs) (cs_crc cs) r"
    "length (frames (cs_ser cs) (cs_crc cs) rs1) \<le> seg_synced dir n"
    "D \<subseteq> set rs1" "W \<subseteq> set (rs1 @ rs2)"
    using assms(1) unfolding seg_inv_def by (metis append_Nil2)
  then show ?thesis
    unfolding seg_inv_def using assms(2-4)
    by (intro exI [of _ rs1] exI [of _ "rs2 @ spans"] exI [of _ "[]"]) auto
qed

text \<open>A write that fails partway leaves a torn tail, unless there was one.\<close>

lemma seg_inv_tear:
  assumes "seg_inv cs False dir n D W" and "torn_tail (cs_ser cs) (cs_de cs) (cs_crc cs) t"
    and "seg_bytes dir' n = seg_bytes dir n @ t" and "seg_synced dir' n = seg_synced dir n"
  shows "seg_inv cs True dir' n D W"
proof -
  obtain rs1 rs2 where "seg_bytes dir n = frames (cs_ser cs) (cs_crc cs) (rs1 @ rs2)"
    "\<forall>r\<in>set (rs1 @ rs2). storable (cs_ser cs) (cs_de cs) (cs_crc cs) r"
    "length (frames (cs_ser cs) (cs_crc cs) rs1) \<le> seg_synced dir n"
    "D \<subseteq> set rs1" "W \<subseteq> set (rs1 @ rs2)"
    using assms(1) unfolding seg_inv_def by (metis append_Nil2)
  then show ?thesis
    unfolding seg_inv_def using assms(2-4) by (intro exI [of _ rs1] exI [of _ rs2] exI [of _ t]) auto
qed

lemma seg_inv_synced:
  assumes "seg_inv cs torn dir n D W" and "seg_bytes dir' n = seg_bytes dir n"
    and "seg_synced dir' n = length (seg_bytes dir n)"
  shows "seg_inv cs torn dir' n (D \<union> W) {}"
proof -
  obtain rs1 rs2 t where "seg_bytes dir n = frames (cs_ser cs) (cs_crc cs) (rs1 @ rs2) @ t"
    "\<forall>r\<in>set (rs1 @ rs2). storable (cs_ser cs) (cs_de cs) (cs_crc cs) r"
    "torn_tail (cs_ser cs) (cs_de cs) (cs_crc cs) t" "t = [] \<or> torn" "D \<subseteq> set rs1" "W \<subseteq> set (rs1 @ rs2)"
    using assms(1) unfolding seg_inv_def by blast
  then show ?thesis
    unfolding seg_inv_def using assms(2,3)
    by (intro exI [of _ "rs1 @ rs2"] exI [of _ "[]"] exI [of _ t]) auto
qed

lemma ready_spans_simps [simp]:
  "ready_spans [] = {}" "ready_spans ((n, spans, i) # ps) = set spans \<union> ready_spans ps"
  "ready_spans (ps @ qs) = ready_spans ps \<union> ready_spans qs"
  by (auto simp: ready_spans_def)

lemma wal_invD:
  assumes "wal_inv cs y"
  shows "wal_names_ok (w_dir (y_wal y))" "w_active_seqno (y_wal y) = y_active y" "y_active y \<le> u64_max"
    "watermark (y_index y) < y_active y"
    "seg_inv cs (y_torn y) (w_dir (y_wal y)) (y_active y) (durable_at y (y_active y)) (ready_spans (y_pending y))"
    "\<And>n. n \<noteq> y_active y \<Longrightarrow> seg_inv cs True (w_dir (y_wal y)) n (durable_at y n) {}"
    "\<And>n. y_active y < n \<Longrightarrow> seg_bytes (w_dir (y_wal y)) n = []"
    "\<And>p. p \<in> set (y_pending y) \<union> set (y_ready y) \<Longrightarrow> fst p = y_active y"
    "\<And>p s. p \<in> set (y_pending y) \<union> set (y_ready y) \<Longrightarrow> s \<in> set (fst (snd p)) \<Longrightarrow>
       storable (cs_ser cs) (cs_de cs) (cs_crc cs) s"
proof -
  note w = assms [unfolded wal_inv_def]
  show "wal_names_ok (w_dir (y_wal y))" "w_active_seqno (y_wal y) = y_active y" "y_active y \<le> u64_max"
    "watermark (y_index y) < y_active y" using w by auto
  have all: "\<forall>n. seg_inv cs (n = y_active y \<longrightarrow> y_torn y) (w_dir (y_wal y)) n (durable_at y n) (if n = y_active y then ready_spans (y_pending y) else {})"
    using w by blast
  show "seg_inv cs (y_torn y) (w_dir (y_wal y)) (y_active y) (durable_at y (y_active y)) (ready_spans (y_pending y))"
    using all [rule_format, of "y_active y"] by simp
  show "n \<noteq> y_active y \<Longrightarrow> seg_inv cs True (w_dir (y_wal y)) n (durable_at y n) {}" for n
    using all [rule_format, of n] by simp
  show "y_active y < n \<Longrightarrow> seg_bytes (w_dir (y_wal y)) n = []" for n using w by blast
  show "p \<in> set (y_pending y) \<union> set (y_ready y) \<Longrightarrow> fst p = y_active y" for p using w by auto
  show "p \<in> set (y_pending y) \<union> set (y_ready y) \<Longrightarrow> s \<in> set (fst (snd p)) \<Longrightarrow>
       storable (cs_ser cs) (cs_de cs) (cs_crc cs) s" for p s using w by auto
qed

lemma wal_invI:
  assumes "wal_names_ok (w_dir (y_wal y))" "w_active_seqno (y_wal y) = y_active y" "y_active y \<le> u64_max"
    "watermark (y_index y) < y_active y"
    "seg_inv cs (y_torn y) (w_dir (y_wal y)) (y_active y) (durable_at y (y_active y)) (ready_spans (y_pending y))"
    "\<And>n. n \<noteq> y_active y \<Longrightarrow> seg_inv cs True (w_dir (y_wal y)) n (durable_at y n) {}"
    "\<And>n. y_active y < n \<Longrightarrow> seg_bytes (w_dir (y_wal y)) n = []"
    "\<And>p. p \<in> set (y_pending y) \<union> set (y_ready y) \<Longrightarrow> fst p = y_active y"
    "\<And>p s. p \<in> set (y_pending y) \<union> set (y_ready y) \<Longrightarrow> s \<in> set (fst (snd p)) \<Longrightarrow>
       storable (cs_ser cs) (cs_de cs) (cs_crc cs) s"
  shows "wal_inv cs y"
  unfolding wal_inv_def using assms by auto

lemma sys_invD:
  assumes "sys_inv cs y"
  shows "wal_inv cs y" "hot_inv cs y" "index_inv cs y" "comp_inv y" "acked_inv cs y"
  using assms by (simp_all add: sys_inv_def)

text \<open>The parts of the invariant a writer step leaves alone.\<close>

lemmas inv_rest = hot_inv_def index_inv_def comp_inv_def acked_inv_def

lemma encoded_storable:
  "encode_all (cs_ser cs) (cs_crc cs) spans = Inr buf \<Longrightarrow> \<forall>s\<in>set spans. writable cs s \<Longrightarrow>
     \<forall>s\<in>set spans. storable (cs_ser cs) (cs_de cs) (cs_crc cs) s"
  by (induction spans arbitrary: buf) (auto simp: writable_def encode_record_def split: sum.splits option.splits)

lemma frames_nonempty: "\<forall>s\<in>set spans. storable ser de crc s \<Longrightarrow> spans \<noteq> [] \<Longrightarrow> frames ser crc spans \<noteq> []"
  using length_frame [of ser de crc] by (cases spans) (force simp: frame_header_len_def)+

lemma inv_append:
  assumes inv: "sys_inv cs y" and "spans \<noteq> []"
    and fit: "\<forall>s\<in>set spans. writable cs s"
    and run: "append_nosync (cs_ser cs) (cs_crc cs) WriteOk spans (y_wal y) = (Inr n, wal')"
    and safe: "write_hazard y wal' = None"
  shows "sys_inv cs (y\<lparr>y_wal := wal', y_pending := y_pending y @ [(n, spans, i)]\<rparr>)"
proof -
  let ?y = "y\<lparr>y_wal := wal', y_pending := y_pending y @ [(n, spans, i)]\<rparr>"
  note w = wal_invD [OF sys_invD(1) [OF inv]]
  have "\<exists>buf. encode_all (cs_ser cs) (cs_crc cs) spans = Inr buf"
    using run assms(2) by (auto simp: append_nosync_def split: sum.splits)
  then have ok: "\<forall>s\<in>set spans. storable (cs_ser cs) (cs_de cs) (cs_crc cs) s" using encoded_storable fit by blast
  have n: "n = y_active y" and wal': "wal' = (write_active (frames (cs_ser cs) (cs_crc cs) spans) (y_wal y))
      \<lparr>w_active_count := w_active_count (y_wal y) + length spans\<rparr>"
    using run append_nosync_ok [OF ok assms(2), of "y_wal y"] w(2) by auto
  have d: "seg_bytes (w_dir wal') m = seg_bytes (w_dir (y_wal y)) m @ (if m = y_active y then frames (cs_ser cs) (cs_crc cs) spans else [])"
    "seg_synced (w_dir wal') m = seg_synced (w_dir (y_wal y)) m" for m
    using w(2) by (auto simp: wal')
  have "frames (cs_ser cs) (cs_crc cs) spans \<noteq> []" using frames_nonempty ok assms(2) by blast
  then have torn: "y_torn y = False" using safe d(1) w(2) by (auto simp: write_hazard_def leaves_bytes_def split: if_splits)
  have dur: "durable_at ?y m = durable_at y m" for m by (simp add: durable_at_def)
  have "wal_inv cs ?y"
  proof (rule wal_invI, unfold dur)
    show "wal_names_ok (w_dir (y_wal ?y))" using w(1-3) names_ok_write [of "y_wal y"] by (simp add: wal')
    show "w_active_seqno (y_wal ?y) = y_active ?y" using w(2) by (simp add: wal')
    show "seg_inv cs (y_torn ?y) (w_dir (y_wal ?y)) (y_active ?y) (durable_at y (y_active ?y)) (ready_spans (y_pending ?y))"
      using seg_inv_append [OF w(5) [unfolded torn] ok, of "w_dir wal'"] d torn by simp
    show "seg_inv cs True (w_dir (y_wal ?y)) m (durable_at y m) {}" if "m \<noteq> y_active ?y" for m
      using w(6) [of m] that d seg_inv_same [of "w_dir wal'" m "w_dir (y_wal y)" cs True] by simp
    show "seg_bytes (w_dir (y_wal ?y)) m = []" if "y_active ?y < m" for m
      using w(7) [of m] that d by simp
    show "fst p = y_active ?y" if "p \<in> set (y_pending ?y) \<union> set (y_ready ?y)" for p
      using w(8) [of p] that n by auto
    show "storable (cs_ser cs) (cs_de cs) (cs_crc cs) x"
      if "p \<in> set (y_pending ?y) \<union> set (y_ready ?y)" "x \<in> set (fst (snd p))" for p x
      using w(9) [of p x] that ok by auto
  qed (use w(3,4) in simp_all)
  then show ?thesis
    using sys_invD [OF inv] by (simp add: sys_inv_def inv_rest)
qed

lemma inv_append_fails:
  assumes inv: "sys_inv cs y" and fit: "\<forall>s\<in>set spans. writable cs s"
    and run: "append_nosync (cs_ser cs) (cs_crc cs) outcome spans (y_wal y) = (Inl e, wal')"
    and safe: "write_hazard y wal' = None"
  shows "sys_inv cs (y\<lparr>y_wal := wal', y_torn := y_torn y \<or> leaves_bytes (y_wal y) wal'\<rparr>)"
proof -
  let ?y = "y\<lparr>y_wal := wal', y_torn := y_torn y \<or> leaves_bytes (y_wal y) wal'\<rparr>"
  note w = wal_invD [OF sys_invD(1) [OF inv]]
  have pre: "spans \<noteq> []" using run by (auto simp: append_nosync_def)
  obtain t where wal': "wal' = y_wal y \<and> t = [] \<or> wal' = write_active t (y_wal y)"
    and t: "torn_tail (cs_ser cs) (cs_de cs) (cs_crc cs) t"
  proof (cases "encode_all (cs_ser cs) (cs_crc cs) spans")
    case (Inl e')
    then show thesis using that [of "[]"] run pre by (simp add: append_nosync_def)
  next
    case (Inr buf)
    note ok = encoded_storable [OF Inr fit]
    have buf: "buf = frames (cs_ser cs) (cs_crc cs) spans" using Inr encode_all_frames [OF ok] by simp
    obtain k where "wal' = write_active (take k buf) (y_wal y)"
      using run Inr pre by (cases outcome) (auto simp: append_nosync_def)
    then show thesis using that [of "take k buf"] torn_tail_frames [OF ok, of k] buf by simp
  qed
  have d: "seg_bytes (w_dir wal') m = seg_bytes (w_dir (y_wal y)) m @ (if m = y_active y then t else [])"
    "seg_synced (w_dir wal') m = seg_synced (w_dir (y_wal y)) m" for m
    using wal' w(2) by auto
  have left: "leaves_bytes (y_wal y) wal' \<longleftrightarrow> t \<noteq> []" using d(1) w(2) by (simp add: leaves_bytes_def)
  then have safe: "\<not> y_torn y \<or> t = []" using safe by (auto simp: write_hazard_def split: if_splits)
  have dur: "durable_at ?y m = durable_at y m" for m by (simp add: durable_at_def)
  have seg: "seg_inv cs (y_torn y \<or> t \<noteq> []) (w_dir wal') (y_active y) (durable_at y (y_active y)) (ready_spans (y_pending y))"
  proof (cases "t = []")
    case True
    then show ?thesis using w(5) d seg_inv_same [of "w_dir wal'" "y_active y" "w_dir (y_wal y)" cs "y_torn y"] by simp
  next
    case False
    then show ?thesis using w(5) safe seg_inv_tear [OF _ t, of "w_dir (y_wal y)" "y_active y" _ _ "w_dir wal'"] d by simp
  qed
  have "wal_inv cs ?y"
  proof (rule wal_invI, unfold dur)
    show "wal_names_ok (w_dir (y_wal ?y))" using wal' w(1-3) names_ok_write [of "y_wal y" t] by auto
    show "w_active_seqno (y_wal ?y) = y_active ?y" using w(2) wal' by auto
    show "seg_inv cs (y_torn ?y) (w_dir (y_wal ?y)) (y_active ?y) (durable_at y (y_active ?y)) (ready_spans (y_pending ?y))"
      using seg left by simp
    show "seg_inv cs True (w_dir (y_wal ?y)) m (durable_at y m) {}" if "m \<noteq> y_active ?y" for m
      using w(6) [of m] that d seg_inv_same [of "w_dir wal'" m "w_dir (y_wal y)" cs True] by simp
  qed (use w(3,4,7-9) d in simp_all)
  then show ?thesis
    using sys_invD [OF inv] by (simp add: sys_inv_def inv_rest)
qed

lemma inv_sync:
  assumes inv: "sys_inv cs y" and "y_ready y = []"
    and run: "wal_sync True (y_wal y) = (Inr (), wal')"
  shows "sys_inv cs (y\<lparr>y_wal := wal', y_pending := [], y_ready := y_pending y\<rparr>)"
proof -
  let ?y = "y\<lparr>y_wal := wal', y_pending := [], y_ready := y_pending y\<rparr>"
  note w = wal_invD [OF sys_invD(1) [OF inv]]
  note d = sync_dir [OF run]
  have dur: "durable_at ?y m = durable_at y m \<union> (if m = y_active y then ready_spans (y_pending y) else {})" for m
    using assms(2) w(4) by (auto simp: durable_at_def)
  have "wal_inv cs ?y"
  proof (rule wal_invI)
    show "wal_names_ok (w_dir (y_wal ?y))" using w(1-3) d(4) by simp
    show "w_active_seqno (y_wal ?y) = y_active ?y" using w(2) d(1) by simp
    show "seg_inv cs (y_torn ?y) (w_dir (y_wal ?y)) (y_active ?y) (durable_at ?y (y_active ?y)) (ready_spans (y_pending ?y))"
      unfolding dur using seg_inv_synced [OF w(5), of "w_dir wal'"] d(2,3) w(2) by simp
    show "seg_inv cs True (w_dir (y_wal ?y)) m (durable_at ?y m) {}" if "m \<noteq> y_active ?y" for m
      unfolding dur using w(6) [of m] that d(2,3) w(2) seg_inv_same [of "w_dir wal'" m "w_dir (y_wal y)" cs True] by simp
    show "fst p = y_active ?y" if "p \<in> set (y_pending ?y) \<union> set (y_ready ?y)" for p
      using w(8) [of p] that by simp
    show "storable (cs_ser cs) (cs_de cs) (cs_crc cs) x"
      if "p \<in> set (y_pending ?y) \<union> set (y_ready ?y)" "x \<in> set (fst (snd p))" for p x
      using w(9) [of p x] that by simp
  qed (use w(3,4,7) d(2) in simp_all)
  then show ?thesis
    using sys_invD [OF inv] by (simp add: sys_inv_def inv_rest)
qed

lemma inv_sync_fails:
  assumes inv: "sys_inv cs y" and run: "wal_sync False (y_wal y) = (Inl e, wal')"
  shows "sys_inv cs (y\<lparr>y_wal := wal', y_pending := []\<rparr>)"
proof -
  let ?y = "y\<lparr>y_wal := wal', y_pending := []\<rparr>"
  note w = wal_invD [OF sys_invD(1) [OF inv]]
  have wal': "wal' = y_wal y" using run by (simp add: wal_sync_def)
  have dur: "durable_at ?y m = durable_at y m" for m by (simp add: durable_at_def)
  have "wal_inv cs ?y"
  proof (rule wal_invI, unfold dur)
    show "seg_inv cs (y_torn ?y) (w_dir (y_wal ?y)) (y_active ?y) (durable_at y (y_active ?y)) (ready_spans (y_pending ?y))"
      using seg_inv_mono [OF w(5)] wal' by simp
    show "fst p = y_active ?y" if "p \<in> set (y_pending ?y) \<union> set (y_ready ?y)" for p
      using w(8) [of p] that by simp
    show "storable (cs_ser cs) (cs_de cs) (cs_crc cs) x"
      if "p \<in> set (y_pending ?y) \<union> set (y_ready ?y)" "x \<in> set (fst (snd p))" for p x
      using w(9) [of p x] that by simp
  qed (use w(1-4,6,7) wal' in simp_all)
  then show ?thesis
    using sys_invD [OF inv] by (simp add: sys_inv_def inv_rest)
qed

lemma hot_at_push: "hot_at (hot_push n spans hot) m = hot_at hot m \<union> (if m = n then set spans else {})"
  by (auto simp: hot_at_def split: option.splits)

lemma all_spans_hot_at: "om_ok hot \<Longrightarrow> set (all_spans hot) = (\<Union>n. hot_at hot n)"
proof -
  assume ok: "om_ok hot"
  have "x \<in> set (all_spans hot) \<longleftrightarrow> (\<exists>n. x \<in> hot_at hot n)" for x
    unfolding all_spans_get [OF ok] hot_at_def by (auto split: option.splits intro: exI)
  then show ?thesis by blast
qed

lemma hot_invD:
  assumes "hot_inv cs y"
  shows "om_ok (y_hot y)"
    "\<And>n h. om_get (y_hot y) n = Some h \<Longrightarrow> n \<le> y_active y"
    "\<And>n h s. om_get (y_hot y) n = Some h \<Longrightarrow> s \<in> set h \<Longrightarrow> storable (cs_ser cs) (cs_de cs) (cs_crc cs) s"
    "\<And>n h. om_get (y_hot y) n = Some h \<Longrightarrow> n \<le> watermark (y_index y) \<Longrightarrow>
       span_key ` set h \<subseteq> span_key ` sys_cold cs y \<union> y_expired y"
  using assms unfolding hot_inv_def by blast+

lemma hot_invI:
  assumes "om_ok (y_hot y)"
    "\<And>n h. om_get (y_hot y) n = Some h \<Longrightarrow> n \<le> y_active y"
    "\<And>n h s. om_get (y_hot y) n = Some h \<Longrightarrow> s \<in> set h \<Longrightarrow> storable (cs_ser cs) (cs_de cs) (cs_crc cs) s"
    "\<And>n h. om_get (y_hot y) n = Some h \<Longrightarrow> n \<le> watermark (y_index y) \<Longrightarrow>
       span_key ` set h \<subseteq> span_key ` sys_cold cs y \<union> y_expired y"
  shows "hot_inv cs y"
  unfolding hot_inv_def using assms by blast

lemma hot_get_push:
  "om_get (hot_push n spans hot) m = Some h \<Longrightarrow>
     m \<noteq> n \<and> om_get hot m = Some h \<or> m = n \<and> set h = hot_at hot n \<union> set spans"
  using hot_at_push [of n spans hot m] by (auto simp: hot_at_def split: if_splits)

lemma inv_publish:
  assumes inv: "sys_inv cs y" and ready: "y_ready y = (n, spans, i) # rest"
  shows "sys_inv cs (y\<lparr>y_ready := rest, y_hot := hot_push n spans (y_hot y), y_acked := y_acked y \<union> set spans\<rparr>)"
proof -
  let ?y = "y\<lparr>y_ready := rest, y_hot := hot_push n spans (y_hot y), y_acked := y_acked y \<union> set spans\<rparr>"
  note w = wal_invD [OF sys_invD(1) [OF inv]]
  have n: "n = y_active y" using w(8) [of "(n, spans, i)"] ready by simp
  have ok: "storable (cs_ser cs) (cs_de cs) (cs_crc cs) x" if "x \<in> set spans" for x
    using w(9) [of "(n, spans, i)" x] ready that by simp
  have dur: "durable_at ?y m = durable_at y m" for m
    using ready n w(4) by (auto simp: durable_at_def hot_at_push)
  have wal: "wal_inv cs ?y"
  proof (rule wal_invI, unfold dur)
    show "fst p = y_active ?y" if "p \<in> set (y_pending ?y) \<union> set (y_ready ?y)" for p
      using w(8) [of p] that ready by auto
    show "storable (cs_ser cs) (cs_de cs) (cs_crc cs) x"
      if "p \<in> set (y_pending ?y) \<union> set (y_ready ?y)" "x \<in> set (fst (snd p))" for p x
      using w(9) [of p x] that ready by auto
  qed (use w(1-7) in simp_all)
  note h = hot_invD [OF sys_invD(2) [OF inv]]
  have old: "storable (cs_ser cs) (cs_de cs) (cs_crc cs) x" if "x \<in> hot_at (y_hot y) m" for x m
    using h(3) [of m _ x] that by (simp add: hot_at_def split: option.splits)
  have hot: "m \<noteq> n \<and> om_get (y_hot y) m = Some h \<or> m = n \<and> set h = hot_at (y_hot y) n \<union> set spans"
    if "om_get (y_hot ?y) m = Some h" for m h
    using that by (simp add: hot_get_push)
  have hot_inv: "hot_inv cs ?y"
  proof (rule hot_invI)
    show "om_ok (y_hot ?y)" using h(1) by simp
    show "m \<le> y_active ?y" if "om_get (y_hot ?y) m = Some h" for m h
      using hot [OF that] n assms h(2) [of m h] by auto
    show "storable (cs_ser cs) (cs_de cs) (cs_crc cs) x" if "om_get (y_hot ?y) m = Some h" "x \<in> set h" for m h x
      using hot [OF that(1)] that(2) h(3) [of m h x] old [of x n] ok [of x] by auto
    show "span_key ` set h \<subseteq> span_key ` sys_cold cs ?y \<union> y_expired ?y"
      if "om_get (y_hot ?y) m = Some h" "m \<le> watermark (y_index ?y)" for m h
      using hot [OF that(1)] that(2) h(4) [of m h] n w(4) by simp
  qed
  have "om_ok (y_hot y)" using sys_invD(2) [OF inv] by (simp add: hot_inv_def)
  then have "set (all_spans (hot_push n spans (y_hot y))) = set (all_spans (y_hot y)) \<union> set spans"
    by (simp add: all_spans_hot_at hot_at_push UN_Un_distrib)
  then have "acked_inv cs ?y"
    using sys_invD(5) [OF inv] by (auto simp: acked_inv_def image_Un)
  then show ?thesis
    using wal hot_inv sys_invD(3,4) [OF inv] by (simp add: sys_inv_def index_inv_def comp_inv_def)
qed

lemma inv_seal:
  assumes inv: "sys_inv cs y" and "y_pending y = []" and "y_ready y = []" and "y_active y < u64_max"
    and run: "seal_and_rotate True (y_wal y) = (Inr n, wal')"
  shows "sys_inv cs (y\<lparr>y_wal := wal', y_active := w_active_seqno wal', y_torn := False\<rparr>)"
proof -
  let ?y = "y\<lparr>y_wal := wal', y_active := w_active_seqno wal', y_torn := False\<rparr>"
  note w = wal_invD [OF sys_invD(1) [OF inv]]
  note d = seal_dir [OF run]
  have a: "w_active_seqno wal' = y_active y + 1" using d(1) w(2) by simp
  have dur: "durable_at ?y m = durable_at y m" for m using assms(3) by (simp add: durable_at_def)
  have seg: "seg_inv cs True (w_dir wal') m (durable_at y m) {}" for m
    using seg_inv_torn [OF w(5)] w(6) assms(2) seg_inv_same [of "w_dir wal'" m "w_dir (y_wal y)" cs True] d(2,3)
    by (cases "m = y_active y") auto
  have "seg_bytes (w_dir wal') (w_active_seqno wal') = []" using w(7) [of "w_active_seqno wal'"] a d(2) by simp
  moreover have "durable_at y (w_active_seqno wal') = {}" 
  proof -
    have "hot_at (y_hot y) (y_active y + 1) = {}"
      using hot_invD(2) [OF sys_invD(2) [OF inv], of "y_active y + 1"] by (fastforce simp: hot_at_def split: option.splits)
    then show ?thesis by (simp add: durable_at_def a)
  qed
  ultimately have active: "seg_inv cs False (w_dir wal') (w_active_seqno wal') (durable_at y (w_active_seqno wal')) {}"
    by (simp add: seg_inv_empty)
  have wal: "wal_inv cs ?y"
  proof (rule wal_invI, unfold dur)
    show "wal_names_ok (w_dir (y_wal ?y))" using w(1,2) d(4) assms(4) by simp
    show "seg_bytes (w_dir (y_wal ?y)) m = []" if "y_active ?y < m" for m
      using w(7) [of m] that d(2) a by simp
  qed (use w(4) a assms(2-4) seg active in auto)
  note h = hot_invD [OF sys_invD(2) [OF inv]]
  have hot_inv: "hot_inv cs ?y"
  proof (rule hot_invI)
    show "m \<le> y_active ?y" if "om_get (y_hot ?y) m = Some h" for m h
      using h(2) [of m h] that a by simp
  qed (use h(1,3,4) in simp_all)
  show ?thesis
    using wal hot_inv sys_invD(3-5) [OF inv] by (simp add: sys_inv_def index_inv_def comp_inv_def acked_inv_def)
qed

section \<open>Compactor steps\<close>

lemma tmp_ends: "\<not> ends_with ''.tmp'' p \<Longrightarrow> p \<noteq> tmp_path d stem"
  using ends_with_append [of "''.tmp''" "d @ ''/'' @ stem @ ''.parquet''"] by (auto simp: tmp_path_def)

lemma parquet_not_tmp: "\<not> ends_with ''.tmp'' (parquet_path d stem)"
  by (simp add: ends_with_def parquet_path_def starts_with_def)

lemma block_invD:
  assumes "block_inv cs ix fs p"
  shows "\<not> ends_with ''.tmp'' p" "\<And>d n k. p = flush_path d n k \<Longrightarrow> n \<le> watermark ix"
    "\<exists>spans. block_whole (cs_block cs) fs p spans \<and> {t. (t, p) \<in> mapped ix} = ns_trace_id ` set spans"
  using assms unfolding block_inv_def by blast+

text \<open>A block keeps its invariant while its contents, its mappings and the order of the watermark stay.\<close>

lemma block_inv_same:
  assumes "block_inv cs ix fs p" and "content fs' p = content fs p" and "watermark ix \<le> watermark ix'"
    and "{t. (t, p) \<in> mapped ix'} = {t. (t, p) \<in> mapped ix}"
  shows "block_inv cs ix' fs' p"
proof -
  have "block_whole (cs_block cs) fs' p spans = block_whole (cs_block cs) fs p spans" for spans
    by (rule content_whole [OF assms(2)])
  then show ?thesis
    using assms(1,3,4) unfolding block_inv_def by (metis le_trans)
qed

lemma index_invD:
  assumes "index_inv cs y"
  shows "index_ok (y_index y)" "om_ok (y_files y)"
    "\<And>p. p \<in> indexed (y_index y) \<Longrightarrow> block_inv cs (y_index y) (y_files y) p"
  using assms unfolding index_inv_def by blast+

lemma unindexed_unmapped: "index_ok ix \<Longrightarrow> p \<notin> indexed ix \<Longrightarrow> (t, p) \<notin> mapped ix"
  unfolding index_ok_def by (metis image_eqI snd_conv subsetD)

lemma mapped_flush_iff:
  "(t, p) \<in> mapped (commit_flush n bs ix) \<longleftrightarrow>
     (\<exists>b\<in>set bs. bm_rel_path b = p \<and> t \<in> set (bm_trace_ids b)) \<or> (t, p) \<in> mapped ix"
  by auto

lemma inv_fresh_seqno:
  assumes "index_inv cs y" and "watermark (y_index y) < n"
  shows "fresh_seqno (y_index y) n"
  unfolding fresh_seqno_def
proof (intro ballI conjI allI)
  fix p assume "p \<in> indexed (y_index y)"
  then have b: "block_inv cs (y_index y) (y_files y) p" by (rule index_invD(3) [OF assms(1)])
  show "p \<noteq> flush_path d n k" for d k using block_invD(2) [OF b, of d n k] assms(2) by auto
  show "p \<noteq> tmp_path d stem" for d stem using block_invD(1) [OF b] by (rule tmp_ends)
qed

text \<open>What a step may do to the committed identities: only retention takes any away.\<close>

definition cold_kept :: "codecs \<Rightarrow> sys \<Rightarrow> sys \<Rightarrow> bool" where
  "cold_kept cs y z \<longleftrightarrow> span_key ` sys_cold cs y \<subseteq> span_key ` sys_cold cs z \<union> y_expired z \<and> y_expired y \<subseteq> y_expired z"

lemma cold_kept_same:
  "y_index z = y_index y \<Longrightarrow> y_files z = y_files y \<Longrightarrow> y_expired z = y_expired y \<Longrightarrow> cold_kept cs y z"
  by (simp add: cold_kept_def)

lemma cold_kept_refl: "cold_kept cs y y"
  by (simp add: cold_kept_def)

lemma cold_kept_trans: "cold_kept cs x y \<Longrightarrow> cold_kept cs y z \<Longrightarrow> cold_kept cs x z"
  unfolding cold_kept_def by blast

text \<open>A change of index and files that keeps every committed identity or records it as expired.\<close>

lemma inv_cold_change:
  assumes inv: "sys_inv cs y" and wm: "watermark ix = watermark (y_index y)"
    and idx: "index_ok ix" "om_ok fs" "\<And>p. p \<in> indexed ix \<Longrightarrow> block_inv cs ix fs p"
    and cover: "span_key ` sys_cold cs y \<subseteq> span_key ` cold_spans (cs_block cs) ix fs \<union> E" "y_expired y \<subseteq> E"
  shows "sys_inv cs (y\<lparr>y_index := ix, y_files := fs, y_expired := E\<rparr>)
     \<and> cold_kept cs y (y\<lparr>y_index := ix, y_files := fs, y_expired := E\<rparr>)"
proof -
  let ?y = "y\<lparr>y_index := ix, y_files := fs, y_expired := E\<rparr>"
  note w = wal_invD [OF sys_invD(1) [OF inv]] and h = hot_invD [OF sys_invD(2) [OF inv]]
  have dur: "durable_at ?y m = durable_at y m" for m using wm by (simp add: durable_at_def)
  have "wal_inv cs ?y" by (rule wal_invI, unfold dur) (use w wm in simp_all)
  moreover have "hot_inv cs ?y"
  proof (rule hot_invI)
    show "span_key ` set h \<subseteq> span_key ` sys_cold cs ?y \<union> y_expired ?y"
      if "om_get (y_hot ?y) m = Some h" "m \<le> watermark (y_index ?y)" for m h
    proof -
      have "span_key ` set h \<subseteq> span_key ` sys_cold cs y \<union> y_expired y"
        using h(4) [of m h] that wm by simp
      then show ?thesis using cover by simp blast
    qed
  qed (use h(1-3) in simp_all)
  moreover have "index_inv cs ?y" using idx by (simp add: index_inv_def)
  moreover have "comp_inv ?y" using sys_invD(4) [OF inv] wm by (simp add: comp_inv_def)
  moreover have "acked_inv cs ?y"
  proof -
    have "span_key ` y_acked y \<subseteq> span_key ` set (all_spans (y_hot y)) \<union> span_key ` sys_cold cs y \<union> y_expired y"
      using sys_invD(5) [OF inv] by (simp add: acked_inv_def)
    then show ?thesis using cover unfolding acked_inv_def by simp blast
  qed
  moreover have "cold_kept cs y ?y" using cover by (simp add: cold_kept_def)
  ultimately show ?thesis by (simp add: sys_inv_def)
qed

lemma inv_flush_fails:
  assumes inv: "sys_inv cs y" and agree: "codecs_agree cs"
    and held: "om_get (y_hot y) n = Some held" and wm: "watermark (y_index y) < n"
    and w: "write_partitions (cs_block cs) stage now v n 0 (by_partition (cs_block cs) (first_copies span_key held)) (y_files y) = (r, fs)"
  shows "sys_inv cs (y\<lparr>y_files := fs\<rparr>)
     \<and> cold_kept cs y (y\<lparr>y_files := fs\<rparr>)"
proof -
  note i = index_invD [OF sys_invD(3) [OF inv]]
  have fit: "\<forall>(p, g)\<in>set (by_partition (cs_block cs) (first_copies span_key held)). \<forall>s\<in>set g. span_fits (cs_block cs) s"
    using hot_invD(3) [OF sys_invD(2) [OF inv] held] agree first_copies_subset0 [of span_key held]
    by (intro fit_partitions) (auto simp: codecs_agree_def)
  have same: "om_get fs p = om_get (y_files y) p" if "p \<in> indexed (y_index y)" for p
    using write_partitions_indexed [OF w fit inv_fresh_seqno [OF sys_invD(3) [OF inv] wm] that] .
  have "cold_spans (cs_block cs) (y_index y) fs = sys_cold cs y" using same by (rule cold_spans_other)
  moreover have "block_inv cs (y_index y) fs p" if "p \<in> indexed (y_index y)" for p
    using block_inv_same [OF i(3) [OF that], of fs "y_index y"] same [OF that] by (simp add: content_def)
  moreover have "om_ok fs" using write_partitions_spec [OF w fit] i(2) by blast
  ultimately show ?thesis
    using inv_cold_change [OF inv, of "y_index y" fs "y_expired y"] i(1) by simp
qed

lemma flush_block_inv:
  assumes "block_reads (cs_block cs) fs b g" and "bm_rel_path b = flush_path d n k"
    and "watermark ix = n" and "{t. (t, bm_rel_path b) \<in> mapped ix} = set (bm_trace_ids b)"
  shows "block_inv cs ix fs (bm_rel_path b)"
proof -
  have "block_whole (cs_block cs) fs (bm_rel_path b) g"
    using assms(1) by (auto simp: block_reads_def block_whole_def read_block_def split: option.splits)
  moreover have "n' \<le> n" if "bm_rel_path b = flush_path d' n' k'" for d' n' k'
    using assms(2) that by (simp add: flush_path_inj)
  moreover have "\<not> ends_with ''.tmp'' (bm_rel_path b)"
    using assms(2) parquet_not_tmp by (simp add: flush_path_def)
  ultimately show ?thesis
    using assms(1,3,4) unfolding block_inv_def block_reads_def by auto
qed

lemma flush_block_paths:
  assumes "map bm_rel_path blocks = map (\<lambda>(k, p, g). flush_path p n k) (enumerate i parts)"
  shows "b \<in> set blocks \<Longrightarrow> \<exists>d k. bm_rel_path b = flush_path d n k" "distinct (map bm_rel_path blocks)"
proof -
  have "set (map bm_rel_path blocks) \<subseteq> {flush_path p n k |p k. i \<le> k}"
    unfolding assms by (rule enumerate_paths)
  then have sub: "p \<in> {flush_path p n k |p k. i \<le> k}" if "p \<in> set (map bm_rel_path blocks)" for p
    using that by (rule subsetD)
  show "b \<in> set blocks \<Longrightarrow> \<exists>d k. bm_rel_path b = flush_path d n k"
    using sub [of "bm_rel_path b"] by simp blast
  have "distinct (map (\<lambda>(k, p, g). flush_path p n k) (enumerate i parts))"
  proof (induction parts arbitrary: i)
    case (Cons x parts)
    have "flush_path (fst x) n i \<notin> set (map (\<lambda>(k, p, g). flush_path p n k) (enumerate (Suc i) parts))"
      using enumerate_paths [of n "Suc i" parts] by (auto simp: flush_path_inj)
    then show ?case using Cons [of "Suc i"] by (simp add: case_prod_beta)
  qed simp
  then show "distinct (map bm_rel_path blocks)" unfolding assms .
qed

lemma list_all2_ex: "list_all2 (\<lambda>b (p, g). R b g) bs ps \<Longrightarrow> b \<in> set bs \<Longrightarrow> \<exists>g. R b g"
  by (induction bs ps rule: list_all2_induct) auto

lemma inv_flush_commit:
  assumes inv: "sys_inv cs y" and agree: "codecs_agree cs"
    and held: "om_get (y_hot y) n = Some held" and wm: "watermark (y_index y) < n" and act: "n < y_active y"
    and least: "\<forall>m\<in>set (segnos (y_hot y)). watermark (y_index y) < m \<longrightarrow> n \<le> m"
    and w: "write_partitions (cs_block cs) stage now v n 0 (by_partition (cs_block cs) (first_copies span_key held)) (y_files y)
        = (Inr blocks, fs)"
  shows "sys_inv cs (y\<lparr>y_files := fs, y_index := commit_flush n blocks (y_index y), y_comp := Truncating n\<rparr>)
     \<and> cold_kept cs y (y\<lparr>y_files := fs, y_index := commit_flush n blocks (y_index y), y_comp := Truncating n\<rparr>)"
proof -
  let ?ix = "commit_flush n blocks (y_index y)" and ?parts = "by_partition (cs_block cs) (first_copies span_key held)"
  let ?y = "y\<lparr>y_files := fs, y_index := ?ix, y_comp := Truncating n\<rparr>"
  note v = wal_invD [OF sys_invD(1) [OF inv]] and h = hot_invD [OF sys_invD(2) [OF inv]]
    and i = index_invD [OF sys_invD(3) [OF inv]]
  have fit: "\<forall>(p, g)\<in>set ?parts. \<forall>s\<in>set g. span_fits (cs_block cs) s"
    using h(3) [OF held] agree first_copies_subset0 [of span_key held]
    by (intro fit_partitions) (auto simp: codecs_agree_def)
  note fresh = inv_fresh_seqno [OF sys_invD(3) [OF inv] wm]
  note spec = write_partitions_spec [OF w fit]
  have paths: "map bm_rel_path blocks = map (\<lambda>(k, p, g). flush_path p n k) (enumerate 0 ?parts)"
    using spec by blast
  have cold: "cold_spans (cs_block cs) ?ix fs = sys_cold cs y \<union> set (first_copies span_key held)"
    using commit_flush_cold [OF w fit fresh] by (simp only: by_partition_spans)
  have keys: "span_key ` set held \<subseteq> span_key ` cold_spans (cs_block cs) ?ix fs"
    unfolding cold image_Un by (simp add: copy_simps)
  have dur: "durable_at ?y m \<subseteq> durable_at y m" for m
    using wm by (auto simp: durable_at_def)
  have "wal_inv cs ?y"
  proof (rule wal_invI)
    show "seg_inv cs (y_torn ?y) (w_dir (y_wal ?y)) (y_active ?y) (durable_at ?y (y_active ?y)) (ready_spans (y_pending ?y))"
      using seg_inv_mono [OF v(5) dur] by simp
    show "seg_inv cs True (w_dir (y_wal ?y)) m (durable_at ?y m) {}" if "m \<noteq> y_active ?y" for m
      using seg_inv_mono [OF v(6) dur] that by simp
    show "fst p = y_active ?y" if "p \<in> set (y_pending ?y) \<union> set (y_ready ?y)" for p
      using v(8) [of p] that by simp
    show "storable (cs_ser cs) (cs_de cs) (cs_crc cs) x"
      if "p \<in> set (y_pending ?y) \<union> set (y_ready ?y)" "x \<in> set (fst (snd p))" for p x
      using v(9) [of p x] that by simp
  qed (use v(1-3,7) act in simp_all)
  moreover have "hot_inv cs ?y"
  proof (rule hot_invI)
    fix m h0 assume m: "om_get (y_hot ?y) m = Some h0" "m \<le> watermark (y_index ?y)"
    show "span_key ` set h0 \<subseteq> span_key ` sys_cold cs ?y \<union> y_expired ?y"
    proof (cases "m \<le> watermark (y_index y)")
      case True
      then have "span_key ` set h0 \<subseteq> span_key ` sys_cold cs y \<union> y_expired y" using h(4) [of m h0] m(1) by simp
      then show ?thesis using cold by (simp add: image_Un) blast
    next
      case False
      have "m \<in> set (segnos (y_hot y))" using m(1) by (simp add: segnos_def om_keys_get)
      then have "m = n" using least False m(2) by auto
      then have "h0 = held" using m(1) held by simp
      then show ?thesis using keys by (simp add: le_supI1)
    qed
  qed (use h(1-3) in simp_all)
  moreover have "index_inv cs ?y"
    unfolding index_inv_def
  proof (intro conjI ballI)
    show "index_ok (y_index ?y)" using index_ok_commit_flush [OF i(1)] by simp
    show "om_ok (y_files ?y)" using spec i(2) by simp
    fix p assume "p \<in> indexed (y_index ?y)"
    then consider (new) b where "b \<in> set blocks" "p = bm_rel_path b" | (old) "p \<in> indexed (y_index y)" by auto
    then show "block_inv cs (y_index ?y) (y_files ?y) p"
    proof cases
      case old
      have np: "p \<noteq> flush_path d n k" for d k using fresh old unfolding fresh_seqno_def by blast
      have "bm_rel_path b \<noteq> p" if "b \<in> set blocks" for b
        using flush_block_paths(1) [OF paths that] np by metis
      then have "{t. (t, p) \<in> mapped ?ix} = {t. (t, p) \<in> mapped (y_index y)}"
        unfolding mapped_commit_flush by blast
      moreover have "content fs p = content (y_files y) p"
        using write_partitions_indexed [OF w fit fresh old] by (simp add: content_def)
      ultimately show ?thesis using block_inv_same [OF i(3) [OF old], of fs ?ix] wm by simp
    next
      case new
      obtain d k where path: "bm_rel_path b = flush_path d n k" using flush_block_paths(1) [OF paths new(1)] by blast
      have "list_all2 (\<lambda>b (p, g). block_reads (cs_block cs) fs b g) blocks ?parts" using spec by blast
      then obtain g where g: "block_reads (cs_block cs) fs b g" using list_all2_ex new(1) by metis
      have "bm_rel_path b \<notin> indexed (y_index y)"
        using fresh path unfolding fresh_seqno_def by metis
      then have none: "(t, bm_rel_path b) \<notin> mapped (y_index y)" for t
        by (rule unindexed_unmapped [OF i(1)])
      have only: "b' = b" if "b' \<in> set blocks" "bm_rel_path b' = bm_rel_path b" for b'
        using flush_block_paths(2) [OF paths] that new(1) by (simp add: distinct_map inj_on_def)
      have "(t, bm_rel_path b) \<in> mapped ?ix \<longleftrightarrow> t \<in> set (bm_trace_ids b)" for t
        unfolding mapped_flush_iff using none [of t] only new(1) by metis
      then have "{t. (t, bm_rel_path b) \<in> mapped ?ix} = set (bm_trace_ids b)" by simp
      then show ?thesis using flush_block_inv [OF g path, of ?ix] new(2) by simp
    qed
  qed
  moreover have "comp_inv ?y" by (simp add: comp_inv_def)
  moreover have "acked_inv cs ?y"
    using sys_invD(5) [OF inv] cold unfolding acked_inv_def by (simp add: image_Un) blast
  moreover have "cold_kept cs y ?y" using cold by (simp add: cold_kept_def image_Un le_supI1)
  ultimately show ?thesis by (simp add: sys_inv_def)
qed

lemma delete_seg:
  "seg_bytes (delete_segment dir n) m = (if m = n then [] else seg_bytes dir m)"
  "m \<noteq> n \<Longrightarrow> seg_synced (delete_segment dir n) m = seg_synced dir m"
  by (simp_all add: seg_bytes_def seg_synced_def delete_get)

lemma inv_flush_delete:
  assumes inv: "sys_inv cs y" and comp: "y_comp y = Truncating n"
  shows "sys_inv cs (y\<lparr>y_wal := (y_wal y)\<lparr>w_dir := delete_segment (w_dir (y_wal y)) n\<rparr>, y_comp := Dropping n\<rparr>)"
proof -
  let ?y = "y\<lparr>y_wal := (y_wal y)\<lparr>w_dir := delete_segment (w_dir (y_wal y)) n\<rparr>, y_comp := Dropping n\<rparr>"
  note w = wal_invD [OF sys_invD(1) [OF inv]]
  have n: "n = watermark (y_index y)" using sys_invD(4) [OF inv] comp by (simp add: comp_inv_def)
  have dur: "durable_at ?y m = durable_at y m" for m by (simp add: durable_at_def)
  have "wal_inv cs ?y"
  proof (rule wal_invI, unfold dur)
    show "wal_names_ok (w_dir (y_wal ?y))" using names_ok_delete [OF w(1)] by simp
    show "seg_inv cs (y_torn ?y) (w_dir (y_wal ?y)) (y_active ?y) (durable_at y (y_active ?y)) (ready_spans (y_pending ?y))"
      using w(4,5) n seg_inv_same [of "w_dir (y_wal ?y)" "y_active y" "w_dir (y_wal y)" cs "y_torn y"] by (simp add: delete_seg)
    show "seg_inv cs True (w_dir (y_wal ?y)) m (durable_at y m) {}" if "m \<noteq> y_active ?y" for m
    proof (cases "m = n")
      case True
      then have "durable_at y m = {}" using n by (simp add: durable_at_def)
      then show ?thesis using True seg_inv_empty [of "w_dir (y_wal ?y)" m] by (simp add: delete_seg)
    next
      case False
      then show ?thesis
        using w(6) [of m] that seg_inv_same [of "w_dir (y_wal ?y)" m "w_dir (y_wal y)" cs True] by (simp add: delete_seg)
    qed
    show "seg_bytes (w_dir (y_wal ?y)) m = []" if "y_active ?y < m" for m
      using w(7) [of m] that by (simp add: delete_seg)
    show "fst p = y_active ?y" if "p \<in> set (y_pending ?y) \<union> set (y_ready ?y)" for p
      using w(8) [of p] that by simp
    show "storable (cs_ser cs) (cs_de cs) (cs_crc cs) x"
      if "p \<in> set (y_pending ?y) \<union> set (y_ready ?y)" "x \<in> set (fst (snd p))" for p x
      using w(9) [of p x] that by simp
  qed (use w(2-4) in simp_all)
  then show ?thesis
    using sys_invD [OF inv] n by (simp add: sys_inv_def hot_inv_def index_inv_def comp_inv_def acked_inv_def)
qed

lemma inv_flush_delete_fails:
  assumes inv: "sys_inv cs y"
  shows "sys_inv cs (y\<lparr>y_comp := Idle\<rparr>)"
proof -
  let ?y = "y\<lparr>y_comp := Idle\<rparr>"
  have dur: "durable_at ?y m = durable_at y m" for m by (simp add: durable_at_def)
  note w = wal_invD [OF sys_invD(1) [OF inv]]
  have "wal_inv cs ?y" by (rule wal_invI, unfold dur) (use w in simp_all)
  then show ?thesis
    using sys_invD(2,3,5) [OF inv] by (simp add: sys_inv_def hot_inv_def index_inv_def comp_inv_def acked_inv_def)
qed

lemma inv_flush_drop:
  assumes inv: "sys_inv cs y" and comp: "y_comp y = Dropping n"
  shows "sys_inv cs (y\<lparr>y_hot := drop_segment n (y_hot y), y_comp := Idle\<rparr>)"
proof -
  let ?y = "y\<lparr>y_hot := drop_segment n (y_hot y), y_comp := Idle\<rparr>"
  note w = wal_invD [OF sys_invD(1) [OF inv]] and h = hot_invD [OF sys_invD(2) [OF inv]]
  have n: "n = watermark (y_index y)" using sys_invD(4) [OF inv] comp by (simp add: comp_inv_def)
  have dur: "durable_at ?y m = durable_at y m" for m
    using n by (auto simp: durable_at_def hot_at_def)
  have "wal_inv cs ?y" by (rule wal_invI, unfold dur) (use w in simp_all)
  moreover have "hot_inv cs ?y"
  proof (rule hot_invI)
    fix m h0 assume m: "om_get (y_hot ?y) m = Some h0"
    then have old: "om_get (y_hot y) m = Some h0" by (simp split: if_splits)
    show "m \<le> y_active ?y" using h(2) [OF old] by simp
    show "storable (cs_ser cs) (cs_de cs) (cs_crc cs) x" if "x \<in> set h0" for x using h(3) [OF old that] .
    show "span_key ` set h0 \<subseteq> span_key ` sys_cold cs ?y \<union> y_expired ?y" if "m \<le> watermark (y_index ?y)"
      using h(4) [OF old] that by simp
  qed (use h(1) in simp)
  moreover have "acked_inv cs ?y"
  proof -
    have "span_key ` hot_at (y_hot y) n \<subseteq> span_key ` sys_cold cs y \<union> y_expired y"
      using h(4) [of n] n by (auto simp: hot_at_def split: option.splits)
    moreover have "hot_at (y_hot y) m \<subseteq> hot_at (y_hot ?y) m \<union> hot_at (y_hot y) n" for m
      by (auto simp: hot_at_def)
    then have "set (all_spans (y_hot y)) \<subseteq> set (all_spans (y_hot ?y)) \<union> hot_at (y_hot y) n"
      using h(1) by (simp add: all_spans_hot_at) blast
    ultimately have "span_key ` set (all_spans (y_hot y))
        \<subseteq> span_key ` set (all_spans (y_hot ?y)) \<union> span_key ` sys_cold cs y \<union> y_expired y"
      by blast
    then show ?thesis
      using sys_invD(5) [OF inv] unfolding acked_inv_def by simp blast
  qed
  ultimately show ?thesis
    using sys_invD(3) [OF inv] by (simp add: sys_inv_def index_inv_def comp_inv_def)
qed

section \<open>Merge, sweep, retention\<close>

lemma whole_contents:
  assumes "\<And>p. p \<in> set ps \<Longrightarrow> \<exists>spans. block_whole cx fs p spans \<and> {t. (t, p) \<in> mapped ix} = ns_trace_id ` set spans"
  shows "\<exists>contents. list_all2 (\<lambda>p spans. block_whole cx fs p spans \<and> {t. (t, p) \<in> mapped ix} = ns_trace_id ` set spans) ps contents"
  using assms
proof (induction ps)
  case (Cons p ps)
  obtain spans where "block_whole cx fs p spans \<and> {t. (t, p) \<in> mapped ix} = ns_trace_id ` set spans"
    using Cons.prems [of p] by auto
  moreover obtain contents where
    "list_all2 (\<lambda>p spans. block_whole cx fs p spans \<and> {t. (t, p) \<in> mapped ix} = ns_trace_id ` set spans) ps contents"
    using Cons.IH Cons.prems by auto
  ultimately show ?case by (intro exI [of _ "spans # contents"]) simp
qed (simp add: exI [of _ "[]"])

lemma first_copies_traces: "ns_trace_id ` set (first_copies span_key xs) = ns_trace_id ` set xs"
proof
  show "ns_trace_id ` set (first_copies span_key xs) \<subseteq> ns_trace_id ` set xs"
    using first_copies_subset0 [of span_key xs] by blast
  show "ns_trace_id ` set xs \<subseteq> ns_trace_id ` set (first_copies span_key xs)"
  proof
    fix t assume "t \<in> ns_trace_id ` set xs"
    then obtain x where x: "x \<in> set xs" "t = ns_trace_id x" by blast
    have "span_key x \<in> span_key ` set (first_copies span_key xs)" using x(1) by (simp add: copy_simps)
    then obtain z where "z \<in> set (first_copies span_key xs)" "span_key x = span_key z" by blast
    then show "t \<in> ns_trace_id ` set (first_copies span_key xs)" using x(2) by (auto simp: span_key_eq)
  qed
qed

lemma out_not_flush:
  assumes "prefx = ''merged'' \<or> prefx = ''day''"
  shows "out_path d prefx chunk \<noteq> flush_path d' n k"
proof
  assume eq: "out_path d prefx chunk = flush_path d' n k"
  have slash: "CHR ''/'' \<notin> set (merge_stem prefx chunk)" using assms by (auto simp: merge_stem_def)
  have "merge_stem prefx chunk = flush_stem n k"
    using parquet_path_inj [OF eq [unfolded out_path_def flush_path_def] slash] by simp
  then have "hd (merge_stem prefx chunk) \<in> set (dec020 n)" by (cases "dec020 n") (simp_all add: flush_stem_def)
  then show False using dec020_digits [of n] assms by (auto simp: merge_stem_def is_digit_def)
qed

lemma inv_merge:
  assumes inv: "sys_inv cs y" and prefx: "prefx = ''merged'' \<or> prefx = ''day''"
    and rels: "cd_rel ` set chunk \<subseteq> indexed (y_index y)"
    and free: "out_path dir prefx chunk \<notin> indexed (y_index y) - cd_rel ` set chunk"
    and run: "merge_chunk (cs_block cs) io now dir prefx chunk False
       \<lparr>ms_index = y_index y, ms_files = y_files y, ms_report = rep\<rparr> = (r, s')"
  shows "sys_inv cs (y\<lparr>y_index := ms_index s', y_files := ms_files s'\<rparr>)
     \<and> cold_kept cs y (y\<lparr>y_index := ms_index s', y_files := ms_files s'\<rparr>)"
proof -
  let ?s = "\<lparr>ms_index = y_index y, ms_files = y_files y, ms_report = rep\<rparr>"
  let ?ix = "y_index y" and ?fs = "y_files y" and ?out = "out_path dir prefx chunk" and ?rels = "cd_rel ` set chunk"
  note i = index_invD [OF sys_invD(3) [OF inv]]
  have tmp: "tmp_path dir (merge_stem prefx chunk) \<notin> indexed ?ix"
    using block_invD(1) [OF i(3)] tmp_ends by blast
  obtain contents where c: "list_all2 (\<lambda>p spans. block_whole (cs_block cs) ?fs p spans
      \<and> {t. (t, p) \<in> mapped ?ix} = ns_trace_id ` set spans) (map cd_rel chunk) contents"
  proof -
    have "\<exists>spans. block_whole (cs_block cs) ?fs p spans \<and> {t. (t, p) \<in> mapped ?ix} = ns_trace_id ` set spans"
      if "p \<in> set (map cd_rel chunk)" for p
      using block_invD(3) [OF i(3), of p] rels that by auto
    from whole_contents [OF this] show thesis using that by blast
  qed
  then have inputs: "list_all2 (\<lambda>c spans. block_whole (cs_block cs) (ms_files ?s) (cd_rel c) spans) chunk contents"
    by (auto simp: list_all2_map1 elim: list_all2_mono)
  have ready: "merge_ready (ms_index ?s) dir prefx chunk" using rels free tmp by (simp add: merge_ready_def)
  have cover: "span_key ` sys_cold cs y = span_key ` cold_spans (cs_block cs) (ms_index s') (ms_files s')"
    using merge_chunk_keeps(1) [OF inputs ready run] by simp
  have out_tmp: "\<not> ends_with ''.tmp'' ?out" unfolding out_path_def by (rule parquet_not_tmp)
  have "watermark (ms_index s') = watermark ?ix \<and> index_ok (ms_index s') \<and> om_ok (ms_files s')
      \<and> (\<forall>p\<in>indexed (ms_index s'). block_inv cs (ms_index s') (ms_files s') p)"
  proof (rule merge_chunk_cases [OF inputs run])
    assume "s' = ?s"
    then show ?thesis using i by simp
  next
    assume ix: "ms_index s' = ms_index ?s" and r: "r \<noteq> Inr ()"
      and same: "\<And>p. p \<noteq> ?out \<Longrightarrow> p \<noteq> tmp_path dir (merge_stem prefx chunk) \<Longrightarrow>
         content (ms_files s') p = content (ms_files ?s) p"
      and ok: "om_ok (ms_files ?s) \<Longrightarrow> om_ok (ms_files s')"
    have "?out \<notin> ?rels"
    proof
      assume "?out \<in> ?rels"
      then have "list_ex (\<lambda>c. cd_rel c = ?out) chunk" by (force simp: list_ex_iff)
      then show False using run r by (simp add: merge_chunk_def Let_def)
    qed
    then have "block_inv cs (ms_index s') (ms_files s') p" if "p \<in> indexed ?ix" for p
      using block_inv_same [OF i(3) [OF that], of "ms_files s'" "ms_index s'"] same [of p] that free tmp ix
      by (metis DiffI merge_state.select_convs(1,2) order_refl)
    then show ?thesis using ix ok i by simp
  next
    fix meta pis
    assume ix: "ms_index s' = commit_merge meta pis (ms_index ?s)" and out: "bm_rel_path meta = ?out"
      and traces: "set (bm_trace_ids meta) = ns_trace_id ` set (concat contents)"
      and pis: "map fst pis = map cd_rel chunk"
      and pt: "list_all2 (\<lambda>(_, ts) spans. set ts = ns_trace_id ` set spans) pis contents"
      and fresh: "?out \<notin> ?rels"
      and whole: "block_whole (cs_block cs) (ms_files s') ?out (first_copies span_key (concat contents))"
      and same: "\<And>p. p \<noteq> ?out \<Longrightarrow> p \<noteq> tmp_path dir (merge_stem prefx chunk) \<Longrightarrow>
         content (ms_files s') p = content (ms_files ?s) p"
      and ok: "om_ok (ms_files ?s) \<Longrightarrow> om_ok (ms_files s')"
    have fst_pis: "fst ` set pis = ?rels" using pis by (metis set_map)
    have covers: "\<forall>(rel, ts)\<in>set pis. \<forall>t. (t, rel) \<in> mapped ?ix \<longrightarrow> t \<in> set ts"
    proof -
      have "list_all2 (\<lambda>(rel, ts) spans. {t. (t, rel) \<in> mapped ?ix} = ns_trace_id ` set spans) pis contents"
        using c unfolding pis [symmetric] list_all2_map1 by (rule list_all2_mono) auto
      then have "list_all2 (\<lambda>(rel, ts) spans. \<forall>t. (t, rel) \<in> mapped ?ix \<longrightarrow> t \<in> set ts) pis contents"
        using pt by (induction pis contents rule: list_all2_induct) auto
      then show ?thesis by (induction pis contents rule: list_all2_induct) auto
    qed
    have out_new: "?out \<notin> indexed ?ix" using free fresh by blast
    have idx: "indexed (ms_index s') = insert ?out (indexed ?ix - ?rels)" using fst_pis by (simp add: ix out)
    have "block_inv cs (ms_index s') (ms_files s') p" if p: "p \<in> indexed (ms_index s')" for p
    proof (cases "p = ?out")
      case True
      have "(t, ?out) \<notin> mapped ?ix" for t using i(1) out_new by (rule unindexed_unmapped)
      then have "{t. (t, ?out) \<in> mapped (ms_index s')} = ns_trace_id ` set (first_copies span_key (concat contents))"
        unfolding first_copies_traces traces [symmetric] by (simp add: ix out) blast
      then show ?thesis
        unfolding True block_inv_def using out_tmp out_not_flush [OF prefx] whole by blast
    next
      case False
      then have p': "p \<in> indexed ?ix" "p \<notin> ?rels" using p idx by auto
      have "(t, p) \<in> mapped (ms_index s') \<longleftrightarrow> (t, p) \<in> mapped ?ix" for t
        using mapped_commit_merge_other [OF covers, of t p meta] mapped_commit_merge_keep [of t p ?ix pis meta]
          False p'(2) fst_pis ix out by auto
      then have "{t. (t, p) \<in> mapped (ms_index s')} = {t. (t, p) \<in> mapped ?ix}" by simp
      moreover have "content (ms_files s') p = content ?fs p" using same [OF False] tmp p'(1) by auto
      moreover have "watermark ?ix \<le> watermark (ms_index s')" using ix by simp
      ultimately show ?thesis using block_inv_same [OF i(3) [OF p'(1)]] by blast
    qed
    then show ?thesis using index_ok_commit_merge [OF i(1) covers] ok i(2) ix by simp
  qed
  then show ?thesis
    using inv_cold_change [OF inv, of "ms_index s'" "ms_files s'" "y_expired y"] cover by simp
qed

lemma inv_sweep:
  assumes inv: "sys_inv cs y"
  shows "sys_inv cs (y\<lparr>y_files := snd (sweep_unindexed now older (y_index y) (y_files y))\<rparr>)
     \<and> cold_kept cs y (y\<lparr>y_files := snd (sweep_unindexed now older (y_index y) (y_files y))\<rparr>)"
proof -
  note i = index_invD [OF sys_invD(3) [OF inv]]
  let ?fs = "snd (sweep_unindexed now older (y_index y) (y_files y))"
  have same: "om_get ?fs p = om_get (y_files y) p" if "p \<in> indexed (y_index y)" for p
  proof -
    have "\<not> is_stray (y_index y) p"
      using block_invD(1) [OF i(3) [OF that]] that by (simp add: is_stray_def indexed_def)
    then show ?thesis
      using sweep_unindexed_get [OF om_ok_distinct [OF i(2)]] by (auto split: option.splits)
  qed
  have "block_inv cs (y_index y) ?fs p" if "p \<in> indexed (y_index y)" for p
    using block_inv_same [OF i(3) [OF that], of ?fs "y_index y"] same [OF that] by (simp add: content_def)
  moreover have "om_ok ?fs"
    using i(2) by (simp add: om_ok_def om_keys_def sweep_unindexed_def Let_def sorted_wrt_map sorted_wrt_filter)
  moreover have "cold_spans (cs_block cs) (y_index y) ?fs = sys_cold cs y" using same by (rule cold_spans_other)
  ultimately show ?thesis
    using inv_cold_change [OF inv, of "y_index y" ?fs "y_expired y"] i(1) by simp
qed

lemma inv_reclaim:
  assumes inv: "sys_inv cs y"
  shows "sys_inv cs (y\<lparr>y_index := drop_blocks paths (y_index y), y_files := fold om_remove (take k paths) (y_files y),
       y_expired := y_expired y \<union> (\<Union>p\<in>set paths. span_key ` block_spans (cs_block cs) (y_files y) p)\<rparr>)
     \<and> cold_kept cs y (y\<lparr>y_index := drop_blocks paths (y_index y), y_files := fold om_remove (take k paths) (y_files y),
       y_expired := y_expired y \<union> (\<Union>p\<in>set paths. span_key ` block_spans (cs_block cs) (y_files y) p)\<rparr>)"
proof -
  note i = index_invD [OF sys_invD(3) [OF inv]]
  let ?ix = "drop_blocks paths (y_index y)" and ?fs = "fold om_remove (take k paths) (y_files y)"
  have same: "om_get ?fs p = om_get (y_files y) p" if "p \<in> indexed ?ix" for p
  proof -
    have "p \<notin> set (take k paths)" using that by (auto dest: in_set_takeD)
    then show ?thesis by (simp add: om.get_del_all)
  qed
  have blocks: "block_inv cs ?ix ?fs p" if "p \<in> indexed ?ix" for p
  proof -
    have p: "p \<in> indexed (y_index y)" "p \<notin> set paths" using that by auto
    have "{t. (t, p) \<in> mapped ?ix} = {t. (t, p) \<in> mapped (y_index y)}" using p(2) by simp
    then show ?thesis
      using block_inv_same [OF i(3) [OF p(1)], of ?fs ?ix] same [OF that] by (simp add: content_def)
  qed
  have cover: "span_key ` sys_cold cs y \<subseteq> span_key ` cold_spans (cs_block cs) ?ix ?fs
      \<union> (y_expired y \<union> (\<Union>p\<in>set paths. span_key ` block_spans (cs_block cs) (y_files y) p))"
  proof
    fix x assume "x \<in> span_key ` sys_cold cs y"
    then obtain p s where p: "p \<in> indexed (y_index y)" "s \<in> block_spans (cs_block cs) (y_files y) p" "x = span_key s"
      unfolding cold_spans_def by blast
    show "x \<in> span_key ` cold_spans (cs_block cs) ?ix ?fs
      \<union> (y_expired y \<union> (\<Union>p\<in>set paths. span_key ` block_spans (cs_block cs) (y_files y) p))"
    proof (cases "p \<in> set paths")
      case True
      then show ?thesis using p by blast
    next
      case False
      then have q: "p \<in> indexed ?ix" using p(1) by simp
      have "s \<in> block_spans (cs_block cs) ?fs p" using block_spans_other [OF same [OF q]] p(2) by simp
      then show ?thesis using cold_spansI [OF q] p(3) by blast
    qed
  qed
  have wm: "watermark ?ix = watermark (y_index y)" by simp
  show ?thesis
    by (rule inv_cold_change [OF inv wm index_ok_drop_blocks [OF i(1)] _ blocks cover])
      (simp_all add: i(2) om_ok_fold_remove)
qed

section \<open>A crash and the reopening\<close>

lemma hot_storable: "hot_inv cs y \<Longrightarrow> s \<in> hot_at (y_hot y) n \<Longrightarrow> storable (cs_ser cs) (cs_de cs) (cs_crc cs) s"
  using hot_invD(3) by (fastforce simp: hot_at_def split: option.splits)

lemma seg_whole_inv:
  "seg_whole (cs_ser cs) (cs_de cs) (cs_crc cs) dir n rs \<Longrightarrow> seg_inv cs torn dir n (set rs) {}"
  unfolding seg_whole_def seg_inv_def by (rule exI [of _ rs], rule exI [of _ "[]"], rule exI [of _ "[]"]) simp

lemma inv_crash:
  assumes inv: "sys_inv cs y" and agree: "codecs_agree cs"
    and small: "y_active (reopened cs at_byte fs y) \<le> u64_max" and fs: "om_ok fs"
    and kept: "\<forall>p\<in>indexed (y_index y). om_get fs p = om_get (y_files y) p"
  shows "sys_inv cs (reopened cs at_byte fs y) \<and> cold_kept cs y (reopened cs at_byte fs y)"
proof -
  note w = wal_invD [OF sys_invD(1) [OF inv]] and h = hot_invD [OF sys_invD(2) [OF inv]]
    and i = index_invD [OF sys_invD(3) [OF inv]]
  let ?dir = "crash_dir at_byte (w_dir (y_wal y))" and ?ix = "y_index y"
  let ?R = "seg_recs (cs_de cs) (cs_crc cs) ?dir"
  obtain st wl active where run: "store_open (cs_de cs) (cs_crc cs) ?dir ?ix fs = (st, wl, active)"
    by (metis prod_cases3)
  let ?y = "y\<lparr>y_wal := wl, y_hot := st_hot st, y_active := active, y_pending := [], y_ready := [],
            y_index := st_index st, y_files := st_files st, y_comp := Idle, y_torn := False\<rparr>"
  have re: "reopened cs at_byte fs y = ?y" by (simp add: reopened_def run)
  have act: "active \<le> u64_max" using small re by simp
  have holds: "seg_holds (cs_ser cs) (cs_de cs) (cs_crc cs) (w_dir (y_wal y)) n (durable_at y n)" for n
    using seg_inv_holds [OF w(5)] seg_inv_holds [OF w(6)] by (cases "n = y_active y") simp_all
  have rec: "\<forall>n. watermark ?ix < n \<longrightarrow> recoverable (cs_ser cs) (cs_de cs) (cs_crc cs) ?dir n (?R n)"
    using crash_recoverable(1) [OF holds] by blast
  have R: "durable_at y n \<subseteq> set (?R n)" for n using crash_recoverable(2) [OF holds] .
  have names: "wal_names_ok ?dir" using w(1) by simp
  note spec = store_open_spec [OF names rec refl run]
  have hot: "om_get (st_hot st) n = (if watermark ?ix < n \<and> ?R n \<noteq> [] then Some (?R n) else None)" for n
    by (rule spec(8))
  have empty: "?R n = []" if "active \<le> n" for n
  proof (cases "watermark ?ix < n")
    case True
    from spec(9) [OF True] spec(11) [OF that] have "frames (cs_ser cs) (cs_crc cs) (?R n) = []"
      "\<forall>r\<in>set (?R n). storable (cs_ser cs) (cs_de cs) (cs_crc cs) r"
      by (simp_all add: seg_whole_def)
    then show ?thesis
      using length_frame [of "cs_ser cs" "cs_de cs" "cs_crc cs" "hd (?R n)"]
      by (cases "?R n") (simp_all add: frame_header_len_def)
  next
    case False
    then show ?thesis using that spec(7) by simp
  qed
  have dur: "durable_at ?y n = (if watermark ?ix < n then set (?R n) else {})" for n
    using hot [of n] by (simp add: durable_at_def hot_at_def spec(1))
  have wal: "wal_inv cs ?y"
  proof (rule wal_invI, unfold dur)
    have seg: "seg_inv cs torn (w_dir wl) n (if watermark ?ix < n then set (?R n) else {}) {}" for n torn
      using seg_whole_inv [OF spec(9)] seg_inv_empty [OF spec(10)] spec(4) by (cases "watermark ?ix < n") simp_all
    show "seg_inv cs (y_torn ?y) (w_dir (y_wal ?y)) (y_active ?y)
       (if watermark ?ix < y_active ?y then set (?R (y_active ?y)) else {}) (ready_spans (y_pending ?y))"
      using seg [of False active] by (cases "watermark ?ix < active") simp_all
    show "seg_inv cs True (w_dir (y_wal ?y)) n (if watermark ?ix < n then set (?R n) else {}) {}" for n
      using seg [of True n] by simp
    show "seg_bytes (w_dir (y_wal ?y)) n = []" if "y_active ?y < n" for n
      using spec(11) [of n] that spec(4) by simp
  qed (use spec(1,4,5,7,12) act in simp_all)
  have cold: "sys_cold cs ?y = sys_cold cs y"
  proof -
    have nt: "\<forall>p\<in>indexed ?ix. \<not> ends_with ''.tmp'' p" using block_invD(1) [OF i(3)] by blast
    have "cold_spans (cs_block cs) ?ix (st_files st) = cold_spans (cs_block cs) ?ix fs"
      unfolding spec(2) by (rule sweep_cold [OF nt])
    also have "\<dots> = sys_cold cs y" using kept by (intro cold_spans_other) blast
    finally show ?thesis using spec(1) by simp
  qed
  have hot_inv: "hot_inv cs ?y"
  proof (rule hot_invI)
    fix n held assume n: "om_get (y_hot ?y) n = Some held"
    then have n': "watermark ?ix < n" "held = ?R n" "?R n \<noteq> []" using hot [of n] by (auto split: if_splits)
    show "n \<le> y_active ?y" using empty [of n] n'(3) by (cases "n \<le> active") simp_all
    show "storable (cs_ser cs) (cs_de cs) (cs_crc cs) s" if "s \<in> set held" for s
      using rec n' that by (simp add: recoverable_def)
    show "span_key ` set held \<subseteq> span_key ` sys_cold cs ?y \<union> y_expired ?y" if "n \<le> watermark (y_index ?y)"
      using that n'(1) spec(1) by simp
  qed (use spec(3) in simp)
  have index: "index_inv cs ?y"
    unfolding index_inv_def
  proof (intro conjI ballI)
    show "index_ok (y_index ?y)" using i(1) spec(1) by simp
    show "om_ok (y_files ?y)" using sweep_om_ok [OF fs] spec(2) by simp
    fix p assume "p \<in> indexed (y_index ?y)"
    then have p: "p \<in> indexed ?ix" using spec(1) by simp
    have "om_get (st_files st) p = om_get fs p"
      unfolding spec(2) using sweep_indexed p block_invD(1) [OF i(3)] by blast
    then have "content (st_files st) p = content (y_files y) p" using kept p by (simp add: content_def)
    then show "block_inv cs (y_index ?y) (y_files ?y) p"
      using block_inv_same [OF i(3) [OF p], of "st_files st" ?ix] spec(1) by simp
  qed
  have "acked_inv cs ?y"
    unfolding acked_inv_def
  proof
    fix k assume "k \<in> span_key ` y_acked ?y"
    then have "k \<in> span_key ` set (all_spans (y_hot y)) \<union> span_key ` sys_cold cs y \<union> y_expired y"
      using sys_invD(5) [OF inv] by (simp add: acked_inv_def) blast
    then consider (rest) "k \<in> span_key ` sys_cold cs y \<union> y_expired y" | (hot) s where "s \<in> set (all_spans (y_hot y))" "k = span_key s"
      by blast
    then show "k \<in> span_key ` set (all_spans (y_hot ?y)) \<union> span_key ` sys_cold cs ?y \<union> y_expired ?y"
    proof cases
      case rest
      then show ?thesis using cold by simp
    next
      case hot
      obtain n where n: "s \<in> hot_at (y_hot y) n" using hot(1) h(1) by (auto simp: all_spans_hot_at)
      then obtain held where held: "om_get (y_hot y) n = Some held" "s \<in> set held"
        by (auto simp: hot_at_def split: option.splits)
      show ?thesis
      proof (cases "n \<le> watermark ?ix")
        case True
        then have "k \<in> span_key ` sys_cold cs y \<union> y_expired y" using h(4) [OF held(1)] held(2) hot(2) by blast
        then show ?thesis using cold by simp
      next
        case False
        then have "s \<in> durable_at y n" using n by (simp add: durable_at_def)
        then have "s \<in> set (?R n)" using R by blast
        then have "s \<in> hot_at (st_hot st) n" using spec(8) [of n] False by (auto simp: hot_at_def)
        then show ?thesis using hot(2) spec(3) by (auto simp: all_spans_hot_at)
      qed
    qed
  qed
  moreover have "cold_kept cs y ?y" using cold by (simp add: cold_kept_def)
  ultimately show ?thesis using wal hot_inv index re by (simp add: sys_inv_def comp_inv_def)
qed

lemma empty_get: "om_get om_empty n = None"
  by (simp add: om_get_def om_empty_def)

lemma inv_fresh: "sys_inv cs fresh_sys"
proof -
  have "wal_inv cs fresh_sys"
  proof (rule wal_invI)
    show "wal_names_ok (w_dir (y_wal fresh_sys))"
    proof -
      have "wal_names_ok om_empty" by (simp add: wal_names_ok_def om_keys_def om_empty_def om_ok_def)
      then show ?thesis using open_names_ok [of om_empty 1] by (simp add: fresh_sys_def wal_open_def u64_max_def)
    qed
    have e: "seg_inv cs torn (w_dir (y_wal fresh_sys)) n {} {}" for n torn
      by (rule seg_inv_empty) (simp add: fresh_sys_def wal_open_def)
    have d: "durable_at fresh_sys n = {}" for n
      by (simp add: durable_at_def fresh_sys_def hot_at_def om_get_def om_empty_def)
    show "seg_inv cs (y_torn fresh_sys) (w_dir (y_wal fresh_sys)) (y_active fresh_sys) (durable_at fresh_sys (y_active fresh_sys))
        (ready_spans (y_pending fresh_sys))"
      unfolding d using e by (simp add: fresh_sys_def)
    show "seg_inv cs True (w_dir (y_wal fresh_sys)) n (durable_at fresh_sys n) {}" for n
      unfolding d by (rule e)
  qed (simp_all add: fresh_sys_def wal_open_def u64_max_def)
  then show ?thesis
    by (simp add: sys_inv_def hot_inv_def index_inv_def comp_inv_def acked_inv_def fresh_sys_def empty_get)
qed

text \<open>The steps that leave index, files and the expired identities alone.\<close>

lemma kept_step:
  assumes "sys_inv cs y \<Longrightarrow> sys_inv cs z"
    and "y_index z = y_index y" "y_files z = y_files y" "y_expired z = y_expired y" and "sys_inv cs y"
  shows "sys_inv cs z \<and> cold_kept cs y z"
  using assms cold_kept_same by blast

lemma step_inv: "step cs h y z \<Longrightarrow> h = None \<Longrightarrow> codecs_agree cs \<Longrightarrow> sys_inv cs y \<Longrightarrow> sys_inv cs z \<and> cold_kept cs y z"
proof (induction rule: step.induct)
  case (append y spans n wal' i) then show ?case by (intro kept_step inv_append) simp_all
next
  case (append_fails y spans outcome e wal') then show ?case by (intro kept_step inv_append_fails) simp_all
next
  case (sync y wal') then show ?case by (intro kept_step inv_sync) simp_all
next
  case (sync_fails y e wal') then show ?case by (intro kept_step inv_sync_fails) simp_all
next
  case (publish y n spans i rest) then show ?case by (intro kept_step inv_publish) simp_all
next
  case (seal y n wal') then show ?case by (intro kept_step inv_seal) simp_all
next
  case flush_fails then show ?case by (intro inv_flush_fails)
next
  case flush_commit then show ?case by (intro inv_flush_commit)
next
  case flush_delete then show ?case by (intro kept_step inv_flush_delete) simp_all
next
  case flush_delete_fails then show ?case by (intro kept_step inv_flush_delete_fails) simp_all
next
  case flush_drop then show ?case by (intro kept_step inv_flush_drop) simp_all
next
  case merge then show ?case by (intro inv_merge) (simp_all split: if_splits)
next
  case sweep then show ?case by (intro inv_sweep)
next
  case reclaim then show ?case by (intro inv_reclaim)
next
  case crash then show ?case by (intro inv_crash)
qed

lemma steps_inv:
  assumes "steps cs {} y z" and "codecs_agree cs" and "sys_inv cs y"
  shows "sys_inv cs z \<and> cold_kept cs y z"
  using assms(1) unfolding steps_def
proof (induction rule: rtranclp_induct)
  case base
  then show ?case using assms(3) cold_kept_refl by blast
next
  case (step z z')
  obtain h where "step cs h z z'" "h = None" using step.hyps(2) by (cases rule: exE) auto
  then show ?case using step.IH step_inv assms(2) cold_kept_trans by blast
qed

end
