(* ===== verification/EngineRun.thy ===== *)
theory EngineRun
  imports Engine
begin

text \<open>
  What the engine's step relation promises, and that the code's own runs are runs of it: a group of
  the writer task and a flush of one segment are sequences of steps.
\<close>

section \<open>Properties\<close>

lemma steps_refl: "steps cs H y y"
  by (simp add: steps_def)

lemma steps_step: "step cs h x y \<Longrightarrow> set_option h \<subseteq> H \<Longrightarrow> steps cs H y z \<Longrightarrow> steps cs H x z"
  unfolding steps_def by (rule converse_rtranclp_into_rtranclp) blast

lemma quiet_step: "step cs None x y \<Longrightarrow> steps cs H y z \<Longrightarrow> steps cs H x z"
  by (rule steps_step [where h = None]) simp_all

lemma steps_trans: "steps cs H x y \<Longrightarrow> steps cs H y z \<Longrightarrow> steps cs H x z"
  unfolding steps_def by (rule rtranclp_trans)

lemma block_whole_readable: "block_whole cx fs p spans \<Longrightarrow> block_spans cx fs p = set spans"
  by (rule block_spans_read [OF block_whole_read])

lemma index_inv_readable:
  assumes "index_inv cs y"
  shows "readable (cs_block cs) (y_files y) (all_block_paths (y_index y))"
    "traces_mapped (cs_block cs) (y_index y) (y_files y)"
    "set (listed_spans (cs_block cs) (y_files y) (all_block_paths (y_index y))) = sys_cold cs y"
proof -
  note b = block_invD(3) [OF index_invD(3) [OF assms]]
  have r: "\<exists>spans. read_block (cs_block cs) (y_files y) p = Inr spans" if "p \<in> indexed (y_index y)" for p
    using b [OF that] block_whole_read by metis
  show "readable (cs_block cs) (y_files y) (all_block_paths (y_index y))"
    unfolding readable_def list_all_iff
  proof
    fix p assume "p \<in> set (all_block_paths (y_index y))"
    then obtain spans where "read_block (cs_block cs) (y_files y) p = Inr spans" using r [of p] by (auto simp: indexed_def)
    then show "case read_block (cs_block cs) (y_files y) p of Inl _ \<Rightarrow> False | Inr _ \<Rightarrow> True" by simp
  qed
  show "traces_mapped (cs_block cs) (y_index y) (y_files y)"
    unfolding traces_mapped_def
  proof (intro ballI)
    fix p s assume p: "p \<in> indexed (y_index y)" and s: "s \<in> block_spans (cs_block cs) (y_files y) p"
    obtain spans where spans: "block_whole (cs_block cs) (y_files y) p spans"
      "{t. (t, p) \<in> mapped (y_index y)} = ns_trace_id ` set spans"
      using b [OF p] by blast
    have "s \<in> set spans" using s block_whole_readable [OF spans(1)] by simp
    then show "(ns_trace_id s, p) \<in> mapped (y_index y)" using spans(2) by blast
  qed
  show "set (listed_spans (cs_block cs) (y_files y) (all_block_paths (y_index y))) = sys_cold cs y"
  proof -
    have "set (case r of Inl _ \<Rightarrow> [] | Inr spans \<Rightarrow> spans) = (case r of Inl _ \<Rightarrow> {} | Inr spans \<Rightarrow> set spans)"
      for r :: "io_error + normalized_span list"
      by (cases r) simp_all
    then show ?thesis by (simp add: listed_spans_def cold_spans_def indexed_def block_spans_def)
  qed
qed

lemma query_all:
  assumes "index_inv cs y"
  shows "query (cs_block cs) filt None hot (y_index y, y_files y) v =
     Inr (query_spec filt None (all_spans hot) (listed_spans (cs_block cs) (y_files y) (all_block_paths (y_index y))))"
proof (cases filt)
  case None
  then show ?thesis
    using query_first [of "cs_block cs" "y_files y" filt "y_index y" None hot v] index_inv_readable(1) [OF assms]
    by (simp add: block_listing_def)
next
  case (Some t)
  then show ?thesis
    using trace_query_all index_inv_readable [OF assms] index_invD(1) [OF assms] by blast
qed

text \<open>
  C1. An acknowledged span is not lost in any run without one of the engine's two hazards: in every state the
  engine reaches by appends, fsyncs, seals, flushes, merges, sweeps, retention, failures of any of them
  (writes torn after any number of bytes included) and crashes, as long as no write goes to a segment
  behind an earlier torn one (the run of \<open>wal_failed_write_hides_later_records\<close>) and no merge takes the name of
  another live block (that of \<open>day_merge_name_collision_loses_spans\<close>), take the hot tier of that moment and the blocks of any later moment (a query reads them in this order, without the
  compaction lock): the query succeeds and returns a copy of every span acknowledged at the first moment
  that matches the filter and that retention has not dropped. Assumed of \<open>serde_json\<close>: a span the log can
  give back is one a block can give back.
\<close>

theorem acknowledged_spans_stay_queryable:
  assumes agree: "codecs_agree cs" and reach: "steps cs {} fresh_sys y1" and later: "steps cs {} y1 y2"
  shows "\<exists>rows. query (cs_block cs) filt None (y_hot y1) (y_index y2, y_files y2) v = Inr rows
     \<and> (\<forall>s\<in>y_acked y1. trace_matches filt s \<longrightarrow> span_key s \<in> span_key ` set rows \<union> y_expired y2)"
proof -
  have inv1: "sys_inv cs y1" using steps_inv [OF reach agree inv_fresh] by blast
  have inv2: "sys_inv cs y2" and kept: "cold_kept cs y1 y2" using steps_inv [OF later agree inv1] by blast+
  let ?cold = "listed_spans (cs_block cs) (y_files y2) (all_block_paths (y_index y2))"
  let ?rows = "query_spec filt None (all_spans (y_hot y1)) ?cold"
  have "span_key s \<in> span_key ` set ?rows \<union> y_expired y2" if s: "s \<in> y_acked y1" "trace_matches filt s" for s
  proof -
    have "span_key s \<in> span_key ` set (all_spans (y_hot y1)) \<union> span_key ` sys_cold cs y1 \<union> y_expired y1"
      using sys_invD(5) [OF inv1] s(1) unfolding acked_inv_def by blast
    then have "span_key s \<in> span_key ` set (all_spans (y_hot y1) @ ?cold) \<union> y_expired y2"
      using kept unfolding cold_kept_def set_append image_Un index_inv_readable(3) [OF sys_invD(3) [OF inv2]] by blast
    moreover have ?thesis if key: "span_key s \<in> span_key ` set (all_spans (y_hot y1) @ ?cold)"
    proof -
      obtain c where c: "c \<in> set (all_spans (y_hot y1) @ ?cold)" "span_key s = span_key c" using key by blast
      have "trace_matches filt c" using s(2) c(2) by (simp add: trace_matches_def span_key_eq split: option.splits)
      then have "c \<in> set (filter (trace_matches filt) (all_spans (y_hot y1) @ ?cold))" using c(1) by simp
      then show ?thesis using query_spec_props(6) [of c filt "all_spans (y_hot y1)" ?cold None] c(2) by auto
    qed
    ultimately show ?thesis by blast
  qed
  then show ?thesis using query_all [OF sys_invD(3) [OF inv2], of filt "y_hot y1" v] by blast
qed

text \<open>A run for the witnesses: one span appended, fsynced and published, then a seal.\<close>

definition demo_codecs :: codecs where
  "demo_codecs = \<lparr>cs_ser = demo_ser, cs_de = demo_de, cs_crc = tiny_crc, cs_block = tiny_codec\<rparr>"

lemma demo_agree: "codecs_agree demo_codecs"
  unfolding codecs_agree_def
proof (intro allI impI)
  fix s assume "storable (cs_ser demo_codecs) (cs_de demo_codecs) (cs_crc demo_codecs) s"
  then have "s = demo_span" by (auto simp: demo_codecs_def storable_def demo_ser_def split: if_splits)
  then show "span_fits (cs_block demo_codecs) s" by (simp add: demo_codecs_def demo_span_def)
qed

lemma demo_run:
  "\<exists>y1 y2. steps demo_codecs {} fresh_sys y1 \<and> steps demo_codecs {} y1 y2 \<and> demo_span \<in> y_acked y1
     \<and> y_active y2 = 2 \<and> y_expired y2 = {}"
proof -
  let ?w = "wal_open om_empty 1"
  let ?wa = "(write_active (frames demo_ser tiny_crc [demo_span]) ?w)\<lparr>w_active_count := w_active_count ?w + length [demo_span]\<rparr>"
  have ap: "append_nosync demo_ser tiny_crc WriteOk [demo_span] ?w = (Inr (w_active_seqno ?w), ?wa)"
    by (rule append_nosync_ok [where de = demo_de]) simp_all
  obtain wb where sy: "wal_sync True ?wa = (Inr (), wb)" by (simp add: wal_sync_def)
  let ?p = "[(w_active_seqno ?w, [demo_span], 0::nat)]"
  let ?a = "fresh_sys\<lparr>y_wal := ?wa, y_pending := y_pending fresh_sys @ ?p\<rparr>"
  let ?b = "?a\<lparr>y_wal := wb, y_pending := [], y_ready := y_pending ?a\<rparr>"
  let ?c = "?b\<lparr>y_ready := [], y_hot := hot_push (w_active_seqno ?w) [demo_span] (y_hot ?b), y_acked := y_acked ?b \<union> set [demo_span]\<rparr>"
  have wb: "w_active_seqno wb = 1" using sync_dir(1) [OF sy] by simp
  obtain n wd where se: "seal_and_rotate True wb = (Inr n, wd)" by (simp add: seal_and_rotate_def Let_def)
  have wd: "w_active_seqno wd = 2" using seal_dir(1) [OF se] wb by simp
  have 1: "step demo_codecs None fresh_sys ?a"
    using step.append [of fresh_sys "[demo_span]" demo_codecs _ ?wa 0] ap
    by (simp add: fresh_sys_def demo_codecs_def writable_def write_hazard_def)
  have 2: "step demo_codecs None ?a ?b" by (rule step.sync) (use sy in \<open>simp_all add: fresh_sys_def\<close>)
  have 3: "step demo_codecs None ?b ?c" by (rule step.publish) (simp add: fresh_sys_def)
  have 4: "step demo_codecs None ?c (?c\<lparr>y_wal := wd, y_active := w_active_seqno wd, y_torn := False\<rparr>)"
    by (rule step.seal [where n = n]) (use se in \<open>simp_all add: fresh_sys_def u64_max_def\<close>)
  have "steps demo_codecs {} fresh_sys ?c" by (rule steps_step [OF 1 _ steps_step [OF 2 _ steps_step [OF 3 _ steps_refl]]]) simp_all
  moreover have "steps demo_codecs {} ?c (?c\<lparr>y_wal := wd, y_active := w_active_seqno wd, y_torn := False\<rparr>)"
    by (rule steps_step [OF 4 _ steps_refl]) simp
  moreover have "demo_span \<in> y_acked ?c" by simp
  moreover have "y_active (?c\<lparr>y_wal := wd, y_active := w_active_seqno wd, y_torn := False\<rparr>) = 2" using wd by simp
  moreover have "y_expired (?c\<lparr>y_wal := wd, y_active := w_active_seqno wd, y_torn := False\<rparr>) = {}" by (simp add: fresh_sys_def)
  ultimately show ?thesis by blast
qed

theorem acknowledged_spans_stay_queryable_witness:
  "\<exists>y1 y2 rows. steps demo_codecs {} fresh_sys y1 \<and> steps demo_codecs {} y1 y2 \<and> y_active y2 = 2
     \<and> query tiny_codec (Some ''t'') None (y_hot y1) (y_index y2, y_files y2) (index_open, om_empty) = Inr rows
     \<and> span_key demo_span \<in> span_key ` set rows"
proof -
  obtain y1 y2 where y: "steps demo_codecs {} fresh_sys y1" "steps demo_codecs {} y1 y2" "demo_span \<in> y_acked y1"
    "y_active y2 = 2" "y_expired y2 = {}"
    using demo_run by blast
  have "cs_block demo_codecs = tiny_codec" "trace_matches (Some ''t'') demo_span"
    by (simp_all add: demo_codecs_def trace_matches_def demo_span_def)
  then obtain rows where "query tiny_codec (Some ''t'') None (y_hot y1) (y_index y2, y_files y2) (index_open, om_empty) = Inr rows"
    "span_key demo_span \<in> span_key ` set rows"
    using acknowledged_spans_stay_queryable [OF demo_agree y(1,2), of "Some ''t''" "(index_open, om_empty)"] y(3,5) by auto
  then show ?thesis using y(1,2,4) by blast
qed

text \<open>
  C15. The engine's state is consistent at every moment of a run without hazards (no write behind a torn one in
  the same segment, no merge under the name of another live block; torn writes, failures and crashes
  otherwise anywhere): each block the index names is readable and the trace table lists it for
  exactly the traces of its spans; no block is a temporary file; no hot segment is above the active one and
  the watermark is below it; the log holds nothing above the active segment, and a crash at that moment
  would give back every hot span above the watermark. Assumed of \<open>serde_json\<close>: a span the log can give back
  is one a block can give back.
\<close>

theorem reachable_states_are_consistent:
  assumes agree: "codecs_agree cs" and reach: "steps cs {} fresh_sys y"
  shows "(\<forall>p\<in>indexed (y_index y). \<exists>spans. read_block (cs_block cs) (y_files y) p = Inr spans
       \<and> (\<forall>t. p \<in> set (block_paths_for_trace t (y_index y)) \<longleftrightarrow> t \<in> ns_trace_id ` set spans))
     \<and> (\<forall>p\<in>indexed (y_index y). \<not> ends_with ''.tmp'' p)
     \<and> watermark (y_index y) < y_active y \<and> (\<forall>n\<in>set (segnos (y_hot y)). n \<le> y_active y)
     \<and> (\<forall>n>y_active y. seg_bytes (w_dir (y_wal y)) n = [])
     \<and> (\<forall>n>watermark (y_index y). hot_at (y_hot y) n
          \<subseteq> set (fst (read_segment (cs_de cs) (cs_crc cs) (crash_dir at_byte (w_dir (y_wal y))) n)))"
proof -
  have inv: "sys_inv cs y" using steps_inv [OF reach agree inv_fresh] by blast
  note i = index_invD(3) [OF sys_invD(3) [OF inv]] and w = wal_invD [OF sys_invD(1) [OF inv]]
    and h = hot_invD [OF sys_invD(2) [OF inv]]
  have blocks: "\<exists>spans. read_block (cs_block cs) (y_files y) p = Inr spans
       \<and> (\<forall>t. p \<in> set (block_paths_for_trace t (y_index y)) \<longleftrightarrow> t \<in> ns_trace_id ` set spans)"
    if p: "p \<in> indexed (y_index y)" for p
  proof -
    obtain spans where spans: "block_whole (cs_block cs) (y_files y) p spans"
      "{t. (t, p) \<in> mapped (y_index y)} = ns_trace_id ` set spans"
      using block_invD(3) [OF i [OF p]] by blast
    then have "p \<in> set (block_paths_for_trace t (y_index y)) \<longleftrightarrow> t \<in> ns_trace_id ` set spans" for t
      unfolding block_paths_for_trace_iff by blast
    then show ?thesis using block_whole_read [OF spans(1)] by blast
  qed
  have plain: "\<not> ends_with ''.tmp'' p" if "p \<in> indexed (y_index y)" for p
    using block_invD(1) [OF i [OF that]] .
  have top: "n \<le> y_active y" if "n \<in> set (segnos (y_hot y))" for n
    using that h(2) by (auto simp: segnos_def om_keys_get)
  have logged: "hot_at (y_hot y) n
      \<subseteq> set (fst (read_segment (cs_de cs) (cs_crc cs) (crash_dir at_byte (w_dir (y_wal y))) n))"
    if n: "watermark (y_index y) < n" for n
  proof -
    have "seg_holds (cs_ser cs) (cs_de cs) (cs_crc cs) (w_dir (y_wal y)) n (durable_at y n)"
      using seg_inv_holds [OF w(5)] seg_inv_holds [OF w(6)] by (cases "n = y_active y") simp_all
    from crash_recoverable(2) [OF this, of at_byte] have "durable_at y n
        \<subseteq> set (fst (read_segment (cs_de cs) (cs_crc cs) (crash_dir at_byte (w_dir (y_wal y))) n))"
      by (simp add: seg_recs_def fst_read_segment)
    then show ?thesis using n by (simp add: durable_at_def)
  qed
  show ?thesis
  proof (intro conjI ballI allI impI)
    fix p assume p: "p \<in> indexed (y_index y)"
    show "\<exists>spans. read_block (cs_block cs) (y_files y) p = Inr spans
       \<and> (\<forall>t. p \<in> set (block_paths_for_trace t (y_index y)) \<longleftrightarrow> t \<in> ns_trace_id ` set spans)"
      by (rule blocks [OF p])
    show "\<not> ends_with ''.tmp'' p" by (rule plain [OF p])
  qed (rule w(4), rule top, assumption, rule w(7), assumption, rule logged, assumption)
qed

theorem reachable_states_are_consistent_witness:
  "\<exists>y. steps demo_codecs {} fresh_sys y \<and> y_active y = 2 \<and> watermark (y_index y) < 2
     \<and> seg_bytes (w_dir (y_wal y)) 3 = []"
proof -
  obtain y1 y where y: "steps demo_codecs {} fresh_sys y1" "steps demo_codecs {} y1 y" "y_active y = 2"
    using demo_run by blast
  have "steps demo_codecs {} fresh_sys y" using y(1,2) by (rule steps_trans)
  from reachable_states_are_consistent [OF demo_agree this] this y(3) show ?thesis by auto
qed

section \<open>The code's runs are runs of the engine\<close>

text \<open>The engine's state with the writer's fields put in.\<close>

definition with_writer :: "writer \<Rightarrow> sys \<Rightarrow> sys" where
  "with_writer w y = y\<lparr>y_wal := wr_wal w, y_hot := wr_hot w, y_active := wr_active_seqno w\<rparr>"

definition writes_whole :: "group_io \<Rightarrow> bool" where
  "writes_whole io \<longleftrightarrow> (\<forall>i. gi_write io i = WriteOk \<or> gi_write io i = WriteFails 0)"

definition cmds_fit :: "codecs \<Rightarrow> cmd list \<Rightarrow> bool" where
  "cmds_fit cs cmds \<longleftrightarrow> (\<forall>i spans. Append i spans \<in> set cmds \<longrightarrow> spans \<noteq> []
     \<and> (\<forall>s\<in>set spans. writable cs s))"

text \<open>The hazards a group of commands may run into: none when no write tears and none had torn before.\<close>

definition torn_risk :: "group_io \<Rightarrow> bool \<Rightarrow> hazard set" where
  "torn_risk io torn = (if writes_whole io \<and> \<not> torn then {} else {BehindTornWrite})"

lemma with_writer_simps [simp]:
  "y_wal (with_writer w y) = wr_wal w" "y_hot (with_writer w y) = wr_hot w" "y_active (with_writer w y) = wr_active_seqno w"
  "y_pending (with_writer w y) = y_pending y" "y_ready (with_writer w y) = y_ready y" "y_acked (with_writer w y) = y_acked y"
  "y_torn (with_writer w y) = y_torn y"
  by (simp_all add: with_writer_def)

lemma whole_failure_leaves_nothing:
  "append_nosync ser crc outcome spans w = (Inl e, w') \<Longrightarrow> outcome = WriteOk \<or> outcome = WriteFails 0 \<Longrightarrow> \<not> leaves_bytes w w'"
  by (auto simp: append_nosync_def leaves_bytes_def split: if_splits sum.splits)

lemma appended_whole: "append_nosync ser crc outcome spans w = (Inr n, w') \<Longrightarrow> spans \<noteq> [] \<Longrightarrow> outcome = WriteOk"
  by (auto simp: append_nosync_def split: sum.splits write_outcome.splits)

lemma write_hazard_within: "y_torn y \<longrightarrow> BehindTornWrite \<in> H \<Longrightarrow> set_option (write_hazard y wal') \<subseteq> H"
  by (simp add: write_hazard_def)

text \<open>Phase 1 is a sequence of appends, failed ones included.\<close>

lemma phase1_steps:
  assumes "phase1 (cs_ser cs) (cs_crc cs) (gi_write io) over cmds w = (acks, pend, seal_ack, w')"
    and "cmds_fit cs cmds" and "BehindTornWrite \<in> H \<or> writes_whole io \<and> \<not> y_torn y" and "y_ready y = []"
  shows "\<exists>torn. steps cs H (with_writer w y) (with_writer w' (y\<lparr>y_pending := y_pending y @ pend, y_torn := torn\<rparr>))
     \<and> (BehindTornWrite \<in> H \<or> \<not> torn)"
  using assms
proof (induction cmds arbitrary: acks pend seal_ack w w' y)
  case Nil
  then have "w' = w" "pend = []" by simp_all
  then show ?case using Nil.prems(3) by (intro exI [of _ "y_torn y"]) (auto simp: steps_refl)
next
  case (Cons c cmds)
  have fit: "cmds_fit cs cmds" using Cons.prems(2) by (simp add: cmds_fit_def)
  note IH = Cons.IH [OF _ fit]
  show ?case
  proof (cases c)
    case (Seal i)
    obtain a p sa v where r: "phase1 (cs_ser cs) (cs_crc cs) (gi_write io) over cmds w = (a, p, sa, v)"
      by (metis prod_cases4)
    then have "p = pend" "v = w'" using Cons.prems(1) Seal by auto
    then show ?thesis using IH [OF r Cons.prems(3,4)] by simp
  next
    case (Append i spans)
    show ?thesis
    proof (cases over)
      case True
      let ?w = "w\<lparr>wr_rejections := wr_rejections w + length spans\<rparr>"
      obtain a p sa v where r: "phase1 (cs_ser cs) (cs_crc cs) (gi_write io) over cmds ?w = (a, p, sa, v)"
        by (metis prod_cases4)
      then have "p = pend" "v = w'" using Cons.prems(1) Append True by auto
      moreover have "with_writer ?w y = with_writer w y" by (simp add: with_writer_def)
      ultimately show ?thesis using IH [OF r Cons.prems(3,4)] by simp
    next
      case False
      have spans: "\<forall>s\<in>set spans. writable cs s" "spans \<noteq> []"
        using Cons.prems(2) Append by (auto simp: cmds_fit_def)
      obtain res wal' where ap: "append_nosync (cs_ser cs) (cs_crc cs) (gi_write io i) spans (wr_wal w) = (res, wal')"
        by (rule prod.exhaust)
      let ?w = "w\<lparr>wr_wal := wal'\<rparr>" and ?h = "write_hazard (with_writer w y) wal'"
      obtain a p sa v where r: "phase1 (cs_ser cs) (cs_crc cs) (gi_write io) over cmds ?w = (a, p, sa, v)"
        by (metis prod_cases4)
      have risk: "set_option ?h \<subseteq> H" using Cons.prems(3) by (intro write_hazard_within) auto
      show ?thesis
      proof (cases res)
        case (Inr n)
        have p: "pend = (n, spans, i) # p" "v = w'" using Cons.prems(1) Append False ap Inr r by auto
        have ok: "gi_write io i = WriteOk" using appended_whole ap Inr spans(2) by blast
        let ?y = "y\<lparr>y_pending := y_pending y @ [(n, spans, i)]\<rparr>"
        have "step cs ?h (with_writer w y) ((with_writer w y)\<lparr>y_wal := wal', y_pending := y_pending (with_writer w y) @ [(n, spans, i)]\<rparr>)"
          by (rule step.append) (use Cons.prems(4) spans ap ok Inr in simp_all)
        moreover have "(with_writer w y)\<lparr>y_wal := wal', y_pending := y_pending (with_writer w y) @ [(n, spans, i)]\<rparr> = with_writer ?w ?y"
          by (simp add: with_writer_def)
        ultimately have "step cs ?h (with_writer w y) (with_writer ?w ?y)" by (simp only:)
        moreover obtain torn where "steps cs H (with_writer ?w ?y) (with_writer w' (y\<lparr>y_pending := y_pending y @ pend, y_torn := torn\<rparr>))"
          "BehindTornWrite \<in> H \<or> \<not> torn"
          using IH [OF r, of ?y] Cons.prems(3,4) p by auto
        ultimately show ?thesis using steps_step [OF _ risk] by blast
      next
        case (Inl e)
        have p: "pend = p" "v = w'" using Cons.prems(1) Append False ap Inl r by auto
        let ?y = "y\<lparr>y_torn := y_torn y \<or> leaves_bytes (wr_wal w) wal'\<rparr>"
        have "step cs ?h (with_writer w y) ((with_writer w y)\<lparr>y_wal := wal', y_torn := y_torn (with_writer w y) \<or> leaves_bytes (y_wal (with_writer w y)) wal'\<rparr>)"
          by (rule step.append_fails [where spans = spans and outcome = "gi_write io i" and e = e])
            (use Cons.prems(4) spans ap Inl in simp_all)
        moreover have "(with_writer w y)\<lparr>y_wal := wal', y_torn := y_torn (with_writer w y) \<or> leaves_bytes (y_wal (with_writer w y)) wal'\<rparr> = with_writer ?w ?y"
          by (simp add: with_writer_def)
        ultimately have "step cs ?h (with_writer w y) (with_writer ?w ?y)" by (simp only:)
        moreover have "BehindTornWrite \<in> H \<or> writes_whole io \<and> \<not> y_torn ?y"
          using Cons.prems(3) whole_failure_leaves_nothing [OF ap [unfolded Inl]] by (auto simp: writes_whole_def)
        then obtain torn where "steps cs H (with_writer ?w ?y) (with_writer w' (?y\<lparr>y_pending := y_pending ?y @ pend, y_torn := torn\<rparr>))"
          "BehindTornWrite \<in> H \<or> \<not> torn"
          using IH [OF r, of ?y] Cons.prems(4) p by auto
        ultimately show ?thesis using steps_step [OF _ risk] by fastforce
      qed
    qed
  qed
qed

text \<open>Phase 2 is an fsync and, when it succeeds, the publications; then perhaps a seal.\<close>

lemma publish_fields [simp]:
  "wr_wal (publish p w) = wr_wal w" "wr_active_seqno (publish p w) = wr_active_seqno w"
  by (cases p; simp add: publish_def)+

lemma publish_steps:
  "y_ready y = pend \<Longrightarrow> steps cs H (with_writer w y)
     (with_writer (fold publish pend w) (y\<lparr>y_ready := [], y_acked := y_acked y \<union> ready_spans pend\<rparr>))"
proof (induction pend arbitrary: w y)
  case Nil
  then have "y\<lparr>y_ready := []\<rparr> = y" by (cases y) simp
  then show ?case by (simp add: steps_refl with_writer_def)
next
  case (Cons p pend)
  obtain n spans i where p: "p = (n, spans, i)" by (metis prod_cases3)
  let ?y = "y\<lparr>y_ready := pend, y_acked := y_acked y \<union> set spans\<rparr>"
  have "step cs None (with_writer w y) ((with_writer w y)\<lparr>y_ready := pend,
      y_hot := hot_push n spans (y_hot (with_writer w y)), y_acked := y_acked (with_writer w y) \<union> set spans\<rparr>)"
    by (rule step.publish [where i = i]) (simp add: Cons.prems p)
  moreover have "(with_writer w y)\<lparr>y_ready := pend, y_hot := hot_push n spans (y_hot (with_writer w y)),
      y_acked := y_acked (with_writer w y) \<union> set spans\<rparr> = with_writer (publish p w) ?y"
    by (simp add: with_writer_def p publish_def)
  moreover have rest: "steps cs H (with_writer (publish p w) ?y)
      (with_writer (fold publish (p # pend) w) (y\<lparr>y_ready := [], y_acked := y_acked y \<union> ready_spans (p # pend)\<rparr>))"
    using Cons.IH [of ?y "publish p w"] by (simp add: p Un_assoc)
  ultimately have "step cs None (with_writer w y) (with_writer (publish p w) ?y)" by (simp only:)
  from quiet_step [OF this rest] show ?case .
qed

lemma seal_steps:
  assumes "seal ok w = (r, w')" and "y_pending y = []" and "y_ready y = []" and "wr_active_seqno w < u64_max"
  shows "(\<exists>torn. steps cs H (with_writer w y) (with_writer w' (y\<lparr>y_torn := torn\<rparr>)) \<and> (torn \<longrightarrow> y_torn y))
     \<and> (wr_active_seqno w' = wr_active_seqno w \<or> w_active_count (wr_wal w') = 0)"
proof -
  obtain res wal' where s: "seal_and_rotate ok (wr_wal w) = (res, wal')" by (rule prod.exhaust)
  show ?thesis
  proof (cases res)
    case (Inl e)
    then have "w' = w\<lparr>wr_wal := wal'\<rparr>" "wal' = wr_wal w"
      using assms(1) s by (auto simp: seal_def seal_and_rotate_def Let_def split: if_splits)
    then show ?thesis by (intro conjI exI [of _ "y_torn y"]) (simp_all add: steps_refl)
  next
    case (Inr n)
    have ok: "ok" and cnt: "w_active_count wal' = 0"
      using s Inr by (auto simp: seal_and_rotate_def Let_def split: if_splits)
    have w': "w' = w\<lparr>wr_wal := wal', wr_active_seqno := w_active_seqno wal'\<rparr>"
      using assms(1) s Inr by (auto simp: seal_def)
    have "step cs None (with_writer w y) ((with_writer w y)\<lparr>y_wal := wal', y_active := w_active_seqno wal', y_torn := False\<rparr>)"
      by (rule step.seal) (use assms(2-4) s Inr ok in simp_all)
    moreover have "(with_writer w y)\<lparr>y_wal := wal', y_active := w_active_seqno wal', y_torn := False\<rparr> = with_writer w' (y\<lparr>y_torn := False\<rparr>)"
      by (simp add: with_writer_def w')
    ultimately have "step cs None (with_writer w y) (with_writer w' (y\<lparr>y_torn := False\<rparr>))" by (simp only:)
    from quiet_step [OF this steps_refl] show ?thesis using w' cnt by auto
  qed
qed

lemma fold_publish_fields: "wr_active_seqno (fold publish pend w) = wr_active_seqno w"
  by (induction pend arbitrary: w) simp_all

lemma phase2_steps:
  assumes run: "phase2 io thr pend w = (acks, w')" and pend: "y_pending y = pend" and ready: "y_ready y = []"
    and act: "wr_active_seqno w < u64_max"
  shows "\<exists>A torn. steps cs H (with_writer w y) (with_writer w' (y\<lparr>y_pending := [], y_acked := y_acked y \<union> A, y_torn := torn\<rparr>))
     \<and> (torn \<longrightarrow> y_torn y) \<and> (\<forall>(n, spans, i)\<in>set pend. (i, Inr ()) \<in> set acks \<longrightarrow> set spans \<subseteq> A)
     \<and> (wr_active_seqno w' = wr_active_seqno w \<or> w_active_count (wr_wal w') = 0)"
proof (cases "pend = []")
  case True
  then have "y\<lparr>y_pending := [], y_acked := y_acked y \<union> {}, y_torn := y_torn y\<rparr> = y" "w' = w"
    using pend run by (cases y; simp add: phase2_def)+
  then have "steps cs H (with_writer w y) (with_writer w' (y\<lparr>y_pending := [], y_acked := y_acked y \<union> {}, y_torn := y_torn y\<rparr>))"
    by (simp only: steps_refl)
  then show ?thesis using True \<open>w' = w\<close> by (intro exI [of _ "{}"] exI [of _ "y_torn y"]) simp
next
  case False
  obtain res wal' where sy: "wal_sync (gi_sync io) (wr_wal w) = (res, wal')" by (rule prod.exhaust)
  let ?w1 = "w\<lparr>wr_wal := wal'\<rparr>"
  define A where "A = (if gi_sync io then ready_spans pend else {})"
  define w2 where "w2 = (if gi_sync io then fold publish pend ?w1 else ?w1)"
  let ?y = "y\<lparr>y_pending := [], y_acked := y_acked y \<union> A\<rparr>"
  have w2: "wr_active_seqno w2 = wr_active_seqno w" by (simp add: w2_def fold_publish_fields)
  have w': "w' = (if thr \<le> w_active_count (wr_wal w2) then snd (seal (gi_seal io) w2) else w2)"
    and acks: "acks = map (\<lambda>(_, _, i). (i, if gi_sync io then Inr () else Inl (Io OtherIo))) pend"
    using run False sy by (auto simp: phase2_def w2_def wal_sync_def Let_def split: if_splits)
  have first: "steps cs H (with_writer w y) (with_writer w2 ?y)"
  proof (cases "gi_sync io")
    case True
    let ?z = "y\<lparr>y_pending := [], y_ready := pend\<rparr>"
    have "wal_sync True (wr_wal w) = (Inr (), wal')" using sy True by (simp add: wal_sync_def)
    then have "step cs None (with_writer w y)
        ((with_writer w y)\<lparr>y_wal := wal', y_pending := [], y_ready := y_pending (with_writer w y)\<rparr>)"
      by (intro step.sync) (simp_all add: ready)
    moreover have "(with_writer w y)\<lparr>y_wal := wal', y_pending := [], y_ready := y_pending (with_writer w y)\<rparr>
        = with_writer ?w1 ?z"
      by (simp add: with_writer_def pend)
    ultimately have sync: "step cs None (with_writer w y) (with_writer ?w1 ?z)" by (simp only:)
    have "?z\<lparr>y_ready := []\<rparr> = y\<lparr>y_pending := []\<rparr>" using ready by (cases y) simp
    then have "?z\<lparr>y_ready := [], y_acked := y_acked ?z \<union> ready_spans pend\<rparr> = ?y"
      using True by (simp add: A_def)
    then show ?thesis
      using quiet_step [OF sync publish_steps [of ?z pend cs H ?w1]] True by (simp add: w2_def)
  next
    case False
    have "wal_sync False (wr_wal w) = (Inl OtherIo, wal')" using sy False by (simp add: wal_sync_def)
    then have "step cs None (with_writer w y) ((with_writer w y)\<lparr>y_wal := wal', y_pending := []\<rparr>)"
      by (intro step.sync_fails) (simp_all add: ready)
    moreover have "(with_writer w y)\<lparr>y_wal := wal', y_pending := []\<rparr> = with_writer w2 ?y"
      using False by (simp add: with_writer_def w2_def A_def)
    ultimately have "step cs None (with_writer w y) (with_writer w2 ?y)" by (simp only:)
    then show ?thesis by (rule quiet_step [OF _ steps_refl])
  qed
  have second: "(\<exists>torn. steps cs H (with_writer w2 ?y) (with_writer w' (?y\<lparr>y_torn := torn\<rparr>)) \<and> (torn \<longrightarrow> y_torn y))
     \<and> (wr_active_seqno w' = wr_active_seqno w2 \<or> w_active_count (wr_wal w') = 0)"
  proof (cases "thr \<le> w_active_count (wr_wal w2)")
    case True
    then show ?thesis
      using seal_steps [of "gi_seal io" w2 "fst (seal (gi_seal io) w2)" w' ?y cs] w' w2 act ready by simp
  next
    case False
    then show ?thesis using w' by (intro conjI exI [of _ "y_torn ?y"]) (simp_all add: steps_refl)
  qed
  then obtain torn where torn: "steps cs H (with_writer w2 ?y) (with_writer w' (?y\<lparr>y_torn := torn\<rparr>))" "torn \<longrightarrow> y_torn y" by blast
  have "set spans \<subseteq> A" if "(n, spans, i) \<in> set pend" "(i, Inr ()) \<in> set acks" for n spans i
    using that acks by (auto simp: A_def ready_spans_def split: if_splits)
  then show ?thesis
    using steps_trans [OF first torn(1)] torn(2) conjunct2 [OF second] w2 by (intro exI [of _ A] exI [of _ torn]) auto
qed

lemma phase1_acks:
  "phase1 ser crc io over cmds w = (acks, pend, seal_ack, w') \<Longrightarrow>
     (\<forall>(i, r)\<in>set acks. r \<noteq> Inr ()) \<and> (\<forall>(n, spans, i)\<in>set pend. Append i spans \<in> set cmds)
     \<and> (\<forall>i. seal_ack = Some i \<longrightarrow> Seal i \<in> set cmds)
     \<and> wr_active_seqno w' = wr_active_seqno w"
  by (induction ser crc io over cmds w arbitrary: acks pend seal_ack w' rule: phase1.induct)
    (fastforce split: if_splits prod.splits sum.splits option.splits)+

text \<open>
  C13. The writer task refines the engine: whatever one turn of \<open>writer_loop\<close> does with a group of
  commands (over the limit or not, spans that cannot be encoded, writes failing after any number of bytes,
  fsync failing or not, sealing at the threshold and on request or not) is a sequence of the engine's
  steps, and every append that was answered with success is then among the acknowledged spans. The only
  hazard of the sequence can be a write behind a torn one; it has none, and leaves no torn write, when no
  write of the group left part of its bytes and none had before. Assumed of \<open>serde_json\<close> and \<open>crc32fast\<close>: a span that is written
  is read back; \<open>append\<close> answers an empty batch itself, so batches are not empty.
\<close>

theorem writer_group_refines_the_engine:
  assumes run: "writer_group (cs_ser cs) (cs_crc cs) io thr mx cmds w = (acks, w')"
    and ids: "distinct (map cmd_id cmds)" and fit: "cmds_fit cs cmds"
    and quiet: "y_pending y = []" "y_ready y = []" and act: "wr_active_seqno w < u64_max"
  shows "\<exists>A torn. steps cs (torn_risk io (y_torn y)) (with_writer w y) (with_writer w' (y\<lparr>y_acked := y_acked y \<union> A, y_torn := torn\<rparr>))
     \<and> (torn_risk io (y_torn y) = {} \<longrightarrow> \<not> torn)
     \<and> (\<forall>i spans. Append i spans \<in> set cmds \<and> (i, Inr ()) \<in> set acks \<longrightarrow> set spans \<subseteq> A)"
proof -
  obtain acks1 pend seal_ack w1 where p1: "phase1 (cs_ser cs) (cs_crc cs) (gi_write io) (over_limit mx (wr_hot w)) cmds w
      = (acks1, pend, seal_ack, w1)"
    by (metis prod_cases4)
  note q1 = phase1_acks [OF p1]
  obtain acks2 w2 where p2: "phase2 io thr pend w1 = (acks2, w2)" by (rule prod.exhaust)
  let ?H = "torn_risk io (y_torn y)"
  have risk: "BehindTornWrite \<in> ?H \<or> writes_whole io \<and> \<not> y_torn y" by (simp add: torn_risk_def)
  obtain torn1 where p1_steps: "steps cs ?H (with_writer w y) (with_writer w1 (y\<lparr>y_pending := y_pending y @ pend, y_torn := torn1\<rparr>))"
    and clean1: "BehindTornWrite \<in> ?H \<or> \<not> torn1"
    using phase1_steps [OF p1 fit risk quiet(2)] by blast
  define y1 where "y1 = y\<lparr>y_pending := pend, y_torn := torn1\<rparr>"
  have s1: "steps cs ?H (with_writer w y) (with_writer w1 y1)" using p1_steps quiet(1) by (simp add: y1_def)
  obtain A torn2 where s2: "steps cs ?H (with_writer w1 y1) (with_writer w2 (y1\<lparr>y_pending := [], y_acked := y_acked y1 \<union> A, y_torn := torn2\<rparr>))"
    and A: "\<forall>(n, spans, i)\<in>set pend. (i, Inr ()) \<in> set acks2 \<longrightarrow> set spans \<subseteq> A" and clean2: "torn2 \<longrightarrow> y_torn y1"
    and cnt: "wr_active_seqno w2 = wr_active_seqno w1 \<or> w_active_count (wr_wal w2) = 0"
  proof -
    have "y_pending y1 = pend" "y_ready y1 = []" "wr_active_seqno w1 < u64_max" using quiet(2) act q1 by (simp_all add: y1_def)
    from phase2_steps [OF p2 this, of cs ?H] show thesis using that by blast
  qed
  let ?y = "\<lambda>torn. y\<lparr>y_acked := y_acked y \<union> A, y_torn := torn\<rparr>"
  have same: "y1\<lparr>y_pending := [], y_acked := y_acked y1 \<union> A, y_torn := torn2\<rparr> = ?y torn2"
    using quiet(1) by (cases y) (simp add: y1_def)
  have "\<exists>torn. steps cs ?H (with_writer w2 (?y torn2)) (with_writer w' (?y torn)) \<and> (torn \<longrightarrow> torn2)"
  proof (cases "seal_ack = None \<or> w_active_count (wr_wal w2) = 0")
    case True
    then have "w' = w2" using run by (auto simp: writer_group_def p1 p2 split: option.splits)
    then show ?thesis using steps_refl by blast
  next
    case False
    then have "w' = snd (seal (gi_seal_now io) w2)"
      using run by (auto simp: writer_group_def p1 p2 split: prod.splits sum.splits)
    then show ?thesis
      using seal_steps [of "gi_seal_now io" w2 "fst (seal (gi_seal_now io) w2)" w' "?y torn2" cs ?H] quiet act cnt False q1 by simp
  qed
  then obtain torn where s3: "steps cs ?H (with_writer w2 (?y torn2)) (with_writer w' (?y torn))" and clean3: "torn \<longrightarrow> torn2" by blast
  have "?H = {} \<longrightarrow> \<not> torn" using clean1 clean2 clean3 by (auto simp: y1_def)
  moreover have "set spans \<subseteq> A" if c: "Append i spans \<in> set cmds" and ok: "(i, Inr ()) \<in> set acks" for i spans
  proof -
    have one: "d = Append i spans" if "d \<in> set cmds" "cmd_id d = i" for d
      using ids c that by (metis cmd_id_simps(1) distinct_map inj_onD)
    have "(i, Inr ()) \<in> set acks2"
    proof -
      have "(i, Inr ()) \<notin> set acks1" using q1 by blast
      moreover have "seal_ack \<noteq> Some i" using q1 one [of "Seal i"] by auto
      ultimately show ?thesis
        using ok run by (auto simp: writer_group_def p1 p2 split: option.splits if_splits prod.splits sum.splits)
    qed
    moreover have "i \<in> (snd \<circ> snd) ` set pend"
      using phase2_ids [OF p2] calculation by (metis fst_conv image_eqI set_map)
    then obtain n sp where "(n, sp, i) \<in> set pend" by auto
    moreover have "sp = spans" using q1 one [of "Append i sp"] calculation(2) by auto
    ultimately show ?thesis using A by auto
  qed
  ultimately show ?thesis
    using steps_trans [OF s1 steps_trans [OF s2 [unfolded same] s3]] by blast
qed

theorem writer_group_refines_the_engine_witness:
  "\<exists>w' A. writer_group demo_ser tiny_crc good_io 100 0 [Append 4 [demo_span]] idle_writer = ([(4, Inr ())], w')
     \<and> (\<exists>torn. steps demo_codecs {} fresh_sys (with_writer w' (fresh_sys\<lparr>y_acked := A, y_torn := torn\<rparr>))) \<and> demo_span \<in> A"
proof -
  let ?cs = demo_codecs
  let ?w = "wr_wal idle_writer"
  let ?wa = "(write_active (frames demo_ser tiny_crc [demo_span]) ?w)\<lparr>w_active_count := w_active_count ?w + length [demo_span]\<rparr>"
  have ap: "append_nosync demo_ser tiny_crc WriteOk [demo_span] ?w = (Inr (w_active_seqno ?w), ?wa)"
    by (rule append_nosync_ok [where de = demo_de]) simp_all
  have gio: "gi_write good_io 4 = WriteOk" "gi_sync good_io = True" by (simp_all add: good_io_def)
  obtain wb where sy: "wal_sync True ?wa = (Inr (), wb)" and cnt: "w_active_count wb = 1"
    by (simp add: wal_sync_def idle_writer_def wal_open_def)
  obtain w' where run: "writer_group demo_ser tiny_crc good_io 100 0 [Append 4 [demo_span]] idle_writer = ([(4, Inr ())], w')"
    using ap sy cnt by (simp add: writer_group_def phase2_def gio over_limit_def)
  have cs: "cs_ser ?cs = demo_ser" "cs_de ?cs = demo_de" "cs_crc ?cs = tiny_crc" by (simp_all add: demo_codecs_def)
  have fit: "cmds_fit ?cs [Append 4 [demo_span]]" by (simp add: cmds_fit_def writable_def cs)
  have io: "torn_risk good_io (y_torn fresh_sys) = {}" by (simp add: torn_risk_def writes_whole_def good_io_def fresh_sys_def)
  have "\<exists>A torn. steps ?cs (torn_risk good_io (y_torn fresh_sys)) (with_writer idle_writer fresh_sys)
       (with_writer w' (fresh_sys\<lparr>y_acked := y_acked fresh_sys \<union> A, y_torn := torn\<rparr>))
     \<and> (torn_risk good_io (y_torn fresh_sys) = {} \<longrightarrow> \<not> torn) \<and> (\<forall>i spans. Append i spans \<in> set [Append 4 [demo_span]] \<and> (i, Inr () :: store_error + unit) \<in> set [(4, Inr ())] \<longrightarrow> set spans \<subseteq> A)"
  proof (rule writer_group_refines_the_engine [where io = good_io and thr = 100 and mx = 0, OF _ _ fit])
    show "writer_group (cs_ser ?cs) (cs_crc ?cs) good_io 100 0 [Append 4 [demo_span]] idle_writer = ([(4, Inr ())], w')"
      using run by (simp only: cs)
  qed (simp_all add: fresh_sys_def idle_writer_def u64_max_def)
  moreover have "with_writer idle_writer fresh_sys = fresh_sys"
    by (simp add: with_writer_def idle_writer_def fresh_sys_def)
  moreover have "y_acked fresh_sys = {}" by (simp add: fresh_sys_def)
  ultimately show ?thesis using run io by auto
qed

text \<open>The engine's state with a store's fields put in.\<close>

definition with_store :: "store \<Rightarrow> sys \<Rightarrow> sys" where
  "with_store st y = y\<lparr>y_wal := (y_wal y)\<lparr>w_dir := st_wal_dir st\<rparr>, y_hot := st_hot st, y_index := st_index st, y_files := st_files st\<rparr>"

text \<open>
  C14. A flush refines the engine: \<open>flush_one\<close> on the lowest pending segment, whichever of its writes,
  its commit or its delete fails, is a sequence of the engine's steps, none of them a hazard, that ends
  with the compactor idle.
\<close>

theorem flush_one_refines_the_engine:
  assumes run: "flush_one (cs_block cs) io now v n st = (r, st')"
    and idle: "y_comp y = Idle" and pend: "n \<in> set (pending_seqnos (y_active y) st)"
    and least: "\<forall>m\<in>set (pending_seqnos (y_active y) st). n \<le> m"
  shows "steps cs {} (with_store st y) (with_store st' y)"
proof -
  let ?y = "with_store st y"
  have n: "n \<in> set (segnos (st_hot st))" "watermark (st_index st) < n" "n < y_active y"
    using pend by (simp_all add: pending_seqnos_def)
  obtain held where held: "om_get (st_hot st) n = Some held" using n(1) by (auto simp: segnos_def om_keys_get)
  obtain res fs where w: "write_partitions (cs_block cs) (fi_stage io) now v n 0
      (by_partition (cs_block cs) (first_copies span_key held)) (st_files st) = (res, fs)"
    by (rule prod.exhaust)
  have low: "\<forall>m\<in>set (segnos (st_hot st)). watermark (st_index st) < m \<longrightarrow> n \<le> m"
  proof (intro ballI impI)
    fix m assume m: "m \<in> set (segnos (st_hot st))" "watermark (st_index st) < m"
    show "n \<le> m"
    proof (cases "m < y_active y")
      case True
      then show ?thesis using least m by (simp add: pending_seqnos_def)
    next
      case False
      then show ?thesis using n(3) by simp
    qed
  qed
  show ?thesis
  proof (cases "res = Inl (projl res) \<or> \<not> fi_commit io")
    case True
    then have st': "st' = st\<lparr>st_files := fs\<rparr>"
      using run held w by (cases res) (auto simp: flush_one_def segment_def Let_def split: if_splits)
    have "step cs None ?y (?y\<lparr>y_files := fs\<rparr>)"
      by (rule step.flush_fails [where n = n and held = held and stage = "fi_stage io" and now = now and v = v and r = res])
        (use n held w idle in \<open>simp_all add: with_store_def\<close>)
    moreover have "?y\<lparr>y_files := fs\<rparr> = with_store st' y" by (simp add: with_store_def st')
    ultimately have "step cs None ?y (with_store st' y)" by (simp only:)
    then show ?thesis by (rule quiet_step [OF _ steps_refl])
  next
    case False
    then obtain blocks where res: "res = Inr blocks" and commit: "fi_commit io" by (cases res) auto
    let ?y1 = "?y\<lparr>y_files := fs, y_index := commit_flush n blocks (st_index st), y_comp := Truncating n\<rparr>"
    have "step cs None ?y (?y\<lparr>y_files := fs, y_index := commit_flush n blocks (y_index ?y), y_comp := Truncating n\<rparr>)"
      by (rule step.flush_commit [where n = n and held = held and stage = "fi_stage io" and now = now and v = v])
        (use n held w idle low res in \<open>simp_all add: with_store_def\<close>)
    moreover have "?y\<lparr>y_files := fs, y_index := commit_flush n blocks (y_index ?y), y_comp := Truncating n\<rparr> = ?y1"
      by (simp add: with_store_def)
    ultimately have s1: "step cs None ?y ?y1" by (simp only:)
    show ?thesis
    proof (cases "fi_delete io")
      case False
      then have st': "st' = st\<lparr>st_files := fs, st_index := commit_flush n blocks (st_index st)\<rparr>"
        using run held w res commit by (simp add: flush_one_def segment_def)
      have "step cs None ?y1 (?y1\<lparr>y_comp := Idle\<rparr>)" by (rule step.flush_delete_fails [where n = n]) simp
      moreover have "?y1\<lparr>y_comp := Idle\<rparr> = with_store st' y" using idle by (cases y) (simp add: with_store_def st')
      ultimately have "step cs None ?y1 (with_store st' y)" by (simp only:)
      from quiet_step [OF s1 quiet_step [OF this steps_refl]] show ?thesis .
    next
      case True
      then have st': "st' = st\<lparr>st_files := fs, st_index := commit_flush n blocks (st_index st),
          st_wal_dir := delete_segment (st_wal_dir st) n, st_hot := drop_segment n (st_hot st)\<rparr>"
        using run held w res commit by (simp add: flush_one_def segment_def)
      let ?y2 = "?y1\<lparr>y_wal := (y_wal ?y1)\<lparr>w_dir := delete_segment (w_dir (y_wal ?y1)) n\<rparr>, y_comp := Dropping n\<rparr>"
      have s2: "step cs None ?y1 ?y2" by (rule step.flush_delete) simp
      have "step cs None ?y2 (?y2\<lparr>y_hot := drop_segment n (y_hot ?y2), y_comp := Idle\<rparr>)" by (rule step.flush_drop) simp
      moreover have "?y2\<lparr>y_hot := drop_segment n (y_hot ?y2), y_comp := Idle\<rparr> = with_store st' y"
        using idle by (cases y) (simp add: with_store_def st')
      ultimately have "step cs None ?y2 (with_store st' y)" by (simp only:)
      from quiet_step [OF s1 quiet_step [OF s2 quiet_step [OF this steps_refl]]] show ?thesis .
    qed
  qed
qed

lemma good_partitions:
  "\<forall>(p, g)\<in>set parts. \<forall>s\<in>set g. span_fits cx s \<Longrightarrow>
     \<exists>blocks fs'. write_partitions cx (\<lambda>_. StageOk) now v n i parts fs = (Inr blocks, fs')"
proof (induction parts arbitrary: i fs)
  case (Cons x parts)
  obtain p g where x: "x = (p, g)" by (rule prod.exhaust)
  have fit: "\<forall>s\<in>set g. span_fits cx s" and fit': "\<forall>(p, g)\<in>set parts. \<forall>s\<in>set g. span_fits cx s"
    using Cons.prems x by simp_all
  obtain meta fs1 where w: "write_block cx StageOk now blocks_subdir p (flush_stem n i) g (with_price_tables [v] (provenance_flush n)) fs
      = (Inr meta, fs1)"
    using write_block_succeeds [OF fit] by blast
  obtain blocks fs2 where "write_partitions cx (\<lambda>_. StageOk) now v n (i + 1) parts fs1 = (Inr blocks, fs2)"
    using Cons.IH [OF fit', of "i + 1" fs1] by blast
  then show ?case using w x by simp
qed simp

theorem flush_one_refines_the_engine_witness:
  "\<exists>st'. flush_one tiny_codec \<lparr>fi_stage = (\<lambda>_. StageOk), fi_commit = True, fi_delete = True\<rparr> 0 ''v'' 3 demo_store = (Inr (), st')
     \<and> steps demo_codecs {} (with_store demo_store (fresh_sys\<lparr>y_active := 5\<rparr>)) (with_store st' (fresh_sys\<lparr>y_active := 5\<rparr>))"
proof -
  let ?io = "\<lparr>fi_stage = (\<lambda>_. StageOk), fi_commit = True, fi_delete = True\<rparr>"
  let ?held = "[plain_span ''t'' ''a'' 5, plain_span ''t'' ''b'' 6, plain_span ''t'' ''a'' 7]"
  obtain r st' where run: "flush_one tiny_codec ?io 0 ''v'' 3 demo_store = (r, st')" by (rule prod.exhaust)
  have seg: "om_get (st_hot demo_store) 3 = Some ?held" by (simp add: demo_store_def map_simps)
  have "r = Inr ()"
  proof -
    have "\<forall>(p, g)\<in>set (by_partition tiny_codec (first_copies span_key ?held)). \<forall>s\<in>set g. span_fits tiny_codec s"
      using first_copies_subset0 [of span_key ?held] by (intro fit_partitions) auto
    then obtain blocks fs where "write_partitions tiny_codec (\<lambda>_. StageOk) 0 ''v'' 3 0
        (by_partition tiny_codec (first_copies span_key ?held)) (st_files demo_store) = (Inr blocks, fs)"
      using good_partitions by blast
    then show ?thesis using run seg by (simp add: flush_one_def segment_def)
  qed
  have "pending_seqnos (y_active (fresh_sys\<lparr>y_active := 5\<rparr>)) demo_store = [3]"
    by (simp add: pending_seqnos_def demo_store_def segnos_def om_keys_def om_empty_def)
  moreover have "cs_block demo_codecs = tiny_codec" by (simp add: demo_codecs_def)
  moreover have "y_comp (fresh_sys\<lparr>y_active := 5\<rparr>) = Idle" by (simp add: fresh_sys_def)
  ultimately have "steps demo_codecs {} (with_store demo_store (fresh_sys\<lparr>y_active := 5\<rparr>)) (with_store st' (fresh_sys\<lparr>y_active := 5\<rparr>))"
    using flush_one_refines_the_engine [of demo_codecs ?io 0 "''v''" 3 demo_store r st' "fresh_sys\<lparr>y_active := 5\<rparr>"] run by simp
  then show ?thesis using run \<open>r = Inr ()\<close> by blast
qed

end
