(* ===== verification/Disk.thy ===== *)
theory Disk
  imports Writer
begin

text \<open>
  The disk guardrail: the byte sizes of \<^verbatim>\<open>src/disk.rs\<close> and the monitor task of \<open>spawn_disk_monitor\<close>,
  one step per sample. A sample is \<open>None\<close> when the probe fails. What the monitor publishes is what
  \<open>reject_if_disk_full\<close> reads; the lines it logs are kept as events.
\<close>

section \<open>Byte sizes\<close>

datatype size_error = EmptySize | InvalidSize str | TooLarge str

definition checked_shl :: "u64 \<Rightarrow> nat \<Rightarrow> u64 option" where
  "checked_shl v k = (if k < 64 then Some (v * 2 ^ k mod 2 ^ 64) else None)"

definition split_unit :: "str \<Rightarrow> str \<times> nat" where
  "split_unit t =
     (if t = [] then (t, 0)
      else if last t = CHR ''k'' then (butlast t, 10)
      else if last t = CHR ''m'' then (butlast t, 20)
      else if last t = CHR ''g'' then (butlast t, 30)
      else if last t = CHR ''t'' then (butlast t, 40)
      else (t, 0))"

definition parse_bytes :: "str \<Rightarrow> size_error + u64" where
  "parse_bytes s =
     (let t = to_ascii_lowercase (trim s)
      in if t = [] then Inl EmptySize
         else let t' = (case opt_or (strip_suffix ''ib'' t) (strip_suffix ''b'' t) of Some u \<Rightarrow> u | None \<Rightarrow> t);
                  (digits, unit_shift) = split_unit t'
              in case parse_u64 (trim digits) of
                   None \<Rightarrow> Inl (InvalidSize s)
                 | Some val \<Rightarrow>
                     (case checked_shl val unit_shift of
                        Some v \<Rightarrow> if unit_shift = 0 \<or> v div 2 ^ unit_shift = val then Inr v else Inl (TooLarge s)
                      | None \<Rightarrow> Inl (TooLarge s)))"

text \<open>The filter keeps a shifted value exactly when no bit fell off.\<close>

lemma checked_shl_exact:
  assumes "k < 64"
  shows "(v * 2 ^ k mod 2 ^ 64) div 2 ^ k = v \<longleftrightarrow> v * 2 ^ k < (2 ^ 64 :: nat)"
proof
  assume d: "(v * 2 ^ k mod 2 ^ 64) div 2 ^ k = v"
  have "(2::nat) ^ k dvd 2 ^ 64" using assms by (intro le_imp_power_dvd) simp
  then have "2 ^ k dvd v * 2 ^ k mod 2 ^ 64" by (simp add: dvd_mod)
  then have "v * 2 ^ k mod 2 ^ 64 = v * 2 ^ k" using d by (metis dvd_div_mult_self)
  moreover have "v * 2 ^ k mod 2 ^ 64 < (2 ^ 64 :: nat)" by (intro mod_less_divisor) simp
  ultimately show "v * 2 ^ k < 2 ^ 64" by simp
next
  assume "v * 2 ^ k < 2 ^ 64"
  then have "v * 2 ^ k mod 2 ^ 64 = v * 2 ^ k" by (rule mod_less)
  then show "(v * 2 ^ k mod 2 ^ 64) div 2 ^ k = v" by simp
qed

lemma split_unit_shift: "snd (split_unit t) < 64"
  by (simp add: split_unit_def)

lemma parse_bytes_value:
  assumes "parse_bytes s = Inr v"
  shows "\<exists>t n k. split_unit t = (n, k) \<and> (\<exists>val. parse_u64 (trim n) = Some val \<and> v = val * 2 ^ k \<and> v < 2 ^ 64)"
proof -
  define t where "t = to_ascii_lowercase (trim s)"
  define u where "u = (case opt_or (strip_suffix ''ib'' t) (strip_suffix ''b'' t) of Some u \<Rightarrow> u | None \<Rightarrow> t)"
  obtain n k where nk: "split_unit u = (n, k)" by (cases "split_unit u")
  have k: "k < 64" using split_unit_shift [of u] nk by simp
  obtain val where val: "parse_u64 (trim n) = Some val"
    using assms nk by (auto simp: parse_bytes_def t_def [symmetric] u_def [symmetric] Let_def split: if_splits option.splits)
  have "v = val * 2 ^ k mod 2 ^ 64 \<and> (k = 0 \<or> v div 2 ^ k = val)"
    using assms nk val k
    by (auto simp: parse_bytes_def t_def [symmetric] u_def [symmetric] Let_def checked_shl_def split: if_splits)
  then have "v = val * 2 ^ k" "v < 2 ^ 64"
    using checked_shl_exact [OF k, of val] parse_u64_le [OF val] by (auto simp: u64_max_def)
  then show ?thesis using nk val by blast
qed

section \<open>The monitor\<close>

datatype disk_log = ProbeFailed | BelowFloor | Recovered | LowSpace

record disk_guard =
  dg_free :: u64
  dg_blocked :: bool
  dg_min_free_bytes :: u64
  dg_warn_free_bytes :: u64

record monitor =
  mn_guard :: disk_guard
  mn_was_blocked :: bool
  mn_was_warned :: bool
  mn_probe_failed :: bool

definition monitor_tick :: "u64 option \<Rightarrow> monitor \<Rightarrow> disk_log list \<times> monitor" where
  "monitor_tick probe m =
     (case probe of
        None \<Rightarrow>
          (if mn_probe_failed m then [] else [ProbeFailed],
           m\<lparr>mn_probe_failed := True, mn_guard := (mn_guard m)\<lparr>dg_free := u64_max, dg_blocked := False\<rparr>\<rparr>)
      | Some free \<Rightarrow>
          (let g = mn_guard m;
               blocked = (dg_min_free_bytes g \<noteq> 0 \<and> free < dg_min_free_bytes g);
               g' = g\<lparr>dg_free := free, dg_blocked := blocked\<rparr>;
               log1 = (if blocked \<and> \<not> mn_was_blocked m then [BelowFloor]
                       else if \<not> blocked \<and> mn_was_blocked m then [Recovered] else []);
               warned = (if \<not> blocked \<and> mn_was_blocked m then False else mn_was_warned m);
               warn = (dg_warn_free_bytes g \<noteq> 0 \<and> free < dg_warn_free_bytes g);
               log2 = (if warn \<and> \<not> blocked \<and> \<not> warned then [LowSpace] else []);
               warned' = (if warn \<and> \<not> blocked \<and> \<not> warned then True else if \<not> warn then False else warned)
           in (log1 @ log2,
               m\<lparr>mn_guard := g', mn_was_blocked := blocked, mn_was_warned := warned', mn_probe_failed := False\<rparr>)))"

fun monitor_run :: "u64 option list \<Rightarrow> monitor \<Rightarrow> disk_log list \<times> monitor" where
  "monitor_run [] m = ([], m)"
| "monitor_run (p # ps) m =
     (let (l1, m1) = monitor_tick p m; (l2, m2) = monitor_run ps m1 in (l1 @ l2, m2))"

definition monitor_start :: "u64 \<Rightarrow> u64 \<Rightarrow> monitor" where
  "monitor_start min_free warn_free =
     \<lparr>mn_guard = \<lparr>dg_free = u64_max, dg_blocked = False, dg_min_free_bytes = min_free, dg_warn_free_bytes = warn_free\<rparr>,
      mn_was_blocked = False, mn_was_warned = False, mn_probe_failed = False\<rparr>"

definition below_floor :: "u64 \<Rightarrow> u64 option \<Rightarrow> bool" where
  "below_floor min_free probe = (case probe of None \<Rightarrow> False | Some free \<Rightarrow> min_free \<noteq> 0 \<and> free < min_free)"

text \<open>The samples that could be read, and how often they go from above the floor to below it.\<close>

definition readings :: "u64 option list \<Rightarrow> u64 list" where
  "readings ps = List.map_filter (\<lambda>p. p) ps"

fun falls :: "(u64 \<Rightarrow> bool) \<Rightarrow> bool \<Rightarrow> u64 list \<Rightarrow> nat" where
  "falls low was [] = 0"
| "falls low was (f # fs) = (if low f \<and> \<not> was then 1 else 0) + falls low (low f) fs"

lemma monitor_tick_limits [simp]:
  "dg_min_free_bytes (mn_guard (snd (monitor_tick p m))) = dg_min_free_bytes (mn_guard m)"
  by (simp add: monitor_tick_def Let_def split: option.splits)

lemma monitor_run_limits [simp]:
  "dg_min_free_bytes (mn_guard (snd (monitor_run ps m))) = dg_min_free_bytes (mn_guard m)"
  by (induction ps arbitrary: m) (auto simp: case_prod_beta)

lemma monitor_tick_verdict:
  "dg_blocked (mn_guard (snd (monitor_tick p m))) = below_floor (dg_min_free_bytes (mn_guard m)) p"
  "dg_free (mn_guard (snd (monitor_tick p m))) = (case p of None \<Rightarrow> u64_max | Some f \<Rightarrow> f)"
  by (simp_all add: monitor_tick_def below_floor_def Let_def split: option.splits)

lemma monitor_run_snoc:
  "snd (monitor_run (ps @ [p]) m) = snd (monitor_tick p (snd (monitor_run ps m)))"
  by (induction ps arbitrary: m) (auto simp: case_prod_beta)

lemma monitor_run_falls:
  "length (filter (\<lambda>l. l = BelowFloor) (fst (monitor_run ps m))) =
     falls (\<lambda>f. below_floor (dg_min_free_bytes (mn_guard m)) (Some f)) (mn_was_blocked m) (readings ps)"
proof (induction ps arbitrary: m)
  case Nil
  then show ?case by (simp add: readings_def List.map_filter_simps)
next
  case (Cons p ps)
  have "length (filter (\<lambda>l. l = BelowFloor) (fst (monitor_tick p m))) =
      (case p of None \<Rightarrow> 0 | Some f \<Rightarrow> if below_floor (dg_min_free_bytes (mn_guard m)) p \<and> \<not> mn_was_blocked m then 1 else 0)"
    by (simp add: monitor_tick_def below_floor_def Let_def split: option.splits)
  moreover have "mn_was_blocked (snd (monitor_tick p m)) =
      (case p of None \<Rightarrow> mn_was_blocked m | Some f \<Rightarrow> below_floor (dg_min_free_bytes (mn_guard m)) p)"
    by (simp add: monitor_tick_def below_floor_def Let_def split: option.splits)
  ultimately show ?case
    using Cons [of "snd (monitor_tick p m)"]
    by (cases p) (simp_all add: case_prod_beta readings_def List.map_filter_simps)
qed

text \<open>
  The guardrail publishes the last sample's verdict and fails open: after any samples, ingest is
  blocked exactly when the last one could be read and is under a floor that is set, so an unreadable
  probe never blocks; and the line that says the disk fell below the floor is logged once per fall,
  not once per sample, unreadable samples in between not counting as a recovery.
\<close>

theorem disk_guard_follows_the_last_sample:
  "dg_blocked (mn_guard (snd (monitor_run (ps @ [p]) (monitor_start lo hi)))) = below_floor lo p
     \<and> dg_free (mn_guard (snd (monitor_run (ps @ [p]) (monitor_start lo hi)))) = (case p of None \<Rightarrow> u64_max | Some f \<Rightarrow> f)
     \<and> length (filter (\<lambda>l. l = BelowFloor) (fst (monitor_run ps (monitor_start lo hi)))) =
         falls (\<lambda>f. below_floor lo (Some f)) False (readings ps)"
  by (simp add: monitor_run_snoc monitor_tick_verdict monitor_run_falls) (simp add: monitor_start_def)

text \<open>
  A byte size never wraps: whatever text is parsed, an accepted size is the decimal number it
  starts with times the unit's power of two, computed exactly and under \<open>2 ^ 64\<close>.
\<close>

theorem parse_bytes_never_wraps:
  assumes "parse_bytes s = Inr v"
  shows "\<exists>t n k val. split_unit t = (n, k) \<and> parse_u64 (trim n) = Some val \<and> v = val * 2 ^ k \<and> v < 2 ^ 64"
  using parse_bytes_value [OF assms] by blast

lemma parse_bytes_2k: "parse_bytes ''2k'' = Inr 2048"
proof -
  have a: "trim ''2k'' = ''2k''" by (rule trim_id) code_simp+
  have b: "trim ''2'' = ''2''" by (rule trim_id) code_simp+
  have c: "to_ascii_lowercase ''2k'' = ''2k''" by (simp add: to_ascii_lowercase_def lower_char_def is_upper_def)
  have d: "opt_or (strip_suffix ''ib'' ''2k'') (strip_suffix ''b'' ''2k'') = None"
    by (simp add: opt_or_def strip_suffix_def ends_with_def starts_with_def)
  have e: "split_unit ''2k'' = (''2'', 10)" by (simp add: split_unit_def)
  have "char_of (50 :: nat) = CHR ''2''" by code_simp
  then have f: "parse_u64 ''2'' = Some 2"
    using parse_dec_of [of 2] by (simp add: dec_of.simps [of 2] digit_char_def u64_max_def)
  show ?thesis by (simp add: parse_bytes_def a b c d e f checked_shl_def)
qed

theorem parse_bytes_never_wraps_witness:
  "\<exists>t n k val. split_unit t = (n, k) \<and> parse_u64 (trim n) = Some val \<and> 2048 = val * 2 ^ k \<and> (2048::nat) < 2 ^ 64"
  by (rule parse_bytes_never_wraps [OF parse_bytes_2k])

end
