(* ===== verification/Float.thy ===== *)
theory Float
  imports Model
begin

text \<open>
  The \<open>f64\<close> of the Rust standard library, on the 64 bits the span model stores: classification,
  comparison with zero, conversion from and to integers, the four operations the code uses (each
  the exact result rounded to the nearest double, ties to even), \<open>round\<close>, and the \<open>FromStr\<close> and
  \<open>Display\<close> of \<open>f64\<close>. A finite double is \<open>m * 2 ^ (e - 1075)\<close> with \<open>m < 2 ^ 53\<close> and \<open>1 \<le> e < 2047\<close>.
\<close>

section \<open>The parts of a double\<close>

definition f_neg :: "f64 \<Rightarrow> bool" where
  "f_neg d \<longleftrightarrow> 2 ^ 63 \<le> unat d"

definition f_exp :: "f64 \<Rightarrow> nat" where
  "f_exp d = unat d div 2 ^ 52 mod 2 ^ 11"

definition f_frac :: "f64 \<Rightarrow> nat" where
  "f_frac d = unat d mod 2 ^ 52"

definition is_finite :: "f64 \<Rightarrow> bool" where
  "is_finite d \<longleftrightarrow> f_exp d \<noteq> 2047"

definition is_nan :: "f64 \<Rightarrow> bool" where
  "is_nan d \<longleftrightarrow> f_exp d = 2047 \<and> f_frac d \<noteq> 0"

definition is_zero :: "f64 \<Rightarrow> bool" where
  "is_zero d \<longleftrightarrow> f_exp d = 0 \<and> f_frac d = 0"

text \<open>\<open>d >= 0.0\<close>: true of both zeros, false of a NaN.\<close>

definition f_nonneg :: "f64 \<Rightarrow> bool" where
  "f_nonneg d \<longleftrightarrow> \<not> is_nan d \<and> (\<not> f_neg d \<or> is_zero d)"

text \<open>The magnitude of a finite double as a fraction.\<close>

definition f_mant :: "f64 \<Rightarrow> nat" where
  "f_mant d = (if f_exp d = 0 then f_frac d else f_frac d + 2 ^ 52)"

definition f_ratio :: "f64 \<Rightarrow> nat \<times> nat" where
  "f_ratio d =
     (let e = max 1 (f_exp d)
      in if 1075 \<le> e then (f_mant d * 2 ^ (e - 1075), 1) else (f_mant d, 2 ^ (1075 - e)))"

section \<open>Rounding to the nearest double\<close>

fun bit_length :: "nat \<Rightarrow> nat" where
  "bit_length n = (if n = 0 then 0 else Suc (bit_length (n div 2)))"

declare bit_length.simps [simp del]

definition nearest_even :: "nat \<Rightarrow> nat \<Rightarrow> nat" where
  "nearest_even n d =
     (let q = n div d; r = n mod d
      in if d < 2 * r \<or> (2 * r = d \<and> odd q) then q + 1 else q)"

text \<open>\<open>n / d\<close> divided by \<open>2 ^ (k - 1074)\<close>, as a fraction.\<close>

definition scaled :: "nat \<Rightarrow> nat \<Rightarrow> nat \<Rightarrow> nat \<times> nat" where
  "scaled n d k = (if 1074 \<le> k then (n, d * 2 ^ (k - 1074)) else (n * 2 ^ (1074 - k), d))"

definition inf_bits :: nat where
  "inf_bits = 2047 * 2 ^ 52"

definition round_bits :: "nat \<Rightarrow> nat \<Rightarrow> nat" where
  "round_bits n d =
     (if n = 0 then 0
      else let k0 = (1074 + bit_length n) - (bit_length d + 53);
               (n0, d0) = scaled n d k0;
               k = (if 2 ^ 53 \<le> n0 div d0 then k0 + 1 else k0);
               (n1, d1) = scaled n d k
           in min inf_bits (k * 2 ^ 52 + nearest_even n1 d1))"

definition f_make :: "bool \<Rightarrow> nat \<Rightarrow> f64" where
  "f_make neg bits = of_nat ((if neg then 2 ^ 63 else 0) + bits)"

definition f_round :: "bool \<Rightarrow> nat \<Rightarrow> nat \<Rightarrow> f64" where
  "f_round neg n d = f_make neg (round_bits n d)"

definition f_nan :: f64 where
  "f_nan = f_make False (inf_bits + 2 ^ 51)"

definition f_inf :: "bool \<Rightarrow> f64" where
  "f_inf neg = f_make neg inf_bits"

section \<open>Conversions and operations\<close>

definition f_of_int :: "int \<Rightarrow> f64" where
  "f_of_int i = f_round (i < 0) (nat \<bar>i\<bar>) 1"

text \<open>\<open>d.fract() == 0.0\<close>, and \<open>d as u64\<close> on a non-negative \<open>d\<close> (it saturates).\<close>

definition f_integral :: "f64 \<Rightarrow> bool" where
  "f_integral d \<longleftrightarrow> is_finite d \<and> (let (n, m) = f_ratio d in n mod m = 0)"

definition f_to_u64 :: "f64 \<Rightarrow> u64" where
  "f_to_u64 d =
     (if is_nan d then 0
      else if f_neg d then 0
      else if \<not> is_finite d then u64_max
      else let (n, m) = f_ratio d in min u64_max (n div m))"

definition f_mul :: "f64 \<Rightarrow> f64 \<Rightarrow> f64" where
  "f_mul a b =
     (let neg = (f_neg a \<noteq> f_neg b)
      in if is_nan a \<or> is_nan b then f_nan
         else if \<not> is_finite a \<or> \<not> is_finite b then
           (if is_zero a \<or> is_zero b then f_nan else f_inf neg)
         else let (n, d) = f_ratio a; (n', d') = f_ratio b in f_round neg (n * n') (d * d'))"

definition f_div :: "f64 \<Rightarrow> f64 \<Rightarrow> f64" where
  "f_div a b =
     (let neg = (f_neg a \<noteq> f_neg b)
      in if is_nan a \<or> is_nan b then f_nan
         else if \<not> is_finite a then (if is_finite b then f_inf neg else f_nan)
         else if \<not> is_finite b then f_make neg 0
         else if is_zero b then (if is_zero a then f_nan else f_inf neg)
         else let (n, d) = f_ratio a; (n', d') = f_ratio b in f_round neg (n * d') (d * n'))"

definition f_add :: "f64 \<Rightarrow> f64 \<Rightarrow> f64" where
  "f_add a b =
     (if is_nan a \<or> is_nan b then f_nan
      else if \<not> is_finite a then
        (if \<not> is_finite b \<and> f_neg a \<noteq> f_neg b then f_nan else a)
      else if \<not> is_finite b then b
      else let (n, d) = f_ratio a; (n', d') = f_ratio b; x = n * d'; y = n' * d; m = d * d'
           in if f_neg a = f_neg b then f_round (f_neg a) (x + y) m
              else if x = y then f_make False 0
              else if y < x then f_round (f_neg a) (x - y) m
              else f_round (f_neg b) (y - x) m)"

text \<open>\<open>f64::round\<close>: to the nearest integer, halves away from zero.\<close>

definition f_round_int :: "f64 \<Rightarrow> f64" where
  "f_round_int a =
     (if \<not> is_finite a then a
      else let (n, d) = f_ratio a in f_round (f_neg a) ((2 * n + d) div (2 * d)) 1)"

section \<open>Text\<close>

text \<open>\<open>f64::from_str\<close>: a sign, then a name or digits with a point and an exponent.\<close>

definition digits_split :: "str \<Rightarrow> str \<times> str" where
  "digits_split s = (takeWhile is_digit s, dropWhile is_digit s)"

definition nat_of_digits :: "str \<Rightarrow> nat" where
  "nat_of_digits s = foldl (\<lambda>n c. 10 * n + (code c - 48)) 0 s"

definition parse_exponent :: "str \<Rightarrow> int option" where
  "parse_exponent s =
     (let (neg, ds) = (case s of c # t \<Rightarrow> if c = CHR ''-'' then (True, t)
                                        else if c = CHR ''+'' then (False, t) else (False, s)
                      | [] \<Rightarrow> (False, []))
      in if ds = [] \<or> \<not> list_all is_digit ds then None
         else Some (if neg then - int (nat_of_digits ds) else int (nat_of_digits ds)))"

definition parse_decimal :: "bool \<Rightarrow> str \<Rightarrow> f64 option" where
  "parse_decimal neg s =
     (let (whole, r1) = digits_split s;
          (frac, r2) = (case r1 of c # t \<Rightarrow> if c = CHR ''.'' then digits_split t else ([], r1) | [] \<Rightarrow> ([], []));
          e = (case r2 of [] \<Rightarrow> Some 0
               | c # t \<Rightarrow> if c = CHR ''e'' \<or> c = CHR ''E'' then parse_exponent t else None)
      in if whole = [] \<and> frac = [] then None
         else case e of
                None \<Rightarrow> None
              | Some x \<Rightarrow>
                  let n = nat_of_digits (whole @ frac); p = x - int (length frac)
                  in Some (if 0 \<le> p then f_round neg (n * 10 ^ nat p) 1
                           else f_round neg n (10 ^ nat (- p))))"

definition f_parse :: "str \<Rightarrow> f64 option" where
  "f_parse s =
     (let (neg, t) = (case s of c # t \<Rightarrow> if c = CHR ''-'' then (True, t)
                                       else if c = CHR ''+'' then (False, t) else (False, s)
                     | [] \<Rightarrow> (False, []));
          l = to_ascii_lowercase t
      in if l = ''nan'' then Some (f_make neg (inf_bits + 2 ^ 51))
         else if l = ''inf'' \<or> l = ''infinity'' then Some (f_inf neg)
         else parse_decimal neg t)"

text \<open>
  \<open>Display\<close>: the shortest decimal that reads back as the same double (the nearest one, the upper
  one on a tie), written without an exponent. \<open>decimal_point\<close> is the \<open>k\<close> with
  \<open>10 ^ (k - 1) \<le> n / d < 10 ^ k\<close>.
\<close>

definition at_least_pow10 :: "nat \<Rightarrow> nat \<Rightarrow> int \<Rightarrow> bool" where
  "at_least_pow10 n d k = (if 0 \<le> k then d * 10 ^ nat k \<le> n else d \<le> n * 10 ^ nat (- k))"

fun decimal_point_from :: "nat \<Rightarrow> nat \<Rightarrow> nat \<Rightarrow> int \<Rightarrow> int" where
  "decimal_point_from 0 n d k = k"
| "decimal_point_from (Suc fuel) n d k =
     (if at_least_pow10 n d k then decimal_point_from fuel n d (k + 1) else k)"

definition decimal_point :: "nat \<Rightarrow> nat \<Rightarrow> int" where
  "decimal_point n d = decimal_point_from 640 n d (- 323)"

definition round_scaled10 :: "nat \<Rightarrow> int \<Rightarrow> nat" where
  "round_scaled10 c p = (if 0 \<le> p then round_bits (c * 10 ^ nat p) 1 else round_bits c (10 ^ nat (- p)))"

fun shortest_from :: "nat \<Rightarrow> nat \<Rightarrow> nat \<Rightarrow> nat \<Rightarrow> nat \<Rightarrow> int \<Rightarrow> nat \<times> int" where
  "shortest_from 0 digits bits n d k = (0, 0)"
| "shortest_from (Suc fuel) digits bits n d k =
     (let p = k - int digits;
          (n', d') = (if 0 \<le> p then (n, d * 10 ^ nat p) else (n * 10 ^ nat (- p), d));
          lo = n' div d';
          up = lo + 1;
          near_up = (d' \<le> 2 * (n' mod d'));
          lo_ok = (lo \<noteq> 0 \<and> round_scaled10 lo p = bits);
          up_ok = (round_scaled10 up p = bits)
      in if lo_ok \<and> (\<not> up_ok \<or> \<not> near_up) then (lo, p)
         else if up_ok then (if up mod 10 = 0 then (up div 10, p + 1) else (up, p))
         else shortest_from fuel (digits + 1) bits n d k)"

definition display_decimal :: "nat \<Rightarrow> int \<Rightarrow> str" where
  "display_decimal c p =
     (let ds = dec_of c
      in if 0 \<le> p then ds @ replicate (nat p) (CHR ''0'')
         else let f = nat (- p);
                  whole = (if f < length ds then take (length ds - f) ds else ''0'');
                  frac = (if f < length ds then drop (length ds - f) ds
                          else replicate (f - length ds) (CHR ''0'') @ ds)
              in whole @ ''.'' @ frac)"

definition f_display :: "f64 \<Rightarrow> str" where
  "f_display d =
     (if is_nan d then ''NaN''
      else (if f_neg d then ''-'' else []) @
        (if \<not> is_finite d then ''inf''
         else if is_zero d then ''0''
         else let (n, m) = f_ratio d;
                  (c, p) = shortest_from 17 1 (unat d mod 2 ^ 63) n m (decimal_point n m)
              in display_decimal c p))"

section \<open>Small integers are exact\<close>

lemma bit_length_bounds: "n \<noteq> 0 \<Longrightarrow> 2 ^ (bit_length n - 1) \<le> n \<and> n < 2 ^ bit_length n \<and> bit_length n \<noteq> 0"
proof (induction n rule: bit_length.induct)
  case (1 n)
  show ?case
  proof (cases "n div 2 = 0")
    case True
    then have "n = 1" using 1(2) by simp
    then show ?thesis by (simp add: bit_length.simps)
  next
    case False
    then have ih: "2 ^ (bit_length (n div 2) - 1) \<le> n div 2" "n div 2 < 2 ^ bit_length (n div 2)" "bit_length (n div 2) \<noteq> 0"
      using 1 by simp_all
    have l: "bit_length n = Suc (bit_length (n div 2))" using 1(2) by (subst bit_length.simps) simp
    have "(2::nat) ^ bit_length (n div 2) = 2 * 2 ^ (bit_length (n div 2) - 1)"
      using ih(3) by (metis Suc_diff_1 neq0_conv power_Suc)
    then show ?thesis using ih l by simp linarith
  qed
qed

lemma bit_length_le: "n < 2 ^ k \<Longrightarrow> bit_length n \<le> k"
proof (cases "n = 0")
  case False
  assume "n < 2 ^ k"
  with bit_length_bounds [OF False] have "(2::nat) ^ (bit_length n - 1) < 2 ^ k" by linarith
  then show ?thesis using bit_length_bounds [OF False] by simp
qed (simp add: bit_length.simps)

lemma bit_length_one: "bit_length 1 = 1" "bit_length (Suc 0) = 1" "bit_length 0 = 0"
  by (simp_all add: bit_length.simps)

lemma scaled_int: "k \<le> 1074 \<Longrightarrow> scaled n 1 k = (n * 2 ^ (1074 - k), 1)"
  by (simp add: scaled_def)

text \<open>The double of a non-zero integer below \<open>2 ^ 53\<close>, in its parts.\<close>

lemma round_bits_int:
  assumes n: "n \<noteq> 0" "n < 2 ^ 53"
  defines "L \<equiv> bit_length n"
  shows "round_bits n 1 = (1021 + L) * 2 ^ 52 + n * 2 ^ (53 - L)" "2 ^ 52 \<le> n * 2 ^ (53 - L)" "n * 2 ^ (53 - L) < 2 ^ 53"
    "1 \<le> L" "L \<le> 53"
proof -
  note b = bit_length_bounds [OF n(1), folded L_def]
  show L: "1 \<le> L" "L \<le> 53" using b bit_length_le [OF n(2)] L_def by simp_all
  have lo: "2 ^ (L - 1 + (53 - L)) \<le> n * 2 ^ (53 - L)" unfolding power_add using b by simp
  have hi: "n * 2 ^ (53 - L) < 2 ^ (L + (53 - L))" unfolding power_add using b by simp
  show q: "2 ^ 52 \<le> n * 2 ^ (53 - L)" "n * 2 ^ (53 - L) < 2 ^ 53"
  proof -
    have "L - 1 + (53 - L) = 52" "L + (53 - L) = 53" using L by simp_all
    then show "2 ^ 52 \<le> n * 2 ^ (53 - L)" "n * 2 ^ (53 - L) < 2 ^ 53" using lo hi by simp_all
  qed
  have k0: "1074 + bit_length n - (bit_length 1 + 53) = 1020 + L" by (simp add: bit_length_one L_def)
  have s0: "scaled n 1 (1020 + L) = (n * 2 ^ (54 - L), 1)" using scaled_int [of "1020 + L" n] L by simp
  have "54 - L = Suc (53 - L)" using L by simp
  then have e54: "n * 2 ^ (54 - L) = 2 * (n * 2 ^ (53 - L))" by simp
  have big: "2 ^ 53 \<le> n * 2 ^ (54 - L) div 1" unfolding e54 using q(1) by simp
  have s1: "scaled n 1 (1020 + L + 1) = (n * 2 ^ (53 - L), 1)" using scaled_int [of "1021 + L" n] L by simp
  have ne: "nearest_even (n * 2 ^ (53 - L)) 1 = n * 2 ^ (53 - L)" by (simp add: nearest_even_def)
  have "(1020 + L + 1) * 2 ^ 52 + n * 2 ^ (53 - L) \<le> inf_bits"
  proof -
    have "(1020 + L + 1) * 2 ^ 52 + n * 2 ^ (53 - L) \<le> 1074 * 2 ^ 52 + 2 ^ 53"
      using q(2) L by (intro add_mono mult_right_mono) simp_all
    then show ?thesis by (simp add: inf_bits_def)
  qed
  then show "round_bits n 1 = (1021 + L) * 2 ^ 52 + n * 2 ^ (53 - L)"
    unfolding round_bits_def k0 Let_def s0 using big s1 ne n(1) by (simp add: min_def)
qed

lemma f_of_nat_parts:
  assumes n: "n \<noteq> 0" "n < 2 ^ 53"
  shows "\<not> f_neg (f_of_int (int n))" "f_exp (f_of_int (int n)) = 1022 + bit_length n"
    "f_mant (f_of_int (int n)) = n * 2 ^ (53 - bit_length n)"
proof -
  let ?L = "bit_length n" and ?q = "n * 2 ^ (53 - bit_length n)"
  note r = round_bits_int [OF n]
  define x where "x = ?q - 2 ^ 52"
  have x: "?q = 2 ^ 52 + x" "x < 2 ^ 52" using r(2,3) by (simp_all add: x_def)
  have bits: "round_bits n 1 = (1022 + ?L) * 2 ^ 52 + x" unfolding r(1) x(1) by simp
  have small: "(1022 + ?L) * 2 ^ 52 + x < 2 ^ 63"
  proof -
    have "(1022 + ?L) * 2 ^ 52 + x < 1075 * 2 ^ 52 + 2 ^ 52"
      using x(2) r(5) by (intro add_le_less_mono mult_right_mono) simp_all
    then show ?thesis by simp
  qed
  have u: "unat (f_of_int (int n)) = (1022 + ?L) * 2 ^ 52 + x"
  proof -
    have "f_of_int (int n) = of_nat ((1022 + ?L) * 2 ^ 52 + x)"
      unfolding f_of_int_def f_round_def f_make_def by (simp only: nat_abs_int_diff of_nat_less_0_iff abs_of_nat nat_int bits if_False add_0)
    moreover have "(1022 + ?L) * 2 ^ 52 + x < 2 ^ LENGTH(64)" using small by simp
    ultimately show ?thesis by (simp only: unat_of_nat mod_less)
  qed
  show "\<not> f_neg (f_of_int (int n))" using small by (simp add: f_neg_def u)
  have "((1022 + ?L) * 2 ^ 52 + x) div 2 ^ 52 = 1022 + ?L" using x(2) by simp
  then have "f_exp (f_of_int (int n)) = (1022 + ?L) mod 2 ^ 11" unfolding f_exp_def u by simp
  then show e: "f_exp (f_of_int (int n)) = 1022 + ?L" using r(5) by simp
  have "((1022 + ?L) * 2 ^ 52 + x) mod 2 ^ 52 = x" using x(2) by (simp only: mod_mult_self3 mod_less)
  then have "f_frac (f_of_int (int n)) = x" unfolding f_frac_def u by simp
  then show "f_mant (f_of_int (int n)) = ?q" using e x(1) by (simp add: f_mant_def)
qed

lemma f_of_zero: "f_of_int 0 = 0"
  by (simp add: f_of_int_def f_round_def f_make_def round_bits_def)

text \<open>An integer below \<open>2 ^ 53\<close> is a finite, integral, non-negative double, and reads back.\<close>

lemma f_of_nat_exact:
  assumes "n < 2 ^ 53"
  shows "f_integral (f_of_int (int n))" "f_nonneg (f_of_int (int n))" "f_to_u64 (f_of_int (int n)) = n"
proof -
  have "f_integral (f_of_int (int n)) \<and> f_nonneg (f_of_int (int n)) \<and> f_to_u64 (f_of_int (int n)) = n"
  proof (cases "n = 0")
    case True
    then show ?thesis
      by (simp add: f_of_zero f_integral_def f_nonneg_def f_to_u64_def is_finite_def is_nan_def f_neg_def
          f_exp_def f_frac_def f_ratio_def f_mant_def)
  next
    case False
    note p = f_of_nat_parts [OF False assms] and L = round_bits_int(4,5) [OF False assms]
    have fin: "is_finite (f_of_int (int n))" "\<not> is_nan (f_of_int (int n))"
      using p(2) L by (simp_all add: is_finite_def is_nan_def)
    have "1075 - (1022 + bit_length n) = 53 - bit_length n" by simp
    then have ratio: "f_ratio (f_of_int (int n)) = (n * 2 ^ (53 - bit_length n), 2 ^ (53 - bit_length n))"
    proof (cases "bit_length n = 53")
      case True
      then show ?thesis by (simp add: f_ratio_def p)
    next
      case False
      then show ?thesis using L by (simp add: f_ratio_def p Let_def max_def)
    qed
    have "n \<le> u64_max" using assms by (simp add: u64_max_def)
    then show ?thesis using p(1) fin by (simp add: f_integral_def f_nonneg_def f_to_u64_def ratio)
  qed
  then show "f_integral (f_of_int (int n))" "f_nonneg (f_of_int (int n))" "f_to_u64 (f_of_int (int n)) = n"
    by blast+
qed

end
