(* ===== verification/Otlp.thy ===== *)
theory Otlp
  imports Float
begin

text \<open>
  The OTLP values a span or a log record arrives with (the messages of \<^verbatim>\<open>opentelemetry-proto\<close>, as far
  as the code reads them), and the attribute accessors of \<^verbatim>\<open>src/normalize.rs\<close>: lookups that coerce a
  loosely typed value, and the lossless copy of the attributes into JSON.
\<close>

section \<open>Wire types\<close>

text \<open>\<open>NoValue\<close> is an \<open>AnyValue\<close> whose \<open>value\<close> is unset.\<close>

datatype any_value =
    NoValue
  | StringValue str
  | BoolValue bool
  | IntValue i64
  | DoubleValue f64
  | ArrayValue "any_value list"
  | KvlistValue "(str \<times> any_value option) list"
  | BytesValue "byte list"
  | StringValueStrindex i32

type_synonym key_value = "str \<times> any_value option"

record otlp_status =
  os_code :: i32
  os_message :: str

record otlp_event =
  oe_time_unix_nano :: u64
  oe_name :: str
  oe_attributes :: "key_value list"

record otlp_span =
  op_trace_id :: "byte list"
  op_span_id :: "byte list"
  op_parent_span_id :: "byte list"
  op_name :: str
  op_kind :: i32
  op_start_time_unix_nano :: u64
  op_end_time_unix_nano :: u64
  op_attributes :: "key_value list"
  op_events :: "otlp_event list"
  op_status :: "otlp_status option"

record otlp_scope =
  sco_name :: str
  sco_version :: str

record scope_spans =
  ss_scope :: "otlp_scope option"
  ss_schema_url :: str
  ss_spans :: "otlp_span list"

record resource_spans =
  rs_resource :: "key_value list option"
  rs_schema_url :: str
  rs_scope_spans :: "scope_spans list"

record log_record =
  lr_time_unix_nano :: u64
  lr_observed_time_unix_nano :: u64
  lr_severity_number :: i32
  lr_severity_text :: str
  lr_event_name :: str
  lr_body :: "any_value option"
  lr_attributes :: "key_value list"
  lr_trace_id :: "byte list"
  lr_span_id :: "byte list"

record scope_logs =
  sl_scope :: "otlp_scope option"
  sl_log_records :: "log_record list"

record resource_logs =
  rl_resource :: "key_value list option"
  rl_scope_logs :: "scope_logs list"

section \<open>Attributes as JSON\<close>

definition json_int :: "i64 \<Rightarrow> json" where
  "json_int i = JNum (if 0 \<le> i then PosInt (nat i) else NegInt i)"

text \<open>\<open>serde_json::Number::from_f64\<close>, or \<open>Null\<close>.\<close>

definition json_f64_or_null :: "f64 \<Rightarrow> json" where
  "json_f64_or_null d = (if is_finite d then JNum (Float d) else JNull)"

fun anyvalue_to_json :: "any_value \<Rightarrow> json" where
  "anyvalue_to_json NoValue = JNull"
| "anyvalue_to_json (StringValue s) = JStr s"
| "anyvalue_to_json (BoolValue b) = JBool b"
| "anyvalue_to_json (IntValue i) = json_int i"
| "anyvalue_to_json (DoubleValue d) = json_f64_or_null d"
| "anyvalue_to_json (ArrayValue vs) = JArr (map anyvalue_to_json vs)"
| "anyvalue_to_json (KvlistValue kvs) =
     JObj (fold (\<lambda>(k, j). om_insert k j)
       (map (\<lambda>(k, v). (k, case v of None \<Rightarrow> JNull | Some x \<Rightarrow> anyvalue_to_json x)) kvs) om_empty)"
| "anyvalue_to_json (BytesValue bs) = JStr (hex_encode bs)"
| "anyvalue_to_json (StringValueStrindex i) = JNull"

definition raw_attributes :: "key_value list \<Rightarrow> (str, json) omap" where
  "raw_attributes attrs =
     fold (\<lambda>(k, v). om_insert k (case v of None \<Rightarrow> JNull | Some x \<Rightarrow> anyvalue_to_json x)) attrs om_empty"

section \<open>Attribute lookup\<close>

definition attr :: "key_value list \<Rightarrow> str \<Rightarrow> any_value option" where
  "attr attrs key = (case find (\<lambda>kv. fst kv = key) attrs of None \<Rightarrow> None | Some kv \<Rightarrow> snd kv)"

definition int_to_string :: "int \<Rightarrow> str" where
  "int_to_string i = (if i < 0 then ''-'' @ dec_of (nat (- i)) else dec_of (nat i))"

definition scalar_string :: "any_value \<Rightarrow> str option" where
  "scalar_string v =
     (case v of
        StringValue s \<Rightarrow> Some s
      | IntValue i \<Rightarrow> Some (int_to_string i)
      | DoubleValue d \<Rightarrow> Some (f_display d)
      | BoolValue b \<Rightarrow> Some (if b then ''true'' else ''false'')
      | _ \<Rightarrow> None)"

definition attr_str :: "key_value list \<Rightarrow> str \<Rightarrow> str option" where
  "attr_str attrs key = (case attr attrs key of None \<Rightarrow> None | Some v \<Rightarrow> scalar_string v)"

definition attr_u64 :: "key_value list \<Rightarrow> str \<Rightarrow> u64 option" where
  "attr_u64 attrs key =
     (case attr attrs key of
        Some (IntValue i) \<Rightarrow> if 0 \<le> i then Some (nat i) else None
      | Some (DoubleValue d) \<Rightarrow> if f_nonneg d \<and> f_integral d then Some (f_to_u64 d) else None
      | Some (StringValue s) \<Rightarrow> parse_u64 s
      | _ \<Rightarrow> None)"

definition attr_f64 :: "key_value list \<Rightarrow> str \<Rightarrow> f64 option" where
  "attr_f64 attrs key =
     (case attr attrs key of
        Some (DoubleValue d) \<Rightarrow> Some d
      | Some (IntValue i) \<Rightarrow> Some (f_of_int i)
      | Some (StringValue s) \<Rightarrow> f_parse s
      | _ \<Rightarrow> None)"

definition first_str :: "key_value list \<Rightarrow> str list \<Rightarrow> str option" where
  "first_str attrs keys = find_map (attr_str attrs) keys"

definition first_u64 :: "key_value list \<Rightarrow> str list \<Rightarrow> u64 option" where
  "first_u64 attrs keys = find_map (attr_u64 attrs) keys"

definition first_f64 :: "key_value list \<Rightarrow> str list \<Rightarrow> f64 option" where
  "first_f64 attrs keys = find_map (attr_f64 attrs) keys"

definition non_empty :: "str \<Rightarrow> str option" where
  "non_empty s = (if s = [] then None else Some s)"

section \<open>Building attributes\<close>

text \<open>\<open>kv_str\<close>, \<open>kv_int\<close> and \<open>kv_f64\<close> of \<^verbatim>\<open>src/logs.rs\<close>; \<open>as_i64\<close> is \<open>v as i64\<close> on a \<open>u64\<close>.\<close>

definition kv_str :: "str \<Rightarrow> str \<Rightarrow> key_value" where
  "kv_str k v = (k, Some (StringValue v))"

definition kv_int :: "str \<Rightarrow> i64 \<Rightarrow> key_value" where
  "kv_int k v = (k, Some (IntValue v))"

definition kv_f64 :: "str \<Rightarrow> f64 \<Rightarrow> key_value" where
  "kv_f64 k v = (k, Some (DoubleValue v))"

definition as_i64 :: "u64 \<Rightarrow> i64" where
  "as_i64 n = (if n < 2 ^ 63 then int n else int n - 2 ^ 64)"

text \<open>Add \<open>kv\<close> unless the record already has that key.\<close>

definition add_attr :: "key_value list \<Rightarrow> key_value \<Rightarrow> key_value list" where
  "add_attr attrs kv = (if list_ex (\<lambda>x. fst x = fst kv) attrs then attrs else attrs @ [kv])"

section \<open>Lemmas\<close>

lemma attr_Nil [simp]: "attr [] k = None"
  by (simp add: attr_def)

lemma attr_Cons: "attr (kv # attrs) k = (if fst kv = k then snd kv else attr attrs k)"
  by (simp add: attr_def)

lemma attr_append: "attr (xs @ ys) k = (if k \<in> fst ` set xs then attr xs k else attr ys k)"
  by (induction xs) (auto simp: attr_Cons)

lemma attr_absent: "k \<notin> fst ` set attrs \<Longrightarrow> attr attrs k = None"
  by (induction attrs) (auto simp: attr_Cons)

lemma attr_add:
  "attr (add_attr attrs kv) k =
     (if fst kv = k \<and> k \<notin> fst ` set attrs then snd kv else attr attrs k)"
  using attr_absent [of k attrs]
  by (auto simp: add_attr_def attr_append attr_Cons list_ex_iff)

lemma keys_add [simp]: "fst ` set (add_attr attrs kv) = insert (fst kv) (fst ` set attrs)"
proof (cases "fst kv \<in> fst ` set attrs")
  case True
  then obtain x where "x \<in> set attrs" "fst x = fst kv" by auto
  then have "list_ex (\<lambda>x. fst x = fst kv) attrs" unfolding list_ex_iff by blast
  then show ?thesis using True by (simp add: add_attr_def insert_absorb)
next
  case False
  then have "\<not> list_ex (\<lambda>x. fst x = fst kv) attrs" unfolding list_ex_iff by (metis imageI)
  then show ?thesis by (simp add: add_attr_def)
qed

lemma attr_str_add:
  "attr_str (add_attr attrs (kv_str k' v)) k =
     (if k' = k \<and> k \<notin> fst ` set attrs then Some v else attr_str attrs k)"
  by (simp add: attr_str_def attr_add kv_str_def scalar_string_def)

lemma kv_key [simp]: "fst (kv_str k v) = k" "fst (kv_int k i) = k" "fst (kv_f64 k d) = k"
  by (simp_all add: kv_str_def kv_int_def kv_f64_def)

text \<open>The last value of a key is the one the JSON copy keeps.\<close>

definition last_value :: "key_value list \<Rightarrow> str \<Rightarrow> any_value option option" where
  "last_value attrs k = map_option snd (find (\<lambda>kv. fst kv = k) (rev attrs))"

lemma find_append: "find P (xs @ ys) = (case find P xs of None \<Rightarrow> find P ys | Some x \<Rightarrow> Some x)"
  by (induction xs) simp_all

lemma raw_attributes_get:
  "om_get (raw_attributes attrs) k =
     map_option (\<lambda>v. case v of None \<Rightarrow> JNull | Some x \<Rightarrow> anyvalue_to_json x) (last_value attrs k)"
proof (induction attrs rule: rev_induct)
  case Nil
  then show ?case by (simp add: raw_attributes_def last_value_def map_simps)
next
  case (snoc kv attrs)
  have "raw_attributes (attrs @ [kv]) =
      om_insert (fst kv) (case snd kv of None \<Rightarrow> JNull | Some x \<Rightarrow> anyvalue_to_json x) (raw_attributes attrs)"
    by (simp add: raw_attributes_def case_prod_beta)
  then show ?case using snoc by (simp add: map_simps last_value_def)
qed

lemma om_ok_raw_attributes [simp]: "om_ok (raw_attributes attrs)"
proof (induction attrs rule: rev_induct)
  case (snoc kv attrs)
  have "raw_attributes (attrs @ [kv]) =
      om_insert (fst kv) (case snd kv of None \<Rightarrow> JNull | Some x \<Rightarrow> anyvalue_to_json x) (raw_attributes attrs)"
    by (simp add: raw_attributes_def case_prod_beta)
  then show ?case using snoc by simp
qed (simp add: raw_attributes_def)

lemma raw_attributes_keys: "set (om_keys (raw_attributes attrs)) = fst ` set attrs"
proof -
  have "k \<in> set (om_keys (raw_attributes attrs)) \<longleftrightarrow> k \<in> fst ` set attrs" for k
    unfolding om_keys_get raw_attributes_get last_value_def
    by (force simp: find_None_iff image_iff)
  then show ?thesis by blast
qed

lemma find_map_cong: "(\<And>x. x \<in> set xs \<Longrightarrow> f x = g x) \<Longrightarrow> find_map f xs = find_map g xs"
  by (induction xs) (simp_all split: option.splits)

end
