(* ===== verification/Agent.thy ===== *)
theory Agent
  imports Otlp
begin

text \<open>
  \<^verbatim>\<open>src/agent.rs\<close>: agent and tool attributes under their several spellings, and the pass over one
  normalized span that writes the canonical keys and sets the aggregate usage of an in-process agent
  aside, so that its model calls are not counted twice.
\<close>

definition usage_key :: str where "usage_key = ''evald.usage''"
definition usage_aggregate :: str where "usage_aggregate = ''aggregate''"
definition usage_copy :: str where "usage_copy = ''copy''"

definition span_kind_client :: i32 where
  "span_kind_client = 3"

definition tool_name_keys :: "str list" where
  "tool_name_keys = [''gen_ai.tool.name'', ''tool.name'', ''ai.toolCall.name'', ''tool_name'']"

definition tool_call_id_keys :: "str list" where
  "tool_call_id_keys = [''gen_ai.tool.call.id'', ''tool_call.id'', ''ai.toolCall.id'', ''tool_use_id'']"

definition tool_arguments_keys :: "str list" where
  "tool_arguments_keys = [''gen_ai.tool.call.arguments'', ''ai.toolCall.args'', ''tool_input'', ''input.value'']"

definition agent_name_keys :: "str list" where
  "agent_name_keys = [''gen_ai.agent.name'', ''agent.name'']"

definition agent_id_keys :: "str list" where
  "agent_id_keys = [''gen_ai.agent.id'', ''agent.id'']"

text \<open>The first of the keys with a non-empty string.\<close>

definition span_first_str :: "normalized_span \<Rightarrow> str list \<Rightarrow> str option" where
  "span_first_str s keys =
     find_map (\<lambda>k. case om_get (ns_raw_attributes s) k of
         None \<Rightarrow> None
       | Some v \<Rightarrow> (case j_as_str v of None \<Rightarrow> None | Some t \<Rightarrow> if t = [] then None else Some t)) keys"

definition is_kind :: "normalized_span \<Rightarrow> str \<Rightarrow> bool" where
  "is_kind s kind = (case ns_oi_kind s of None \<Rightarrow> False | Some k \<Rightarrow> eq_ignore_ascii_case k kind)"

definition tool_name :: "normalized_span \<Rightarrow> str option" where
  "tool_name s = span_first_str s tool_name_keys"

definition tool_call_id :: "normalized_span \<Rightarrow> str option" where
  "tool_call_id s = span_first_str s tool_call_id_keys"

text \<open>\<open>js\<close> is the \<open>Display\<close> of a JSON value.\<close>

definition tool_arguments :: "(json \<Rightarrow> str) \<Rightarrow> normalized_span \<Rightarrow> str option" where
  "tool_arguments js s =
     find_map (\<lambda>k. case om_get (ns_raw_attributes s) k of
         None \<Rightarrow> None
       | Some JNull \<Rightarrow> None
       | Some (JStr v) \<Rightarrow> if v = [] then None else Some v
       | Some other \<Rightarrow> Some (js other)) tool_arguments_keys"

definition agent_name :: "normalized_span \<Rightarrow> str option" where
  "agent_name s = span_first_str s agent_name_keys"

definition span_failed :: "normalized_span \<Rightarrow> bool" where
  "span_failed s \<longleftrightarrow> ns_status_code s = 2 \<or> om_get (ns_raw_attributes s) ''error.type'' \<noteq> None"

text \<open>Copy the first alias with a string value onto the canonical key, when that key is absent.\<close>

definition canonical :: "normalized_span \<Rightarrow> str list \<Rightarrow> normalized_span" where
  "canonical s keys =
     (if om_get (ns_raw_attributes s) (hd keys) \<noteq> None then s
      else case find_map (\<lambda>k. case om_get (ns_raw_attributes s) k of
                              None \<Rightarrow> None
                            | Some v \<Rightarrow> if j_is_string v then Some v else None) (tl keys) of
             None \<Rightarrow> s
           | Some v \<Rightarrow> s\<lparr>ns_raw_attributes := om_insert (hd keys) v (ns_raw_attributes s)\<rparr>)"

definition set_aside :: "normalized_span \<Rightarrow> str \<Rightarrow> normalized_span" where
  "set_aside s why =
     (let s1 = s\<lparr>ns_tokens := tokens_default, ns_cost_usd := None\<rparr>;
          s2 = (if is_kind s1 ''LLM'' then s1\<lparr>ns_oi_kind := Some ''CHAIN''\<rparr> else s1)
      in s2\<lparr>ns_raw_attributes := om_insert usage_key (JStr why) (ns_raw_attributes s2)\<rparr>)"

definition agent_normalize :: "normalized_span \<Rightarrow> normalized_span" where
  "agent_normalize s =
     (case ns_oi_kind s of
        None \<Rightarrow> s
      | Some kind \<Rightarrow>
          if eq_ignore_ascii_case kind ''TOOL'' then
            canonical (canonical s tool_name_keys) tool_call_id_keys
          else if eq_ignore_ascii_case kind ''AGENT'' \<or> eq_ignore_ascii_case kind ''CHAIN'' then
            (let s1 = canonical (canonical s agent_name_keys) agent_id_keys
             in if ns_otel_kind s1 \<noteq> span_kind_client \<and>
                   (\<not> tokens_is_empty (ns_tokens s1) \<or> ns_cost_usd s1 \<noteq> None)
                then set_aside s1 usage_aggregate
                else s1)
          else s)"

section \<open>What the pass leaves alone\<close>

lemma canonical_fields [simp]:
  "ns_tokens (canonical s keys) = ns_tokens s" "ns_cost_usd (canonical s keys) = ns_cost_usd s"
  "ns_oi_kind (canonical s keys) = ns_oi_kind s" "ns_otel_kind (canonical s keys) = ns_otel_kind s"
  "ns_trace_id (canonical s keys) = ns_trace_id s" "ns_span_id (canonical s keys) = ns_span_id s"
  "ns_name (canonical s keys) = ns_name s" "ns_model (canonical s keys) = ns_model s"
  "ns_session_id (canonical s keys) = ns_session_id s" "ns_status_code (canonical s keys) = ns_status_code s"
  by (simp_all add: canonical_def split: option.splits)

lemma set_aside_fields [simp]:
  "ns_tokens (set_aside s why) = tokens_default" "ns_cost_usd (set_aside s why) = None"
  "ns_trace_id (set_aside s why) = ns_trace_id s" "ns_span_id (set_aside s why) = ns_span_id s"
  "ns_name (set_aside s why) = ns_name s" "ns_model (set_aside s why) = ns_model s"
  "ns_otel_kind (set_aside s why) = ns_otel_kind s" "ns_status_code (set_aside s why) = ns_status_code s"
  "ns_raw_attributes (set_aside s why) = om_insert usage_key (JStr why) (ns_raw_attributes s)"
  by (simp_all add: set_aside_def Let_def)

lemma agent_normalize_fields [simp]:
  "ns_trace_id (agent_normalize s) = ns_trace_id s" "ns_span_id (agent_normalize s) = ns_span_id s"
  "ns_name (agent_normalize s) = ns_name s" "ns_model (agent_normalize s) = ns_model s"
  "ns_otel_kind (agent_normalize s) = ns_otel_kind s" "ns_status_code (agent_normalize s) = ns_status_code s"
  by (simp_all add: agent_normalize_def Let_def split: option.splits)

text \<open>The attributes only grow, except for the usage mark.\<close>

lemma canonical_keeps: "om_get (ns_raw_attributes s) k = Some v \<Longrightarrow> om_get (ns_raw_attributes (canonical s keys)) k = Some v"
  by (auto simp: canonical_def map_simps split: option.splits)

lemma agent_normalize_keeps:
  "om_get (ns_raw_attributes s) k = Some v \<Longrightarrow> k \<noteq> usage_key \<Longrightarrow>
     om_get (ns_raw_attributes (agent_normalize s)) k = Some v"
  by (auto simp: agent_normalize_def Let_def map_simps canonical_keeps split: option.splits)

text \<open>A canonical key is set when any of its aliases holds a string.\<close>

lemma canonical_sets:
  assumes "find_map (\<lambda>k. case om_get (ns_raw_attributes s) k of None \<Rightarrow> None
      | Some v \<Rightarrow> if j_is_string v then Some v else None) (tl keys) = Some v"
  shows "om_get (ns_raw_attributes (canonical s keys)) (hd keys) \<noteq> None"
  using assms by (simp add: canonical_def map_simps)

lemma agent_in_process_usage:
  assumes "ns_oi_kind s = Some kind" "eq_ignore_ascii_case kind ''AGENT'' \<or> eq_ignore_ascii_case kind ''CHAIN''"
    and "\<not> eq_ignore_ascii_case kind ''TOOL''" and "ns_otel_kind s \<noteq> span_kind_client"
  shows "tokens_is_empty (ns_tokens (agent_normalize s))" "ns_cost_usd (agent_normalize s) = None"
  using assms by (simp_all add: agent_normalize_def Let_def)

end
