(* ===== verification/Blob.thy ===== *)
theory Blob
  imports Cold SpanKeys
begin

text \<open>
  Externalized payloads, \<^verbatim>\<open>src/blob.rs\<close>: the content-addressed directory of \<open>BlobStore\<close>, its probing
  \<open>put\<close> and guarded \<open>get\<close>, and the offload of oversized fields that runs before the append. The
  directory is an ordered map from file name to bytes; \<open>hash\<close> is the standard library's
  \<open>DefaultHasher\<close>, any function into 64 bits. A call into the file system can fail at the instant
  the temp-file sequence stands for; \<open>None\<close> is a \<open>put\<close> that probes for ever.
\<close>

definition blob_ref_prefix :: str where
  "blob_ref_prefix = ''evald-blob:''"

definition preview_chars :: usize where
  "preview_chars = 256"

record blob_store =
  bs_dir :: "(str, str) omap"
  bs_tmp_seq :: u64

record blob_io =
  bi_read_err :: "u64 \<Rightarrow> str \<Rightarrow> bool"
  bi_write :: "u64 \<Rightarrow> write_stage"
  bi_written :: "u64 \<Rightarrow> usize"

definition quiet_io :: blob_io where
  "quiet_io = \<lparr>bi_read_err = \<lambda>_ _. False, bi_write = \<lambda>_. StageOk, bi_written = \<lambda>_. 0\<rparr>"

text \<open>\<open>{:016x}\<close> of a 64-bit number: the hex of its eight bytes, most significant first.\<close>

definition hex016 :: "nat \<Rightarrow> str" where
  "hex016 n = hex_encode (map (\<lambda>i. n div 256 ^ (7 - i) mod 256) [0..<8])"

definition key_for :: "(str \<Rightarrow> nat) \<Rightarrow> str \<Rightarrow> str" where
  "key_for hash bytes = hex016 (length bytes) @ hex016 (hash bytes)"

definition blob_read :: "blob_io \<Rightarrow> blob_store \<Rightarrow> str \<Rightarrow> io_error + str" where
  "blob_read io st key =
     (if bi_read_err io (bs_tmp_seq st) key then Inl OtherIo
      else case om_get (bs_dir st) key of None \<Rightarrow> Inl NotFound | Some b \<Rightarrow> Inr b)"

definition write_atomic :: "blob_io \<Rightarrow> str \<Rightarrow> str \<Rightarrow> blob_store \<Rightarrow> (io_error + unit) \<times> blob_store" where
  "write_atomic io key bytes st =
     (let sq = bs_tmp_seq st;
          tmp = ''.'' @ key @ ''.'' @ dec_of sq @ ''.tmp'';
          st0 = st\<lparr>bs_tmp_seq := wrap_add sq 1\<rparr>
      in case bi_write io sq of
           StageTmp \<Rightarrow> (Inl OtherIo, st0\<lparr>bs_dir := om_insert tmp (take (bi_written io sq) bytes) (bs_dir st)\<rparr>)
         | StagePublished \<Rightarrow> (Inl OtherIo, st0\<lparr>bs_dir := om_insert key bytes (om_remove tmp (bs_dir st))\<rparr>)
         | StageOk \<Rightarrow> (Inr (), st0\<lparr>bs_dir := om_insert key bytes (om_remove tmp (bs_dir st))\<rparr>))"

text \<open>The probing loop of \<open>put\<close>; the collision counter is a \<open>u32\<close>, which wraps.\<close>

fun put_loop :: "nat \<Rightarrow> blob_io \<Rightarrow> str \<Rightarrow> str \<Rightarrow> nat \<Rightarrow> str \<Rightarrow> blob_store \<Rightarrow> ((io_error + str) \<times> blob_store) option" where
  "put_loop 0 io base key n bytes st = None"
| "put_loop (Suc fuel) io base key n bytes st =
     (case blob_read io st key of
        Inr existing \<Rightarrow>
          if existing = bytes then Some (Inr (blob_ref_prefix @ key), st)
          else (let n' = (n + 1) mod 2 ^ 32
                in put_loop fuel io base (base @ ''-'' @ dec_of n') n' bytes st)
      | Inl NotFound \<Rightarrow>
          (case write_atomic io key bytes st of
             (Inl e, st') \<Rightarrow> Some (Inl e, st')
           | (Inr _, st') \<Rightarrow> Some (Inr (blob_ref_prefix @ key), st'))
      | Inl e \<Rightarrow> Some (Inl e, st))"

definition blob_put :: "(str \<Rightarrow> nat) \<Rightarrow> blob_io \<Rightarrow> str \<Rightarrow> blob_store \<Rightarrow> ((io_error + str) \<times> blob_store) option" where
  "blob_put hash io bytes st =
     put_loop (Suc (length (bs_dir st))) io (key_for hash bytes) (key_for hash bytes) 0 bytes st"

definition is_hexdigit :: "char \<Rightarrow> bool" where
  "is_hexdigit c \<longleftrightarrow> is_digit c \<or> (65 \<le> code c \<and> code c \<le> 70) \<or> (97 \<le> code c \<and> code c \<le> 102)"

definition is_safe_key :: "str \<Rightarrow> bool" where
  "is_safe_key key \<longleftrightarrow> key \<noteq> [] \<and> length key \<le> 64 \<and> (\<forall>c\<in>set key. is_hexdigit c \<or> c = CHR ''-'')"

definition blob_get :: "blob_io \<Rightarrow> str \<Rightarrow> blob_store \<Rightarrow> io_error + str option" where
  "blob_get io key_or_ref st =
     (let key = (case strip_prefix blob_ref_prefix key_or_ref of Some k \<Rightarrow> k | None \<Rightarrow> key_or_ref)
      in if \<not> is_safe_key key then Inr None
         else case blob_read io st key of
                Inr b \<Rightarrow> Inr (Some b)
              | Inl NotFound \<Rightarrow> Inr None
              | Inl e \<Rightarrow> Inl e)"

section \<open>Offloading a span's payloads\<close>

text \<open>\<open>chars().take(n)\<close> of UTF-8 bytes: a byte that does not continue a character starts one.\<close>

definition starts_char :: "char \<Rightarrow> bool" where
  "starts_char c \<longleftrightarrow> \<not> (128 \<le> code c \<and> code c < 192)"

fun take_chars :: "nat \<Rightarrow> str \<Rightarrow> str" where
  "take_chars n [] = []"
| "take_chars n (c # s) =
     (if starts_char c then (case n of 0 \<Rightarrow> [] | Suc m \<Rightarrow> c # take_chars m s)
      else c # take_chars n s)"

definition offload_field ::
  "(str \<Rightarrow> nat) \<Rightarrow> blob_io \<Rightarrow> usize \<Rightarrow> str \<Rightarrow> str option \<Rightarrow> (str, json) omap \<Rightarrow> blob_store
     \<Rightarrow> (str option \<times> (str, json) omap \<times> usize \<times> blob_store) option" where
  "offload_field hash io cap attr_key field attrs st =
     (case field of
        None \<Rightarrow> Some (field, attrs, 0, st)
      | Some val \<Rightarrow>
          if length val \<le> cap then Some (field, attrs, 0, st)
          else (case blob_put hash io val st of
                  None \<Rightarrow> None
                | Some (Inr reference, st') \<Rightarrow>
                    Some (Some reference,
                      om_insert attr_key (JObj [(''bytes'', JNum (PosInt (length val))),
                        (''preview'', JStr (take_chars preview_chars val)), (''ref'', JStr reference)]) attrs,
                      1, st')
                | Some (Inl e, st') \<Rightarrow> Some (field, attrs, 0, st')))"

definition offload_value ::
  "(str \<Rightarrow> nat) \<Rightarrow> blob_io \<Rightarrow> usize \<Rightarrow> str \<Rightarrow> json \<Rightarrow> blob_store \<Rightarrow> (json \<times> usize \<times> blob_store) option" where
  "offload_value hash io cap key v st =
     (if starts_with ''evald.blob.'' key then Some (v, 0, st)
      else case v of
          JStr s \<Rightarrow>
            if cap < length s \<and> \<not> starts_with blob_ref_prefix s then
              (case blob_put hash io s st of
                 None \<Rightarrow> None
               | Some (Inr reference, st') \<Rightarrow> Some (JStr reference, 1, st')
               | Some (Inl e, st') \<Rightarrow> Some (v, 0, st'))
            else Some (v, 0, st)
        | _ \<Rightarrow> Some (v, 0, st))"

fun offload_raw_attributes ::
  "(str \<Rightarrow> nat) \<Rightarrow> blob_io \<Rightarrow> usize \<Rightarrow> (str, json) omap \<Rightarrow> blob_store
     \<Rightarrow> ((str, json) omap \<times> usize \<times> blob_store) option" where
  "offload_raw_attributes hash io cap [] st = Some ([], 0, st)"
| "offload_raw_attributes hash io cap ((key, v) # attrs) st =
     (case offload_value hash io cap key v st of
        None \<Rightarrow> None
      | Some (v', n, st') \<Rightarrow>
          (case offload_raw_attributes hash io cap attrs st' of
             None \<Rightarrow> None
           | Some (rest, m, st'') \<Rightarrow> Some ((key, v') # rest, n + m, st'')))"

definition offload_span ::
  "(str \<Rightarrow> nat) \<Rightarrow> blob_io \<Rightarrow> usize \<Rightarrow> normalized_span \<Rightarrow> blob_store
     \<Rightarrow> (normalized_span \<times> usize \<times> blob_store) option" where
  "offload_span hash io cap s st =
     (case offload_field hash io cap ''evald.blob.input'' (ns_input_value s) (ns_raw_attributes s) st of
        None \<Rightarrow> None
      | Some (inp, a1, n1, st1) \<Rightarrow>
          (case offload_field hash io cap ''evald.blob.output'' (ns_output_value s) a1 st1 of
             None \<Rightarrow> None
           | Some (outp, a2, n2, st2) \<Rightarrow>
               (case offload_raw_attributes hash io cap a2 st2 of
                  None \<Rightarrow> None
                | Some (a3, n3, st3) \<Rightarrow>
                    Some (s\<lparr>ns_input_value := inp, ns_output_value := outp, ns_raw_attributes := a3\<rparr>,
                      n1 + n2 + n3, st3))))"

fun offload_spans ::
  "(str \<Rightarrow> nat) \<Rightarrow> blob_io \<Rightarrow> usize \<Rightarrow> normalized_span list \<Rightarrow> blob_store
     \<Rightarrow> (normalized_span list \<times> usize \<times> blob_store) option" where
  "offload_spans hash io cap [] st = Some ([], 0, st)"
| "offload_spans hash io cap (s # ss) st =
     (case offload_span hash io cap s st of
        None \<Rightarrow> None
      | Some (s', n, st') \<Rightarrow>
          (case offload_spans hash io cap ss st' of
             None \<Rightarrow> None | Some (ss', m, st'') \<Rightarrow> Some (s' # ss', n + m, st'')))"

definition offload_large_payloads ::
  "(str \<Rightarrow> nat) \<Rightarrow> blob_io \<Rightarrow> usize \<Rightarrow> normalized_span list \<Rightarrow> blob_store
     \<Rightarrow> (normalized_span list \<times> usize \<times> blob_store) option" where
  "offload_large_payloads hash io cap spans st =
     (if cap = 0 then Some (spans, 0, st) else offload_spans hash io cap spans st)"

section \<open>Keys\<close>

lemma hexdigit_digit: "is_digit c \<Longrightarrow> is_hexdigit c"
  by (simp add: is_hexdigit_def)

lemma hexdigit_hex_digit [simp]: "d < 16 \<Longrightarrow> is_hexdigit (hex_digit d)"
  by (auto simp: is_hexdigit_def is_digit_def code_hex_digit)

lemma hex016_hexdigits: "c \<in> set (hex016 n) \<Longrightarrow> is_hexdigit c"
proof -
  assume "c \<in> set (hex016 n)"
  then obtain i where "c = hex_digit (n div 256 ^ (7 - i) mod 256 div 16)
      \<or> c = hex_digit (n div 256 ^ (7 - i) mod 256 mod 16)"
    by (auto simp: hex016_def hex_encode_def)
  moreover have "m mod 256 div 16 < 16" for m :: nat
    using mod_less_divisor [of 256 m] by (simp add: less_mult_imp_div_less)
  ultimately show ?thesis by auto
qed

lemma length_hex016 [simp]: "length (hex016 n) = 16"
  by (simp add: hex016_def)

lemma length_key_for [simp]: "length (key_for hash bytes) = 32"
  by (simp add: key_for_def)

lemma length_dec_of: "n < 10 ^ Suc k \<Longrightarrow> length (dec_of n) \<le> Suc k"
proof (induction k arbitrary: n)
  case 0
  then show ?case by (subst dec_of.simps) simp
next
  case (Suc k)
  show ?case
  proof (cases "n < 10")
    case True
    then show ?thesis by (subst dec_of.simps) simp
  next
    case False
    have "n div 10 < 10 ^ Suc k" using Suc.prems by (simp add: less_mult_imp_div_less mult.commute)
    then show ?thesis using Suc.IH [of "n div 10"] False by (subst dec_of.simps) simp
  qed
qed

text \<open>The names \<open>put\<close> probes, the hash's own and its numbered variants, are all names \<open>get\<close> accepts.\<close>

definition probe_key :: "str \<Rightarrow> str \<Rightarrow> bool" where
  "probe_key base key \<longleftrightarrow> key = base \<or> (\<exists>n<2 ^ 32. key = base @ ''-'' @ dec_of n)"

lemma probe_key_safe: "probe_key (key_for hash bytes) key \<Longrightarrow> is_safe_key key"
proof -
  assume "probe_key (key_for hash bytes) key"
  then consider "key = key_for hash bytes" | n where "n < 2 ^ 32" "key = key_for hash bytes @ ''-'' @ dec_of n"
    unfolding probe_key_def by blast
  then show ?thesis
  proof cases
    case 1
    have "length key = 32" using 1 by simp
    then have "key \<noteq> []" by auto
    then show ?thesis using 1 by (auto simp: is_safe_key_def key_for_def dest: hex016_hexdigits)
  next
    case 2
    have "length (dec_of n) \<le> Suc 9" using 2(1) by (intro length_dec_of) simp
    then show ?thesis
      using 2(2) dec_of_digits [of n]
      by (auto simp: is_safe_key_def key_for_def hexdigit_digit dest: hex016_hexdigits)
  qed
qed

lemma dot_unsafe: "\<not> is_safe_key (''.'' @ s)"
  by (simp add: is_safe_key_def is_hexdigit_def is_digit_def)

section \<open>What a put does to the directory\<close>

text \<open>\<open>blobs_kept\<close>: every blob \<open>get\<close> could return before, it still returns, byte for byte.\<close>

definition blobs_kept :: "blob_store \<Rightarrow> blob_store \<Rightarrow> bool" where
  "blobs_kept st st' \<longleftrightarrow> (\<forall>k b. is_safe_key k \<longrightarrow> om_get (bs_dir st) k = Some b \<longrightarrow> om_get (bs_dir st') k = Some b)"

definition stored_at :: "blob_store \<Rightarrow> str \<Rightarrow> str \<Rightarrow> bool" where
  "stored_at st reference bytes \<longleftrightarrow>
     (\<exists>k. reference = blob_ref_prefix @ k \<and> is_safe_key k \<and> om_get (bs_dir st) k = Some bytes)"

lemma blobs_kept_refl [simp]: "blobs_kept st st"
  by (simp add: blobs_kept_def)

lemma blobs_kept_trans: "blobs_kept a b \<Longrightarrow> blobs_kept b c \<Longrightarrow> blobs_kept a c"
  by (simp add: blobs_kept_def)

lemma stored_at_kept: "stored_at st r b \<Longrightarrow> blobs_kept st st' \<Longrightarrow> stored_at st' r b"
  unfolding stored_at_def blobs_kept_def by blast

lemma write_atomic_cases:
  assumes "write_atomic io key bytes st = (r, st')"
  obtains tmp part where "\<not> is_safe_key tmp" "r = Inl OtherIo" "bs_dir st' = om_insert tmp part (bs_dir st)"
  | tmp where "\<not> is_safe_key tmp" "bs_dir st' = om_insert key bytes (om_remove tmp (bs_dir st))"
proof -
  let ?tmp = "''.'' @ key @ ''.'' @ dec_of (bs_tmp_seq st) @ ''.tmp''"
  have tmp: "\<not> is_safe_key ?tmp" by (rule dot_unsafe)
  show thesis
    using assms that(1) [OF tmp] that(2) [OF tmp]
    by (simp add: write_atomic_def Let_def split: write_stage.splits) auto
qed

lemma write_atomic_get:
  assumes "write_atomic io key bytes st = (r, st')" and "is_safe_key k"
  shows "om_get (bs_dir st') k = om_get (bs_dir st) k \<or> k = key \<and> om_get (bs_dir st') k = Some bytes"
proof (cases rule: write_atomic_cases [OF assms(1)])
  case (1 tmp part)
  then have "k \<noteq> tmp" using assms(2) by blast
  then show ?thesis using 1(3) by (simp add: map_simps)
next
  case (2 tmp)
  then have "k \<noteq> tmp" using assms(2) by blast
  then show ?thesis using 2(2) by (simp add: map_simps)
qed

lemma write_atomic_ok:
  assumes "write_atomic io key bytes st = (Inr u, st')"
  shows "om_get (bs_dir st') key = Some bytes"
  using assms by (cases rule: write_atomic_cases [OF assms]) (simp_all add: map_simps)

lemma write_atomic_kept:
  assumes "write_atomic io key bytes st = (r, st')" and "om_get (bs_dir st) key = None"
  shows "blobs_kept st st'"
  unfolding blobs_kept_def
proof (intro allI impI)
  fix k b
  assume k: "is_safe_key k" "om_get (bs_dir st) k = Some b"
  then have "k \<noteq> key" using assms(2) by auto
  then show "om_get (bs_dir st') k = Some b" using write_atomic_get [OF assms(1) k(1)] k(2) by simp
qed

lemma blob_read_cases:
  "blob_read io st key = Inr b \<Longrightarrow> om_get (bs_dir st) key = Some b"
  "blob_read io st key = Inl NotFound \<Longrightarrow> om_get (bs_dir st) key = None"
  by (auto simp: blob_read_def split: if_splits option.splits)

lemma probe_key_next: "probe_key base (base @ ''-'' @ dec_of ((n + 1) mod 2 ^ 32))"
  unfolding probe_key_def by (intro disjI2 exI [of _ "(n + 1) mod 2 ^ 32"]) simp

lemma put_loop_spec:
  assumes "put_loop fuel io (key_for hash bytes) key n bytes st = Some (r, st')"
    and "probe_key (key_for hash bytes) key"
  shows "blobs_kept st st' \<and> (\<forall>ref. r = Inr ref \<longrightarrow> stored_at st' ref bytes)"
  using assms
proof (induction fuel io "key_for hash bytes" key n bytes st rule: put_loop.induct)
  case (2 fuel io key n bytes st)
  have safe: "is_safe_key key" using 2(3) by (rule probe_key_safe)
  show ?case
  proof (cases "blob_read io st key")
    case (Inr existing)
    note get = blob_read_cases(1) [OF Inr]
    show ?thesis
    proof (cases "existing = bytes")
      case True
      then show ?thesis using 2(2) Inr get safe by (auto simp: stored_at_def)
    next
      case False
      then show ?thesis
        using 2(1) [OF Inr False refl _ probe_key_next] 2(2) Inr by (simp add: Let_def)
    qed
  next
    case (Inl e)
    show ?thesis
    proof (cases "e = NotFound")
      case True
      obtain wr st1 where w: "write_atomic io key bytes st = (wr, st1)" by (cases "write_atomic io key bytes st")
      have none: "om_get (bs_dir st) key = None" using blob_read_cases(2) Inl True by blast
      show ?thesis
      proof (cases wr)
        case (Inl e')
        then have "r = Inl e'" "st' = st1"
          using 2(2) \<open>blob_read io st key = Inl e\<close> True w by simp_all
        then show ?thesis using write_atomic_kept [OF w none] by simp
      next
        case (Inr u)
        then have "r = Inr (blob_ref_prefix @ key)" "st' = st1"
          using 2(2) Inl True w by simp_all
        then show ?thesis
          using write_atomic_kept [OF w none] write_atomic_ok [OF w [unfolded Inr]] safe
          by (auto simp: stored_at_def)
      qed
    next
      case False
      then show ?thesis using 2(2) Inl by (auto split: io_error.splits)
    qed
  qed
qed simp

lemma blob_put_spec:
  assumes "blob_put hash io bytes st = Some (r, st')"
  shows "blobs_kept st st'" "r = Inr ref \<Longrightarrow> stored_at st' ref bytes"
  using put_loop_spec [OF assms [unfolded blob_put_def]] by (auto simp: probe_key_def)

text \<open>The probing ends: it can only meet as many taken names as there are files.\<close>

definition nth_probe :: "str \<Rightarrow> nat \<Rightarrow> str" where
  "nth_probe base n = (if n = 0 then base else base @ ''-'' @ dec_of n)"

lemma nth_probe_inj: "nth_probe base m = nth_probe base n \<longleftrightarrow> m = n"
  by (auto simp: nth_probe_def dec_of_inj)

lemma put_loop_None:
  "put_loop fuel io base (nth_probe base n) n bytes st = None \<Longrightarrow> n + fuel \<le> 2 ^ 32 \<Longrightarrow> i < fuel \<Longrightarrow>
     om_get (bs_dir st) (nth_probe base (n + i)) \<noteq> None"
proof (induction fuel arbitrary: n i)
  case (Suc fuel)
  obtain existing where r: "blob_read io st (nth_probe base n) = Inr existing" "existing \<noteq> bytes"
    using Suc.prems(1) by (auto split: sum.splits io_error.splits if_splits prod.splits)
  have here: "om_get (bs_dir st) (nth_probe base n) \<noteq> None"
    using blob_read_cases(1) [OF r(1)] by simp
  show ?case
  proof (cases i)
    case 0
    then show ?thesis using here by simp
  next
    case (Suc j)
    then have "(n + 1) mod 2 ^ 32 = Suc n" "nth_probe base (Suc n) = base @ ''-'' @ dec_of (Suc n)"
      using Suc.prems(2,3) by (simp_all add: nth_probe_def)
    then have "put_loop fuel io base (nth_probe base (Suc n)) (Suc n) bytes st = None"
      using Suc.prems(1) r by (simp add: Let_def)
    then show ?thesis using Suc.IH [of "Suc n" j] Suc.prems(2,3) \<open>i = Suc j\<close> by simp
  qed
qed simp

lemma blob_put_returns:
  assumes "length (bs_dir st) < 2 ^ 32"
  shows "blob_put hash io bytes st \<noteq> None"
proof
  let ?base = "key_for hash bytes" and ?n = "length (bs_dir st)"
  assume "blob_put hash io bytes st = None"
  then have "put_loop (Suc ?n) io ?base (nth_probe ?base 0) 0 bytes st = None"
    by (simp add: blob_put_def nth_probe_def)
  then have "om_get (bs_dir st) (nth_probe ?base i) \<noteq> None" if "i < Suc ?n" for i
    using put_loop_None [of "Suc ?n" io ?base 0 bytes st i] that assms by simp
  then have "nth_probe ?base ` {..<Suc ?n} \<subseteq> set (om_keys (bs_dir st))"
    by (auto simp: om_keys_get simp del: not_None_eq)
  then have "card (nth_probe ?base ` {..<Suc ?n}) \<le> card (set (om_keys (bs_dir st)))"
    by (intro card_mono) simp_all
  moreover have "card (nth_probe ?base ` {..<Suc ?n}) = Suc ?n"
    by (subst card_image) (simp_all add: inj_on_def nth_probe_inj)
  moreover have "card (set (om_keys (bs_dir st))) \<le> ?n"
    using card_length [of "om_keys (bs_dir st)"] by (simp add: om_keys_def)
  ultimately show False by simp
qed

text \<open>A second put of the same bytes probes the same names and stops at the first copy.\<close>

lemma put_loop_again:
  assumes "put_loop fuel io (key_for hash bytes) key n bytes st = Some (Inr ref, st')"
    and "probe_key (key_for hash bytes) key"
    and "blobs_kept st st'" and "\<And>t k. \<not> bi_read_err io t k" and "fuel \<le> fuel'"
  shows "put_loop fuel' io (key_for hash bytes) key n bytes st' = Some (Inr ref, st')"
  using assms
proof (induction fuel io "key_for hash bytes" key n bytes st arbitrary: fuel' rule: put_loop.induct)
  case (2 fuel io key n bytes st)
  have safe: "is_safe_key key" using 2(3) by (rule probe_key_safe)
  obtain f' where f': "fuel' = Suc f'" "fuel \<le> f'" using 2(6) by (cases fuel') auto
  have read: "blob_read io x key = (case om_get (bs_dir x) key of None \<Rightarrow> Inl NotFound | Some b \<Rightarrow> Inr b)" for x
    using 2(5) by (simp add: blob_read_def)
  show ?case
  proof (cases "om_get (bs_dir st) key")
    case None
    then have r: "blob_read io st key = Inl NotFound" using read by simp
    obtain wr st1 where w: "write_atomic io key bytes st = (wr, st1)" by (cases "write_atomic io key bytes st")
    obtain u where u: "wr = Inr u" using 2(2) r w by (cases wr) simp_all
    then have "ref = blob_ref_prefix @ key" "st' = st1" using 2(2) r w by simp_all
    then show ?thesis using write_atomic_ok [OF w [unfolded u]] f' read by simp
  next
    case (Some existing)
    then have r: "blob_read io st key = Inr existing" "blob_read io st' key = Inr existing"
      using read 2(4) safe by (auto simp: blobs_kept_def)
    show ?thesis
    proof (cases "existing = bytes")
      case True
      then show ?thesis using 2(2) r f' by simp
    next
      case False
      then show ?thesis
        using 2(1) [OF r(1) False refl _ probe_key_next 2(4,5) f'(2)] 2(2) r f' by (simp add: Let_def)
    qed
  qed
qed simp

lemma get_kept:
  assumes "blobs_kept st st'" and "blob_get quiet_io ref st = Inr (Some b)"
  shows "blob_get quiet_io ref st' = Inr (Some b)"
proof -
  define k where "k = (case strip_prefix blob_ref_prefix ref of Some k \<Rightarrow> k | None \<Rightarrow> ref)"
  have k: "is_safe_key k" "om_get (bs_dir st) k = Some b"
    using assms(2) by (auto simp: blob_get_def Let_def k_def [symmetric] blob_read_def quiet_io_def
      split: if_splits option.splits)
  then have "om_get (bs_dir st') k = Some b" using assms(1) by (simp add: blobs_kept_def)
  then show ?thesis using k(1) by (simp add: blob_get_def Let_def k_def [symmetric] blob_read_def quiet_io_def)
qed

lemma get_stored: "stored_at st ref b \<Longrightarrow> blob_get quiet_io ref st = Inr (Some b)"
  by (auto simp: stored_at_def blob_get_def blob_read_def quiet_io_def)

definition demo_hash :: "str \<Rightarrow> nat" where
  "demo_hash s = 7"

definition demo_blobs :: blob_store where
  "demo_blobs = \<lparr>bs_dir = [(key_for demo_hash ''ab'', ''ab'')], bs_tmp_seq = 3\<rparr>"

text \<open>
  A blob reference always gives back its own bytes: whatever the hash collides on and wherever a
  file-system call fails, a \<open>put\<close> returns, every reference handed out before still reads as it did, a
  reference \<open>put\<close> hands out reads back exactly the bytes put, and putting them again gives the same
  reference and changes nothing.
\<close>

theorem blob_put_get:
  assumes "length (bs_dir st) < 2 ^ 32"
  shows "\<exists>r st'. blob_put hash io bytes st = Some (r, st')
     \<and> (\<forall>ref b. blob_get quiet_io ref st = Inr (Some b) \<longrightarrow> blob_get quiet_io ref st' = Inr (Some b))
     \<and> (\<forall>ref. r = Inr ref \<longrightarrow> blob_get quiet_io ref st' = Inr (Some bytes))
     \<and> (\<forall>ref. r = Inr ref \<longrightarrow> (\<forall>t k. \<not> bi_read_err io t k) \<longrightarrow> length (bs_dir st) \<le> length (bs_dir st') \<longrightarrow>
          blob_put hash io bytes st' = Some (Inr ref, st'))"
proof -
  obtain r st' where put: "blob_put hash io bytes st = Some (r, st')"
    using blob_put_returns [OF assms] by fast
  have "blob_put hash io bytes st' = Some (Inr ref, st')"
    if "r = Inr ref" "\<forall>t k. \<not> bi_read_err io t k" "length (bs_dir st) \<le> length (bs_dir st')" for ref
    unfolding blob_put_def using that put blob_put_spec(1) [OF put]
    by (intro put_loop_again [where st = st and fuel = "Suc (length (bs_dir st))"])
      (simp_all add: blob_put_def probe_key_def)
  then show ?thesis
    using put get_kept [OF blob_put_spec(1) [OF put]] get_stored [OF blob_put_spec(2) [OF put]] by blast
qed

theorem blob_put_get_witness:
  "\<exists>ref st'. blob_put demo_hash quiet_io ''xy'' demo_blobs = Some (Inr ref, st')
     \<and> blob_get quiet_io ref st' = Inr (Some ''xy'')"
proof -
  define base where "base = key_for demo_hash ''ab''"
  have same: "key_for demo_hash ''xy'' = base" by (simp add: base_def key_for_def demo_hash_def)
  have "\<exists>ref st'. blob_put demo_hash quiet_io ''xy'' demo_blobs = Some (Inr ref, st')"
    by (simp add: blob_put_def same demo_blobs_def base_def [symmetric] blob_read_def quiet_io_def om_get_def Let_def
      write_atomic_def)
  then show ?thesis using blob_put_get [of demo_blobs demo_hash quiet_io "''xy''"] by (auto simp: demo_blobs_def)
qed

section \<open>What an offload does to a span\<close>

text \<open>\<open>moved\<close>: a payload is as it was, or is a reference that reads back as the payload.\<close>

definition moved :: "blob_store \<Rightarrow> str option \<Rightarrow> str option \<Rightarrow> bool" where
  "moved st old new \<longleftrightarrow> new = old \<or> (\<exists>val ref. old = Some val \<and> new = Some ref \<and> stored_at st ref val)"

definition moved_json :: "blob_store \<Rightarrow> json option \<Rightarrow> json option \<Rightarrow> bool" where
  "moved_json st old new \<longleftrightarrow>
     new = old \<or> (\<exists>val ref. old = Some (JStr val) \<and> new = Some (JStr ref) \<and> stored_at st ref val)"

text \<open>
  The two attributes the offload writes itself: the marker of a moved field has its size, a preview and the
  reference. \<open>marked\<close>: a field and its marker attribute are as they were, or the field is a reference that
  reads back as the payload and the marker is written, over whatever stood there.
\<close>

definition blob_marker :: "str \<Rightarrow> str \<Rightarrow> json" where
  "blob_marker val ref = JObj [(''bytes'', JNum (PosInt (length val))), (''preview'', JStr (take_chars preview_chars val)), (''ref'', JStr ref)]"

definition marked :: "blob_store \<Rightarrow> str option \<Rightarrow> str option \<Rightarrow> json option \<Rightarrow> json option \<Rightarrow> bool" where
  "marked st old new attr attr' \<longleftrightarrow> new = old \<and> attr' = attr
     \<or> (\<exists>val ref. old = Some val \<and> new = Some ref \<and> stored_at st ref val \<and> attr' = Some (blob_marker val ref))"

definition own_key :: "str \<Rightarrow> bool" where
  "own_key k \<longleftrightarrow> k = ''evald.blob.input'' \<or> k = ''evald.blob.output''"

definition span_moved :: "blob_store \<Rightarrow> normalized_span \<Rightarrow> normalized_span \<Rightarrow> bool" where
  "span_moved st s s' \<longleftrightarrow>
     s' = s\<lparr>ns_input_value := ns_input_value s', ns_output_value := ns_output_value s',
            ns_raw_attributes := ns_raw_attributes s'\<rparr>
     \<and> moved st (ns_input_value s) (ns_input_value s') \<and> moved st (ns_output_value s) (ns_output_value s')
     \<and> marked st (ns_input_value s) (ns_input_value s')
         (om_get (ns_raw_attributes s) ''evald.blob.input'') (om_get (ns_raw_attributes s') ''evald.blob.input'')
     \<and> marked st (ns_output_value s) (ns_output_value s')
         (om_get (ns_raw_attributes s) ''evald.blob.output'') (om_get (ns_raw_attributes s') ''evald.blob.output'')
     \<and> (\<forall>k. \<not> own_key k \<longrightarrow> moved_json st (om_get (ns_raw_attributes s) k) (om_get (ns_raw_attributes s') k))"

lemma moved_kept: "moved st a b \<Longrightarrow> blobs_kept st st' \<Longrightarrow> moved st' a b"
  unfolding moved_def using stored_at_kept by blast

lemma moved_json_kept: "moved_json st a b \<Longrightarrow> blobs_kept st st' \<Longrightarrow> moved_json st' a b"
  unfolding moved_json_def using stored_at_kept by blast

lemma marked_kept: "marked st a b c d \<Longrightarrow> blobs_kept st st' \<Longrightarrow> marked st' a b c d"
  unfolding marked_def using stored_at_kept by blast

lemma span_moved_kept: "span_moved st s s' \<Longrightarrow> blobs_kept st st' \<Longrightarrow> span_moved st' s s'"
  unfolding span_moved_def using moved_kept moved_json_kept marked_kept by blast

lemma offload_field_spec:
  assumes "offload_field hash io cap attr_key field attrs st = Some (field', attrs', n, st')"
  shows "blobs_kept st st'" "moved st' field field'"
    "k \<noteq> attr_key \<Longrightarrow> om_get attrs' k = om_get attrs k"
    "marked st' field field' (om_get attrs attr_key) (om_get attrs' attr_key)"
proof -
  consider "field' = field" "attrs' = attrs" "st' = st"
    | val r where "field = Some val" "blob_put hash io val st = Some (r, st')"
        "field' = field \<and> attrs' = attrs \<or> (\<exists>ref. r = Inr ref \<and> field' = Some ref \<and> attrs' = om_insert attr_key (blob_marker val ref) attrs)"
    using assms by (auto simp: offload_field_def blob_marker_def split: option.splits if_splits prod.splits sum.splits)
  then have "blobs_kept st st' \<and> moved st' field field' \<and> (k \<noteq> attr_key \<longrightarrow> om_get attrs' k = om_get attrs k)
     \<and> marked st' field field' (om_get attrs attr_key) (om_get attrs' attr_key)"
  proof cases
    case 1
    then show ?thesis by (simp add: moved_def marked_def)
  next
    case 2
    note put = blob_put_spec [OF 2(2)]
    show ?thesis using 2(3)
    proof
      assume "field' = field \<and> attrs' = attrs"
      then show ?thesis using put(1) by (simp add: moved_def marked_def)
    next
      assume "\<exists>ref. r = Inr ref \<and> field' = Some ref \<and> attrs' = om_insert attr_key (blob_marker val ref) attrs"
      then obtain ref where "r = Inr ref" "field' = Some ref" "attrs' = om_insert attr_key (blob_marker val ref) attrs" by blast
      then show ?thesis using put 2(1) by (simp add: moved_def marked_def map_simps)
    qed
  qed
  then show "blobs_kept st st'" "moved st' field field'" "k \<noteq> attr_key \<Longrightarrow> om_get attrs' k = om_get attrs k"
    "marked st' field field' (om_get attrs attr_key) (om_get attrs' attr_key)"
    by blast+
qed

lemma offload_value_spec:
  assumes "offload_value hash io cap key v st = Some (v', n, st')"
  shows "blobs_kept st st'" "moved_json st' (Some v) (Some v')" "own_key key \<Longrightarrow> v' = v"
proof -
  show "own_key key \<Longrightarrow> v' = v" using assms by (auto simp: offload_value_def own_key_def starts_with_def)
  consider "v' = v" "st' = st"
    | s r where "v = JStr s" "blob_put hash io s st = Some (r, st')" "v' = v \<or> (\<exists>ref. r = Inr ref \<and> v' = JStr ref)"
    using assms by (auto simp: offload_value_def split: option.splits if_splits prod.splits sum.splits json.splits)
  then have "blobs_kept st st' \<and> moved_json st' (Some v) (Some v')"
  proof cases
    case 1
    then show ?thesis by (simp add: moved_json_def)
  next
    case 2
    then show ?thesis using blob_put_spec [OF 2(2)] by (auto simp: moved_json_def)
  qed
  then show "blobs_kept st st'" "moved_json st' (Some v) (Some v')" by blast+
qed

lemma offload_raw_attributes_spec:
  "offload_raw_attributes hash io cap attrs st = Some (attrs', n, st') \<Longrightarrow>
     blobs_kept st st' \<and> om_keys attrs' = om_keys attrs \<and> (\<forall>k. moved_json st' (om_get attrs k) (om_get attrs' k))
     \<and> (\<forall>k. own_key k \<longrightarrow> om_get attrs' k = om_get attrs k)"
proof (induction hash io cap attrs st arbitrary: attrs' n rule: offload_raw_attributes.induct)
  case (1 hash io cap st)
  then show ?case by (simp add: moved_json_def)
next
  case (2 hash io cap key v attrs st)
  obtain v1 n1 st1 where v1: "offload_value hash io cap key v st = Some (v1, n1, st1)"
    using 2(2) by (auto split: option.splits)
  obtain rest m where rest: "offload_raw_attributes hash io cap attrs st1 = Some (rest, m, st')"
      "attrs' = (key, v1) # rest"
    using 2(2) v1 by (auto split: option.splits)
  note ih = 2(1) [OF v1 refl refl rest(1)]
  note val = offload_value_spec [OF v1]
  have "moved_json st' (Some v) (Some v1)" using moved_json_kept [OF val(2)] ih by blast
  then show ?case
    using ih blobs_kept_trans [OF val(1)] rest(2) val(3) by (auto simp: om_get_def om_keys_def)
qed

lemma offload_span_spec:
  assumes "offload_span hash io cap s st = Some (s', n, st')"
  shows "blobs_kept st st' \<and> span_moved st' s s'"
proof -
  obtain inp a1 n1 st1 where f1: "offload_field hash io cap ''evald.blob.input'' (ns_input_value s) (ns_raw_attributes s) st
      = Some (inp, a1, n1, st1)"
    using assms by (auto simp: offload_span_def split: option.splits)
  obtain outp a2 n2 st2 where f2: "offload_field hash io cap ''evald.blob.output'' (ns_output_value s) a1 st1 = Some (outp, a2, n2, st2)"
    using assms f1 by (auto simp: offload_span_def split: option.splits)
  obtain a3 n3 where f3: "offload_raw_attributes hash io cap a2 st2 = Some (a3, n3, st')"
    and s': "s' = s\<lparr>ns_input_value := inp, ns_output_value := outp, ns_raw_attributes := a3\<rparr>"
    using assms f1 f2 by (auto simp: offload_span_def split: option.splits)
  note o1 = offload_field_spec [OF f1] and o2 = offload_field_spec [OF f2] and o3 = offload_raw_attributes_spec [OF f3]
  have kept: "blobs_kept st1 st'" "blobs_kept st2 st'" using o2(1) o3 blobs_kept_trans by blast+
  have "om_get a2 k = om_get (ns_raw_attributes s) k" if "\<not> own_key k" for k
    using o1(3) [of k] o2(3) [of k] that by (simp add: own_key_def)
  then have "\<forall>k. \<not> own_key k \<longrightarrow> moved_json st' (om_get (ns_raw_attributes s) k) (om_get a3 k)"
    using o3 by metis
  moreover have own: "om_get a3 ''evald.blob.input'' = om_get a1 ''evald.blob.input''" "om_get a3 ''evald.blob.output'' = om_get a2 ''evald.blob.output''"
    "om_get a1 ''evald.blob.output'' = om_get (ns_raw_attributes s) ''evald.blob.output''"
    using o1(3) o2(3) o3 by (simp_all add: own_key_def)
  ultimately have "span_moved st' s s'"
    unfolding span_moved_def using moved_kept [OF o1(2) kept(1)] moved_kept [OF o2(2) kept(2)] s'
      marked_kept [OF o1(4) kept(1)] marked_kept [OF o2(4) kept(2)] own by simp
  then show ?thesis using blobs_kept_trans [OF o1(1) kept(1)] by blast
qed

lemma offload_spans_spec:
  "offload_spans hash io cap spans st = Some (spans', n, st') \<Longrightarrow>
     blobs_kept st st' \<and> list_all2 (span_moved st') spans spans'"
proof (induction spans arbitrary: spans' n st)
  case (Cons s ss)
  obtain s1 n1 st1 where s1: "offload_span hash io cap s st = Some (s1, n1, st1)"
    using Cons.prems by (auto split: option.splits)
  obtain ss1 m where ss1: "offload_spans hash io cap ss st1 = Some (ss1, m, st')" "spans' = s1 # ss1"
    using Cons.prems s1 by (auto split: option.splits)
  show ?case
    using Cons.IH [OF ss1(1)] offload_span_spec [OF s1] ss1(2) blobs_kept_trans span_moved_kept by simp blast
qed simp

text \<open>
  The probe of a put ends while the directory has fewer names than the \<open>u32\<close> counter has values, and a put adds
  at most one name.
\<close>

lemma length_insert_le: "length (om_insert k v m) \<le> Suc (length m)"
  by (induction m) auto

lemma length_insert_remove_le: "length (om_insert k v (om_remove k' m)) \<le> Suc (length m)"
  by (rule le_trans [OF length_insert_le]) (simp add: om_remove_def)

lemma put_loop_grows:
  "put_loop fuel io base key n bytes st = Some (r, st') \<Longrightarrow> length (bs_dir st') \<le> Suc (length (bs_dir st))"
proof (induction fuel io base key n bytes st rule: put_loop.induct)
  case (2 fuel io base key n bytes st)
  have w: "length (bs_dir (snd (write_atomic io key bytes st))) \<le> Suc (length (bs_dir st))"
    by (simp add: write_atomic_def Let_def length_insert_le length_insert_remove_le split: write_stage.split)
  show ?case
    using 2 w by (auto simp: Let_def split: sum.splits io_error.splits if_splits prod.splits)
qed simp

lemma blob_put_grows: "blob_put hash io bytes st = Some (r, st') \<Longrightarrow> length (bs_dir st') \<le> Suc (length (bs_dir st))"
  unfolding blob_put_def by (rule put_loop_grows)

lemma offload_field_returns:
  assumes "length (bs_dir st) < 2 ^ 32"
  shows "\<exists>f a n st'. offload_field hash io cap k field attrs st = Some (f, a, n, st') \<and>
     length (bs_dir st') \<le> Suc (length (bs_dir st)) \<and> length a \<le> Suc (length attrs)"
proof -
  obtain r st' where "blob_put hash io (the field) st = Some (r, st')" using blob_put_returns [OF assms] by fastforce
  then show ?thesis
    using blob_put_grows length_insert_le [of k _ attrs] by (auto simp: offload_field_def split: option.split sum.split)
qed

lemma offload_value_returns:
  assumes "length (bs_dir st) < 2 ^ 32"
  shows "\<exists>v' n st'. offload_value hash io cap key v st = Some (v', n, st') \<and> length (bs_dir st') \<le> Suc (length (bs_dir st))"
proof -
  have "\<exists>r st'. blob_put hash io s st = Some (r, st')" for s using blob_put_returns [OF assms] by fastforce
  then show ?thesis
    using blob_put_grows by (auto simp: offload_value_def split: option.split sum.split json.split) (metis not_Some_eq)+
qed

lemma offload_raw_attributes_returns:
  "length (bs_dir st) + length attrs \<le> 2 ^ 32 \<Longrightarrow>
     \<exists>a n st'. offload_raw_attributes hash io cap attrs st = Some (a, n, st') \<and> length (bs_dir st') \<le> length (bs_dir st) + length attrs"
proof (induction attrs arbitrary: st)
  case (Cons kv attrs)
  obtain key v where kv: "kv = (key, v)" by fastforce
  obtain v' n st' where v: "offload_value hash io cap key v st = Some (v', n, st')" "length (bs_dir st') \<le> Suc (length (bs_dir st))"
    using offload_value_returns [of st] Cons.prems by fastforce
  obtain a m st'' where "offload_raw_attributes hash io cap attrs st' = Some (a, m, st'')"
    "length (bs_dir st'') \<le> length (bs_dir st') + length attrs"
    using Cons.IH [of st'] Cons.prems v(2) by fastforce
  then show ?case using v kv by simp
qed simp

definition payload_slots :: "normalized_span list \<Rightarrow> nat" where
  "payload_slots spans = (\<Sum>s\<leftarrow>spans. 4 + length (ns_raw_attributes s))"

lemma offload_span_returns:
  assumes "length (bs_dir st) + (4 + length (ns_raw_attributes s)) \<le> 2 ^ 32"
  shows "\<exists>s' n st'. offload_span hash io cap s st = Some (s', n, st') \<and>
     length (bs_dir st') \<le> length (bs_dir st) + (4 + length (ns_raw_attributes s))"
proof -
  obtain f1 a1 n1 st1 where f1: "offload_field hash io cap ''evald.blob.input'' (ns_input_value s) (ns_raw_attributes s) st = Some (f1, a1, n1, st1)"
    "length (bs_dir st1) \<le> Suc (length (bs_dir st))" "length a1 \<le> Suc (length (ns_raw_attributes s))"
    using offload_field_returns [of st] assms by fastforce
  obtain f2 a2 n2 st2 where f2: "offload_field hash io cap ''evald.blob.output'' (ns_output_value s) a1 st1 = Some (f2, a2, n2, st2)"
    "length (bs_dir st2) \<le> Suc (length (bs_dir st1))" "length a2 \<le> Suc (length a1)"
    using offload_field_returns [of st1] assms f1(2) by fastforce
  obtain a3 n3 st3 where "offload_raw_attributes hash io cap a2 st2 = Some (a3, n3, st3)" "length (bs_dir st3) \<le> length (bs_dir st2) + length a2"
    using offload_raw_attributes_returns [of st2 a2] assms f1(2,3) f2(2,3) by fastforce
  then show ?thesis using f1 f2 by (simp add: offload_span_def)
qed

lemma offload_spans_returns:
  "length (bs_dir st) + payload_slots spans \<le> 2 ^ 32 \<Longrightarrow> offload_spans hash io cap spans st \<noteq> None"
proof (induction spans arbitrary: st)
  case (Cons s ss)
  obtain s' n st' where s: "offload_span hash io cap s st = Some (s', n, st')"
    "length (bs_dir st') \<le> length (bs_dir st) + (4 + length (ns_raw_attributes s))"
    using offload_span_returns [of st s] Cons.prems by (fastforce simp: payload_slots_def)
  have "offload_spans hash io cap ss st' \<noteq> None"
    using Cons.IH [of st'] Cons.prems s(2) by (simp add: payload_slots_def)
  then show ?case using s(1) by (auto split: option.split)
qed simp

lemma offload_keeps:
  assumes "offload_large_payloads hash io cap spans st = Some (spans', n, st')"
  shows "list_all2 (span_moved st') spans spans'" "map span_key spans' = map span_key spans" "blobs_kept st st'"
proof -
  have all: "blobs_kept st st' \<and> list_all2 (span_moved st') spans spans'"
  proof (cases "cap = 0")
    case True
    then have "list_all2 (span_moved st') spans spans"
      by (intro list_all2_refl) (simp add: span_moved_def moved_def moved_json_def marked_def)
    then show ?thesis using assms True by (simp add: offload_large_payloads_def)
  next
    case False
    then show ?thesis using assms offload_spans_spec by (simp add: offload_large_payloads_def)
  qed
  have "span_key s' = span_key s" if "span_moved st' s s'" for s s'
  proof -
    have "ns_trace_id s' = ns_trace_id s \<and> ns_span_id s' = ns_span_id s"
      using that unfolding span_moved_def by (cases s; cases s') simp
    then show ?thesis by (simp add: span_key_def)
  qed
  then show "map span_key spans' = map span_key spans"
    using all by (intro nth_equalityI) (auto simp: list_all2_conv_all_nth)
  show "list_all2 (span_moved st') spans spans'" "blobs_kept st st'" using all by blast+
qed

lemma offload_returns:
  assumes "offload_large_payloads hash io cap spans st = None"
  shows "2 ^ 32 < length (bs_dir st) + payload_slots spans"
proof -
  have "offload_spans hash io cap spans st = None" using assms by (auto simp: offload_large_payloads_def split: if_splits)
  then have "\<not> length (bs_dir st) + payload_slots spans \<le> 2 ^ 32" using offload_spans_returns by blast
  then show ?thesis by simp
qed

text \<open>
  C38. Offloading payloads loses none: whatever the size cap and whichever calls fail, every span keeps its
  identity and every other field; each input, output and attribute is either unchanged or replaced by a
  reference that reads back as exactly the original, save the two attributes the offload owns
  (\<open>evald.blob.input\<close> and \<open>evald.blob.output\<close>): they are unchanged with their field, and where the field moved
  its marker stands there, over whatever a client sent; and no blob stored before is touched. The
  probing for a free name ends unless the blob directory holds nearly \<open>2 ^ 32\<close> names.
\<close>

theorem offload_keeps_every_payload:
  "case offload_large_payloads hash io cap spans st of
     Some (spans', n, st') \<Rightarrow>
       list_all2 (span_moved st') spans spans' \<and> map span_key spans' = map span_key spans
       \<and> (\<forall>ref val. stored_at st' ref val \<longrightarrow> blob_get quiet_io ref st' = Inr (Some val))
       \<and> blobs_kept st st'
   | None \<Rightarrow> 2 ^ 32 < length (bs_dir st) + payload_slots spans"
proof (cases "offload_large_payloads hash io cap spans st")
  case None
  then show ?thesis using offload_returns by simp
next
  case (Some r)
  then obtain spans' n st' where "r = (spans', n, st')" "offload_large_payloads hash io cap spans st = Some (spans', n, st')"
    by (metis prod_cases3)
  then show ?thesis using offload_keeps get_stored by simp
qed

definition wordy_span :: normalized_span where
  "wordy_span = (plain_span ''t'' ''s'' 5)\<lparr>ns_input_value := Some ''hello''\<rparr>"

theorem offload_keeps_every_payload_witness:
  "\<exists>spans' n st'. offload_large_payloads demo_hash quiet_io 3 [wordy_span] demo_blobs = Some (spans', n, st')
     \<and> list_all2 (span_moved st') [wordy_span] spans'"
proof -
  have "length (bs_dir demo_blobs) + payload_slots [wordy_span] \<le> 2 ^ 32"
    by (simp add: demo_blobs_def payload_slots_def wordy_span_def plain_span_def om_empty_def)
  then show ?thesis
    using offload_keeps_every_payload [where hash = demo_hash and io = quiet_io and cap = 3 and spans = "[wordy_span]" and st = demo_blobs] by (auto split: option.splits)
qed

end
