(* ===== verification/Price.thy ===== *)
theory Price
  imports Agent Blob
begin

text \<open>
  \<^verbatim>\<open>src/price.rs\<close>: the price table (its parsing, its overlay, the lookup of a model id), the reading of
  a span's token counts, the cost arithmetic and the ingest-time fill of \<open>cost_usd\<close>, and the live
  table that is reloaded when its file changes. The JSON parser, SHA-256 and the calendar are
  parameters; the arithmetic on \<open>f64\<close> is that of \<open>Float\<close>, and sums of counts wrap as in a release build.
\<close>

section \<open>The table\<close>

record rates =
  rt_input :: f64
  rt_output :: f64
  rt_cache_read :: "f64 option"
  rt_cache_write :: "f64 option"

record price_tier =
  ti_above :: u64
  ti_input :: "f64 option"
  ti_output :: "f64 option"
  ti_cache_read :: "f64 option"
  ti_cache_write :: "f64 option"

record price =
  pr_base :: rates
  pr_reasoning :: "f64 option"
  pr_tiers :: "price_tier list"

definition overlay_tier :: "price_tier \<Rightarrow> rates \<Rightarrow> rates" where
  "overlay_tier t r =
     \<lparr>rt_input = (case ti_input t of Some x \<Rightarrow> x | None \<Rightarrow> rt_input r),
      rt_output = (case ti_output t of Some x \<Rightarrow> x | None \<Rightarrow> rt_output r),
      rt_cache_read = opt_or (ti_cache_read t) (rt_cache_read r),
      rt_cache_write = opt_or (ti_cache_write t) (rt_cache_write r)\<rparr>"

definition rates_for :: "price \<Rightarrow> u64 \<Rightarrow> rates" where
  "rates_for p total_in = fold overlay_tier (filter (\<lambda>t. ti_above t < total_in) (pr_tiers p)) (pr_base p)"

record price_table =
  pt_version :: str
  pt_as_of :: "int option"
  pt_models :: "(str, price) omap"

text \<open>The crates the parser calls: \<open>serde_json\<close>, \<open>sha2\<close> (in hex) and \<open>chrono\<close> (days of a date).\<close>

record price_env =
  pe_json :: "str \<Rightarrow> json option"
  pe_sha256_hex :: "str \<Rightarrow> str"
  pe_ymd :: "int \<Rightarrow> nat \<Rightarrow> nat \<Rightarrow> int option"

definition j_as_f64 :: "json \<Rightarrow> f64 option" where
  "j_as_f64 v =
     (case v of
        JNum (PosInt n) \<Rightarrow> Some (f_of_int (int n))
      | JNum (NegInt i) \<Rightarrow> Some (f_of_int i)
      | JNum (Float d) \<Rightarrow> Some d
      | _ \<Rightarrow> None)"

definition j_as_u64 :: "json \<Rightarrow> u64 option" where
  "j_as_u64 v = (case v of JNum (PosInt n) \<Rightarrow> Some n | _ \<Rightarrow> None)"

definition j_as_object :: "json \<Rightarrow> (str, json) omap option" where
  "j_as_object v = (case v of JObj m \<Rightarrow> Some m | _ \<Rightarrow> None)"

text \<open>\<open>split_once\<close> on a string, and \<open>rsplit_once\<close> on a character.\<close>

fun split_once_str :: "str \<Rightarrow> str \<Rightarrow> (str \<times> str) option" where
  "split_once_str pat s =
     (case strip_prefix pat s of
        Some rest \<Rightarrow> Some ([], rest)
      | None \<Rightarrow> (case s of
                   [] \<Rightarrow> None
                 | c # t \<Rightarrow> map_option (\<lambda>(a, b). (c # a, b)) (split_once_str pat t)))"

declare split_once_str.simps [simp del]

definition rsplit_once :: "char \<Rightarrow> str \<Rightarrow> (str \<times> str) option" where
  "rsplit_once c s = map_option (\<lambda>(a, b). (rev b, rev a)) (split_once c (rev s))"

definition tier_fields :: "str list" where
  "tier_fields = [''input_cost_per_token'', ''output_cost_per_token'', ''cache_read_input_token_cost'',
     ''cache_creation_input_token_cost'']"

definition tier_key :: "str \<Rightarrow> (str \<times> u64) option" where
  "tier_key k =
     (case split_once_str ''_above_'' k of
        None \<Rightarrow> None
      | Some (field, rest) \<Rightarrow>
          if field \<notin> set tier_fields then None
          else case strip_suffix ''_tokens'' rest of
                 None \<Rightarrow> None
               | Some n \<Rightarrow>
                   let (digits, mult) = (case strip_suffix ''k'' n of Some d \<Rightarrow> (d, 1000) | None \<Rightarrow> (n, 1))
                   in map_option (\<lambda>v. (field, v * mult mod 2 ^ 64)) (parse_u64 digits))"

definition empty_tier :: "u64 \<Rightarrow> price_tier" where
  "empty_tier lim = \<lparr>ti_above = lim, ti_input = None, ti_output = None, ti_cache_read = None, ti_cache_write = None\<rparr>"

definition set_tier :: "str \<Rightarrow> f64 \<Rightarrow> price_tier \<Rightarrow> price_tier" where
  "set_tier field rate t =
     (if field = ''input_cost_per_token'' then t\<lparr>ti_input := Some rate\<rparr>
      else if field = ''output_cost_per_token'' then t\<lparr>ti_output := Some rate\<rparr>
      else if field = ''cache_read_input_token_cost'' then t\<lparr>ti_cache_read := Some rate\<rparr>
      else t\<lparr>ti_cache_write := Some rate\<rparr>)"

definition parse_entry :: "(str, json) omap \<Rightarrow> price option" where
  "parse_entry e =
     (let num = (\<lambda>k. case om_get e k of None \<Rightarrow> None | Some v \<Rightarrow> j_as_f64 v);
          input = num ''input_cost_per_token''; output = num ''output_cost_per_token''
      in if input = None \<and> output = None then None
         else let tiers = fold (\<lambda>(k, v) ts.
                      case (tier_key k, j_as_f64 v) of
                        (Some (field, lim), Some rate) \<Rightarrow>
                          om_alter lim (empty_tier lim) (set_tier field rate) ts
                      | _ \<Rightarrow> ts) e om_empty
              in Some \<lparr>pr_base = \<lparr>rt_input = (case input of Some x \<Rightarrow> x | None \<Rightarrow> 0),
                                 rt_output = (case output of Some x \<Rightarrow> x | None \<Rightarrow> 0),
                                 rt_cache_read = num ''cache_read_input_token_cost'',
                                 rt_cache_write = num ''cache_creation_input_token_cost''\<rparr>,
                       pr_reasoning = num ''output_cost_per_reasoning_token'',
                       pr_tiers = om_values tiers\<rparr>)"

definition parse_i32 :: "str \<Rightarrow> i32 option" where
  "parse_i32 s =
     (let (neg, ds) = (case s of c # t \<Rightarrow> if c = CHR ''-'' then (True, t)
                                        else if c = CHR ''+'' then (False, t) else (False, s)
                      | [] \<Rightarrow> (False, []))
      in if ds = [] then None
         else case dec_value 0 ds of
                None \<Rightarrow> None
              | Some n \<Rightarrow> (let v = (if neg then - int n else int n)
                         in if - (2 ^ 31) \<le> v \<and> v < 2 ^ 31 then Some v else None))"

definition parse_u32 :: "str \<Rightarrow> nat option" where
  "parse_u32 s = (case parse_u64 s of Some n \<Rightarrow> if n < 2 ^ 32 then Some n else None | None \<Rightarrow> None)"

definition parse_date :: "price_env \<Rightarrow> str \<Rightarrow> int option" where
  "parse_date pe s =
     (case split_on (CHR ''-'') s of
        y # m # d # _ \<Rightarrow>
          (case (parse_i32 y, parse_u32 m, parse_u32 d) of
             (Some y', Some m', Some d') \<Rightarrow> pe_ymd pe y' m' d'
           | _ \<Rightarrow> None)
      | _ \<Rightarrow> None)"

definition from_json :: "price_env \<Rightarrow> str \<Rightarrow> price_table option" where
  "from_json pe text0 =
     (case pe_json pe text0 of
        None \<Rightarrow> None
      | Some root \<Rightarrow>
          (case j_as_object root of
             None \<Rightarrow> None
           | Some obj \<Rightarrow>
               let meta = (case om_get obj ''_evald'' of None \<Rightarrow> None | Some m \<Rightarrow> j_as_object m);
                   field = (\<lambda>k. case meta of None \<Rightarrow> None
                               | Some m \<Rightarrow> (case om_get m k of None \<Rightarrow> None | Some v \<Rightarrow> j_as_str v));
                   version = (case (field ''commit'', field ''date'') of
                                (Some c, Some d) \<Rightarrow> take_chars 8 c @ ''@'' @ d
                              | _ \<Rightarrow> ''sha256:'' @ take 8 (pe_sha256_hex pe text0));
                   models = fold (\<lambda>(name, entry) ms.
                              if name = ''_evald'' \<or> name = ''sample_spec'' then ms
                              else case (case j_as_object entry of None \<Rightarrow> None | Some e \<Rightarrow> parse_entry e) of
                                     None \<Rightarrow> ms
                                   | Some p \<Rightarrow> om_insert (to_ascii_lowercase name) p ms) obj om_empty
               in Some \<lparr>pt_version = version,
                        pt_as_of = (case field ''date'' of None \<Rightarrow> None | Some d \<Rightarrow> parse_date pe d),
                        pt_models = models\<rparr>))"

text \<open>\<open>Option<NaiveDate>::max\<close>: \<open>None\<close> is the least.\<close>

definition later_date :: "int option \<Rightarrow> int option \<Rightarrow> int option" where
  "later_date a b =
     (case (a, b) of (None, _) \<Rightarrow> b | (_, None) \<Rightarrow> a | (Some x, Some y) \<Rightarrow> Some (max x y))"

definition overlaid_with :: "price_table \<Rightarrow> price_table \<Rightarrow> price_table" where
  "overlaid_with self over =
     \<lparr>pt_version = pt_version over @ ''+'' @ pt_version self,
      pt_as_of = later_date (pt_as_of self) (pt_as_of over),
      pt_models = fold (\<lambda>(k, v). om_insert k v) (pt_models over) (pt_models self)\<rparr>"

definition stale_days :: "price_table \<Rightarrow> int \<Rightarrow> int option" where
  "stale_days t today =
     (case pt_as_of t of None \<Rightarrow> None | Some d \<Rightarrow> if 90 < today - d then Some (today - d) else None)"

section \<open>Looking a model up\<close>

definition region_prefixes :: "str list" where
  "region_prefixes = [''us-gov.'', ''us.'', ''eu.'', ''apac.'', ''global.'', ''au.'', ''jp.'', ''ca.'']"

definition strip_region :: "str \<Rightarrow> str" where
  "strip_region name =
     (case find_map (\<lambda>p. strip_prefix p name) region_prefixes of Some rest \<Rightarrow> rest | None \<Rightarrow> name)"

definition is_version_segment :: "str \<Rightarrow> bool" where
  "is_version_segment seg =
     (if seg = ''latest'' then True
      else if 2 \<le> length seg \<and> list_all is_digit seg then True
      else case strip_prefix ''v'' seg of
             None \<Rightarrow> False
           | Some rest \<Rightarrow>
               if rest = [] then False
               else let (major, minor) = (case split_once (CHR '':'') rest of Some mm \<Rightarrow> mm | None \<Rightarrow> (rest, ''0''))
                    in list_all is_digit major \<and> minor \<noteq> [] \<and> list_all is_digit minor)"

fun lookup_versions :: "nat \<Rightarrow> (str, price) omap \<Rightarrow> str \<Rightarrow> (str \<times> price) option" where
  "lookup_versions 0 models cur = None"
| "lookup_versions (Suc n) models cur =
     (case om_get models cur of
        Some p \<Rightarrow> Some (cur, p)
      | None \<Rightarrow>
          (case rsplit_once (CHR ''-'') cur of
             None \<Rightarrow> None
           | Some (head, seg) \<Rightarrow>
               if is_version_segment seg \<and> head \<noteq> [] then lookup_versions n models head else None))"

definition lookup_stripping_versions :: "(str, price) omap \<Rightarrow> str \<Rightarrow> (str \<times> price) option" where
  "lookup_stripping_versions models name = lookup_versions 5 models name"

lemma split_once_shorter: "split_once c s = Some (a, b) \<Longrightarrow> length b < length s"
  using split_once_Some [of c s a b] by simp

function lookup_loop :: "(str, price) omap \<Rightarrow> str \<Rightarrow> (str \<times> price) option" where
  "lookup_loop models rest =
     (let base = takeWhile (\<lambda>c. c \<noteq> CHR ''@'') rest
      in case find_map (lookup_stripping_versions models) [base, strip_region base] of
           Some hit \<Rightarrow> Some hit
         | None \<Rightarrow>
             (case split_once (CHR ''/'') rest of
                Some (_, tail) \<Rightarrow> if tail \<noteq> [] then lookup_loop models tail else None
              | None \<Rightarrow> None))"
  by pat_completeness auto

termination
  by (relation "measure (\<lambda>(_, rest). length rest)") (use split_once_shorter in auto)

declare lookup_loop.simps [simp del]

definition lookup :: "price_table \<Rightarrow> str \<Rightarrow> (str \<times> price) option" where
  "lookup t model =
     (case om_get (pt_models t) model of
        Some p \<Rightarrow> Some (model, p)
      | None \<Rightarrow> lookup_loop (pt_models t) (to_ascii_lowercase model))"

section \<open>Cost arithmetic\<close>

record basis =
  ba_cache_excl :: bool
  ba_reasoning_add :: bool

definition basis_stamp :: "basis \<Rightarrow> str option" where
  "basis_stamp b =
     (case (ba_cache_excl b, ba_reasoning_add b) of
        (False, False) \<Rightarrow> None
      | (True, False) \<Rightarrow> Some ''cache_excl''
      | (False, True) \<Rightarrow> Some ''reasoning_add''
      | (True, True) \<Rightarrow> Some ''cache_excl,reasoning_add'')"

definition basis_from_stamp :: "str \<Rightarrow> basis" where
  "basis_from_stamp s =
     \<lparr>ba_cache_excl = contains_str ''cache_excl'' s, ba_reasoning_add = contains_str ''reasoning_add'' s\<rparr>"

definition or_zero :: "u64 option \<Rightarrow> u64" where
  "or_zero x = (case x of Some n \<Rightarrow> n | None \<Rightarrow> 0)"

definition detect_basis :: "tokens \<Rightarrow> u64 option \<Rightarrow> basis" where
  "detect_basis t reported =
     (let p = or_zero (tk_prompt t); c = or_zero (tk_completion t);
          cache = wrap_add (or_zero (tk_cache_read t)) (or_zero (tk_cache_write t));
          r = or_zero (tk_reasoning t);
          fallback = \<lparr>ba_cache_excl = (0 < cache \<and> p < cache), ba_reasoning_add = False\<rparr>
      in case reported of
           None \<Rightarrow> fallback
         | Some total0 \<Rightarrow>
             if wrap_add p c \<le> total0 then
               (let extra = total0 - wrap_add p c
                in if extra = 0 then \<lparr>ba_cache_excl = False, ba_reasoning_add = False\<rparr>
                   else if cache \<noteq> r \<and> 0 < cache \<and> extra = cache then \<lparr>ba_cache_excl = True, ba_reasoning_add = False\<rparr>
                   else if cache \<noteq> r \<and> 0 < r \<and> extra = r then \<lparr>ba_cache_excl = False, ba_reasoning_add = True\<rparr>
                   else if 0 < cache \<and> 0 < r \<and> extra = wrap_add cache r then \<lparr>ba_cache_excl = True, ba_reasoning_add = True\<rparr>
                   else fallback)
             else fallback)"

text \<open>How the counts of a span are split for pricing, and the total that selects the tier.\<close>

record token_split =
  sp_uncached :: u64
  sp_total_in :: u64
  sp_cache_read :: u64
  sp_cache_write :: u64
  sp_text_out :: u64
  sp_reasoning :: u64

definition split_tokens :: "tokens \<Rightarrow> basis \<Rightarrow> token_split" where
  "split_tokens t b =
     (let prompt = or_zero (tk_prompt t); comp = or_zero (tk_completion t);
          cr = or_zero (tk_cache_read t); cw = or_zero (tk_cache_write t); r = or_zero (tk_reasoning t)
      in \<lparr>sp_uncached = (if ba_cache_excl b then prompt else prompt - wrap_add cr cw),
          sp_total_in = (if ba_cache_excl b then wrap_add (wrap_add prompt cr) cw else prompt),
          sp_cache_read = cr, sp_cache_write = cw,
          sp_text_out = (if ba_reasoning_add b then comp else comp - r),
          sp_reasoning = r\<rparr>)"

definition f_of_u64 :: "u64 \<Rightarrow> f64" where
  "f_of_u64 n = f_of_int (int n)"

definition round_usd :: "f64 \<Rightarrow> f64" where
  "round_usd usd = f_div (f_round_int (f_mul usd (f_of_u64 (10 ^ 12)))) (f_of_u64 (10 ^ 12))"

definition price_tokens :: "price \<Rightarrow> tokens \<Rightarrow> basis \<Rightarrow> f64" where
  "price_tokens p t b =
     (let sp = split_tokens t b;
          rates = rates_for p (sp_total_in sp);
          cr_rate = (case rt_cache_read rates of Some x \<Rightarrow> x | None \<Rightarrow> rt_input rates);
          cw_rate = (case rt_cache_write rates of Some x \<Rightarrow> x | None \<Rightarrow> rt_input rates);
          reasoning_rate = (case pr_reasoning p of Some x \<Rightarrow> x | None \<Rightarrow> rt_output rates)
      in round_usd
          (f_add (f_add (f_add (f_add (f_mul (f_of_u64 (sp_uncached sp)) (rt_input rates))
                                      (f_mul (f_of_u64 (sp_cache_read sp)) cr_rate))
                               (f_mul (f_of_u64 (sp_cache_write sp)) cw_rate))
                        (f_mul (f_of_u64 (sp_text_out sp)) (rt_output rates)))
                 (f_mul (f_of_u64 (sp_reasoning sp)) reasoning_rate)))"

section \<open>Pricing a span\<close>

definition cost_attributes :: "str list" where
  "cost_attributes = [''llm.cost.total'', ''gen_ai.usage.cost'']"

definition has_cost_attribute :: "normalized_span \<Rightarrow> bool" where
  "has_cost_attribute s \<longleftrightarrow> list_ex (\<lambda>k. om_get (ns_raw_attributes s) k \<noteq> None) cost_attributes"

definition reported_total :: "normalized_span \<Rightarrow> u64 option" where
  "reported_total s =
     find_map (\<lambda>k. case om_get (ns_raw_attributes s) k of None \<Rightarrow> None | Some v \<Rightarrow> j_as_u64 v)
       [''llm.token_count.total'', ''gen_ai.usage.total_tokens'']"

record derived =
  de_cost :: f64
  de_model :: str
  de_basis :: basis

definition derive_cost :: "price_table \<Rightarrow> normalized_span \<Rightarrow> derived option" where
  "derive_cost table s =
     (if ns_cost_usd s \<noteq> None then None
      else case ns_model s of
             None \<Rightarrow> None
           | Some model \<Rightarrow>
               if tk_prompt (ns_tokens s) = None \<and> tk_completion (ns_tokens s) = None then None
               else case lookup table model of
                      None \<Rightarrow> None
                    | Some (key, price) \<Rightarrow>
                        if has_cost_attribute s then None
                        else let b = detect_basis (ns_tokens s) (reported_total s)
                             in Some \<lparr>de_cost = price_tokens price (ns_tokens s) b, de_model = key, de_basis = b\<rparr>)"

definition basis_key :: str where
  "basis_key = ''evald.cost.basis''"

definition apply_price :: "price_table \<Rightarrow> normalized_span \<Rightarrow> normalized_span" where
  "apply_price table s =
     (case derive_cost table s of
        None \<Rightarrow> s
      | Some d \<Rightarrow>
          let raw = om_remove basis_key (ns_raw_attributes s)
          in s\<lparr>ns_cost_usd := Some (de_cost d),
               ns_raw_attributes := (case basis_stamp (de_basis d) of
                                       None \<Rightarrow> raw
                                     | Some st \<Rightarrow> om_insert basis_key (JStr st) raw)\<rparr>)"

section \<open>The live table\<close>

text \<open>
  \<open>li_mtime\<close> is \<open>Some m\<close> when a file is watched, \<open>m\<close> its last seen mtime. What the file system answers
  is an input of each operation: the mtime and the file's text, when they can be read.
\<close>

record live =
  li_table :: price_table
  li_mtime :: "nat option option"
  li_watching :: bool
  li_next_check_ms :: u64

record file_view =
  fv_mtime :: "nat option"
  fv_text :: "str option"
  fv_mtime_date :: "int option"

definition live_new :: "price_table \<Rightarrow> live" where
  "live_new baseline = \<lparr>li_table = baseline, li_mtime = None, li_watching = False, li_next_check_ms = 0\<rparr>"

definition load_over_baseline :: "price_env \<Rightarrow> price_table \<Rightarrow> file_view \<Rightarrow> price_table option" where
  "load_over_baseline pe baseline f =
     (case fv_text f of
        None \<Rightarrow> None
      | Some txt' \<Rightarrow>
          (case from_json pe txt' of
             None \<Rightarrow> None
           | Some over \<Rightarrow>
               Some (overlaid_with baseline
                 (if pt_as_of over = None then over\<lparr>pt_as_of := fv_mtime_date f\<rparr> else over))))"

definition watch_file :: "price_env \<Rightarrow> price_table \<Rightarrow> file_view \<Rightarrow> live \<Rightarrow> bool \<times> live" where
  "watch_file pe baseline f l =
     (case load_over_baseline pe baseline f of
        None \<Rightarrow> (False, l)
      | Some t \<Rightarrow> (True, l\<lparr>li_table := t, li_mtime := Some (fv_mtime f), li_watching := True\<rparr>))"

definition reload_if_changed :: "price_env \<Rightarrow> price_table \<Rightarrow> file_view \<Rightarrow> live \<Rightarrow> live" where
  "reload_if_changed pe baseline f l =
     (case li_mtime l of
        None \<Rightarrow> l
      | Some seen \<Rightarrow>
          if fv_mtime f = seen then l
          else let l1 = l\<lparr>li_mtime := Some (fv_mtime f)\<rparr>
               in (case load_over_baseline pe baseline f of
                     Some t \<Rightarrow> l1\<lparr>li_table := t\<rparr>
                   | None \<Rightarrow> l1))"

definition reload_check_ms :: u64 where
  "reload_check_ms = 2000"

definition live_table :: "price_env \<Rightarrow> price_table \<Rightarrow> nat \<Rightarrow> file_view \<Rightarrow> live \<Rightarrow> price_table \<times> live" where
  "live_table pe baseline now f l =
     (let l' = (if li_watching l \<and> li_next_check_ms l \<le> now
                then reload_if_changed pe baseline f (l\<lparr>li_next_check_ms := now + reload_check_ms\<rparr>)
                else l)
      in (li_table l', l'))"

section \<open>Lemmas on the counts\<close>

lemma or_zero_simps [simp]: "or_zero None = 0" "or_zero (Some n) = n"
  by (simp_all add: or_zero_def)

lemma basis_stamp_round_trip:
  "basis_stamp b = Some st \<Longrightarrow> basis_from_stamp st = b"
  by (cases b) (auto simp: basis_stamp_def basis_from_stamp_def contains_str.simps starts_with_def split: bool.splits)

text \<open>What a source says it counts: its cache and its reasoning tokens, on top of the two counts or within them.\<close>

definition cache_of :: "tokens \<Rightarrow> nat" where
  "cache_of t = or_zero (tk_cache_read t) + or_zero (tk_cache_write t)"

definition counted_total :: "tokens \<Rightarrow> basis \<Rightarrow> nat" where
  "counted_total t b =
     or_zero (tk_prompt t) + or_zero (tk_completion t)
       + (if ba_cache_excl b then cache_of t else 0)
       + (if ba_reasoning_add b then or_zero (tk_reasoning t) else 0)"

definition consistent_counts :: "tokens \<Rightarrow> basis \<Rightarrow> bool" where
  "consistent_counts t b \<longleftrightarrow>
     or_zero (tk_prompt t) + or_zero (tk_completion t) + cache_of t + or_zero (tk_reasoning t) \<le> u64_max \<and>
     (ba_cache_excl b \<or> cache_of t \<le> or_zero (tk_prompt t)) \<and>
     (ba_reasoning_add b \<or> or_zero (tk_reasoning t) \<le> or_zero (tk_completion t))"

lemma detect_basis_exact:
  assumes ok: "consistent_counts t b"
    and unambiguous: "cache_of t \<noteq> or_zero (tk_reasoning t) \<or> ba_cache_excl b = ba_reasoning_add b"
  shows "cache_of t = 0 \<or> ba_cache_excl (detect_basis t (Some (counted_total t b))) = ba_cache_excl b"
    and "or_zero (tk_reasoning t) = 0 \<or> ba_reasoning_add (detect_basis t (Some (counted_total t b))) = ba_reasoning_add b"
proof -
  let ?p = "or_zero (tk_prompt t)" and ?c = "or_zero (tk_completion t)" and ?r = "or_zero (tk_reasoning t)"
  let ?k = "cache_of t"
  have w: "wrap_add ?p ?c = ?p + ?c" "wrap_add (or_zero (tk_cache_read t)) (or_zero (tk_cache_write t)) = ?k"
      "wrap_add ?k ?r = ?k + ?r"
    using ok by (simp_all add: consistent_counts_def cache_of_def wrap_add_exact)
  have k: "ba_cache_excl b \<or> ?k \<le> ?p" using ok by (simp add: consistent_counts_def)
  note d = detect_basis_def Let_def w counted_total_def
  show "?k = 0 \<or> ba_cache_excl (detect_basis t (Some (counted_total t b))) = ba_cache_excl b"
    using k unambiguous
    by (cases "ba_cache_excl b"; cases "ba_reasoning_add b"; cases "?k = 0"; cases "?r = 0") (simp_all add: d)
  show "?r = 0 \<or> ba_reasoning_add (detect_basis t (Some (counted_total t b))) = ba_reasoning_add b"
    using k unambiguous
    by (cases "ba_cache_excl b"; cases "ba_reasoning_add b"; cases "?k = 0"; cases "?r = 0") (simp_all add: d)
qed

lemma split_tokens_sum:
  assumes ok: "consistent_counts t b"
    and same: "cache_of t = 0 \<or> ba_cache_excl b' = ba_cache_excl b"
      "or_zero (tk_reasoning t) = 0 \<or> ba_reasoning_add b' = ba_reasoning_add b"
  shows "sp_uncached (split_tokens t b') + sp_cache_read (split_tokens t b') + sp_cache_write (split_tokens t b')
      + sp_text_out (split_tokens t b') + sp_reasoning (split_tokens t b') = counted_total t b"
    and "sp_total_in (split_tokens t b') = or_zero (tk_prompt t) + (if ba_cache_excl b then cache_of t else 0)"
proof -
  let ?p = "or_zero (tk_prompt t)" and ?cr = "or_zero (tk_cache_read t)" and ?cw = "or_zero (tk_cache_write t)"
  have w: "wrap_add ?cr ?cw = ?cr + ?cw" "wrap_add ?p ?cr = ?p + ?cr" "wrap_add (?p + ?cr) ?cw = ?p + ?cr + ?cw"
    using ok by (simp_all add: consistent_counts_def cache_of_def wrap_add_exact)
  show "sp_uncached (split_tokens t b') + sp_cache_read (split_tokens t b') + sp_cache_write (split_tokens t b')
      + sp_text_out (split_tokens t b') + sp_reasoning (split_tokens t b') = counted_total t b"
    using ok same unfolding consistent_counts_def
    by (auto simp: split_tokens_def Let_def w counted_total_def cache_of_def split: if_splits)
  show "sp_total_in (split_tokens t b') = ?p + (if ba_cache_excl b then cache_of t else 0)"
    using same by (auto simp: split_tokens_def Let_def w cache_of_def)
qed

section \<open>The names a model id is looked up under\<close>

definition stripped :: "nat \<Rightarrow> str \<Rightarrow> str \<Rightarrow> bool" where
  "stripped n cur key \<longleftrightarrow>
     (\<exists>segs. length segs < n \<and> list_all is_version_segment segs \<and>
        cur = key @ concat (map (Cons (CHR ''-'')) segs) \<and> (segs = [] \<or> key \<noteq> []))"

definition id_variants :: "str \<Rightarrow> str list" where
  "id_variants rest = (let base = takeWhile (\<lambda>c. c \<noteq> CHR ''@'') rest in [base, strip_region base])"

definition id_names :: "str \<Rightarrow> str \<Rightarrow> bool" where
  "id_names s key \<longleftrightarrow>
     (\<exists>pre rest v. s = pre @ rest \<and> (pre = [] \<or> last pre = CHR ''/'' \<and> rest \<noteq> []) \<and>
        v \<in> set (id_variants rest) \<and> stripped 5 v key)"

text \<open>
  The id itself, or its lower-case form without leading \<open>provider/\<close> segments, without what follows
  an \<open>@\<close>, with or without a region prefix, and without up to four trailing version segments.
\<close>

definition names_model :: "str \<Rightarrow> str \<Rightarrow> bool" where
  "names_model model key \<longleftrightarrow> key = model \<or> id_names (to_ascii_lowercase model) key"

lemma rsplit_once_Some: "rsplit_once c s = Some (a, b) \<longleftrightarrow> s = a @ c # b \<and> c \<notin> set b"
proof
  assume "rsplit_once c s = Some (a, b)"
  then have "split_once c (rev s) = Some (rev b, rev a)" by (auto simp: rsplit_once_def)
  from split_once_Some [OF this] show "s = a @ c # b \<and> c \<notin> set b" by (simp add: rev_swap)
next
  assume "s = a @ c # b \<and> c \<notin> set b"
  then show "rsplit_once c s = Some (a, b)" by (simp add: rsplit_once_def)
qed

lemma digits_no_dash: "list_all is_digit ds \<Longrightarrow> CHR ''-'' \<notin> set ds"
  by (auto simp: list_all_iff)

lemma split_once_set: "split_once c s = Some (a, b) \<Longrightarrow> set s = insert c (set a \<union> set b)"
  using split_once_Some [of c s a b] by auto

lemma version_segment_no_dash: "is_version_segment seg \<Longrightarrow> CHR ''-'' \<notin> set seg"
  by (auto simp: is_version_segment_def strip_prefix_Some split_once_set dest: digits_no_dash
      split: if_splits option.splits)

lemma stripped_0 [simp]: "\<not> stripped 0 cur key"
  by (simp add: stripped_def)

lemma stripped_Suc:
  "stripped (Suc n) cur key \<longleftrightarrow> key = cur \<or>
     (\<exists>head seg. rsplit_once (CHR ''-'') cur = Some (head, seg) \<and> is_version_segment seg \<and> head \<noteq> [] \<and>
        stripped n head key)"
proof
  assume "stripped (Suc n) cur key"
  then obtain segs where segs: "length segs < Suc n" "list_all is_version_segment segs"
    "cur = key @ concat (map (Cons (CHR ''-'')) segs)" "segs = [] \<or> key \<noteq> []"
    by (auto simp: stripped_def)
  show "key = cur \<or> (\<exists>head seg. rsplit_once (CHR ''-'') cur = Some (head, seg) \<and> is_version_segment seg \<and>
      head \<noteq> [] \<and> stripped n head key)"
  proof (cases segs rule: rev_cases)
    case Nil
    then show ?thesis using segs by simp
  next
    case (snoc segs' seg)
    let ?head = "key @ concat (map (Cons (CHR ''-'')) segs')"
    have "rsplit_once (CHR ''-'') cur = Some (?head, seg)"
      using segs snoc by (simp add: rsplit_once_Some version_segment_no_dash)
    moreover have "stripped n ?head key" using segs snoc by (auto simp: stripped_def)
    ultimately show ?thesis using segs snoc by auto
  qed
next
  assume "key = cur \<or> (\<exists>head seg. rsplit_once (CHR ''-'') cur = Some (head, seg) \<and> is_version_segment seg \<and>
      head \<noteq> [] \<and> stripped n head key)"
  then show "stripped (Suc n) cur key"
  proof
    assume "key = cur"
    then show ?thesis by (auto simp: stripped_def intro: exI [of _ "[]"])
  next
    assume "\<exists>head seg. rsplit_once (CHR ''-'') cur = Some (head, seg) \<and> is_version_segment seg \<and> head \<noteq> [] \<and>
        stripped n head key"
    then obtain head seg where c: "cur = head @ CHR ''-'' # seg" "is_version_segment seg" "head \<noteq> []" "stripped n head key"
      by (auto simp: rsplit_once_Some)
    then obtain segs where h: "length segs < n" "list_all is_version_segment segs"
      "head = key @ concat (map (Cons (CHR ''-'')) segs)" "segs = [] \<or> key \<noteq> []"
      unfolding stripped_def by blast
    then have "key \<noteq> []" using c(3) by auto
    then show ?thesis using c h unfolding stripped_def by (intro exI [of _ "segs @ [seg]"]) simp
  qed
qed

lemma lookup_versions_exact:
  "case lookup_versions n models cur of
     Some (key, p) \<Rightarrow> om_get models key = Some p \<and> stripped n cur key
   | None \<Rightarrow> (\<forall>key. stripped n cur key \<longrightarrow> om_get models key = None)"
proof (induction n arbitrary: cur)
  case (Suc n)
  show ?case
  proof (cases "om_get models cur")
    case None
    show ?thesis
    proof (cases "rsplit_once (CHR ''-'') cur")
      case (Some hs)
      obtain head seg where hs: "hs = (head, seg)" by fastforce
      show ?thesis using Suc [of head] None Some hs
        by (auto simp: stripped_Suc split: option.splits)
    qed (simp add: None stripped_Suc)
  qed (simp add: stripped_Suc)
qed simp

lemma lookup_versions_SomeD:
  "lookup_versions n models cur = Some (key, p) \<Longrightarrow> om_get models key = Some p \<and> stripped n cur key"
  using lookup_versions_exact [of n cur models] by simp

lemma lookup_versions_NoneD:
  "lookup_versions n models cur = None \<Longrightarrow> stripped n cur key \<Longrightarrow> om_get models key = None"
  using lookup_versions_exact [of n cur models] by simp

lemma id_names_step:
  "id_names s key \<longleftrightarrow> (\<exists>v \<in> set (id_variants s). stripped 5 v key) \<or>
     (\<exists>a b. split_once (CHR ''/'') s = Some (a, b) \<and> b \<noteq> [] \<and> id_names b key)"
proof
  assume "id_names s key"
  then obtain pre rest v where n: "s = pre @ rest" "pre = [] \<or> last pre = CHR ''/'' \<and> rest \<noteq> []"
    "v \<in> set (id_variants rest)" "stripped 5 v key"
    by (auto simp: id_names_def)
  show "(\<exists>v \<in> set (id_variants s). stripped 5 v key) \<or>
     (\<exists>a b. split_once (CHR ''/'') s = Some (a, b) \<and> b \<noteq> [] \<and> id_names b key)"
  proof (cases "pre = []")
    case False
    then have "CHR ''/'' \<in> set pre" using n by (metis last_in_set)
    then obtain a pre' where pre: "pre = a @ CHR ''/'' # pre'" "CHR ''/'' \<notin> set a" by (meson split_list_first)
    have "id_names (pre' @ rest) key"
      unfolding id_names_def using n pre False by (intro exI [of _ pre'] exI [of _ rest] exI [of _ v]) (auto split: if_splits)
    then show ?thesis using n pre False by auto
  qed (use n in auto)
next
  assume "(\<exists>v \<in> set (id_variants s). stripped 5 v key) \<or>
     (\<exists>a b. split_once (CHR ''/'') s = Some (a, b) \<and> b \<noteq> [] \<and> id_names b key)"
  then show "id_names s key"
  proof
    assume "\<exists>v \<in> set (id_variants s). stripped 5 v key"
    then obtain v where v: "v \<in> set (id_variants s)" "stripped 5 v key" by blast
    have "s = [] @ s" by simp
    then show ?thesis unfolding id_names_def using v by blast
  next
    assume "\<exists>a b. split_once (CHR ''/'') s = Some (a, b) \<and> b \<noteq> [] \<and> id_names b key"
    then obtain a b where ab: "split_once (CHR ''/'') s = Some (a, b)" "b \<noteq> []" "id_names b key" by blast
    then obtain pre rest v where n: "b = pre @ rest"
      "pre = [] \<or> last pre = CHR ''/'' \<and> rest \<noteq> []" "v \<in> set (id_variants rest)" "stripped 5 v key"
      unfolding id_names_def by blast
    from split_once_Some [OF ab(1)] ab n show ?thesis
      unfolding id_names_def
      by (intro exI [of _ "a @ CHR ''/'' # pre"] exI [of _ rest] exI [of _ v]) auto
  qed
qed

lemma lookup_loop_exact:
  "case lookup_loop models rest of
     Some (key, p) \<Rightarrow> om_get models key = Some p \<and> id_names rest key
   | None \<Rightarrow> (\<forall>key. id_names rest key \<longrightarrow> om_get models key = None)"
proof (induction models rest rule: lookup_loop.induct)
  case (1 models rest)
  show ?case
  proof (cases "find_map (lookup_stripping_versions models) (id_variants rest)")
    case (Some hit)
    then obtain v where v: "v \<in> set (id_variants rest)" "lookup_stripping_versions models v = Some hit"
      by (meson find_map_Some)
    obtain key p where kp: "hit = (key, p)" by fastforce
    have "lookup_loop models rest = Some hit"
      using Some by (subst lookup_loop.simps) (simp add: id_variants_def Let_def)
    moreover have "om_get models key = Some p \<and> stripped 5 v key"
      using v kp by (auto simp: lookup_stripping_versions_def dest: lookup_versions_SomeD)
    moreover have "id_names rest key" using v(1) calculation(2) by (subst id_names_step) blast
    ultimately show ?thesis using kp by simp
  next
    case None
    then have here: "stripped 5 v key \<Longrightarrow> om_get models key = None" if "v \<in> set (id_variants rest)" for v key
      using that by (auto simp: find_map_None lookup_stripping_versions_def dest: lookup_versions_NoneD)
    show ?thesis
    proof (cases "split_once (CHR ''/'') rest")
      case None': None
      have "lookup_loop models rest = None"
        using None None' by (subst lookup_loop.simps) (simp add: id_variants_def Let_def)
      then show ?thesis using here None' by (auto simp: id_names_step [of rest])
    next
      case (Some ab)
      obtain a b where ab: "ab = (a, b)" by fastforce
      have eq: "lookup_loop models rest = (if b \<noteq> [] then lookup_loop models b else None)"
        using None Some ab by (subst lookup_loop.simps) (simp add: id_variants_def Let_def)
      show ?thesis
      proof (cases "b = []")
        case True
        then show ?thesis using here Some ab eq by (auto simp: id_names_step [of rest])
      next
        case False
        have ih: "case lookup_loop models b of Some (key, p) \<Rightarrow> om_get models key = Some p \<and> id_names b key
            | None \<Rightarrow> (\<forall>key. id_names b key \<longrightarrow> om_get models key = None)"
          using 1 [OF refl _ Some [unfolded ab] refl False] None by (simp add: id_variants_def Let_def)
        show ?thesis using ih here Some ab eq False
          by (auto simp: id_names_step [of rest] split: option.splits)
      qed
    qed
  qed
qed

text \<open>
  C28. A price lookup finds exactly the models the id names: a hit is a table entry under the id or
  under one of its normalised forms, and a miss means no entry of the table has such a name.
\<close>
theorem lookup_exact:
  "case lookup t model of
     Some (key, p) \<Rightarrow> om_get (pt_models t) key = Some p \<and> names_model model key
   | None \<Rightarrow> {key. names_model model key \<and> om_get (pt_models t) key \<noteq> None} = {}"
  using lookup_loop_exact [of "to_ascii_lowercase model" "pt_models t"]
  by (auto simp: lookup_def names_model_def split: option.splits)

section \<open>Pricing fills a missing cost\<close>

lemma om_remove_insert: "om_remove k (om_insert k v m) = om_remove k m"
  by (induction m) (auto simp: om_remove_def)

lemma om_remove_remove: "om_remove k (om_remove k m) = om_remove k m"
  by (simp add: om_remove_def)

lemma derive_cost_keeps_reported:
  "ns_cost_usd s \<noteq> None \<or> has_cost_attribute s \<Longrightarrow> derive_cost t s = None"
  by (auto simp: derive_cost_def split: option.splits)

lemma derive_cost_Some:
  assumes "derive_cost t s = Some d"
  shows "ns_cost_usd s = None" "\<not> has_cost_attribute s"
    "\<exists>model price. ns_model s = Some model \<and> lookup t model = Some (de_model d, price) \<and>
       de_cost d = price_tokens price (ns_tokens s) (de_basis d)"
    "de_basis d = detect_basis (ns_tokens s) (reported_total s)"
  using assms by (auto simp: derive_cost_def Let_def split: if_splits option.splits)

text \<open>The basis a stored span says its counts were read on.\<close>

definition stored_basis :: "normalized_span \<Rightarrow> basis" where
  "stored_basis s =
     (case om_get (ns_raw_attributes s) basis_key of
        Some (JStr st) \<Rightarrow> basis_from_stamp st
      | _ \<Rightarrow> \<lparr>ba_cache_excl = False, ba_reasoning_add = False\<rparr>)"

lemma basis_stamp_None: "basis_stamp b = None \<Longrightarrow> b = \<lparr>ba_cache_excl = False, ba_reasoning_add = False\<rparr>"
  by (cases b) (auto simp: basis_stamp_def split: bool.splits)

text \<open>
  When the ingest-time pricing changes a span, the span had no cost and no cost attribute, its
  model is in the table, and the cost is the arithmetic at that model's price. Nothing but the cost
  and the basis mark changes, the mark (also one the caller sent) reads back as the basis used, and
  no later table prices the span again.
\<close>
theorem pricing_only_fills_a_missing_cost:
  assumes "apply_price t s \<noteq> s"
  defines "s' \<equiv> apply_price t s"
  shows "(ns_cost_usd s = None \<and> \<not> has_cost_attribute s) \<and>
    (\<exists>model key price. ns_model s = Some model \<and> lookup t model = Some (key, price) \<and>
      ns_cost_usd s' = Some (price_tokens price (ns_tokens s) (detect_basis (ns_tokens s) (reported_total s)))) \<and>
    (s'\<lparr>ns_cost_usd := None, ns_raw_attributes := om_remove basis_key (ns_raw_attributes s')\<rparr> =
      s\<lparr>ns_raw_attributes := om_remove basis_key (ns_raw_attributes s)\<rparr>) \<and>
    (stored_basis s' = detect_basis (ns_tokens s) (reported_total s)) \<and>
    (apply_price t' s' = s')"
proof -
  obtain d where d: "derive_cost t s = Some d" using assms(1) by (auto simp: apply_price_def split: option.splits)
  note D = derive_cost_Some [OF d]
  have s': "s' = s\<lparr>ns_cost_usd := Some (de_cost d),
      ns_raw_attributes := (case basis_stamp (de_basis d) of
         None \<Rightarrow> om_remove basis_key (ns_raw_attributes s)
       | Some st \<Rightarrow> om_insert basis_key (JStr st) (om_remove basis_key (ns_raw_attributes s)))\<rparr>"
    by (simp add: s'_def apply_price_def d Let_def)
  have p1: "ns_cost_usd s = None \<and> \<not> has_cost_attribute s" using D by simp
  have p2: "\<exists>model key price. ns_model s = Some model \<and> lookup t model = Some (key, price) \<and>
      ns_cost_usd s' = Some (price_tokens price (ns_tokens s) (detect_basis (ns_tokens s) (reported_total s)))"
    using D by (auto simp: s')
  have p3: "s'\<lparr>ns_cost_usd := None, ns_raw_attributes := om_remove basis_key (ns_raw_attributes s')\<rparr> =
      s\<lparr>ns_raw_attributes := om_remove basis_key (ns_raw_attributes s)\<rparr>"
    using D(1) by (cases "basis_stamp (de_basis d)") (simp_all add: s' om_remove_insert om_remove_remove)
  have p4: "stored_basis s' = detect_basis (ns_tokens s) (reported_total s)"
    by (auto simp: stored_basis_def s' map_simps D(4) [symmetric] dest: basis_stamp_None basis_stamp_round_trip
        split: option.split)
  have "ns_cost_usd s' \<noteq> None" by (simp add: s')
  then have "derive_cost t' s' = None" using derive_cost_keeps_reported by blast
  then have p5: "apply_price t' s' = s'" by (simp add: apply_price_def)
  show ?thesis using p1 p2 p3 p4 p5 by blast
qed

definition one_model :: price_table where
  "one_model = \<lparr>pt_version = ''v1'', pt_as_of = None, pt_models = [(''claude'', \<lparr>pr_base = \<lparr>rt_input = f_of_int 3, rt_output = f_of_int 3,
     rt_cache_read = None, rt_cache_write = None\<rparr>, pr_reasoning = None, pr_tiers = []\<rparr>)]\<rparr>"

definition anthropic_tokens :: tokens where
  "anthropic_tokens = tokens_default\<lparr>tk_prompt := Some 600, tk_completion := Some 200, tk_cache_read := Some 400\<rparr>"

definition unpriced_span :: normalized_span where
  "unpriced_span = wordy_span\<lparr>ns_model := Some ''claude'', ns_tokens := anthropic_tokens, ns_cost_usd := None,
     ns_raw_attributes := om_empty\<rparr>"

theorem pricing_only_fills_a_missing_cost_witness:
  "apply_price one_model (apply_price one_model unpriced_span) = apply_price one_model unpriced_span
     \<and> ns_cost_usd unpriced_span = None"
proof -
  have "derive_cost one_model unpriced_span \<noteq> None"
    by (simp add: derive_cost_def unpriced_span_def anthropic_tokens_def tokens_default_def lookup_def one_model_def om_get_def
        om_empty_def has_cost_attribute_def cost_attributes_def Let_def)
  then have "apply_price one_model unpriced_span \<noteq> unpriced_span"
    by (auto simp: apply_price_def unpriced_span_def Let_def dest: arg_cong [of _ _ ns_cost_usd])
  from pricing_only_fills_a_missing_cost [OF this] show ?thesis by blast
qed

section \<open>Every token is priced once\<close>

text \<open>
  A bill that knows on which basis the source counted: the kinds of token, how many there are of each,
  the rate of each at the tier of the whole input, and the sum in the order of the code.
\<close>

datatype token_kind = Fresh | CacheRead | CacheWrite | TextOut | Reasoning

definition kind_count :: "tokens \<Rightarrow> basis \<Rightarrow> token_kind \<Rightarrow> nat" where
  "kind_count t b k =
     (case k of
        Fresh \<Rightarrow> or_zero (tk_prompt t) - (if ba_cache_excl b then 0 else cache_of t)
      | CacheRead \<Rightarrow> or_zero (tk_cache_read t)
      | CacheWrite \<Rightarrow> or_zero (tk_cache_write t)
      | TextOut \<Rightarrow> or_zero (tk_completion t) - (if ba_reasoning_add b then 0 else or_zero (tk_reasoning t))
      | Reasoning \<Rightarrow> or_zero (tk_reasoning t))"

definition whole_input :: "tokens \<Rightarrow> basis \<Rightarrow> nat" where
  "whole_input t b = kind_count t b Fresh + kind_count t b CacheRead + kind_count t b CacheWrite"

definition kind_rate :: "price \<Rightarrow> nat \<Rightarrow> token_kind \<Rightarrow> f64" where
  "kind_rate p input k =
     (let r = rates_for p input
      in case k of
           Fresh \<Rightarrow> rt_input r
         | CacheRead \<Rightarrow> (case rt_cache_read r of Some x \<Rightarrow> x | None \<Rightarrow> rt_input r)
         | CacheWrite \<Rightarrow> (case rt_cache_write r of Some x \<Rightarrow> x | None \<Rightarrow> rt_input r)
         | TextOut \<Rightarrow> rt_output r
         | Reasoning \<Rightarrow> (case pr_reasoning p of Some x \<Rightarrow> x | None \<Rightarrow> rt_output r))"

definition charge :: "price \<Rightarrow> tokens \<Rightarrow> basis \<Rightarrow> token_kind \<Rightarrow> f64" where
  "charge p t b k = f_mul (f_of_u64 (kind_count t b k)) (kind_rate p (whole_input t b) k)"

definition bill :: "price \<Rightarrow> tokens \<Rightarrow> basis \<Rightarrow> f64" where
  "bill p t b = round_usd (foldl f_add (charge p t b Fresh) (map (charge p t b) [CacheRead, CacheWrite, TextOut, Reasoning]))"

lemma price_tokens_bill:
  assumes "consistent_counts t b"
    and "cache_of t \<noteq> or_zero (tk_reasoning t) \<or> ba_cache_excl b = ba_reasoning_add b"
  shows "price_tokens p t (detect_basis t (Some (counted_total t b))) = bill p t b"
proof -
  let ?sp = "split_tokens t (detect_basis t (Some (counted_total t b)))"
  note same = detect_basis_exact [OF assms]
  have w: "wrap_add (or_zero (tk_cache_read t)) (or_zero (tk_cache_write t)) = cache_of t"
    using assms(1) by (simp add: consistent_counts_def cache_of_def wrap_add_exact)
  have fresh: "sp_uncached ?sp = kind_count t b Fresh" and words: "sp_text_out ?sp = kind_count t b TextOut"
    using same by (auto simp: split_tokens_def Let_def w kind_count_def)
  have rest: "sp_cache_read ?sp = kind_count t b CacheRead" "sp_cache_write ?sp = kind_count t b CacheWrite"
    "sp_reasoning ?sp = kind_count t b Reasoning"
    by (simp_all add: split_tokens_def Let_def kind_count_def)
  have input: "sp_total_in ?sp = whole_input t b"
    using split_tokens_sum(2) [OF assms(1) same] assms(1)
    by (auto simp: whole_input_def kind_count_def cache_of_def consistent_counts_def)
  show ?thesis
    unfolding price_tokens_def Let_def fresh words rest input bill_def charge_def kind_rate_def by simp
qed

text \<open>
  C9. Every token of a model call is priced exactly once: when a span without a cost reports a total that its
  source counts on a consistent basis, the cost that pricing stores is the bill on that basis (fresh input,
  cache reads, cache writes, text output and reasoning, each count times its own rate at the tier of the
  whole input, added and rounded), and the counts on the bill sum to the reported total. Only when the
  cache and reasoning counts are equal and just one of them is additive does the total leave the basis open.
\<close>
theorem every_token_is_priced_once:
  assumes "consistent_counts (ns_tokens s) b"
    and "cache_of (ns_tokens s) \<noteq> or_zero (tk_reasoning (ns_tokens s)) \<or> ba_cache_excl b = ba_reasoning_add b"
    and "reported_total s = Some (counted_total (ns_tokens s) b)"
    and "ns_cost_usd s = None" "\<not> has_cost_attribute s" "\<not> (tk_prompt (ns_tokens s) = None \<and> tk_completion (ns_tokens s) = None)"
    and "ns_model s = Some model" "lookup table model = Some (key, p)"
  shows "ns_cost_usd (apply_price table s) = Some (bill p (ns_tokens s) b) \<and>
    (\<Sum>k\<leftarrow>[Fresh, CacheRead, CacheWrite, TextOut, Reasoning]. kind_count (ns_tokens s) b k) = counted_total (ns_tokens s) b"
proof
  have "derive_cost table s = Some \<lparr>de_cost = bill p (ns_tokens s) b, de_model = key, de_basis = detect_basis (ns_tokens s) (reported_total s)\<rparr>"
    using assms(3-8) price_tokens_bill [OF assms(1,2)] by (auto simp: derive_cost_def Let_def)
  then show "ns_cost_usd (apply_price table s) = Some (bill p (ns_tokens s) b)"
    by (simp add: apply_price_def Let_def)
  show "(\<Sum>k\<leftarrow>[Fresh, CacheRead, CacheWrite, TextOut, Reasoning]. kind_count (ns_tokens s) b k) = counted_total (ns_tokens s) b"
    using assms(1) by (auto simp: kind_count_def counted_total_def consistent_counts_def cache_of_def)
qed

definition totalled_span :: normalized_span where
  "totalled_span = unpriced_span\<lparr>ns_raw_attributes := om_insert ''gen_ai.usage.total_tokens'' (json_int 1200) om_empty\<rparr>"

theorem every_token_is_priced_once_witness:
  "\<exists>p. ns_cost_usd (apply_price one_model totalled_span) = Some (bill p anthropic_tokens \<lparr>ba_cache_excl = True, ba_reasoning_add = False\<rparr>)
     \<and> kind_count anthropic_tokens \<lparr>ba_cache_excl = True, ba_reasoning_add = False\<rparr> CacheRead = 400"
proof -
  let ?b = "\<lparr>ba_cache_excl = True, ba_reasoning_add = False\<rparr>"
  have t: "ns_tokens totalled_span = anthropic_tokens" by (simp add: totalled_span_def unpriced_span_def)
  have c: "consistent_counts anthropic_tokens ?b"
    "cache_of anthropic_tokens \<noteq> or_zero (tk_reasoning anthropic_tokens) \<or> ba_cache_excl ?b = ba_reasoning_add ?b"
    "counted_total anthropic_tokens ?b = 1200"
    by (simp_all add: consistent_counts_def cache_of_def anthropic_tokens_def tokens_default_def u64_max_def counted_total_def)
  have r: "reported_total totalled_span = Some (counted_total anthropic_tokens ?b)" "\<not> has_cost_attribute totalled_span"
    unfolding c(3) by (simp_all add: reported_total_def totalled_span_def map_simps json_int_def j_as_u64_def has_cost_attribute_def cost_attributes_def)
  obtain key p where m: "lookup one_model ''claude'' = Some (key, p)"
    by (simp add: lookup_def one_model_def om_get_def)
  have "ns_cost_usd (apply_price one_model totalled_span) = Some (bill p (ns_tokens totalled_span) ?b)"
    using every_token_is_priced_once [of totalled_span ?b "''claude''" one_model key p] c r m
    unfolding t by (simp add: totalled_span_def unpriced_span_def anthropic_tokens_def)
  then show ?thesis unfolding t by (intro exI [of _ p]) (simp add: kind_count_def anthropic_tokens_def tokens_default_def)
qed

section \<open>The live table keeps the baseline\<close>

text \<open>The tables handed out over a sequence of requests, each with its time and the file as it then is.\<close>

fun live_run :: "price_env \<Rightarrow> price_table \<Rightarrow> (nat \<times> file_view) list \<Rightarrow> live \<Rightarrow> price_table list" where
  "live_run pe baseline [] l = []"
| "live_run pe baseline ((now, f) # rest) l =
     (let (t, l') = live_table pe baseline now f l in t # live_run pe baseline rest l')"

definition prices_baseline :: "price_table \<Rightarrow> price_table \<Rightarrow> bool" where
  "prices_baseline baseline t \<longleftrightarrow> set (om_keys (pt_models baseline)) \<subseteq> set (om_keys (pt_models t))"

lemma overlaid_get:
  "om_get (pt_models (overlaid_with self over)) k =
     (case map_of (rev (pt_models over)) k of Some p \<Rightarrow> Some p | None \<Rightarrow> om_get (pt_models self) k)"
proof -
  have "om_get (fold (\<lambda>(k, v). om_insert k v) xs m) k = (case map_of (rev xs) k of Some p \<Rightarrow> Some p | None \<Rightarrow> om_get m k)"
    for xs m
    by (induction xs arbitrary: m) (auto simp: map_simps map_add_def split: option.splits)
  then show ?thesis by (simp add: overlaid_with_def)
qed

lemma overlaid_prices_baseline: "prices_baseline baseline (overlaid_with baseline over)"
  unfolding prices_baseline_def by (auto simp: om_keys_get overlaid_get split: option.split)

lemma load_over_baseline_prices:
  "load_over_baseline pe baseline f = Some t \<Longrightarrow> prices_baseline baseline t"
  by (auto simp: load_over_baseline_def overlaid_prices_baseline Let_def split: option.splits if_splits)

lemma reload_prices_baseline:
  "prices_baseline baseline (li_table l) \<Longrightarrow> prices_baseline baseline (li_table (reload_if_changed pe baseline f l))"
  by (auto simp: reload_if_changed_def Let_def dest: load_over_baseline_prices split: option.split)

lemma live_table_prices_baseline:
  "prices_baseline baseline (li_table l) \<Longrightarrow> prices_baseline baseline (li_table (snd (live_table pe baseline now f l)))"
  by (simp add: live_table_def Let_def reload_prices_baseline)

lemma live_table_fst: "fst (live_table pe baseline now f l) = li_table (snd (live_table pe baseline now f l))"
  by (simp add: live_table_def Let_def)

lemma live_run_prices_baseline:
  "prices_baseline baseline (li_table l) \<Longrightarrow> list_all (prices_baseline baseline) (live_run pe baseline calls l)"
proof (induction calls arbitrary: l)
  case (Cons c calls)
  obtain now f where c: "c = (now, f)" by fastforce
  note t = live_table_prices_baseline [OF Cons(2), of pe now f]
  show ?case using Cons(1) [OF t] t by (simp add: c case_prod_beta live_table_fst)
qed simp

text \<open>
  Whatever happens to the watched file after the start (edits that do not parse, a file that
  vanishes), every request is priced with a table that has every model of the compiled-in baseline.
\<close>
theorem live_table_never_loses_the_baseline:
  "list_all (prices_baseline baseline)
     (live_run pe baseline calls (snd (watch_file pe baseline f0 (live_new baseline))))"
proof (rule live_run_prices_baseline)
  have "prices_baseline baseline baseline" by (simp add: prices_baseline_def)
  then show "prices_baseline baseline (li_table (snd (watch_file pe baseline f0 (live_new baseline))))"
    by (auto simp: watch_file_def live_new_def dest: load_over_baseline_prices split: option.split)
qed

end
