(* ===== verification/Normalize.thy ===== *)
theory Normalize
  imports Price
begin

text \<open>
  \<^verbatim>\<open>src/normalize.rs\<close> for one span: each field read under the spellings of both conventions, the kind
  inferred when none is given, the deprecated indexed messages put together, the attributes kept
  whole. Serialization to JSON text is a parameter; counts are summed as in a release build.
\<close>

section \<open>The crates the code calls\<close>

text \<open>
  \<open>serde_json::to_string\<close>, \<open>serde_json::from_str\<close>, \<open>Sha256::digest\<close> and the derived \<open>Debug\<close> of an
  \<open>AnyValue\<close>.
\<close>

record crates =
  cr_to_string :: "json \<Rightarrow> str option"
  cr_from_str :: "str \<Rightarrow> json option"
  cr_sha256 :: "str \<Rightarrow> byte list"
  cr_debug :: "any_value \<Rightarrow> str"

section \<open>Kind and dialect\<close>

definition has_key_prefix :: "key_value list \<Rightarrow> str \<Rightarrow> bool" where
  "has_key_prefix attrs p = list_ex (\<lambda>kv. starts_with p (fst kv)) attrs"

definition has_genai_call :: "key_value list \<Rightarrow> bool" where
  "has_genai_call attrs =
     list_ex (\<lambda>kv. starts_with ''gen_ai.request.'' (fst kv) \<or> starts_with ''gen_ai.response.'' (fst kv)
        \<or> starts_with ''gen_ai.usage.'' (fst kv)) attrs"

definition kind_of_operation :: "key_value list \<Rightarrow> str \<Rightarrow> str" where
  "kind_of_operation attrs op =
     (let o' = to_ascii_lowercase op
      in if o' \<in> set [''chat'', ''text_completion'', ''generate_content''] then ''LLM''
         else if o' \<in> set [''embeddings'', ''embedding''] then ''EMBEDDING''
         else if o' \<in> set [''execute_tool'', ''tool''] then ''TOOL''
         else if o' \<in> set [''create_agent'', ''invoke_agent'', ''agent''] then ''AGENT''
         else if o' \<in> set [''retrieval'', ''search_memory''] then ''RETRIEVER''
         else if has_genai_call attrs then ''LLM''
         else ''CHAIN'')"

definition infer_oi_kind :: "key_value list \<Rightarrow> str option" where
  "infer_oi_kind attrs =
     (case attr_str attrs ''gen_ai.operation.name'' of
        Some op \<Rightarrow> Some (kind_of_operation attrs op)
      | None \<Rightarrow>
          if has_genai_call attrs then Some ''LLM''
          else if has_key_prefix attrs ''gen_ai.tool.''
                  \<or> attr_str attrs ''mcp.method.name'' = Some ''tools/call'' then Some ''TOOL''
          else None)"

definition detect_dialect :: "key_value list \<Rightarrow> dialect" where
  "detect_dialect attrs =
     (let has_oi = list_ex (\<lambda>kv. fst kv = ''openinference.span.kind'' \<or> starts_with ''llm.'' (fst kv)
             \<or> starts_with ''openinference.'' (fst kv)) attrs;
          has_genai = has_key_prefix attrs ''gen_ai.''
      in case (has_oi, has_genai) of
           (True, True) \<Rightarrow> Mixed
         | (True, False) \<Rightarrow> OpenInference
         | (False, True) \<Rightarrow> GenAi
         | (False, False) \<Rightarrow> Unknown)"

section \<open>Indexed messages\<close>

definition max_indexed_messages :: usize where
  "max_indexed_messages = 4096"

type_synonym message_parts = "str option \<times> str option"

definition scalar_of :: "any_value option \<Rightarrow> str option" where
  "scalar_of v = (case v of None \<Rightarrow> None | Some x \<Rightarrow> scalar_string x)"

text \<open>The index and the sub-key of an indexed attribute.\<close>

definition message_key :: "str \<Rightarrow> str \<Rightarrow> (usize \<times> str) option" where
  "message_key prefix key =
     (case strip_prefix prefix key of
        None \<Rightarrow> None
      | Some rest \<Rightarrow>
          (case split_once (CHR ''.'') rest of
             None \<Rightarrow> None
           | Some (idx_str, field) \<Rightarrow>
               (case parse_u64 idx_str of
                  None \<Rightarrow> None
                | Some idx \<Rightarrow> if max_indexed_messages \<le> idx then None else Some (idx, field))))"

definition bucket :: "str \<Rightarrow> key_value \<Rightarrow> (usize, message_parts) omap \<Rightarrow> (usize, message_parts) omap" where
  "bucket prefix kv m =
     (case message_key prefix (fst kv) of
        None \<Rightarrow> m
      | Some (idx, field) \<Rightarrow>
          om_alter idx (None, None)
            (\<lambda>(role, content).
               if field = ''role'' then (scalar_of (snd kv), content)
               else if field = ''content'' then (role, scalar_of (snd kv))
               else (role, content)) m)"

definition message_json :: "message_parts \<Rightarrow> json" where
  "message_json p =
     JObj ((case snd p of None \<Rightarrow> id | Some c \<Rightarrow> om_insert ''content'' (JStr c))
        ((case fst p of None \<Rightarrow> id | Some r \<Rightarrow> om_insert ''role'' (JStr r)) om_empty))"

lemma fewer_indices:
  assumes "om_get m i = Some p"
  shows "length (filter (\<lambda>k. Suc i \<le> k) (om_keys m)) < length (filter (\<lambda>k. i \<le> k) (om_keys m))"
proof -
  let ?xs = "filter (\<lambda>k. i \<le> k) (om_keys m)"
  have sub: "filter (\<lambda>k. Suc i \<le> k) (om_keys m) = filter (\<lambda>k. Suc i \<le> k) ?xs"
    by (auto simp: filter_filter intro: filter_cong)
  have "i \<in> set ?xs" using assms om_keys_get [of i m] by simp
  then have "length (filter (\<lambda>k. Suc i \<le> k) ?xs) < length ?xs" by (rule length_filter_less) simp
  then show ?thesis by (simp only: sub)
qed

text \<open>The loop from index \<open>i\<close>: it ends at the first index that is absent.\<close>

function messages_from :: "(usize, message_parts) omap \<Rightarrow> usize \<Rightarrow> json list" where
  "messages_from m i =
     (case om_get m i of
        None \<Rightarrow> []
      | Some p \<Rightarrow>
          (if fst p = None \<and> snd p = None then messages_from m (i + 1)
           else message_json p # messages_from m (i + 1)))"
  by pat_completeness auto

termination
  by (relation "measure (\<lambda>(m, i). length (filter (\<lambda>k. i \<le> k) (om_keys m)))") (use fewer_indices in auto)

declare messages_from.simps [simp del]

definition indexed_messages :: "crates \<Rightarrow> key_value list \<Rightarrow> str \<Rightarrow> str option" where
  "indexed_messages cr attrs kind =
     (let prefix = ''gen_ai.'' @ kind @ ''.'';
          by_index = fold (bucket prefix) attrs om_empty;
          messages = messages_from by_index 0
      in if messages = [] then None else cr_to_string cr (JArr messages))"

section \<open>One span\<close>

definition prompt_keys :: "str list" where
  "prompt_keys = [''llm.token_count.prompt'', ''gen_ai.usage.input_tokens'', ''gen_ai.usage.prompt_tokens'']"
definition completion_keys :: "str list" where
  "completion_keys = [''llm.token_count.completion'', ''gen_ai.usage.output_tokens'', ''gen_ai.usage.completion_tokens'']"
definition total_keys :: "str list" where
  "total_keys = [''llm.token_count.total'', ''gen_ai.usage.total_tokens'']"
definition cache_read_keys :: "str list" where
  "cache_read_keys = [''llm.token_count.prompt_details.cache_read'', ''gen_ai.usage.cache_read.input_tokens'']"
definition cache_write_keys :: "str list" where
  "cache_write_keys = [''llm.token_count.prompt_details.cache_write'',
     ''gen_ai.usage.cache_creation.input_tokens'', ''gen_ai.usage.cache_write.input_tokens'']"
definition reasoning_keys :: "str list" where
  "reasoning_keys = [''llm.token_count.completion_details.reasoning'',
     ''gen_ai.usage.reasoning_tokens'', ''gen_ai.usage.reasoning.output_tokens'']"

definition read_tokens :: "key_value list \<Rightarrow> tokens" where
  "read_tokens a = \<lparr>tk_prompt = first_u64 a prompt_keys, tk_completion = first_u64 a completion_keys,
     tk_total = first_u64 a total_keys, tk_cache_read = first_u64 a cache_read_keys,
     tk_cache_write = first_u64 a cache_write_keys, tk_reasoning = first_u64 a reasoning_keys\<rparr>"

definition derive_total :: "tokens \<Rightarrow> tokens" where
  "derive_total t =
     (case (tk_total t, tk_prompt t, tk_completion t) of
        (None, Some p, Some c) \<Rightarrow> t\<lparr>tk_total := Some (wrap_add p c)\<rparr>
      | _ \<Rightarrow> t)"

definition model_keys :: "str list" where
  "model_keys = [''gen_ai.response.model'', ''gen_ai.request.model'', ''llm.model_name'']"
definition provider_keys :: "str list" where
  "provider_keys = [''gen_ai.provider.name'', ''gen_ai.system'', ''llm.provider'', ''llm.system'']"
definition input_keys :: "str list" where
  "input_keys = [''input.value'', ''gen_ai.input.messages'', ''gen_ai.prompt'']"
definition output_keys :: "str list" where
  "output_keys = [''output.value'', ''gen_ai.output.messages'', ''gen_ai.completion'']"
definition session_keys :: "str list" where
  "session_keys = [''session.id'', ''gen_ai.conversation.id'']"

definition read_span :: "crates \<Rightarrow> otlp_span \<Rightarrow> str option \<Rightarrow> str option \<Rightarrow> str option \<Rightarrow> normalized_span" where
  "read_span cr span service_name scope_name scope_version =
     (let a = op_attributes span
      in \<lparr>ns_dialect = detect_dialect a,
          ns_trace_id = hex_encode (op_trace_id span),
          ns_span_id = hex_encode (op_span_id span),
          ns_parent_span_id = (if op_parent_span_id span = [] then None else Some (hex_encode (op_parent_span_id span))),
          ns_name = op_name span,
          ns_otel_kind = op_kind span,
          ns_oi_kind = opt_or (attr_str a ''openinference.span.kind'') (infer_oi_kind a),
          ns_start_unix_nano = op_start_time_unix_nano span,
          ns_end_unix_nano = op_end_time_unix_nano span,
          ns_status_code = (case op_status span of Some s \<Rightarrow> os_code s | None \<Rightarrow> 0),
          ns_status_message = (case op_status span of Some s \<Rightarrow> non_empty (os_message s) | None \<Rightarrow> None),
          ns_model = first_str a model_keys,
          ns_provider = first_str a provider_keys,
          ns_tokens = derive_total (read_tokens a),
          ns_cost_usd = first_f64 a cost_attributes,
          ns_input_value = opt_or (first_str a input_keys) (indexed_messages cr a ''prompt''),
          ns_output_value = opt_or (first_str a output_keys) (indexed_messages cr a ''completion''),
          ns_session_id = first_str a session_keys,
          ns_user_id = first_str a [''user.id''],
          ns_service_name = service_name,
          ns_scope_name = scope_name,
          ns_scope_version = scope_version,
          ns_raw_attributes = raw_attributes a\<rparr>)"

definition normalize_span :: "crates \<Rightarrow> otlp_span \<Rightarrow> str option \<Rightarrow> str option \<Rightarrow> str option \<Rightarrow> normalized_span" where
  "normalize_span cr span service_name scope_name scope_version =
     agent_normalize (read_span cr span service_name scope_name scope_version)"

section \<open>The passes keep an attribute\<close>

definition canonical_keys :: "str set" where
  "canonical_keys = {usage_key, hd tool_name_keys, hd tool_call_id_keys, hd agent_name_keys, hd agent_id_keys}"

lemma canonical_get: "k \<noteq> hd keys \<Longrightarrow> om_get (ns_raw_attributes (canonical s keys)) k = om_get (ns_raw_attributes s) k"
  by (auto simp: canonical_def map_simps split: option.split)

lemma agent_normalize_get:
  "k \<notin> canonical_keys \<Longrightarrow> om_get (ns_raw_attributes (agent_normalize s)) k = om_get (ns_raw_attributes s) k"
  by (auto simp: agent_normalize_def canonical_keys_def Let_def canonical_get map_simps split: option.split)

lemma normalize_span_get:
  "k \<notin> canonical_keys \<Longrightarrow> om_get (ns_raw_attributes (normalize_span cr sp sv sn sc)) k = om_get (raw_attributes (op_attributes sp)) k"
  by (simp add: normalize_span_def agent_normalize_get read_span_def Let_def)

end
