(* ===== verification/LogRecord.thy ===== *)
theory LogRecord
  imports Normalize
begin

text \<open>
  What the log dialects share (\<^verbatim>\<open>src/logs.rs\<close>): the policy, the outcomes, the reading of a record's
  name, trace context and time, ids derived from text, the span a mapped record becomes, and
  \<open>Recall\<close>, the bounded memory of sessions that spans requests.
\<close>

section \<open>Policy and outcomes\<close>

datatype logs_policy = PolicyOff | PolicyGenai | PolicyAll

definition policy_from_str :: "str \<Rightarrow> logs_policy option" where
  "policy_from_str s =
     (let t = to_ascii_lowercase (trim s)
      in if t = ''off'' then Some PolicyOff
         else if t = ''genai'' then Some PolicyGenai
         else if t = ''all'' then Some PolicyAll
         else None)"

definition policy_display :: "logs_policy \<Rightarrow> str" where
  "policy_display p = (case p of PolicyOff \<Rightarrow> ''off'' | PolicyGenai \<Rightarrow> ''genai'' | PolicyAll \<Rightarrow> ''all'')"

datatype outcome = OutSpan | OutScore | OutFolded | OutUnmapped | OutOff | OutMalformed

definition all_outcomes :: "outcome list" where
  "all_outcomes = [OutSpan, OutScore, OutFolded, OutUnmapped, OutOff, OutMalformed]"

definition outcome_label :: "outcome \<Rightarrow> str" where
  "outcome_label o' =
     (case o' of OutSpan \<Rightarrow> ''span'' | OutScore \<Rightarrow> ''score'' | OutFolded \<Rightarrow> ''folded''
      | OutUnmapped \<Rightarrow> ''unmapped'' | OutOff \<Rightarrow> ''off'' | OutMalformed \<Rightarrow> ''malformed'')"

definition outcome_index :: "outcome \<Rightarrow> usize" where
  "outcome_index o' =
     (case o' of OutSpan \<Rightarrow> 0 | OutScore \<Rightarrow> 1 | OutFolded \<Rightarrow> 2 | OutUnmapped \<Rightarrow> 3 | OutOff \<Rightarrow> 4 | OutMalformed \<Rightarrow> 5)"

datatype mapping = MapSpan normalized_span | MapFolded | NotMine

section \<open>Reading a record\<close>

record record_ctx =
  cx_service_name :: "str option"
  cx_scope_name :: "str option"
  cx_scope_version :: "str option"

definition event_name :: "log_record \<Rightarrow> str option" where
  "event_name r =
     (case attr_str (lr_attributes r) ''event.name'' of
        Some (c # cs) \<Rightarrow> Some (c # cs)
      | _ \<Rightarrow>
          if lr_event_name r \<noteq> [] then Some (lr_event_name r)
          else (case lr_body r of
                  Some (StringValue s) \<Rightarrow> if s \<noteq> [] then Some s else None
                | _ \<Rightarrow> None))"

definition id_set :: "byte list \<Rightarrow> nat \<Rightarrow> byte list option" where
  "id_set b len = (if length b = len \<and> list_ex (\<lambda>x. x \<noteq> 0) b then Some b else None)"

definition trace_context :: "log_record \<Rightarrow> byte list option \<times> byte list option" where
  "trace_context r = (id_set (lr_trace_id r) 16, id_set (lr_span_id r) 8)"

definition record_time :: "log_record \<Rightarrow> u64" where
  "record_time r = (if 0 < lr_time_unix_nano r then lr_time_unix_nano r else lr_observed_time_unix_nano r)"

definition nul :: char where
  "nul = char_of (0::nat)"

definition derive_id :: "crates \<Rightarrow> usize \<Rightarrow> str list \<Rightarrow> byte list" where
  "derive_id cr len parts =
     (let id = take len (cr_sha256 cr (concat (map (\<lambda>p. p @ [nul]) parts)))
      in if list_all (\<lambda>b. b = 0) id then id[0 := 1] else id)"

definition start_of :: "u64 \<Rightarrow> key_value list \<Rightarrow> u64" where
  "start_of time a = time - min u64_max (or_zero (attr_u64 a ''duration_ms'') * 1000000)"

definition str_or :: "str \<Rightarrow> str option \<Rightarrow> str" where
  "str_or d x = (case x of Some s \<Rightarrow> s | None \<Rightarrow> d)"

text \<open>\<open>if let Some(v) = x { add(&mut attributes, f(v)) }\<close>.\<close>

definition add_some :: "('a \<Rightarrow> key_value) \<Rightarrow> 'a option \<Rightarrow> key_value list \<Rightarrow> key_value list" where
  "add_some f x attrs = (case x of Some v \<Rightarrow> add_attr attrs (f v) | None \<Rightarrow> attrs)"

section \<open>The span a record becomes\<close>

record span_draft =
  sd_trace_id :: "byte list"
  sd_span_id :: "byte list"
  sd_parent_span_id :: "byte list"
  sd_name :: str
  sd_start_unix_nano :: u64
  sd_end_unix_nano :: u64
  sd_status :: "(str + unit) option"
  sd_attributes :: "key_value list"

definition draft_status :: "str + unit \<Rightarrow> otlp_status" where
  "draft_status s =
     (case s of Inr _ \<Rightarrow> \<lparr>os_code = 1, os_message = []\<rparr> | Inl m \<Rightarrow> \<lparr>os_code = 2, os_message = m\<rparr>)"

definition finish :: "crates \<Rightarrow> record_ctx \<Rightarrow> span_draft \<Rightarrow> normalized_span" where
  "finish cr ctx d =
     normalize_span cr
       \<lparr>op_trace_id = sd_trace_id d, op_span_id = sd_span_id d, op_parent_span_id = sd_parent_span_id d,
        op_name = sd_name d, op_kind = 1, op_start_time_unix_nano = sd_start_unix_nano d,
        op_end_time_unix_nano = sd_end_unix_nano d, op_attributes = sd_attributes d, op_events = [],
        op_status = map_option draft_status (sd_status d)\<rparr>
       (cx_service_name ctx) (cx_scope_name ctx) (cx_scope_version ctx)"

section \<open>Recall\<close>

definition recall_capacity :: usize where
  "recall_capacity = 4096"

record 'a recall =
  rc_map :: "(str, 'a) omap"
  rc_order :: "str list"

definition recall_new :: "'a recall" where
  "recall_new = \<lparr>rc_map = om_empty, rc_order = []\<rparr>"

definition recall_get :: "'a recall \<Rightarrow> (str, 'a) omap \<Rightarrow> str \<Rightarrow> 'a option" where
  "recall_get r local session =
     (case om_get local session of
        Some t \<Rightarrow> Some t
      | None \<Rightarrow> if session = [] then None else om_get (rc_map r) session)"

function evict :: "'a recall \<Rightarrow> 'a recall" where
  "evict r =
     (if recall_capacity < length (rc_order r)
      then evict (r\<lparr>rc_map := om_remove (hd (rc_order r)) (rc_map r), rc_order := tl (rc_order r)\<rparr>)
      else r)"
  by pat_completeness auto

termination
  by (relation "measure (\<lambda>r. length (rc_order r))") auto

declare evict.simps [simp del]

text \<open>\<open>d\<close> is \<open>T::default()\<close>.\<close>

definition recall_update ::
  "'a \<Rightarrow> str \<Rightarrow> ('a \<Rightarrow> 'a) \<Rightarrow> (str, 'a) omap \<times> 'a recall \<Rightarrow> (str, 'a) omap \<times> 'a recall" where
  "recall_update d session f lr =
     (let (local, r) = lr
      in if session = [] then (om_alter [] d f local, r)
         else let entry = (case om_get local session of
                             Some t \<Rightarrow> t
                           | None \<Rightarrow> (case om_get (rc_map r) session of Some t \<Rightarrow> t | None \<Rightarrow> d));
                  value = f entry;
                  r' = r\<lparr>rc_map := om_insert session value (rc_map r)\<rparr>
              in (om_insert session value local,
                  if om_get (rc_map r) session = None
                  then evict (r'\<lparr>rc_order := rc_order r' @ [session]\<rparr>)
                  else r'))"

section \<open>The memory stays bounded\<close>

definition recall_ok :: "'a recall \<Rightarrow> bool" where
  "recall_ok r \<longleftrightarrow> distinct (rc_order r) \<and> set (om_keys (rc_map r)) = set (rc_order r) \<and>
     length (rc_order r) \<le> recall_capacity"

lemma recall_ok_new: "recall_ok recall_new"
  by (simp add: recall_ok_def recall_new_def om_keys_def om_empty_def)

lemma evict_ok:
  "distinct (rc_order r) \<Longrightarrow> set (om_keys (rc_map r)) = set (rc_order r) \<Longrightarrow> recall_ok (evict r)"
proof (induction r rule: evict.induct)
  case (1 r)
  show ?case
  proof (cases "recall_capacity < length (rc_order r)")
    case True
    then obtain k ks where ks: "rc_order r = k # ks" by (cases "rc_order r") auto
    let ?r = "r\<lparr>rc_map := om_remove (hd (rc_order r)) (rc_map r), rc_order := tl (rc_order r)\<rparr>"
    have "distinct (rc_order ?r)" "set (om_keys (rc_map ?r)) = set (rc_order ?r)"
      using 1(2,3) ks by (auto simp: map_simps)
    from 1(1) [OF True this] show ?thesis using True by (subst evict.simps) simp
  next
    case False
    then show ?thesis using 1(2,3) by (simp add: evict.simps [of r] recall_ok_def)
  qed
qed

lemma recall_update_ok:
  assumes "recall_ok (snd lr)"
  shows "recall_ok (snd (recall_update d session f lr))"
proof -
  obtain local r where lr: "lr = (local, r)" by fastforce
  have r: "distinct (rc_order r)" "set (om_keys (rc_map r)) = set (rc_order r)" "length (rc_order r) \<le> recall_capacity"
    using assms by (simp_all add: lr recall_ok_def)
  show ?thesis
  proof (cases "session = []")
    case True
    then show ?thesis using assms by (simp add: recall_update_def lr)
  next
    case ne: False
    define v where "v = f (case om_get local session of Some t \<Rightarrow> t
        | None \<Rightarrow> (case om_get (rc_map r) session of Some t \<Rightarrow> t | None \<Rightarrow> d))"
    show ?thesis
    proof (cases "om_get (rc_map r) session = None")
      case True
      then have "session \<notin> set (rc_order r)" using r(2) om_keys_get [of session "rc_map r"] by simp
      then have "recall_ok (evict (r\<lparr>rc_map := om_insert session v (rc_map r), rc_order := rc_order r @ [session]\<rparr>))"
        using r(1,2) by (intro evict_ok) (simp_all add: map_simps)
      then show ?thesis using True ne by (simp add: recall_update_def lr Let_def v_def)
    next
      case False
      then have "session \<in> set (rc_order r)" using r(2) om_keys_get [of session "rc_map r"] by blast
      then have "recall_ok (r\<lparr>rc_map := om_insert session v (rc_map r)\<rparr>)"
        using r by (simp add: recall_ok_def map_simps insert_absorb)
      moreover obtain y where "om_get (rc_map r) session = Some y" using False by blast
      ultimately show ?thesis using ne by (simp add: recall_update_def lr Let_def v_def)
    qed
  qed
qed

lemma recall_get_update:
  "recall_get (snd (recall_update d session f (local, r))) (fst (recall_update d session f (local, r))) session
     = Some (f (case recall_get r local session of Some t \<Rightarrow> t | None \<Rightarrow> d))"
  by (auto simp: recall_update_def recall_get_def Let_def map_simps split: option.split)

text \<open>What holds of every remembered session, in the request and on the node.\<close>

definition all_remembered :: "('a \<Rightarrow> bool) \<Rightarrow> (str, 'a) omap \<times> 'a recall \<Rightarrow> bool" where
  "all_remembered P lr \<longleftrightarrow> (\<forall>k v. om_get (fst lr) k = Some v \<or> om_get (rc_map (snd lr)) k = Some v \<longrightarrow> P v)"

lemma evict_get: "om_get (rc_map (evict r)) k = Some v \<Longrightarrow> om_get (rc_map r) k = Some v"
proof (induction r rule: evict.induct)
  case (1 r)
  show ?case
  proof (cases "recall_capacity < length (rc_order r)")
    case True
    then have "om_get (rc_map (evict (r\<lparr>rc_map := om_remove (hd (rc_order r)) (rc_map r), rc_order := tl (rc_order r)\<rparr>))) k = Some v"
      using 1(2) by (simp add: evict.simps [of r])
    from 1(1) [OF True this] show ?thesis by (simp add: map_simps split: if_splits)
  next
    case False
    then show ?thesis using 1(2) by (simp add: evict.simps [of r])
  qed
qed

lemma all_remembered_update:
  assumes "all_remembered P lr" "P d" "\<And>t. P t \<Longrightarrow> P (f t)"
  shows "all_remembered P (recall_update d session f lr)"
proof -
  obtain local r where lr: "lr = (local, r)" by fastforce
  have P: "om_get local k = Some v \<Longrightarrow> P v" "om_get (rc_map r) k = Some v \<Longrightarrow> P v" for k v
    using assms(1) by (auto simp: all_remembered_def lr)
  define val where "val = f (case om_get local session of Some t \<Rightarrow> t
      | None \<Rightarrow> (case om_get (rc_map r) session of Some t \<Rightarrow> t | None \<Rightarrow> d))"
  have v: "P val" unfolding val_def using P assms(2,3) by (auto split: option.split)
  show ?thesis
  proof (cases "session = []")
    case True
    have e: "recall_update d session f lr = (om_alter [] d f local, r)" using True by (simp add: recall_update_def lr)
    have "P (f (case om_get local [] of None \<Rightarrow> d | Some v \<Rightarrow> v))" using P assms(2,3) by (auto split: option.split)
    then show ?thesis unfolding e all_remembered_def using P by (auto simp: map_simps)
  next
    case ne: False
    let ?r1 = "r\<lparr>rc_map := om_insert session val (rc_map r)\<rparr>"
    have e: "recall_update d session f lr = (om_insert session val local,
        if om_get (rc_map r) session = None then evict (?r1\<lparr>rc_order := rc_order ?r1 @ [session]\<rparr>) else ?r1)"
      using ne by (simp add: recall_update_def lr Let_def val_def)
    have "P w" if "om_get (rc_map (if om_get (rc_map r) session = None
        then evict (?r1\<lparr>rc_order := rc_order ?r1 @ [session]\<rparr>) else ?r1)) k = Some w" for k w
    proof -
      have "om_get (om_insert session val (rc_map r)) k = Some w"
        using that evict_get [of "?r1\<lparr>rc_order := rc_order ?r1 @ [session]\<rparr>" k w] by (simp split: if_splits)
      then show ?thesis using v P by (simp add: map_simps split: if_splits)
    qed
    then show ?thesis unfolding e all_remembered_def using v P by (auto simp: map_simps)
  qed
qed

lemma all_remembered_get: "all_remembered P lr \<Longrightarrow> recall_get (snd lr) (fst lr) session = Some v \<Longrightarrow> P v"
  by (auto simp: all_remembered_def recall_get_def split: option.splits if_splits)

section \<open>Lemmas on records and drafts\<close>

lemma outcome_index_nth: "all_outcomes ! outcome_index o' = o' \<and> outcome_index o' < length all_outcomes"
  by (cases o') (simp_all add: all_outcomes_def outcome_index_def)

lemma derive_id_not_zero:
  assumes "cr_sha256 cr (concat (map (\<lambda>p. p @ [nul]) parts)) \<noteq> []" and "0 < len"
  shows "list_ex (\<lambda>b. b \<noteq> 0) (derive_id cr len parts)"
proof -
  let ?id = "take len (cr_sha256 cr (concat (map (\<lambda>p. p @ [nul]) parts)))"
  have ne: "?id \<noteq> []" using assms by simp
  show ?thesis
  proof (cases "list_all (\<lambda>b. b = 0) ?id")
    case True
    have "1 \<in> set (?id[0 := 1])" using ne by (simp add: set_update_memI)
    moreover have "derive_id cr len parts = ?id[0 := 1]" unfolding derive_id_def Let_def using True by (rule if_P)
    ultimately have "1 \<in> set (derive_id cr len parts)" by (simp only:)
    then show ?thesis unfolding list_ex_iff by (rule rev_bexI) (rule one_neq_zero)
  next
    case False
    have "derive_id cr len parts = ?id" unfolding derive_id_def Let_def using False by (rule if_not_P)
    then show ?thesis using False unfolding list_ex_iff list_all_iff by auto
  qed
qed

lemma length_derive_id [simp]: "length (cr_sha256 cr (concat (map (\<lambda>p. p @ [nul]) parts))) = 32 \<Longrightarrow>
    length (derive_id cr len parts) = min len 32"
  by (simp add: derive_id_def Let_def min.commute)

lemma normalize_span_fields [simp]:
  "ns_trace_id (normalize_span cr sp sv sn sc) = hex_encode (op_trace_id sp)"
  "ns_span_id (normalize_span cr sp sv sn sc) = hex_encode (op_span_id sp)"
  "ns_name (normalize_span cr sp sv sn sc) = op_name sp"
  "ns_model (normalize_span cr sp sv sn sc) = first_str (op_attributes sp) model_keys"
  "ns_otel_kind (normalize_span cr sp sv sn sc) = op_kind sp"
  "ns_status_code (normalize_span cr sp sv sn sc) = (case op_status sp of Some s \<Rightarrow> os_code s | None \<Rightarrow> 0)"
  by (simp_all add: normalize_span_def read_span_def Let_def)

lemma finish_fields [simp]:
  "ns_trace_id (finish cr ctx d) = hex_encode (sd_trace_id d)"
  "ns_span_id (finish cr ctx d) = hex_encode (sd_span_id d)"
  "ns_name (finish cr ctx d) = sd_name d"
  "ns_model (finish cr ctx d) = first_str (sd_attributes d) model_keys"
  by (simp_all add: finish_def)

end
