(* ===== verification/Redact.thy ===== *)
theory Redact
  imports Model
begin

text \<open>
  The redaction policy of \<^verbatim>\<open>src/redact.rs\<close>: the built-in classes, the build of the combined
  alternation with its group numbers, and the rewriting of text, JSON values and spans. The \<open>regex\<close>
  and \<open>sha2\<close> crates are parameters: \<open>regex_new\<close> compiles a pattern to its number of groups and its
  matches, each a partial map from group number to byte range; \<open>short_hash\<close> is the pseudonym of a value.
\<close>

section \<open>Classes and actions\<close>

datatype redact_class = Email | CreditCard | Ssn | Phone | Ip | ApiKey | Jwt

definition all_classes :: "redact_class list" where
  "all_classes = [Email, CreditCard, Ssn, Phone, Ip, ApiKey, Jwt]"

definition class_as_str :: "redact_class \<Rightarrow> str" where
  "class_as_str c =
     (case c of Email \<Rightarrow> ''email'' | CreditCard \<Rightarrow> ''credit_card'' | Ssn \<Rightarrow> ''ssn'' | Phone \<Rightarrow> ''phone''
      | Ip \<Rightarrow> ''ip'' | ApiKey \<Rightarrow> ''api_key'' | Jwt \<Rightarrow> ''jwt'')"

definition class_parse :: "str \<Rightarrow> redact_class option" where
  "class_parse s = find (\<lambda>c. class_as_str c = to_ascii_lowercase (trim s)) all_classes"

text \<open>The derived \<open>Ord\<close>: declaration order.\<close>

definition class_rank :: "redact_class \<Rightarrow> nat" where
  "class_rank c =
     (case c of Email \<Rightarrow> 0 | CreditCard \<Rightarrow> 1 | Ssn \<Rightarrow> 2 | Phone \<Rightarrow> 3 | Ip \<Rightarrow> 4 | ApiKey \<Rightarrow> 5 | Jwt \<Rightarrow> 6)"

lemma class_rank_inj: "class_rank a = class_rank b \<Longrightarrow> a = b"
  by (cases a; cases b) (simp_all add: class_rank_def)

instantiation redact_class :: linorder
begin

definition less_eq_redact_class :: "redact_class \<Rightarrow> redact_class \<Rightarrow> bool" where
  "less_eq_redact_class a b \<longleftrightarrow> class_rank a \<le> class_rank b"

definition less_redact_class :: "redact_class \<Rightarrow> redact_class \<Rightarrow> bool" where
  "less_redact_class a b \<longleftrightarrow> class_rank a < class_rank b"

instance
  by standard (auto simp: less_eq_redact_class_def less_redact_class_def dest: class_rank_inj)

end

text \<open>The patterns' texts, as the \<open>regex\<close> crate is given them.\<close>

definition backslash :: str where
  "backslash = [char_of (92::nat)]"

definition class_pattern :: "redact_class \<Rightarrow> str" where
  "class_pattern c =
     (case c of
        Jwt \<Rightarrow> ''eyJ[A-Za-z0-9_-]{8,}'' @ backslash @ ''.[A-Za-z0-9_-]{8,}'' @ backslash @ ''.[A-Za-z0-9_-]{8,}''
      | ApiKey \<Rightarrow> ''(?:sk-[A-Za-z0-9_-]{16,}|AKIA[0-9A-Z]{16}|gh[pousr]_[A-Za-z0-9]{20,}|xox[abpr]-[0-9A-Za-z-]{10,})''
      | Email \<Rightarrow> ''[A-Za-z0-9._%+'' @ backslash @ ''-]+@[A-Za-z0-9.'' @ backslash @ ''-]+'' @ backslash @ ''.[A-Za-z]{2,}''
      | Ssn \<Rightarrow> ''[0-9]{3}-[0-9]{2}-[0-9]{4}''
      | CreditCard \<Rightarrow> ''[0-9](?:[ '' @ backslash @ ''-]?[0-9]){12,18}''
      | Phone \<Rightarrow> ''(?:'' @ backslash @ ''+[1-9][0-9]{7,14}|'' @ backslash @ ''(?[0-9]{3}'' @ backslash @ '')?[ '' @ backslash @ ''-][0-9]{3}-[0-9]{4})''
      | Ip \<Rightarrow> ''(?:(?:25[0-5]|2[0-4][0-9]|1[0-9]{2}|[1-9]?[0-9])'' @ backslash @ ''.){3}(?:25[0-5]|2[0-4][0-9]|1[0-9]{2}|[1-9]?[0-9])|(?:[0-9A-Fa-f]{1,4}:){2,7}[0-9A-Fa-f]{1,4}'')"

datatype action = RedactIt | HashIt | DropIt

definition action_parse :: "str \<Rightarrow> action option" where
  "action_parse s =
     (let a = to_ascii_lowercase (trim s)
      in if a = ''redact'' then Some RedactIt
         else if a = ''hash'' then Some HashIt
         else if a = ''drop'' then Some DropIt
         else None)"

section \<open>Building the policy\<close>

type_synonym captures = "nat \<Rightarrow> (usize \<times> usize) option"

record regex =
  rx_captures_len :: usize
  rx_captures_iter :: "str \<Rightarrow> captures list"

record redactor =
  rd_re :: regex
  rd_labels :: "str list"
  rd_groups :: "usize list"
  rd_luhn_gated :: "bool list"
  rd_action :: action

datatype redact_error = UnknownClass str | UnknownAction str | BadCustom str | BadRegex str str

text \<open>The entries of the class list: the loop over \<open>classes.iter().flat_map(split(','))\<close>.\<close>

fun select_classes :: "str list \<Rightarrow> redact_class list \<Rightarrow> redact_error + redact_class list" where
  "select_classes [] selected = Inr selected"
| "select_classes (e # es) selected =
     (let entry = trim e
      in if entry = [] then select_classes es selected
         else if eq_ignore_ascii_case entry ''all'' then select_classes es (selected @ all_classes)
         else case class_parse entry of
                None \<Rightarrow> Inl (UnknownClass entry)
              | Some c \<Rightarrow> select_classes es (selected @ [c]))"

text \<open>The vectors the two loops push to, and the next group number.\<close>

record building =
  bd_alternatives :: "str list"
  bd_labels :: "str list"
  bd_luhn_gated :: "bool list"
  bd_groups :: "usize list"
  bd_next_group :: usize

definition push_rule :: "str \<Rightarrow> str \<Rightarrow> bool \<Rightarrow> usize \<Rightarrow> building \<Rightarrow> building" where
  "push_rule pat label luhn own b =
     \<lparr>bd_alternatives = bd_alternatives b @ [''('' @ pat @ '')''], bd_labels = bd_labels b @ [label],
      bd_luhn_gated = bd_luhn_gated b @ [luhn], bd_groups = bd_groups b @ [bd_next_group b],
      bd_next_group = bd_next_group b + own\<rparr>"

text \<open>A built-in pattern that does not compile panics the process; here it contributes no group.\<close>

definition own_groups :: "(str \<Rightarrow> str + regex) \<Rightarrow> str \<Rightarrow> usize" where
  "own_groups regex_new pat = (case regex_new pat of Inr re \<Rightarrow> rx_captures_len re | Inl _ \<Rightarrow> 0)"

definition push_class :: "(str \<Rightarrow> str + regex) \<Rightarrow> redact_class \<Rightarrow> building \<Rightarrow> building" where
  "push_class regex_new c b =
     push_rule (class_pattern c) (class_as_str c) (c = CreditCard) (own_groups regex_new (class_pattern c)) b"

fun push_custom :: "(str \<Rightarrow> str + regex) \<Rightarrow> str list \<Rightarrow> building \<Rightarrow> redact_error + building" where
  "push_custom regex_new [] b = Inr b"
| "push_custom regex_new (spec # specs) b =
     (case split_once (CHR ''='') spec of
        None \<Rightarrow> Inl (BadCustom spec)
      | Some (n, p) \<Rightarrow>
          (let name = trim n; pat = trim p
           in if name = [] \<or> pat = [] then Inl (BadCustom spec)
              else case regex_new pat of
                     Inl err \<Rightarrow> Inl (BadRegex name err)
                   | Inr re \<Rightarrow> push_custom regex_new specs (push_rule pat name False (rx_captures_len re) b)))"

definition building_start :: building where
  "building_start = \<lparr>bd_alternatives = [], bd_labels = [], bd_luhn_gated = [], bd_groups = [], bd_next_group = 1\<rparr>"

definition redactor_build ::
  "(str \<Rightarrow> str + regex) \<Rightarrow> str list \<Rightarrow> str list \<Rightarrow> str \<Rightarrow> redact_error + redactor option" where
  "redactor_build regex_new classes custom act =
     (case action_parse act of
        None \<Rightarrow> Inl (UnknownAction act)
      | Some a \<Rightarrow>
          (case select_classes (concat (map (split_on (CHR '','')) classes)) [] of
             Inl e \<Rightarrow> Inl e
           | Inr sel \<Rightarrow>
               (let selected = remdups_adj (sort sel);
                    b1 = fold (push_class regex_new) (filter (\<lambda>c. c \<in> set selected) all_classes) building_start
                in case push_custom regex_new custom b1 of
                     Inl e \<Rightarrow> Inl e
                   | Inr b \<Rightarrow>
                       if bd_alternatives b = [] then Inr None
                       else (case regex_new (join_with (CHR ''|'') (bd_alternatives b)) of
                               Inl err \<Rightarrow> Inl (BadRegex ''<combined>'' err)
                             | Inr re \<Rightarrow>
                                 Inr (Some \<lparr>rd_re = re, rd_labels = bd_labels b, rd_groups = bd_groups b,
                                   rd_luhn_gated = bd_luhn_gated b, rd_action = a\<rparr>)))))"

section \<open>The Luhn checksum\<close>

definition doubled_digit :: "nat \<Rightarrow> nat" where
  "doubled_digit d = (if 9 < d * 2 then d * 2 - 9 else d * 2)"

definition luhn_sum :: "nat list \<Rightarrow> nat" where
  "luhn_sum digits =
     sum_list (map (\<lambda>(i, d). if i mod 2 = 1 then doubled_digit d else d) (enumerate 0 (rev digits)))"

definition digits_of :: "str \<Rightarrow> nat list" where
  "digits_of s = map (\<lambda>c. code c - 48) (filter is_digit s)"

definition luhn_valid :: "str \<Rightarrow> bool" where
  "luhn_valid s =
     (let digits = digits_of s
      in if \<not> (13 \<le> length digits \<and> length digits \<le> 19) then False
         else luhn_sum digits mod 10 = 0)"

section \<open>Rewriting\<close>

type_synonym counts = "(usize, u64) omap"

definition bump :: "usize \<Rightarrow> u64 \<Rightarrow> counts \<Rightarrow> counts" where
  "bump i n c = om_alter i 0 (\<lambda>m. m + n) c"

definition slice :: "usize \<Rightarrow> usize \<Rightarrow> str \<Rightarrow> str" where
  "slice a b s = take (b - a) (drop a s)"

text \<open>The rule whose own group matched, with the group's range.\<close>

definition rule_hit :: "redactor \<Rightarrow> captures \<Rightarrow> (usize \<times> usize \<times> usize) option" where
  "rule_hit r caps =
     find_map (\<lambda>(idx, g). map_option (\<lambda>m. (idx, m)) (caps g)) (enumerate 0 (rd_groups r))"

definition replacement :: "(str \<Rightarrow> str) \<Rightarrow> redactor \<Rightarrow> usize \<Rightarrow> str \<Rightarrow> str" where
  "replacement short_hash r idx m =
     (case rd_action r of
        RedactIt \<Rightarrow> ''[REDACTED:'' @ (rd_labels r ! idx) @ '']''
      | HashIt \<Rightarrow> ''['' @ (rd_labels r ! idx) @ '':'' @ short_hash m @ '']''
      | DropIt \<Rightarrow> [])"

definition scrub_step ::
  "(str \<Rightarrow> str) \<Rightarrow> redactor \<Rightarrow> str \<Rightarrow> captures \<Rightarrow> str option \<times> usize \<times> counts \<Rightarrow> str option \<times> usize \<times> counts" where
  "scrub_step short_hash r body caps st =
     (case rule_hit r caps of
        None \<Rightarrow> st
      | Some (idx, a, b) \<Rightarrow>
          if (rd_luhn_gated r ! idx) \<and> \<not> luhn_valid (slice a b body) then st
          else (case st of (out, prev, cs) \<Rightarrow>
                 (let buf = (case out of None \<Rightarrow> [] | Some o1 \<Rightarrow> o1)
                  in (Some (buf @ slice prev a body @ replacement short_hash r idx (slice a b body)), b, bump idx 1 cs))))"

definition scrub :: "(str \<Rightarrow> str) \<Rightarrow> redactor \<Rightarrow> str \<Rightarrow> (str \<times> counts) option" where
  "scrub short_hash r body =
     (case fold (scrub_step short_hash r body) (rx_captures_iter (rd_re r) body) (None, 0, om_empty) of
        (None, _, _) \<Rightarrow> None
      | (Some buf, prev, cs) \<Rightarrow> Some (buf @ drop prev body, cs))"

definition merge_counts :: "counts \<Rightarrow> counts \<Rightarrow> counts" where
  "merge_counts cs sums = fold (\<lambda>(i, n). bump i n) cs sums"

primrec scrub_json :: "(str \<Rightarrow> str) \<Rightarrow> redactor \<Rightarrow> json \<Rightarrow> json \<times> counts" where
  "scrub_json h r JNull = (JNull, om_empty)"
| "scrub_json h r (JBool b) = (JBool b, om_empty)"
| "scrub_json h r (JNum n) = (JNum n, om_empty)"
| "scrub_json h r (JStr s) =
     (case scrub h r s of None \<Rightarrow> (JStr s, om_empty) | Some (clean, cs) \<Rightarrow> (JStr clean, merge_counts cs om_empty))"
| "scrub_json h r (JArr items) =
     (let rs = map (scrub_json h r) items
      in (JArr (map fst rs), fold merge_counts (map snd rs) om_empty))"
| "scrub_json h r (JObj m) =
     (let rs = map (map_prod (\<lambda>k. k) (scrub_json h r)) m
      in (JObj (map (\<lambda>(k, v). (k, fst v)) rs), fold merge_counts (map (\<lambda>(k, v). snd v) rs) om_empty))"

definition scrub_text :: "(str \<Rightarrow> str) \<Rightarrow> redactor \<Rightarrow> str option \<Rightarrow> str option \<times> counts" where
  "scrub_text h r field =
     (case field of
        None \<Rightarrow> (None, om_empty)
      | Some t \<Rightarrow> (case scrub h r t of None \<Rightarrow> (Some t, om_empty) | Some (clean, cs) \<Rightarrow> (Some clean, cs)))"

definition scrub_span :: "(str \<Rightarrow> str) \<Rightarrow> redactor \<Rightarrow> normalized_span \<Rightarrow> normalized_span \<times> counts" where
  "scrub_span h r s =
     (let (inp, c1) = scrub_text h r (ns_input_value s);
          (outp, c2) = scrub_text h r (ns_output_value s);
          rs = map (\<lambda>(k, v). (k, scrub_json h r v)) (ns_raw_attributes s)
      in (s\<lparr>ns_input_value := inp, ns_output_value := outp,
            ns_raw_attributes := map (\<lambda>(k, v). (k, fst v)) rs\<rparr>,
          fold merge_counts (c1 # c2 # map (\<lambda>(k, v). snd v) rs) om_empty))"

section \<open>What the build guarantees\<close>

text \<open>\<open>rules_ok\<close>: the vectors are parallel, and a rule's group number counts the groups before it.\<close>

definition rules_ok :: "(str \<Rightarrow> str + regex) \<Rightarrow> str list \<Rightarrow> building \<Rightarrow> bool" where
  "rules_ok regex_new pats b \<longleftrightarrow>
     bd_alternatives b = map (\<lambda>p. ''('' @ p @ '')'') pats
     \<and> bd_groups b = map (\<lambda>i. 1 + sum_list (map (own_groups regex_new) (take i pats))) [0..<length pats]
     \<and> bd_next_group b = 1 + sum_list (map (own_groups regex_new) pats)"

lemma rules_ok_push:
  "rules_ok regex_new pats b \<Longrightarrow> own = own_groups regex_new pat \<Longrightarrow>
     rules_ok regex_new (pats @ [pat]) (push_rule pat label luhn own b)"
  by (simp add: rules_ok_def push_rule_def)

lemma rules_ok_classes:
  "rules_ok regex_new pats b \<Longrightarrow>
     rules_ok regex_new (pats @ map class_pattern cs) (fold (push_class regex_new) cs b)"
proof (induction cs arbitrary: pats b)
  case (Cons c cs)
  then show ?case
    using Cons.IH [OF rules_ok_push [OF Cons.prems refl]] by (simp add: push_class_def)
qed simp

lemma labels_classes:
  "bd_labels (fold (push_class regex_new) cs b) = bd_labels b @ map class_as_str cs"
  "bd_luhn_gated (fold (push_class regex_new) cs b) = bd_luhn_gated b @ map (\<lambda>c. c = CreditCard) cs"
  by (induction cs arbitrary: b) (simp_all add: push_class_def push_rule_def)

lemma push_custom_ok:
  "push_custom regex_new specs b = Inr b' \<Longrightarrow> rules_ok regex_new pats b \<Longrightarrow>
     \<exists>ps names. rules_ok regex_new (pats @ ps) b' \<and> length ps = length specs \<and> length names = length specs
       \<and> bd_labels b' = bd_labels b @ names \<and> bd_luhn_gated b' = bd_luhn_gated b @ replicate (length specs) False"
proof (induction regex_new specs b arbitrary: pats rule: push_custom.induct)
  case (1 regex_new b)
  then show ?case by (intro exI [of _ "[]"]) simp
next
  case (2 regex_new spec specs b)
  obtain n p where sp: "split_once (CHR ''='') spec = Some (n, p)"
    using 2(2) by (auto split: option.splits)
  have ne: "\<not> (trim n = [] \<or> trim p = [])" using 2(2) sp by (auto simp: Let_def split: if_splits)
  obtain re where re: "regex_new (trim p) = Inr re"
    using 2(2) sp ne by (auto simp: Let_def split: if_splits sum.splits)
  let ?b = "push_rule (trim p) (trim n) False (rx_captures_len re) b"
  have run: "push_custom regex_new specs ?b = Inr b'" using 2(2) sp ne re by (simp add: Let_def)
  have ok: "rules_ok regex_new (pats @ [trim p]) ?b"
    using re by (intro rules_ok_push [OF 2(3)]) (simp add: own_groups_def)
  obtain ps names where ih: "rules_ok regex_new ((pats @ [trim p]) @ ps) b'" "length ps = length specs"
      "length names = length specs" "bd_labels b' = bd_labels ?b @ names"
      "bd_luhn_gated b' = bd_luhn_gated ?b @ replicate (length specs) False"
    using 2(1) [OF sp refl refl refl ne re run ok] by blast
  then show ?case
    by (intro exI [of _ "trim p # ps"] exI [of _ "trim n # names"]) (simp add: push_rule_def)
qed

lemma rules_ok_start: "rules_ok regex_new [] building_start"
  by (simp add: rules_ok_def building_start_def)

lemma redactor_build_rules:
  assumes "redactor_build regex_new classes custom act = Inr (Some r)"
  shows "\<exists>chosen pats names. length names = length custom
     \<and> rd_labels r = map class_as_str (filter (\<lambda>c. c \<in> chosen) all_classes) @ names
     \<and> rd_luhn_gated r = map (\<lambda>c. c = CreditCard) (filter (\<lambda>c. c \<in> chosen) all_classes) @ replicate (length custom) False
     \<and> length pats = length (rd_labels r)
     \<and> rd_groups r = map (\<lambda>i. 1 + sum_list (map (own_groups regex_new) (take i pats))) [0..<length pats]
     \<and> regex_new (join_with (CHR ''|'') (map (\<lambda>p. ''('' @ p @ '')'') pats)) = Inr (rd_re r)"
proof -
  obtain a where a: "action_parse act = Some a" using assms by (auto simp: redactor_build_def split: option.splits)
  obtain sel where sel: "select_classes (concat (map (split_on (CHR '','')) classes)) [] = Inr sel"
    using assms a by (auto simp: redactor_build_def split: sum.splits)
  define cs where "cs = filter (\<lambda>c. c \<in> set (remdups_adj (sort sel))) all_classes"
  define b1 where "b1 = fold (push_class regex_new) cs building_start"
  obtain b where b: "push_custom regex_new custom b1 = Inr b"
    using assms a sel by (auto simp: redactor_build_def Let_def b1_def cs_def split: sum.splits)
  obtain ps names where ok: "rules_ok regex_new (map class_pattern cs @ ps) b" "length ps = length custom"
      "length names = length custom" "bd_labels b = bd_labels b1 @ names"
      "bd_luhn_gated b = bd_luhn_gated b1 @ replicate (length custom) False"
    using push_custom_ok [OF b, of "map class_pattern cs"] rules_ok_classes [OF rules_ok_start, of regex_new cs]
    by (auto simp: b1_def)
  obtain re where re: "regex_new (join_with (CHR ''|'') (bd_alternatives b)) = Inr re"
    and r: "r = \<lparr>rd_re = re, rd_labels = bd_labels b, rd_groups = bd_groups b, rd_luhn_gated = bd_luhn_gated b, rd_action = a\<rparr>"
    using assms a sel b
    by (auto simp: redactor_build_def Let_def b1_def cs_def split: sum.splits if_splits)
  have b1: "bd_labels b1 = map class_as_str cs" "bd_luhn_gated b1 = map (\<lambda>c. c = CreditCard) cs"
    by (simp_all add: b1_def labels_classes building_start_def)
  have "length names = length custom \<and> rd_labels r = map class_as_str cs @ names
     \<and> rd_luhn_gated r = map (\<lambda>c. c = CreditCard) cs @ replicate (length custom) False
     \<and> length (map class_pattern cs @ ps) = length (rd_labels r)
     \<and> rd_groups r = map (\<lambda>i. 1 + sum_list (map (own_groups regex_new) (take i (map class_pattern cs @ ps))))
         [0..<length (map class_pattern cs @ ps)]
     \<and> regex_new (join_with (CHR ''|'') (map (\<lambda>p. ''('' @ p @ '')'') (map class_pattern cs @ ps))) = Inr (rd_re r)"
    using ok b1 re by (simp add: r rules_ok_def)
  then show ?thesis unfolding cs_def by blast
qed

section \<open>The checksum catches a single wrong digit\<close>

definition luhn_weight :: "nat \<Rightarrow> nat \<Rightarrow> nat" where
  "luhn_weight i d = (if i mod 2 = 1 then doubled_digit d else d)"

lemma luhn_sum_split:
  "\<exists>rest. \<forall>d. luhn_sum (us @ d # vs) = rest + luhn_weight (length vs) d"
proof -
  let ?f = "\<lambda>(i, d). if i mod 2 = 1 then doubled_digit d else (d::nat)"
  have "luhn_sum (us @ d # vs) =
      (sum_list (map ?f (enumerate 0 (rev vs))) + sum_list (map ?f (enumerate (Suc (length vs)) (rev us))))
      + luhn_weight (length vs) d" for d
    by (simp add: luhn_sum_def luhn_weight_def enumerate_append_eq)
  then show ?thesis by blast
qed

lemma luhn_weight_digit:
  assumes "d < 10" and "d' < 10" and "d \<noteq> d'"
  shows "luhn_weight i d < 10 \<and> luhn_weight i d' < 10 \<and> luhn_weight i d \<noteq> luhn_weight i d'"
  using assms by (auto simp: luhn_weight_def doubled_digit_def) presburger+

lemma mod10_shift:
  "(r + a) mod 10 = 0 \<Longrightarrow> a < 10 \<Longrightarrow> b < 10 \<Longrightarrow> a \<noteq> b \<Longrightarrow> (r + b) mod 10 \<noteq> 0" for r a b :: nat
proof
  assume z: "(r + a) mod 10 = 0" "a < 10" "b < 10" "a \<noteq> b" "(r + b) mod 10 = 0"
  then have "10 dvd r + a" "10 dvd r + b" by (simp_all add: mod_eq_0_iff_dvd)
  then have "10 dvd (r + a) - (r + b)" "10 dvd (r + b) - (r + a)" by (simp_all only: dvd_diff_nat)
  then have "10 dvd a - b" "10 dvd b - a" by simp_all
  then have "a - b = 0" "b - a = 0" using z(2,3) dvd_imp_le [of 10 "a - b"] dvd_imp_le [of 10 "b - a"] by linarith+
  then show False using z(4) by simp
qed

lemma luhn_sum_changes:
  assumes "d < 10" and "d' < 10" and "d \<noteq> d'" and "luhn_sum (us @ d # vs) mod 10 = 0"
  shows "luhn_sum (us @ d' # vs) mod 10 \<noteq> 0"
proof -
  obtain rest where rest: "\<forall>d. luhn_sum (us @ d # vs) = rest + luhn_weight (length vs) d"
    using luhn_sum_split by blast
  note w = luhn_weight_digit [OF assms(1-3), of "length vs"]
  have "(rest + luhn_weight (length vs) d) mod 10 = 0" using assms(4) rest by simp
  then have "(rest + luhn_weight (length vs) d') mod 10 \<noteq> 0" using w by (intro mod10_shift) auto
  then show ?thesis using rest by simp
qed

text \<open>
  The card checksum rejects every one-digit slip: changing any single digit of a text that passes
  makes it fail, whatever the separators, so such a number is not taken for a card.
\<close>

theorem luhn_detects_one_digit:
  assumes "luhn_valid (u @ c # v)" and "is_digit c" and "is_digit c'" and "c' \<noteq> c"
  shows "\<not> luhn_valid (u @ c' # v)"
proof -
  have "code c \<noteq> code c'" using assms(4) by (simp add: of_char_eq_iff)
  then have d: "code c - 48 < 10" "code c' - 48 < 10" "code c - 48 \<noteq> code c' - 48"
    using assms(2,3) unfolding is_digit_def by linarith+
  have "digits_of (u @ x # v) = digits_of u @ (code x - 48) # digits_of v" if "is_digit x" for x
    using that by (simp add: digits_of_def)
  then show ?thesis
    using luhn_sum_changes [OF d, of "digits_of u" "digits_of v"] assms(1-3)
    by (auto simp: luhn_valid_def Let_def split: if_splits)
qed

theorem luhn_detects_one_digit_witness:
  "\<not> luhn_valid ''4242 4242 4242 4241''"
proof -
  have "luhn_valid (''4242 4242 4242 424'' @ CHR ''2'' # [])" by code_simp
  then show ?thesis
    using luhn_detects_one_digit [of "''4242 4242 4242 424''" "CHR ''2''" "[]" "CHR ''1''"]
    by (simp add: is_digit_def)
qed

section \<open>What the rewriting does\<close>

text \<open>The hits that stand: a rule matched, and passed its checksum when it has one.\<close>

definition accepted :: "redactor \<Rightarrow> str \<Rightarrow> captures \<Rightarrow> (usize \<times> usize \<times> usize) option" where
  "accepted r body caps =
     (case rule_hit r caps of
        None \<Rightarrow> None
      | Some (idx, a, b) \<Rightarrow>
          if (rd_luhn_gated r ! idx) \<and> \<not> luhn_valid (slice a b body) then None else Some (idx, a, b))"

definition hits :: "redactor \<Rightarrow> str \<Rightarrow> (usize \<times> usize \<times> usize) list" where
  "hits r body = List.map_filter (accepted r body) (rx_captures_iter (rd_re r) body)"

text \<open>Matches come left to right and do not overlap: what \<open>captures_iter\<close> documents.\<close>

fun in_order :: "usize \<Rightarrow> usize \<Rightarrow> (usize \<times> usize \<times> usize) list \<Rightarrow> bool" where
  "in_order prev n [] \<longleftrightarrow> prev \<le> n"
| "in_order prev n ((i, a, b) # hs) \<longleftrightarrow> prev \<le> a \<and> a \<le> b \<and> in_order b n hs"

fun gaps :: "str \<Rightarrow> usize \<Rightarrow> (usize \<times> usize \<times> usize) list \<Rightarrow> str list" where
  "gaps body prev [] = [drop prev body]"
| "gaps body prev ((i, a, b) # hs) = slice prev a body # gaps body b hs"

text \<open>Kept pieces and others, in turn.\<close>

fun weave :: "str list \<Rightarrow> str list \<Rightarrow> str" where
  "weave (g # gs) (x # xs) = g @ x @ weave gs xs"
| "weave gs xs = concat gs"

definition count_at :: "counts \<Rightarrow> usize \<Rightarrow> u64" where
  "count_at c i = (case om_get c i of None \<Rightarrow> 0 | Some n \<Rightarrow> n)"

lemma count_at_bump [simp]: "count_at (bump i n c) j = count_at c j + (if j = i then n else 0)"
  by (simp add: count_at_def bump_def map_simps split: option.splits)

lemma count_at_empty [simp]: "count_at om_empty i = 0"
  by (simp add: count_at_def map_simps)

lemma in_order_bound: "in_order prev n hs \<Longrightarrow> prev \<le> n"
  by (induction prev n hs rule: in_order.induct) auto

lemma in_order_weaken: "in_order prev n hs \<Longrightarrow> p \<le> prev \<Longrightarrow> in_order p n hs"
  by (cases hs) auto

lemma in_order_accepted:
  "in_order prev n (List.map_filter (rule_hit r) cs) \<Longrightarrow> in_order prev n (List.map_filter (accepted r body) cs)"
proof (induction cs arbitrary: prev)
  case (Cons c cs)
  show ?case
  proof (cases "rule_hit r c")
    case None
    then show ?thesis using Cons by (simp add: List.map_filter_simps accepted_def)
  next
    case (Some h)
    obtain i a b where h: "h = (i, a, b)" by (cases h)
    have "prev \<le> a" "a \<le> b" and tl: "in_order b n (List.map_filter (rule_hit r) cs)"
      using Cons.prems Some h by (simp_all add: List.map_filter_simps)
    moreover have "in_order b n (List.map_filter (accepted r body) cs)" by (rule Cons.IH [OF tl])
    moreover have "accepted r body c = None \<or> accepted r body c = Some (i, a, b)"
      using Some h by (simp add: accepted_def)
    ultimately show ?thesis
      using in_order_weaken [of b n "List.map_filter (accepted r body) cs" prev]
      by (auto simp: List.map_filter_simps)
  qed
qed (simp add: List.map_filter_simps)

text \<open>The text between the matches is untouched.\<close>

lemma weave_text:
  "in_order prev (length body) hs \<Longrightarrow> drop prev body = weave (gaps body prev hs) (map (\<lambda>(i, a, b). slice a b body) hs)"
proof (induction hs arbitrary: prev)
  case (Cons h hs)
  obtain i a b where h: "h = (i, a, b)" by (cases h)
  have o: "prev \<le> a" "a \<le> b" "in_order b (length body) hs" using Cons.prems h by simp_all
  have "drop prev body = slice prev a body @ slice a b body @ drop b body"
  proof -
    have "drop x body = slice x y body @ drop y body" if "x \<le> y" for x y
      using append_take_drop_id [of "y - x" "drop x body"] that by (simp add: slice_def del: append_take_drop_id)
    then show ?thesis using o(1,2) by simp
  qed
  then show ?case using Cons.IH [OF o(3)] h by simp
qed simp

fun rewritten :: "(str \<Rightarrow> str) \<Rightarrow> redactor \<Rightarrow> str \<Rightarrow> usize \<Rightarrow> (usize \<times> usize \<times> usize) list \<Rightarrow> str" where
  "rewritten h r body prev [] = []"
| "rewritten h r body prev ((i, a, b) # hs) =
     slice prev a body @ replacement h r i (slice a b body) @ rewritten h r body b hs"

fun end_of :: "usize \<Rightarrow> (usize \<times> usize \<times> usize) list \<Rightarrow> usize" where
  "end_of prev [] = prev"
| "end_of prev ((i, a, b) # hs) = end_of b hs"

lemma scrub_step_accepted:
  "scrub_step h r body caps (out, prev, cs) =
     (case accepted r body caps of
        None \<Rightarrow> (out, prev, cs)
      | Some (i, a, b) \<Rightarrow>
          (Some ((case out of None \<Rightarrow> [] | Some o1 \<Rightarrow> o1) @ slice prev a body @ replacement h r i (slice a b body)),
           b, bump i 1 cs))"
  by (simp add: scrub_step_def accepted_def Let_def split: option.splits prod.splits if_splits)

lemma scrub_fold:
  "fold (scrub_step h r body) cs (out, prev, c) =
     (let hs = List.map_filter (accepted r body) cs
      in (if hs = [] then out else Some ((case out of None \<Rightarrow> [] | Some o1 \<Rightarrow> o1) @ rewritten h r body prev hs),
          end_of prev hs, fold (\<lambda>(i, _). bump i 1) hs c))"
proof (induction cs arbitrary: out prev c)
  case (Cons x cs)
  show ?case
  proof (cases "accepted r body x")
    case None
    then show ?thesis by (simp add: scrub_step_accepted Cons.IH List.map_filter_simps)
  next
    case (Some y)
    obtain i a b where "y = (i, a, b)" by (cases y)
    then show ?thesis using Some by (simp add: scrub_step_accepted Cons.IH List.map_filter_simps Let_def)
  qed
qed (simp add: List.map_filter_simps)

lemma scrub_eq:
  "scrub h r body =
     (if hits r body = [] then None
      else Some (rewritten h r body 0 (hits r body) @ drop (end_of 0 (hits r body)) body,
                 fold (\<lambda>(i, _). bump i 1) (hits r body) om_empty))"
  by (simp add: scrub_def scrub_fold hits_def [symmetric] Let_def)

lemma weave_rewritten:
  "rewritten h r body prev hs @ drop (end_of prev hs) body =
     weave (gaps body prev hs) (map (\<lambda>(i, a, b). replacement h r i (slice a b body)) hs)"
  by (induction h r body prev hs rule: rewritten.induct) simp_all

lemma count_hits: "count_at (fold (\<lambda>(i, _). bump i 1) hs c) j = count_at c j + length (filter (\<lambda>x. fst x = j) hs)"
  by (induction hs arbitrary: c) auto

lemma length_gaps: "length (gaps body prev hs) = Suc (length hs)"
  by (induction body prev hs rule: gaps.induct) simp_all

definition tiny_policy :: redactor where
  "tiny_policy = \<lparr>rd_re = \<lparr>rx_captures_len = 2, rx_captures_iter = (\<lambda>_. [(\<lambda>g. if g = 1 then Some (1, 2) else None)])\<rparr>,
     rd_labels = [''x''], rd_groups = [1], rd_luhn_gated = [False], rd_action = RedactIt\<rparr>"

text \<open>
  C37. Redaction rewrites exactly the hits: the result is \<open>None\<close> when no hit stands, and otherwise the
  text is pieces with the hits between them and the result the same pieces, in the same order, with
  the replacements between them; no byte of a hit is left and no other byte is touched; and each rule
  is counted once for each of its hits.
\<close>

theorem scrub_rewrites_exactly_the_hits:
  assumes "in_order 0 (length body) (List.map_filter (rule_hit r) (rx_captures_iter (rd_re r) body))"
  shows "case scrub h r body of
      None \<Rightarrow> hits r body = []
    | Some (out, cs) \<Rightarrow> hits r body \<noteq> [] \<and>
        (\<exists>pieces. length pieces = Suc (length (hits r body))
           \<and> body = weave pieces (map (\<lambda>(i, a, b). slice a b body) (hits r body))
           \<and> out = weave pieces (map (\<lambda>(i, a, b). replacement h r i (slice a b body)) (hits r body)))
        \<and> (\<forall>i. count_at cs i = length (filter (\<lambda>x. fst x = i) (hits r body)))"
proof (cases "hits r body = []")
  case True
  then show ?thesis by (simp add: scrub_eq)
next
  case False
  have "in_order 0 (length body) (hits r body)" unfolding hits_def by (rule in_order_accepted [OF assms])
  then have "body = weave (gaps body 0 (hits r body)) (map (\<lambda>(i, a, b). slice a b body) (hits r body))"
    using weave_text [of 0 body "hits r body"] by simp
  then have "\<exists>pieces. length pieces = Suc (length (hits r body))
      \<and> body = weave pieces (map (\<lambda>(i, a, b). slice a b body) (hits r body))
      \<and> rewritten h r body 0 (hits r body) @ drop (end_of 0 (hits r body)) body
        = weave pieces (map (\<lambda>(i, a, b). replacement h r i (slice a b body)) (hits r body))"
    using length_gaps weave_rewritten by blast
  then show ?thesis
    using False by (simp add: scrub_eq count_hits del: One_nat_def)
qed

theorem scrub_rewrites_exactly_the_hits_witness:
  "\<exists>pieces. ''abc'' = weave pieces [''b'']"
  using scrub_rewrites_exactly_the_hits [of "''abc''" tiny_policy "\<lambda>_. []"]
  by (auto simp: tiny_policy_def rule_hit_def List.map_filter_simps hits_def accepted_def scrub_def scrub_step_def
    slice_def Let_def)

section \<open>A digit run that fails the checksum\<close>

text \<open>
  The two patterns of the \<open>credit_card\<close> and \<open>ssn\<close> classes, matched as \<open>regex\<close> documents it: leftmost
  first, alternatives in order, repetition greedy, the next search starting at the end of a match.
\<close>

fun card_more :: "nat \<Rightarrow> str \<Rightarrow> nat \<times> usize" where
  "card_more 0 s = (0, 0)"
| "card_more (Suc k) [] = (0, 0)"
| "card_more (Suc k) (c # s) =
     (if is_digit c then (let (n, l) = card_more k s in (Suc n, Suc l))
      else if c = CHR '' '' \<or> c = CHR ''-''
        then (case s of [] \<Rightarrow> (0, 0)
              | d # s' \<Rightarrow> if is_digit d then (let (n, l) = card_more k s' in (Suc n, Suc (Suc l))) else (0, 0))
        else (0, 0))"

definition card_len :: "str \<Rightarrow> usize option" where
  "card_len s =
     (case s of [] \<Rightarrow> None
      | c # s' \<Rightarrow> if is_digit c then (let (n, l) = card_more 18 s' in if 12 \<le> n then Some (Suc l) else None) else None)"

definition ssn_len :: "str \<Rightarrow> usize option" where
  "ssn_len s =
     (if 11 \<le> length s \<and> list_all is_digit (map ((!) s) [0, 1, 2, 4, 5, 7, 8, 9, 10]) \<and> s ! 3 = CHR ''-'' \<and> s ! 6 = CHR ''-''
      then Some 11 else None)"

fun matches_from :: "nat \<Rightarrow> (str \<Rightarrow> (nat \<times> usize) option) \<Rightarrow> usize \<Rightarrow> str \<Rightarrow> captures list" where
  "matches_from 0 m at s = []"
| "matches_from (Suc fuel) m at s =
     (case s of [] \<Rightarrow> []
      | c # s' \<Rightarrow>
          (case m s of
             Some (g, l) \<Rightarrow> (\<lambda>g'. if g' = g then Some (at, at + l) else None) # matches_from fuel m (at + l) (drop l s)
           | None \<Rightarrow> matches_from fuel m (at + 1) s'))"

definition card_then_ssn :: "str \<Rightarrow> (nat \<times> usize) option" where
  "card_then_ssn s =
     (case card_len s of Some l \<Rightarrow> Some (1, l)
      | None \<Rightarrow> (case ssn_len s of Some l \<Rightarrow> Some (2, l) | None \<Rightarrow> None))"

definition ssn_alone :: "str \<Rightarrow> (nat \<times> usize) option" where
  "ssn_alone s = map_option (Pair 1) (ssn_len s)"

definition two_rules :: redactor where
  "two_rules = \<lparr>rd_re = \<lparr>rx_captures_len = 3, rx_captures_iter = (\<lambda>s. matches_from (Suc (length s)) card_then_ssn 0 s)\<rparr>,
     rd_labels = [''credit_card'', ''ssn''], rd_groups = [1, 2], rd_luhn_gated = [True, False], rd_action = RedactIt\<rparr>"

definition ssn_rule :: redactor where
  "ssn_rule = \<lparr>rd_re = \<lparr>rx_captures_len = 2, rx_captures_iter = (\<lambda>s. matches_from (Suc (length s)) ssn_alone 0 s)\<rparr>,
     rd_labels = [''ssn''], rd_groups = [1], rd_luhn_gated = [False], rd_action = RedactIt\<rparr>"

text \<open>
  A match that fails its checksum hides what is inside it: the search goes on after the match, so
  the other rules never see its text. With the \<open>credit_card\<close> and \<open>ssn\<close> rules on, the social security
  number of \<open>123-45-6789 1234\<close> is stored as it is, although the \<open>ssn\<close> rule alone redacts it.
\<close>

theorem failed_checksum_hides_other_rules:
  "scrub h two_rules ''123-45-6789 1234'' = None
     \<and> scrub h ssn_rule ''123-45-6789 1234'' = Some (''[REDACTED:ssn] 1234'', [(0, 1)])"
  by code_simp

lemma trim_redact: "trim ''redact'' = ''redact''"
  by (rule trim_id) code_simp+

lemma trim_t: "trim ''t'' = ''t''"
  by (rule trim_id) code_simp+

lemma trim_a: "trim ''a'' = ''a''"
  by (rule trim_id) code_simp+

text \<open>
  A built policy's vectors agree: each rule has a label, a checksum flag and a group number; its group
  number is one more than the groups of all the alternatives before it, whatever capture groups those
  bring along, in the very alternation that was compiled; the built-in rules stand first, in the order
  of the class declaration and not of the request, and only the card rule is gated.
\<close>

theorem redactor_build_parallel:
  assumes "redactor_build regex_new classes custom act = Inr (Some r)"
  shows "\<exists>chosen pats names. length names = length custom
     \<and> rd_labels r = map class_as_str (filter (\<lambda>c. c \<in> chosen) all_classes) @ names
     \<and> rd_luhn_gated r = map (\<lambda>c. c = CreditCard) (filter (\<lambda>c. c \<in> chosen) all_classes) @ replicate (length custom) False
     \<and> length pats = length (rd_labels r)
     \<and> rd_groups r = map (\<lambda>i. 1 + sum_list (map (own_groups regex_new) (take i pats))) [0..<length pats]
     \<and> regex_new (join_with (CHR ''|'') (map (\<lambda>p. ''('' @ p @ '')'') pats)) = Inr (rd_re r)"
  by (rule redactor_build_rules [OF assms])

definition one_group :: "str \<Rightarrow> str + regex" where
  "one_group p = Inr \<lparr>rx_captures_len = 1, rx_captures_iter = \<lambda>_. []\<rparr>"

theorem redactor_build_parallel_witness:
  "\<exists>r. redactor_build one_group [] [''t=a''] ''redact'' = Inr (Some r) \<and> rd_groups r = [1] \<and> length (rd_labels r) = 1"
proof -
  have "action_parse ''redact'' = Some RedactIt"
    unfolding action_parse_def trim_redact by code_simp
  moreover have "split_once (CHR ''='') ''t=a'' = Some (''t'', ''a'')" by simp
  ultimately have "\<exists>r. redactor_build one_group [] [''t=a''] ''redact'' = Inr (Some r) \<and> rd_groups r = [1]"
    by (simp add: redactor_build_def trim_redact trim_t trim_a one_group_def push_rule_def building_start_def Let_def)
  then show ?thesis using redactor_build_parallel [of one_group "[]" "[''t=a'']" "''redact''"] by fastforce
qed

end
