(* ===== verification/Ingest.thy ===== *)
theory Ingest
  imports Writer Blob Redact
begin

text \<open>
  The ingest door, \<open>Store::ingest_batch\<close>, and what it is made of: the ledger of recently stored calls
  (\<^verbatim>\<open>src/calls.rs\<close>), redaction and offload (\<open>prepare_for_storage\<close>), the append to the writer's
  queue and the snapshot \<open>ingest_stats\<close>. The writer's answer to the append and the outcome of storing
  the scores are inputs.
\<close>

section \<open>The call ledger\<close>

definition call_key :: str where "call_key = ''evald.call_key''"
definition call_anchor :: str where "call_anchor = ''evald.call_anchor''"
definition ledger_capacity :: usize where "ledger_capacity = 16384"

record call_ledger =
  cl_set :: "str set"
  cl_order :: "str list"
  cl_capacity :: usize
  cl_dropped :: u64

definition with_capacity :: "usize \<Rightarrow> call_ledger" where
  "with_capacity n = \<lparr>cl_set = {}, cl_order = [], cl_capacity = max n 1, cl_dropped = 0\<rparr>"

definition may_carry_keys :: "normalized_span list \<Rightarrow> bool" where
  "may_carry_keys spans = list_ex (\<lambda>s. starts_with ''claude_code.'' (ns_name s)) spans"

definition attr_as_str :: "str \<Rightarrow> normalized_span \<Rightarrow> str option" where
  "attr_as_str k s = (case om_get (ns_raw_attributes s) k of None \<Rightarrow> None | Some v \<Rightarrow> j_as_str v)"

text \<open>The closure \<open>retain\<close> runs: the spans kept, the keys pushed, the number dropped.\<close>

fun retain_calls :: "str set \<Rightarrow> str set \<Rightarrow> normalized_span list \<Rightarrow> normalized_span list \<times> str list \<times> u64" where
  "retain_calls recent in_batch [] = ([], [], 0)"
| "retain_calls recent in_batch (s # ss) =
     (case attr_as_str call_anchor s of
        Some anchor \<Rightarrow>
          (let (kept, ks, d) = retain_calls recent (insert anchor in_batch) ss
           in (s # kept, (if anchor \<in> in_batch then ks else anchor # ks), d))
      | None \<Rightarrow>
          (case attr_as_str call_key s of
             None \<Rightarrow> (let (kept, ks, d) = retain_calls recent in_batch ss in (s # kept, ks, d))
           | Some key \<Rightarrow>
               if key \<in> recent \<or> key \<in> in_batch
               then (let (kept, ks, d) = retain_calls recent in_batch ss in (kept, ks, d + 1))
               else (let (kept, ks, d) = retain_calls recent (insert key in_batch) ss
                     in (s # kept, key # ks, d))))"

definition call_filter :: "normalized_span list \<Rightarrow> call_ledger \<Rightarrow> normalized_span list \<times> str list \<times> call_ledger" where
  "call_filter spans l =
     (let (kept, ks, d) = retain_calls (cl_set l) {} spans
      in (kept, ks, l\<lparr>cl_dropped := cl_dropped l + d\<rparr>))"

definition remember_one :: "str \<Rightarrow> call_ledger \<Rightarrow> call_ledger" where
  "remember_one k l =
     (if k \<in> cl_set l then l else l\<lparr>cl_set := insert k (cl_set l), cl_order := cl_order l @ [k]\<rparr>)"

function forget :: "call_ledger \<Rightarrow> call_ledger" where
  "forget l =
     (if cl_capacity l < length (cl_order l)
      then forget (l\<lparr>cl_set := cl_set l - {hd (cl_order l)}, cl_order := tl (cl_order l)\<rparr>)
      else l)"
  by pat_completeness auto

termination
  by (relation "measure (\<lambda>l. length (cl_order l))") auto

declare forget.simps [simp del]

definition remember :: "str list \<Rightarrow> call_ledger \<Rightarrow> call_ledger" where
  "remember ks l = (if ks = [] then l else forget (fold remember_one ks l))"

section \<open>Redact, then offload\<close>

record ingest_env =
  ie_gate :: ingest_gate
  ie_calls :: call_ledger
  ie_blobs :: blob_store
  ie_redactor :: "redactor option"
  ie_redaction_counts :: "u64 list"
  ie_blob_offload_bytes :: usize

definition add_hits :: "counts \<Rightarrow> u64 list \<Rightarrow> u64 list" where
  "add_hits cs counters =
     fold (\<lambda>(i, n) c. if i < length c then c[i := wrap_add (c ! i) n] else c) cs counters"

fun scrub_spans :: "(str \<Rightarrow> str) \<Rightarrow> redactor \<Rightarrow> normalized_span list \<Rightarrow> u64 list \<Rightarrow> normalized_span list \<times> u64 list" where
  "scrub_spans h r [] counters = ([], counters)"
| "scrub_spans h r (s # ss) counters =
     (let (s', cs) = scrub_span h r s;
          (ss', counters') = scrub_spans h r ss (add_hits cs counters)
      in (s' # ss', counters'))"

definition prepare_for_storage ::
  "(str \<Rightarrow> str) \<Rightarrow> (str \<Rightarrow> nat) \<Rightarrow> blob_io \<Rightarrow> normalized_span list \<Rightarrow> ingest_env
     \<Rightarrow> (normalized_span list \<times> usize \<times> ingest_env) option" where
  "prepare_for_storage h hash io spans e =
     (let (clean, counters) =
            (case ie_redactor e of
               None \<Rightarrow> (spans, ie_redaction_counts e)
             | Some r \<Rightarrow> scrub_spans h r spans (ie_redaction_counts e))
      in case offload_large_payloads hash io (ie_blob_offload_bytes e) clean (ie_blobs e) of
           None \<Rightarrow> None
         | Some (spans', n, blobs') \<Rightarrow>
             Some (spans', n, e\<lparr>ie_blobs := blobs', ie_redaction_counts := counters\<rparr>))"

section \<open>One batch\<close>

definition ingest_batch ::
  "(str \<Rightarrow> str) \<Rightarrow> (str \<Rightarrow> nat) \<Rightarrow> blob_io \<Rightarrow> nat \<Rightarrow> store_error + unit \<Rightarrow> io_error + unit \<Rightarrow> normalized_span list
     \<Rightarrow> ingest_env \<Rightarrow> ((store_error + usize) \<times> ingest_env) option" where
  "ingest_batch h hash io i ack scores_stored spans e =
     (let (kept, calls, ledger) =
            (if may_carry_keys spans then call_filter spans (ie_calls e) else (spans, [], ie_calls e));
          e1 = e\<lparr>ie_calls := ledger\<rparr>;
          count = length kept
      in case reject_if_disk_full count (ie_gate e1) of
           (Inl err, g) \<Rightarrow> Some (Inl err, e1\<lparr>ie_gate := g\<rparr>)
         | (Inr _, g) \<Rightarrow>
             (case prepare_for_storage h hash io kept (e1\<lparr>ie_gate := g\<rparr>) of
                None \<Rightarrow> None
              | Some (ready, _, e2) \<Rightarrow>
                  (case append i ready (ie_gate e2) of
                     (Inl err, g2) \<Rightarrow> Some (Inl err, e2\<lparr>ie_gate := g2\<rparr>)
                   | (Inr sent, g2) \<Rightarrow>
                       (case (if sent = None then Inr () else ack) of
                          Inl err \<Rightarrow> Some (Inl err, e2\<lparr>ie_gate := g2\<rparr>)
                        | Inr _ \<Rightarrow>
                            (let e3 = e2\<lparr>ie_gate := g2, ie_calls := remember calls (ie_calls e2)\<rparr>
                             in case scores_stored of
                                  Inl err \<Rightarrow> Some (Inl (Io err), e3)
                                | Inr _ \<Rightarrow> Some (Inr count, e3))))))"

section \<open>The ledger's invariant\<close>

definition ledger_ok :: "call_ledger \<Rightarrow> bool" where
  "ledger_ok l \<longleftrightarrow> cl_set l = set (cl_order l) \<and> distinct (cl_order l) \<and> length (cl_order l) \<le> cl_capacity l \<and> 1 \<le> cl_capacity l"

lemma ledger_ok_start: "ledger_ok (with_capacity n)"
  by (simp add: ledger_ok_def with_capacity_def)

text \<open>The keys in the order they were first remembered.\<close>

definition new_keys :: "str list \<Rightarrow> call_ledger \<Rightarrow> str list" where
  "new_keys ks l = fst (first_copies_from (\<lambda>k. k) (set (cl_order l)) ks)"

lemma remember_fold:
  "cl_set l = set (cl_order l) \<Longrightarrow>
     cl_order (fold remember_one ks l) = cl_order l @ new_keys ks l
     \<and> cl_set (fold remember_one ks l) = set (cl_order (fold remember_one ks l))
     \<and> cl_capacity (fold remember_one ks l) = cl_capacity l \<and> cl_dropped (fold remember_one ks l) = cl_dropped l"
proof (induction ks arbitrary: l)
  case Nil
  then show ?case by (simp add: new_keys_def)
next
  case (Cons k ks)
  show ?case
  proof (cases "k \<in> cl_set l")
    case True
    then show ?thesis using Cons by (simp add: remember_one_def new_keys_def)
  next
    case False
    let ?l = "l\<lparr>cl_set := insert k (cl_set l), cl_order := cl_order l @ [k]\<rparr>"
    have "cl_set ?l = set (cl_order ?l)" using Cons.prems by simp
    from Cons.IH [OF this] show ?thesis
      using False Cons.prems by (simp add: remember_one_def new_keys_def case_prod_beta)
  qed
qed

lemma forget_order:
  "cl_set l = set (cl_order l) \<Longrightarrow> distinct (cl_order l) \<Longrightarrow>
     cl_order (forget l) = drop (length (cl_order l) - cl_capacity l) (cl_order l)
     \<and> cl_set (forget l) = set (cl_order (forget l)) \<and> cl_capacity (forget l) = cl_capacity l
     \<and> cl_dropped (forget l) = cl_dropped l"
proof (induction l rule: forget.induct)
  case (1 l)
  show ?case
  proof (cases "cl_capacity l < length (cl_order l)")
    case True
    then obtain k ks where ks: "cl_order l = k # ks" by (cases "cl_order l") auto
    let ?l = "l\<lparr>cl_set := cl_set l - {hd (cl_order l)}, cl_order := tl (cl_order l)\<rparr>"
    have "cl_set ?l = set (cl_order ?l)" "distinct (cl_order ?l)" using 1(2,3) ks by auto
    note ih = 1(1) [OF True this]
    have step: "forget l = forget ?l" using True by (subst forget.simps) simp
    have "length (cl_order l) - cl_capacity l = Suc (length ks - cl_capacity l)"
      using True ks by simp
    then show ?thesis using ih ks unfolding step by simp
  next
    case False
    then show ?thesis using 1(2) by (simp add: forget.simps [of l])
  qed
qed

lemma remember_order:
  assumes "ledger_ok l"
  shows "cl_order (remember ks l) =
      drop (length (cl_order l @ new_keys ks l) - cl_capacity l) (cl_order l @ new_keys ks l)"
    and "ledger_ok (remember ks l)" and "cl_capacity (remember ks l) = cl_capacity l"
    and "cl_dropped (remember ks l) = cl_dropped l"
proof -
  note f = remember_fold [of l ks]
  have l: "cl_set l = set (cl_order l)" "distinct (cl_order l)" "length (cl_order l) \<le> cl_capacity l" "1 \<le> cl_capacity l"
    using assms by (simp_all add: ledger_ok_def)
  have d: "distinct (cl_order l @ new_keys ks l)"
    using l(2) first_copies_distinct [of "\<lambda>k. k" "set (cl_order l)" ks] first_copies_keys [of "\<lambda>k. k" "set (cl_order l)" ks]
    by (auto simp: new_keys_def)
  have d2: "distinct (cl_order (fold remember_one ks l))" using f [OF l(1)] d by simp
  note g = forget_order [OF _ d2]
  show o: "cl_order (remember ks l) =
      drop (length (cl_order l @ new_keys ks l) - cl_capacity l) (cl_order l @ new_keys ks l)"
    using f [OF l(1)] g l(3) by (auto simp: remember_def new_keys_def)
  show c: "cl_capacity (remember ks l) = cl_capacity l" using f [OF l(1)] g by (simp add: remember_def)
  show "cl_dropped (remember ks l) = cl_dropped l" using f [OF l(1)] g by (simp add: remember_def)
  have "cl_set (remember ks l) = set (cl_order (remember ks l))"
    using f [OF l(1)] g l(1) by (simp add: remember_def)
  moreover define xs where "xs = cl_order l @ new_keys ks l"
  then have "distinct xs" "cl_order (remember ks l) = drop (length xs - cl_capacity l) xs" using d o by simp_all
  ultimately show "ledger_ok (remember ks l)"
    using c l(4) by (simp add: ledger_ok_def distinct_drop)
qed

section \<open>What the filter keeps\<close>

definition droppable :: "normalized_span \<Rightarrow> bool" where
  "droppable s \<longleftrightarrow> attr_as_str call_anchor s = None \<and> attr_as_str call_key s \<noteq> None"

definition call_of :: "normalized_span \<Rightarrow> str option" where
  "call_of s = opt_or (attr_as_str call_anchor s) (attr_as_str call_key s)"

lemma retain_keys:
  "retain_calls recent in_batch ss = (kept, ks, d) \<Longrightarrow>
     (\<forall>s\<in>set ss. \<forall>k. call_of s = Some k \<longrightarrow> k \<in> set ks \<or> k \<in> recent \<or> k \<in> in_batch)
     \<and> distinct ks \<and> set ks \<inter> in_batch = {} \<and> d + length kept = length ss"
proof (induction recent in_batch ss arbitrary: kept ks d rule: retain_calls.induct)
  case (2 recent in_batch s ss)
  consider (anchor) a where "attr_as_str call_anchor s = Some a"
    | (plain) "attr_as_str call_anchor s = None" "attr_as_str call_key s = None"
    | (key) k where "attr_as_str call_anchor s = None" "attr_as_str call_key s = Some k"
    by (cases "attr_as_str call_anchor s"; cases "attr_as_str call_key s") auto
  then show ?case
  proof cases
    case anchor
    obtain kept1 ks1 d1 where r: "retain_calls recent (insert a in_batch) ss = (kept1, ks1, d1)" by (metis prod_cases3)
    have "kept = s # kept1" "ks = (if a \<in> in_batch then ks1 else a # ks1)" "d = d1"
      using 2(5) anchor r by auto
    then show ?thesis using 2(4) [OF anchor r] anchor by (auto simp: call_of_def)
  next
    case plain
    obtain kept1 ks1 d1 where r: "retain_calls recent in_batch ss = (kept1, ks1, d1)" by (metis prod_cases3)
    have "kept = s # kept1" "ks = ks1" "d = d1" using 2(5) plain r by auto
    then show ?thesis using 2(1) [OF plain r] plain by (auto simp: call_of_def)
  next
    case key
    show ?thesis
    proof (cases "k \<in> recent \<or> k \<in> in_batch")
      case True
      obtain kept1 ks1 d1 where r: "retain_calls recent in_batch ss = (kept1, ks1, d1)" by (metis prod_cases3)
      have "kept = kept1" "ks = ks1" "d = d1 + 1" using 2(5) key True r by auto
      then show ?thesis using 2(2) [OF key True r] key True by (auto simp: call_of_def)
    next
      case False
      obtain kept1 ks1 d1 where r: "retain_calls recent (insert k in_batch) ss = (kept1, ks1, d1)" by (metis prod_cases3)
      have "kept = s # kept1" "ks = k # ks1" "d = d1" using 2(5) key False r by auto
      then show ?thesis using 2(3) [OF key False r] key False by (auto simp: call_of_def)
    qed
  qed
qed simp

lemma retain_all_known:
  "\<forall>s\<in>set ss. \<forall>k. call_of s = Some k \<longrightarrow> k \<in> recent \<Longrightarrow>
     fst (retain_calls recent in_batch ss) = filter (\<lambda>s. \<not> droppable s) ss"
proof (induction recent in_batch ss rule: retain_calls.induct)
  case (2 recent in_batch s ss)
  then show ?case
    by (cases "attr_as_str call_anchor s"; cases "attr_as_str call_key s")
      (auto simp: droppable_def call_of_def case_prod_beta)
qed simp

lemma retain_keeps_undroppable: "s \<in> set ss \<Longrightarrow> \<not> droppable s \<Longrightarrow> s \<in> set (fst (retain_calls recent in_batch ss))"
proof (induction recent in_batch ss rule: retain_calls.induct)
  case (2 recent in_batch x ss)
  then show ?case
    by (cases "attr_as_str call_anchor x"; cases "attr_as_str call_key x")
      (auto simp: droppable_def case_prod_beta)
qed simp

definition claude_span :: "str \<Rightarrow> normalized_span" where
  "claude_span k = (plain_span ''t'' ''s'' 5)\<lparr>ns_name := ''claude_code.x'', ns_raw_attributes := [(call_key, JStr k)]\<rparr>"

text \<open>
  The ledger remembers exactly the newest keys: however many keys are remembered, in whatever order and
  with whatever repetitions, it holds the last \<open>capacity\<close> different ones in the order they were first
  remembered, its set and its queue name the same keys, and it never grows past its capacity.
\<close>

theorem ledger_remembers_the_newest:
  assumes "ledger_ok l"
  shows "ledger_ok (remember ks l)
     \<and> cl_order (remember ks l) =
         drop (length (cl_order l @ new_keys ks l) - cl_capacity l) (cl_order l @ new_keys ks l)
     \<and> set (cl_order l @ new_keys ks l) = set (cl_order l) \<union> set ks"
  using remember_order [OF assms, of ks] first_copies_keys [of "\<lambda>k. k" "set (cl_order l)" ks]
  by (auto simp: new_keys_def)

theorem ledger_remembers_the_newest_witness:
  "ledger_ok (remember [''a'', ''b'', ''c''] (with_capacity 2))
     \<and> cl_order (remember [''a'', ''b'', ''c''] (with_capacity 2)) = [''b'', ''c'']"
  using ledger_remembers_the_newest [OF ledger_ok_start, of "[''a'', ''b'', ''c'']" 2]
  by (simp add: with_capacity_def new_keys_def)

lemma call_filter_again:
  assumes "ledger_ok l" and "call_filter spans l = (kept, ks, l')"
    and "length (cl_order l) + length ks \<le> cl_capacity l"
  shows "fst (call_filter spans (remember ks l')) = filter (\<lambda>s. \<not> droppable s) spans"
proof -
  obtain d where r: "retain_calls (cl_set l) {} spans = (kept, ks, d)" and l': "l' = l\<lparr>cl_dropped := cl_dropped l + d\<rparr>"
    using assms(2) by (auto simp: call_filter_def split: prod.splits)
  have ok: "ledger_ok l'" using assms(1) l' by (simp add: ledger_ok_def)
  have len: "length (new_keys ks l') \<le> length ks" by (simp add: new_keys_def first_copies_length)
  have "cl_order (remember ks l') = cl_order l' @ new_keys ks l'"
    using remember_order(1) [OF ok, of ks] len assms(3) l' by simp
  moreover have "set (new_keys ks l') = set ks - set (cl_order l')"
    using first_copies_keys [of "\<lambda>k. k" "set (cl_order l')" ks] by (simp add: new_keys_def)
  ultimately have "set (cl_order (remember ks l')) = set (cl_order l) \<union> set ks" using l' by auto
  then have "cl_set (remember ks l') = cl_set l \<union> set ks"
    using remember_order(2) [OF ok, of ks] assms(1) by (simp add: ledger_ok_def)
  then have "\<forall>s\<in>set spans. \<forall>k. call_of s = Some k \<longrightarrow> k \<in> cl_set (remember ks l')"
    using retain_keys [OF r] by auto
  then show ?thesis using retain_all_known by (simp add: call_filter_def case_prod_beta)
qed

text \<open>
  One call is stored once: after a batch was filtered and its keys remembered, sending the same batch
  again keeps only the spans that must be kept, those without a call key and the anchors, as long as
  the ledger's capacity covers both batches; and every span the first filter dropped named a call
  already stored or standing earlier in the batch.
\<close>

theorem second_copy_of_a_call_is_dropped:
  assumes "ledger_ok l" and "call_filter spans l = (kept, ks, l')"
    and "length (cl_order l) + length ks \<le> cl_capacity l"
  shows "fst (call_filter spans (remember ks l')) = filter (\<lambda>s. \<not> droppable s) spans
     \<and> (\<forall>s\<in>set spans. \<not> droppable s \<longrightarrow> s \<in> set kept)
     \<and> (\<forall>s\<in>set spans. \<forall>k. call_of s = Some k \<longrightarrow> k \<in> set (cl_order l) \<or> k \<in> set ks)"
proof -
  obtain d where r: "retain_calls (cl_set l) {} spans = (kept, ks, d)"
    using assms(2) by (auto simp: call_filter_def split: prod.splits)
  show ?thesis
    using call_filter_again [OF assms] retain_keys [OF r] retain_keeps_undroppable [of _ spans "cl_set l" "{}"] r assms(1)
    by (auto simp: ledger_ok_def)
qed

lemma claude_span_call: "attr_as_str call_key (claude_span k) = Some k" "attr_as_str call_anchor (claude_span k) = None"
  by (simp_all add: attr_as_str_def claude_span_def om_get_def call_key_def call_anchor_def)

theorem second_copy_of_a_call_is_dropped_witness:
  "fst (call_filter [claude_span ''k''] (remember [''k''] (with_capacity 9))) = []"
proof -
  have "call_filter [claude_span ''k''] (with_capacity 9) = ([claude_span ''k''], [''k''], with_capacity 9)"
    by (simp add: call_filter_def claude_span_call with_capacity_def)
  from second_copy_of_a_call_is_dropped [OF ledger_ok_start this] show ?thesis
    by (simp add: with_capacity_def droppable_def claude_span_call)
qed

section \<open>The batch\<close>

definition redacted :: "(str \<Rightarrow> str) \<Rightarrow> redactor option \<Rightarrow> normalized_span \<Rightarrow> normalized_span" where
  "redacted h r s = (case r of None \<Rightarrow> s | Some r \<Rightarrow> fst (scrub_span h r s))"

lemma scrub_spans_map: "fst (scrub_spans h r ss counters) = map (\<lambda>s. fst (scrub_span h r s)) ss"
  by (induction ss arbitrary: counters) (auto simp: case_prod_beta)

lemma prepare_spec:
  assumes "prepare_for_storage h hash io spans e = Some (ready, n, e')"
  shows "list_all2 (\<lambda>s s'. span_moved (ie_blobs e') (redacted h (ie_redactor e) s) s') spans ready"
    and "blobs_kept (ie_blobs e) (ie_blobs e')" and "ie_gate e' = ie_gate e" and "ie_calls e' = ie_calls e"
proof -
  define clean where "clean = map (redacted h (ie_redactor e)) spans"
  obtain counters where c: "(case ie_redactor e of None \<Rightarrow> (spans, ie_redaction_counts e)
      | Some r \<Rightarrow> scrub_spans h r spans (ie_redaction_counts e)) = (clean, counters)"
    using scrub_spans_map [of h _ spans "ie_redaction_counts e"]
    by (cases "ie_redactor e") (auto simp: clean_def redacted_def prod_eq_iff fun_eq_iff map_idI)
  obtain blobs' where off: "offload_large_payloads hash io (ie_blob_offload_bytes e) clean (ie_blobs e) = Some (ready, n, blobs')"
    and e': "e' = e\<lparr>ie_blobs := blobs', ie_redaction_counts := counters\<rparr>"
    using assms c by (auto simp: prepare_for_storage_def Let_def split: option.splits)
  have m: "list_all2 (span_moved blobs') clean ready \<and> blobs_kept (ie_blobs e) blobs'" using offload_keeps [OF off] by blast
  then show "list_all2 (\<lambda>s s'. span_moved (ie_blobs e') (redacted h (ie_redactor e) s) s') spans ready"
    using e' by (simp add: clean_def list_all2_map1)
  show "blobs_kept (ie_blobs e) (ie_blobs e')" "ie_gate e' = ie_gate e" "ie_calls e' = ie_calls e"
    using m e' by simp_all
qed

lemma payload_slots_redacted: "payload_slots (map (redacted h r) spans) = payload_slots spans"
proof -
  have "length (ns_raw_attributes (redacted h r s)) = length (ns_raw_attributes s)" for s
    by (cases r) (simp_all add: redacted_def scrub_span_def Let_def case_prod_beta)
  then show ?thesis by (simp add: payload_slots_def comp_def)
qed

lemma prepare_returns:
  assumes "prepare_for_storage h hash io spans e = None"
  shows "2 ^ 32 < length (bs_dir (ie_blobs e)) + payload_slots spans"
proof -
  define clean where "clean = map (redacted h (ie_redactor e)) spans"
  obtain counters where c: "(case ie_redactor e of None \<Rightarrow> (spans, ie_redaction_counts e)
      | Some r \<Rightarrow> scrub_spans h r spans (ie_redaction_counts e)) = (clean, counters)"
    using scrub_spans_map [of h _ spans "ie_redaction_counts e"]
    by (cases "ie_redactor e") (auto simp: clean_def redacted_def prod_eq_iff fun_eq_iff map_idI)
  have "offload_large_payloads hash io (ie_blob_offload_bytes e) clean (ie_blobs e) = None"
    using assms c by (auto simp: prepare_for_storage_def Let_def split: option.splits)
  then show ?thesis using offload_returns [of hash io _ clean "ie_blobs e"] by (simp add: clean_def payload_slots_redacted)
qed

text \<open>The spans that pass the ledger, their keys, and the ledger after the filter.\<close>

definition admitted :: "normalized_span list \<Rightarrow> call_ledger \<Rightarrow> normalized_span list \<times> str list \<times> call_ledger" where
  "admitted spans l = (if may_carry_keys spans then call_filter spans l else (spans, [], l))"

lemma admitted_ledger:
  "admitted spans l = (kept, ks, l') \<Longrightarrow> cl_set l' = cl_set l \<and> cl_order l' = cl_order l \<and> cl_capacity l' = cl_capacity l"
  by (auto simp: admitted_def call_filter_def split: if_splits prod.splits)

lemma reject_cases:
  assumes "reject_if_disk_full n g = (r, g')"
  shows "ig_queue g' = ig_queue g" "r = Inr () \<longleftrightarrow> n = 0 \<or> \<not> ig_disk_blocked g"
    "ig_disk_blocked g' = ig_disk_blocked g"
  using assms by (auto simp: reject_if_disk_full_def split: if_splits)

lemma append_cases:
  assumes "append i spans g = (r, g')"
  shows "ig_queue g' = (if r = Inr (Some i) then ig_queue g @ [Append i spans] else ig_queue g)"
    and "r = Inr None \<longleftrightarrow> spans = []"
  using assms
  by (auto simp: append_def try_send_def reject_if_disk_full_def split: if_splits prod.splits sum.splits)

text \<open>
  How a batch ends: refused at the floor; refused at the queue or by the writer; or durable, its keys
  remembered and the scores stored or not.
\<close>

lemma ingest_batch_cases:
  assumes "ingest_batch h hash io i ack scores_stored spans e = Some (r, e')"
    and "admitted spans (ie_calls e) = (kept, ks, ledger)"
  obtains (floor) err g where "reject_if_disk_full (length kept) (ie_gate e) = (Inl err, g)" "r = Inl err"
      "e' = e\<lparr>ie_calls := ledger, ie_gate := g\<rparr>"
  | (refused) g ready n e2 res g2 err where "reject_if_disk_full (length kept) (ie_gate e) = (Inr (), g)"
      "prepare_for_storage h hash io kept (e\<lparr>ie_calls := ledger, ie_gate := g\<rparr>) = Some (ready, n, e2)"
      "append i ready (ie_gate e2) = (res, g2)" "res = Inl err \<or> (\<exists>j. res = Inr (Some j)) \<and> ack = Inl err"
      "r = Inl err" "e' = e2\<lparr>ie_gate := g2\<rparr>"
  | (durable) g ready n e2 res g2 where "reject_if_disk_full (length kept) (ie_gate e) = (Inr (), g)"
      "prepare_for_storage h hash io kept (e\<lparr>ie_calls := ledger, ie_gate := g\<rparr>) = Some (ready, n, e2)"
      "append i ready (ie_gate e2) = (Inr res, g2)" "res = None \<or> ack = Inr ()"
      "r = (case scores_stored of Inl err \<Rightarrow> Inl (Io err) | Inr _ \<Rightarrow> Inr (length kept))"
      "e' = e2\<lparr>ie_gate := g2, ie_calls := remember ks ledger\<rparr>"
proof -
  obtain rr g where rej: "reject_if_disk_full (length kept) (ie_gate e) = (rr, g)" by (cases "reject_if_disk_full (length kept) (ie_gate e)")
  have run: "(case (rr, g) of
      (Inl err, g) \<Rightarrow> Some (Inl err, e\<lparr>ie_calls := ledger, ie_gate := g\<rparr>)
    | (Inr _, g) \<Rightarrow>
        (case prepare_for_storage h hash io kept (e\<lparr>ie_calls := ledger, ie_gate := g\<rparr>) of
           None \<Rightarrow> None
         | Some (ready, _, e2) \<Rightarrow>
             (case append i ready (ie_gate e2) of
                (Inl err, g2) \<Rightarrow> Some (Inl err, e2\<lparr>ie_gate := g2\<rparr>)
              | (Inr sent, g2) \<Rightarrow>
                  (case (if sent = None then Inr () else ack) of
                     Inl err \<Rightarrow> Some (Inl err, e2\<lparr>ie_gate := g2\<rparr>)
                   | Inr _ \<Rightarrow>
                       (let e3 = e2\<lparr>ie_gate := g2, ie_calls := remember ks (ie_calls e2)\<rparr>
                        in case scores_stored of
                             Inl err \<Rightarrow> Some (Inl (Io err), e3)
                           | Inr _ \<Rightarrow> Some (Inr (length kept), e3)))))) = Some (r, e')"
    using assms rej by (simp add: ingest_batch_def admitted_def [symmetric] Let_def)
  show thesis
  proof (cases rr)
    case (Inl err)
    then show thesis using floor rej run by simp
  next
    case (Inr u)
    then obtain ready n e2 where prep: "prepare_for_storage h hash io kept (e\<lparr>ie_calls := ledger, ie_gate := g\<rparr>) = Some (ready, n, e2)"
      using run by (auto split: option.splits)
    have calls: "ie_calls e2 = ledger" using prepare_spec(4) [OF prep] by simp
    obtain res g2 where app: "append i ready (ie_gate e2) = (res, g2)" by (cases "append i ready (ie_gate e2)")
    have rej': "reject_if_disk_full (length kept) (ie_gate e) = (Inr (), g)" using rej Inr by simp
    show thesis
    proof (cases res)
      case (Inl err)
      then show thesis using refused [OF rej' prep app] run \<open>rr = Inr u\<close> prep app by simp
    next
      case (Inr sent)
      show thesis
      proof (cases "if sent = None then Inr () else ack")
        case (Inl err)
        then have "\<exists>j. res = Inr (Some j)" "ack = Inl err" using \<open>res = Inr sent\<close> by (auto split: if_splits)
        then show thesis using refused [OF rej' prep app] run \<open>rr = Inr u\<close> prep app Inl \<open>res = Inr sent\<close> by simp
      next
        case (Inr v)
        then have d: "sent = None \<or> ack = Inr ()" by (auto split: if_splits)
        have "Some (case scores_stored of Inl err \<Rightarrow> Inl (Io err) | Inr _ \<Rightarrow> Inr (length kept),
            e2\<lparr>ie_gate := g2, ie_calls := remember ks ledger\<rparr>) = Some (r, e')"
          using run \<open>rr = Inr u\<close> prep app Inr \<open>res = Inr sent\<close> calls by (simp add: Let_def split: sum.splits)
        then show thesis using durable [OF rej' prep app [unfolded \<open>res = Inr sent\<close>] d] by simp
      qed
    qed
  qed
qed

definition demo_env :: ingest_env where
  "demo_env = \<lparr>ie_gate = \<lparr>ig_disk_blocked = True, ig_disk_free = 3, ig_disk_min_free = 9, ig_disk_blocked_spans = 0,
       ig_capacity = 4, ig_queue = [], ig_closed = False\<rparr>,
     ie_calls = with_capacity 9, ie_blobs = demo_blobs, ie_redactor = None, ie_redaction_counts = [],
     ie_blob_offload_bytes = 0\<rparr>"

lemma ingest_batch_returns:
  assumes "ingest_batch h hash io i ack scores_stored spans e = None" and "admitted spans (ie_calls e) = (kept, ks, ledger)"
  shows "2 ^ 32 < length (bs_dir (ie_blobs e)) + payload_slots kept"
proof -
  obtain rr g where rej: "reject_if_disk_full (length kept) (ie_gate e) = (rr, g)" by (rule prod.exhaust)
  have "prepare_for_storage h hash io kept (e\<lparr>ie_calls := ledger, ie_gate := g\<rparr>) = None"
    using assms rej by (auto simp: ingest_batch_def admitted_def [symmetric] Let_def split: option.splits sum.splits prod.splits if_splits)
  from prepare_returns [OF this] show ?thesis by simp
qed

lemma ingest_queues_redacted:
  assumes "ingest_batch h hash io i ack scores_stored spans e = Some (r, e')"
    and "admitted spans (ie_calls e) = (kept, ks, ledger)"
  shows "(ig_queue (ie_gate e') = ig_queue (ie_gate e)
       \<or> (\<exists>ready. ig_queue (ie_gate e') = ig_queue (ie_gate e) @ [Append i ready]
            \<and> list_all2 (\<lambda>s s'. span_moved (ie_blobs e') (redacted h (ie_redactor e) s) s') kept ready))
     \<and> blobs_kept (ie_blobs e) (ie_blobs e')
     \<and> (ig_disk_blocked (ie_gate e) \<and> kept \<noteq> [] \<longrightarrow>
          ie_blobs e' = ie_blobs e \<and> ig_queue (ie_gate e') = ig_queue (ie_gate e) \<and> (\<exists>err. r = Inl err))"
  using assms
proof (cases rule: ingest_batch_cases)
  case (floor err g)
  then show ?thesis using reject_cases(1) [OF floor(1)] by simp
next
  case (refused g ready n e2 res g2 err)
  note p = prepare_spec [OF refused(2)]
  have q: "ig_queue (ie_gate e2) = ig_queue (ie_gate e)" using p(3) reject_cases(1) [OF refused(1)] by simp
  have "\<not> (ig_disk_blocked (ie_gate e) \<and> kept \<noteq> [])" using reject_cases(2) [OF refused(1)] by auto
  then show ?thesis using append_cases(1) [OF refused(3)] p(1,2) q refused(6) by (auto split: if_splits)
next
  case (durable g ready n e2 res g2)
  note p = prepare_spec [OF durable(2)]
  have q: "ig_queue (ie_gate e2) = ig_queue (ie_gate e)" using p(3) reject_cases(1) [OF durable(1)] by simp
  have "\<not> (ig_disk_blocked (ie_gate e) \<and> kept \<noteq> [])" using reject_cases(2) [OF durable(1)] by auto
  then show ?thesis using append_cases(1) [OF durable(3)] p(1,2) q durable(6) by (auto split: if_splits)
qed

text \<open>
  C36. Nothing raw reaches the log: a batch either queues nothing, or queues one append whose spans are, one
  for one and in order, the redacted forms of the spans the ledger admitted, each payload in place or a
  reference that reads back as the redacted payload; no stored blob is touched; and under the disk
  floor a batch writes no blob and queues nothing at all. A batch always ends, unless the blob
  directory holds nearly \<open>2 ^ 32\<close> names.
\<close>

theorem ingest_queues_only_redacted_spans:
  assumes "admitted spans (ie_calls e) = (kept, ks, ledger)"
  shows "case ingest_batch h hash io i ack scores_stored spans e of
     Some (r, e') \<Rightarrow>
       (ig_queue (ie_gate e') = ig_queue (ie_gate e)
         \<or> (\<exists>ready. ig_queue (ie_gate e') = ig_queue (ie_gate e) @ [Append i ready]
              \<and> list_all2 (\<lambda>s s'. span_moved (ie_blobs e') (redacted h (ie_redactor e) s) s') kept ready))
       \<and> blobs_kept (ie_blobs e) (ie_blobs e')
       \<and> (ig_disk_blocked (ie_gate e) \<and> kept \<noteq> [] \<longrightarrow>
            ie_blobs e' = ie_blobs e \<and> ig_queue (ie_gate e') = ig_queue (ie_gate e) \<and> (\<exists>err. r = Inl err))
   | None \<Rightarrow> 2 ^ 32 < length (bs_dir (ie_blobs e)) + payload_slots kept"
proof (cases "ingest_batch h hash io i ack scores_stored spans e")
  case None
  then show ?thesis using ingest_batch_returns [OF None assms] by simp
next
  case (Some x)
  obtain r e' where x: "x = (r, e')" by (rule prod.exhaust)
  show ?thesis using ingest_queues_redacted [OF Some [unfolded x] assms] by (simp add: Some x)
qed

text \<open>A store with room, a policy that finds one hit, and a span whose input has it.\<close>

definition open_env :: ingest_env where
  "open_env = demo_env\<lparr>ie_gate := (ie_gate demo_env)\<lparr>ig_disk_blocked := False\<rparr>, ie_redactor := Some tiny_policy\<rparr>"

lemma wordy_redacted:
  "redacted (\<lambda>_. []) (Some tiny_policy) wordy_span = wordy_span\<lparr>ns_input_value := Some ''h[REDACTED:x]llo''\<rparr>"
  by (simp add: redacted_def scrub_span_def scrub_text_def scrub_def scrub_step_def rule_hit_def tiny_policy_def wordy_span_def
      plain_span_def om_empty_def slice_def replacement_def List.map_filter_simps Let_def)

lemma open_ingest:
  "\<exists>e' ready. ingest_batch (\<lambda>_. []) demo_hash quiet_io 4 (Inr ()) (Inr ()) [wordy_span] open_env = Some (Inr 1, e')
     \<and> ig_queue (ie_gate e') = [Append 4 ready] \<and> map ns_input_value ready = [Some ''h[REDACTED:x]llo'']"
proof -
  let ?s = "wordy_span\<lparr>ns_input_value := Some ''h[REDACTED:x]llo''\<rparr>"
  have m: "\<not> may_carry_keys [wordy_span]"
    by (simp add: may_carry_keys_def wordy_span_def plain_span_def starts_with_def)
  obtain counters where "scrub_spans (\<lambda>_. []) tiny_policy [wordy_span] [] = ([?s], counters)"
    using scrub_spans_map [of "\<lambda>_. []" tiny_policy "[wordy_span]" "[]"] wordy_redacted
    by (cases "scrub_spans (\<lambda>_. []) tiny_policy [wordy_span] []") (simp add: redacted_def)
  then have p: "prepare_for_storage (\<lambda>_. []) demo_hash quiet_io [wordy_span] open_env = Some ([?s], 0, open_env\<lparr>ie_redaction_counts := counters\<rparr>)"
    by (simp add: prepare_for_storage_def open_env_def demo_env_def offload_large_payloads_def Let_def)
  have same: "open_env\<lparr>ie_calls := ie_calls open_env\<rparr> = open_env" "open_env\<lparr>ie_calls := ie_calls open_env, ie_gate := ie_gate open_env\<rparr> = open_env" by simp_all
  have g: "reject_if_disk_full n (ie_gate open_env) = (Inr (), ie_gate open_env)" for n
    by (simp add: reject_if_disk_full_def open_env_def demo_env_def)
  have a: "append 4 [?s] (ie_gate open_env) = (Inr (Some 4), (ie_gate open_env)\<lparr>ig_queue := [Append 4 [?s]]\<rparr>)"
    by (simp add: append_def try_send_def reject_if_disk_full_def open_env_def demo_env_def)
  show ?thesis using m p g a by (simp add: ingest_batch_def same Let_def)
qed

lemma demo_ingest:
  "ingest_batch (\<lambda>_. []) demo_hash quiet_io 0 (Inr ()) (Inr ()) [claude_span ''k''] demo_env =
     Some (Inl (DiskFull 3 9), demo_env\<lparr>ie_gate := (ie_gate demo_env)\<lparr>ig_disk_blocked_spans := 1\<rparr>\<rparr>)"
  "admitted [claude_span ''k''] (ie_calls demo_env) = ([claude_span ''k''], [''k''], with_capacity 9)"
proof -
  have f: "call_filter [claude_span ''k''] (with_capacity 9) = ([claude_span ''k''], [''k''], with_capacity 9)"
    by (simp add: call_filter_def claude_span_call with_capacity_def)
  have m: "may_carry_keys [claude_span ''k'']" by (simp add: may_carry_keys_def claude_span_def starts_with_def)
  show "admitted [claude_span ''k''] (ie_calls demo_env) = ([claude_span ''k''], [''k''], with_capacity 9)"
    using f m by (simp add: admitted_def demo_env_def)
  show "ingest_batch (\<lambda>_. []) demo_hash quiet_io 0 (Inr ()) (Inr ()) [claude_span ''k''] demo_env =
     Some (Inl (DiskFull 3 9), demo_env\<lparr>ie_gate := (ie_gate demo_env)\<lparr>ig_disk_blocked_spans := 1\<rparr>\<rparr>)"
    using f m by (simp add: ingest_batch_def demo_env_def reject_if_disk_full_def)
qed

theorem ingest_queues_only_redacted_spans_witness:
  "\<exists>e' ready. ingest_batch (\<lambda>_. []) demo_hash quiet_io 4 (Inr ()) (Inr ()) [wordy_span] open_env = Some (Inr 1, e')
     \<and> ig_queue (ie_gate e') = [Append 4 ready] \<and> map ns_input_value ready = [Some ''h[REDACTED:x]llo'']
     \<and> list_all2 (\<lambda>s s'. span_moved (ie_blobs e') (redacted (\<lambda>_. []) (Some tiny_policy) s) s') [wordy_span] ready"
proof -
  have "admitted [wordy_span] (ie_calls open_env) = ([wordy_span], [], ie_calls open_env)"
    by (simp add: admitted_def may_carry_keys_def wordy_span_def plain_span_def starts_with_def)
  note only = ingest_queues_only_redacted_spans [OF this, where h = "\<lambda>_. []" and hash = demo_hash and io = quiet_io and i = 4
      and ack = "Inr ()" and scores_stored = "Inr ()"]
  obtain e' ready where run: "ingest_batch (\<lambda>_. []) demo_hash quiet_io 4 (Inr ()) (Inr ()) [wordy_span] open_env = Some (Inr 1, e')
    \<and> ig_queue (ie_gate e') = [Append 4 ready] \<and> map ns_input_value ready = [Some ''h[REDACTED:x]llo'']"
    using open_ingest by (elim exE)
  have "ig_queue (ie_gate open_env) = []" "ie_redactor open_env = Some tiny_policy" by (simp_all add: open_env_def demo_env_def)
  then show ?thesis using only run by auto
qed

text \<open>
  A batch that was not made durable can be sent again: when the floor, the queue or the writer refuses
  it, the ledger remembers none of its keys, so the retry admits exactly the spans the first try did;
  and when it was made durable its keys are remembered, even if storing the scores then fails.
\<close>

theorem refused_batch_is_admitted_again:
  assumes "ingest_batch h hash io i ack scores_stored spans e = Some (r, e')"
    and "admitted spans (ie_calls e) = (kept, ks, ledger)"
  shows "(\<forall>err. ack = Inl err \<longrightarrow> kept \<noteq> [] \<longrightarrow> fst (admitted spans (ie_calls e')) = kept)
     \<and> (ig_disk_blocked (ie_gate e) \<longrightarrow> kept \<noteq> [] \<longrightarrow> fst (admitted spans (ie_calls e')) = kept)
     \<and> (\<forall>n. r = Inr n \<longrightarrow> n = length kept \<and> ie_calls e' = remember ks ledger)
     \<and> (\<forall>err. scores_stored = Inl err \<longrightarrow> r = Inl (Io err) \<longrightarrow> ack = Inr () \<longrightarrow> \<not> ig_disk_blocked (ie_gate e) \<longrightarrow>
          ig_queue (ie_gate e') \<noteq> ig_queue (ie_gate e) \<longrightarrow> ie_calls e' = remember ks ledger)"
proof -
  have again: "fst (admitted spans l) = kept" if "cl_set l = cl_set (ie_calls e)" for l
    using assms(2) that by (auto simp: admitted_def call_filter_def split: if_splits prod.splits)
  have ledger: "cl_set ledger = cl_set (ie_calls e)" using admitted_ledger [OF assms(2)] by simp
  show ?thesis
    using assms
  proof (cases rule: ingest_batch_cases)
    case (floor err g)
    then have "ig_disk_blocked (ie_gate e)" using reject_cases(2) [OF floor(1)] by auto
    then show ?thesis using floor again ledger by simp
  next
    case (refused g ready n e2 res g2 err)
    have c: "ie_calls e' = ledger" using prepare_spec(4) [OF refused(2)] refused(6) by simp
    have "res = Inl err \<Longrightarrow> ig_queue (ie_gate e') = ig_queue (ie_gate e)"
      using append_cases(1) [OF refused(3)] prepare_spec(3) [OF refused(2)] reject_cases(1) [OF refused(1)] refused(6)
      by simp
    moreover have "res \<noteq> Inl err \<Longrightarrow> ack = Inl err" using refused(4) by auto
    ultimately show ?thesis using refused(5) again ledger c by auto
  next
    case (durable g ready n e2 res g2)
    have len: "length ready = length kept" using prepare_spec(1) [OF durable(2)] by (simp add: list_all2_lengthD)
    have "res = None \<longleftrightarrow> ready = []" using append_cases(2) [OF durable(3)] by simp
    then have "ack = Inl err \<Longrightarrow> kept = []" for err using durable(4) len by auto
    moreover have "\<not> (ig_disk_blocked (ie_gate e) \<and> kept \<noteq> [])" using reject_cases(2) [OF durable(1)] by auto
    ultimately show ?thesis using durable(5,6) by (auto split: sum.splits)
  qed
qed

theorem refused_batch_is_admitted_again_witness:
  "fst (admitted [claude_span ''k''] (ie_calls demo_env)) = [claude_span ''k'']"
  using refused_batch_is_admitted_again [OF demo_ingest] by (simp add: demo_env_def)

end
