(* ===== verification/ClaudeCode.thy ===== *)
theory ClaudeCode
  imports LogRecord Ingest
begin

text \<open>
  \<^verbatim>\<open>src/claude_code.rs\<close>: Claude Code's log events as spans (\<open>map_log\<close>), and the fix-up of its traced
  spans, so that the two descriptions of one call get the same span id and the same call key.
\<close>

definition claude_tracing_scope :: str where
  "claude_tracing_scope = ''com.anthropic.claude_code.tracing''"
definition claude_service_name :: str where "claude_service_name = ''claude-code''"
definition claude_llm_name :: str where "claude_llm_name = ''claude_code.llm_request''"
definition claude_tool_span_name :: str where "claude_tool_span_name = ''claude_code.tool''"
definition claude_prompt_name :: str where "claude_prompt_name = ''claude_code.user_prompt''"

definition claude_is_mine :: "record_ctx \<Rightarrow> bool" where
  "claude_is_mine ctx \<longleftrightarrow>
     (case cx_scope_name ctx of Some s \<Rightarrow> starts_with ''com.anthropic.claude_code'' s | None \<Rightarrow> False)
     \<or> cx_service_name ctx = Some claude_service_name"

section \<open>Identity and placement\<close>

definition llm_span_id :: "crates \<Rightarrow> str \<Rightarrow> byte list" where
  "llm_span_id cr request_id = derive_id cr 8 [''claude_code.llm'', request_id]"

definition tool_span_id :: "crates \<Rightarrow> str \<Rightarrow> byte list" where
  "tool_span_id cr tool_use_id = derive_id cr 8 [''claude_code.tool'', tool_use_id]"

definition prompt_span_id :: "crates \<Rightarrow> str \<Rightarrow> byte list" where
  "prompt_span_id cr prompt_id = derive_id cr 8 [''claude_code.prompt'', prompt_id]"

definition claude_placement :: "crates \<Rightarrow> log_record \<Rightarrow> bool \<Rightarrow> byte list \<times> byte list \<times> u64" where
  "claude_placement cr r is_prompt =
     (let a = lr_attributes r;
          (trace, span) = trace_context r;
          prompt = attr_str a ''prompt.id'';
          trace_id = (case trace of
                        Some t \<Rightarrow> t
                      | None \<Rightarrow> derive_id cr 16 [''claude_code.trace'', str_or [] (attr_str a ''session.id''), str_or [] prompt]);
          parent = (case (span, prompt) of
                      (Some s, _) \<Rightarrow> s
                    | (None, Some p) \<Rightarrow> if \<not> is_prompt then prompt_span_id cr p else []
                    | (None, None) \<Rightarrow> [])
      in (trace_id, parent, record_time r))"

definition record_key :: "log_record \<Rightarrow> str" where
  "record_key r =
     str_or [] (attr_str (lr_attributes r) ''session.id'') @ ''|'' @
     str_or [] (attr_str (lr_attributes r) ''event.sequence'') @ ''|'' @ dec_of (record_time r)"

section \<open>Events as spans\<close>

definition nonneg_finite :: "f64 option \<Rightarrow> f64 option" where
  "nonneg_finite x = (case x of Some v \<Rightarrow> if is_finite v \<and> f_nonneg v then Some v else None | None \<Rightarrow> None)"

definition millis_to_secs :: "f64 \<Rightarrow> f64" where
  "millis_to_secs ms = f_div ms (f_of_int 1000)"

definition wrap_sum :: "u64 option list \<Rightarrow> u64" where
  "wrap_sum xs = fold (\<lambda>x acc. wrap_add acc (or_zero x)) xs 0"

definition claude_total :: "key_value list \<Rightarrow> u64 option" where
  "claude_total a =
     (let input = attr_u64 a ''input_tokens''; output = attr_u64 a ''output_tokens''
      in if input \<noteq> None \<or> output \<noteq> None
         then Some (wrap_sum [input, output, attr_u64 a ''cache_read_tokens'', attr_u64 a ''cache_creation_tokens''])
         else None)"

definition claude_llm_attributes :: "key_value list \<Rightarrow> str \<Rightarrow> key_value list" where
  "claude_llm_attributes a key =
     (let request_id = attr_str a ''request_id'';
          at1 = add_attr a (kv_str ''gen_ai.operation.name'' ''chat'');
          at2 = add_attr at1 (kv_str ''gen_ai.provider.name'' ''anthropic'');
          at3 = add_some (kv_str ''gen_ai.request.model'') (attr_str a ''model'') at2;
          at4 = add_some (kv_str ''gen_ai.response.model'') (attr_str a ''model'') at3;
          at5 = add_some (\<lambda>v. kv_int ''gen_ai.usage.input_tokens'' (as_i64 v)) (attr_u64 a ''input_tokens'') at4;
          at6 = add_some (\<lambda>v. kv_int ''gen_ai.usage.output_tokens'' (as_i64 v)) (attr_u64 a ''output_tokens'') at5;
          at7 = add_some (\<lambda>v. kv_int ''gen_ai.usage.cache_read.input_tokens'' (as_i64 v)) (attr_u64 a ''cache_read_tokens'') at6;
          at8 = add_some (\<lambda>v. kv_int ''gen_ai.usage.cache_creation.input_tokens'' (as_i64 v)) (attr_u64 a ''cache_creation_tokens'') at7;
          at9 = add_some (\<lambda>v. kv_int ''gen_ai.usage.total_tokens'' (as_i64 v)) (claude_total a) at8;
          at10 = add_some (kv_f64 ''gen_ai.usage.cost'') (nonneg_finite (attr_f64 a ''cost_usd'')) at9;
          at11 = add_some (kv_str ''gen_ai.response.id'') request_id at10;
          at12 = add_some (\<lambda>ms. kv_f64 ''gen_ai.response.time_to_first_chunk'' (millis_to_secs ms))
                   (nonneg_finite (attr_f64 a ''ttft_ms'')) at11;
          at13 = add_attr at12 (kv_str ''evald.source'' ''log'')
      in add_attr at13 (kv_str call_key (''claude_code.llm:'' @ key)))"

definition claude_llm_key :: "log_record \<Rightarrow> str" where
  "claude_llm_key r =
     str_or (record_key r) (opt_or (attr_str (lr_attributes r) ''request_id'') (attr_str (lr_attributes r) ''client_request_id''))"

definition claude_llm_span :: "crates \<Rightarrow> record_ctx \<Rightarrow> log_record \<Rightarrow> str option \<Rightarrow> normalized_span" where
  "claude_llm_span cr ctx r err =
     (let a = lr_attributes r;
          (trace_id, parent, time) = claude_placement cr r False;
          key = claude_llm_key r
      in finish cr ctx
           \<lparr>sd_trace_id = trace_id, sd_span_id = llm_span_id cr key, sd_parent_span_id = parent,
            sd_name = claude_llm_name, sd_start_unix_nano = start_of time a, sd_end_unix_nano = time,
            sd_status = map_option Inl err, sd_attributes = claude_llm_attributes a key\<rparr>)"

definition json_get :: "json \<Rightarrow> str \<Rightarrow> json option" where
  "json_get v k = (case v of JObj m \<Rightarrow> om_get m k | _ \<Rightarrow> None)"

definition claude_tool_name :: "crates \<Rightarrow> key_value list \<Rightarrow> str option" where
  "claude_tool_name cr a =
     (case attr_str a ''tool_name'' of
        None \<Rightarrow> None
      | Some name \<Rightarrow>
          if name \<noteq> ''mcp_tool'' then Some name
          else let details = (case attr_str a ''tool_parameters'' of None \<Rightarrow> None | Some p \<Rightarrow> cr_from_str cr p);
                   part = (\<lambda>k. case details of None \<Rightarrow> None
                             | Some d \<Rightarrow> (case json_get d k of None \<Rightarrow> None
                                 | Some v \<Rightarrow> (case j_as_str v of None \<Rightarrow> None | Some t \<Rightarrow> non_empty t)))
               in (case (part ''mcp_server_name'', part ''mcp_tool_name'') of
                     (Some server, Some tool) \<Rightarrow> Some (''mcp__'' @ server @ ''__'' @ tool)
                   | _ \<Rightarrow> Some name))"

definition claude_tool_span :: "crates \<Rightarrow> record_ctx \<Rightarrow> log_record \<Rightarrow> str option \<Rightarrow> normalized_span" where
  "claude_tool_span cr ctx r rejected =
     (let a = lr_attributes r;
          (trace_id, parent, time) = claude_placement cr r False;
          tool_use_id = attr_str a ''tool_use_id'';
          key = str_or (record_key r) tool_use_id;
          at1 = add_attr a (kv_str ''gen_ai.operation.name'' ''execute_tool'');
          at2 = add_some (kv_str ''gen_ai.tool.name'') (claude_tool_name cr a) at1;
          at3 = add_some (kv_str ''gen_ai.tool.call.id'') tool_use_id at2;
          at4 = add_attr at3 (kv_str ''evald.source'' ''log'');
          attributes = add_attr at4 (kv_str call_key (''claude_code.tool:'' @ key));
          status = (case rejected of
                      Some reason \<Rightarrow> Some (Inl reason)
                    | None \<Rightarrow> if attr_str a ''success'' = Some ''false''
                              then Some (Inl (str_or ''tool failed'' (attr_str a ''error_type''))) else None);
          start = (if status \<noteq> None \<and> attr_u64 a ''duration_ms'' = None then time else start_of time a)
      in finish cr ctx
           \<lparr>sd_trace_id = trace_id, sd_span_id = tool_span_id cr key, sd_parent_span_id = parent,
            sd_name = claude_tool_span_name, sd_start_unix_nano = start, sd_end_unix_nano = time,
            sd_status = status, sd_attributes = attributes\<rparr>)"

definition claude_prompt_span :: "crates \<Rightarrow> record_ctx \<Rightarrow> log_record \<Rightarrow> normalized_span" where
  "claude_prompt_span cr ctx r =
     (let a = lr_attributes r;
          (trace_id, parent, time) = claude_placement cr r True;
          key = str_or (record_key r) (attr_str a ''prompt.id'')
      in finish cr ctx
           \<lparr>sd_trace_id = trace_id, sd_span_id = prompt_span_id cr key, sd_parent_span_id = parent,
            sd_name = claude_prompt_name, sd_start_unix_nano = time, sd_end_unix_nano = time,
            sd_status = None, sd_attributes = add_attr a (kv_str ''evald.source'' ''log'')\<rparr>)"

definition claude_map_log :: "crates \<Rightarrow> record_ctx \<Rightarrow> log_record \<Rightarrow> str option \<Rightarrow> mapping" where
  "claude_map_log cr ctx r name0 =
     (if \<not> claude_is_mine ctx then NotMine
      else case name0 of
             None \<Rightarrow> NotMine
           | Some name \<Rightarrow>
               let event = (case strip_prefix ''claude_code.'' name of Some e \<Rightarrow> e | None \<Rightarrow> name);
                   a = lr_attributes r
               in if event = ''api_request'' then MapSpan (claude_llm_span cr ctx r None)
                  else if event = ''api_error'' then
                    MapSpan (claude_llm_span cr ctx r (Some (str_or ''API request failed'' (attr_str a ''error''))))
                  else if event = ''tool_result'' then MapSpan (claude_tool_span cr ctx r None)
                  else if event = ''tool_decision'' then
                    (if attr_str a ''decision'' = Some ''reject''
                     then MapSpan (claude_tool_span cr ctx r
                            (Some (''rejected ('' @ str_or ''unknown'' (attr_str a ''source'') @ '')'')))
                     else MapFolded)
                  else if event = ''user_prompt'' then MapSpan (claude_prompt_span cr ctx r)
                  else if event = ''assistant_response'' \<or> event = ''api_refusal'' then MapFolded
                  else NotMine)"

section \<open>Traced spans\<close>

definition json_f64 :: "json \<Rightarrow> f64 option" where
  "json_f64 v =
     (case v of JNum n \<Rightarrow> j_as_f64 (JNum n) | JStr s \<Rightarrow> f_parse s | _ \<Rightarrow> None)"

definition raw_u64 :: "(str, json) omap \<Rightarrow> str \<Rightarrow> u64 option" where
  "raw_u64 m key =
     (case om_get m key of
        Some (JNum n) \<Rightarrow> j_as_u64 (JNum n)
      | Some (JStr s) \<Rightarrow> parse_u64 s
      | _ \<Rightarrow> None)"

definition claude_fix_tokens :: "(str, json) omap \<Rightarrow> tokens \<Rightarrow> tokens" where
  "claude_fix_tokens m t =
     (let t1 = t\<lparr>tk_prompt := opt_or (tk_prompt t) (raw_u64 m ''input_tokens''),
                 tk_completion := opt_or (tk_completion t) (raw_u64 m ''output_tokens''),
                 tk_cache_read := opt_or (tk_cache_read t) (raw_u64 m ''cache_read_tokens''),
                 tk_cache_write := opt_or (tk_cache_write t) (raw_u64 m ''cache_creation_tokens'')\<rparr>
      in if tk_total t1 = None \<and> (tk_prompt t1 \<noteq> None \<or> tk_completion t1 \<noteq> None)
         then t1\<lparr>tk_total := Some (wrap_sum [tk_prompt t1, tk_completion t1, tk_cache_read t1, tk_cache_write t1])\<rparr>
         else t1)"

definition claude_fix_ttft :: "(str, json) omap \<Rightarrow> (str, json) omap" where
  "claude_fix_ttft m =
     (if om_get m ''gen_ai.response.time_to_first_chunk'' \<noteq> None then m
      else case (case om_get m ''ttft_ms'' of None \<Rightarrow> None | Some v \<Rightarrow> nonneg_finite (json_f64 v)) of
             None \<Rightarrow> m
           | Some ms \<Rightarrow> om_insert ''gen_ai.response.time_to_first_chunk'' (json_f64_or_null (millis_to_secs ms)) m)"

definition raw_str :: "(str, json) omap \<Rightarrow> str \<Rightarrow> str option" where
  "raw_str m key =
     (case om_get m key of None \<Rightarrow> None
      | Some v \<Rightarrow> (case j_as_str v of None \<Rightarrow> None | Some s \<Rightarrow> non_empty s))"

definition claude_fix_llm :: "crates \<Rightarrow> normalized_span \<Rightarrow> normalized_span" where
  "claude_fix_llm cr n =
     (let m = ns_raw_attributes n;
          m1 = claude_fix_ttft m;
          n1 = n\<lparr>ns_tokens := claude_fix_tokens m (ns_tokens n), ns_raw_attributes := m1\<rparr>
      in case raw_str m1 ''request_id'' of
           None \<Rightarrow> n1
         | Some req \<Rightarrow>
             n1\<lparr>ns_span_id := hex_encode (llm_span_id cr req),
                ns_raw_attributes :=
                  om_insert call_key (JStr (''claude_code.llm:'' @ req))
                    (om_insert ''evald.otel.span_id'' (JStr (ns_span_id n)) m1)\<rparr>)"

definition claude_fix_trace_span :: "crates \<Rightarrow> normalized_span \<Rightarrow> normalized_span" where
  "claude_fix_trace_span cr n =
     (if ns_name n = claude_llm_name then claude_fix_llm cr n
      else if ns_name n = ''claude_code.tool.execution'' then n\<lparr>ns_oi_kind := None\<rparr>
      else if ns_name n = claude_tool_span_name then
        (case raw_str (ns_raw_attributes n) ''tool_use_id'' of
           None \<Rightarrow> n
         | Some tid \<Rightarrow> n\<lparr>ns_raw_attributes :=
               om_insert call_anchor (JStr (''claude_code.tool:'' @ tid)) (ns_raw_attributes n)\<rparr>)
      else n)"

end
