(* ===== verification/Codex.thy ===== *)
theory Codex
  imports LogRecord
begin

text \<open>
  \<^verbatim>\<open>src/codex.rs\<close>: Codex CLI's log events as spans. A conversation's turn, its last request, its
  provider and its refused tool calls are remembered between records; the process-wide \<open>Recall\<close> and
  the memory of the request are passed in and out.
\<close>

section \<open>What is remembered of a conversation\<close>

record codex_request =
  cq_trace_id :: "byte list"
  cq_span_id :: "byte list"
  cq_start :: u64

record conversation =
  cv_turn :: "(byte list \<times> byte list) option"
  cv_request :: "codex_request option"
  cv_provider :: "str option"
  cv_refused :: "(str \<times> str) list"

definition conversation_default :: conversation where
  "conversation_default = \<lparr>cv_turn = None, cv_request = None, cv_provider = None, cv_refused = []\<rparr>"

definition refused_kept :: usize where
  "refused_kept = 16"

type_synonym codex_memory = "(str, conversation) omap \<times> conversation recall"

definition codex_get :: "codex_memory \<Rightarrow> str \<Rightarrow> conversation option" where
  "codex_get mem conv = recall_get (snd mem) (fst mem) conv"

definition codex_update :: "str \<Rightarrow> (conversation \<Rightarrow> conversation) \<Rightarrow> codex_memory \<Rightarrow> codex_memory" where
  "codex_update conv f mem = recall_update conversation_default conv f mem"

definition codex_is_mine :: "record_ctx \<Rightarrow> bool" where
  "codex_is_mine ctx \<longleftrightarrow>
     (case cx_scope_name ctx of Some s \<Rightarrow> starts_with ''codex_otel'' s | None \<Rightarrow> False)
     \<or> (case cx_service_name ctx of Some s \<Rightarrow> starts_with ''codex'' s | None \<Rightarrow> False)"

definition codex_is_trace_scope :: "str option \<Rightarrow> bool" where
  "codex_is_trace_scope service_name \<longleftrightarrow>
     (case service_name of Some s \<Rightarrow> starts_with ''codex'' s | None \<Rightarrow> False)"

section \<open>Reading a record\<close>

definition full_range :: "u64 \<Rightarrow> bool" where
  "full_range code0 \<longleftrightarrow> 200 \<le> code0 \<and> code0 < 300"

definition request_error :: "str \<Rightarrow> key_value list \<Rightarrow> str option" where
  "request_error event a =
     (case attr_str a ''error.message'' of
        Some (c # cs) \<Rightarrow> Some (c # cs)
      | _ \<Rightarrow>
          if event = ''websocket_request'' then
            (if attr_str a ''success'' = Some ''false'' then Some ''websocket request failed'' else None)
          else (case attr_u64 a ''http.response.status_code'' of
                  Some n \<Rightarrow> if full_range n then None else Some (''HTTP '' @ dec_of n)
                | None \<Rightarrow> Some ''no response''))"

definition codex_tool_name :: "key_value list \<Rightarrow> str option" where
  "codex_tool_name a =
     (case attr_str a ''tool_name'' of
        None \<Rightarrow> None
      | Some name \<Rightarrow>
          (case attr_str a ''tool_namespace'' of
             Some ns \<Rightarrow> if starts_with ''mcp__'' ns then Some (ns @ ''__'' @ name) else Some name
           | None \<Rightarrow> Some name))"

text \<open>\<open>str::parse::<i64>\<close>: an optional sign, then digits, in range.\<close>

definition parse_i64 :: "str \<Rightarrow> i64 option" where
  "parse_i64 s =
     (let (neg, ds) = (case s of c # t \<Rightarrow> if c = CHR ''-'' then (True, t)
                                        else if c = CHR ''+'' then (False, t) else (False, s)
                      | [] \<Rightarrow> (False, []))
      in if ds = [] then None
         else case dec_value 0 ds of
                None \<Rightarrow> None
              | Some n \<Rightarrow> (let v = (if neg then - int n else int n)
                         in if - (2 ^ 63) \<le> v \<and> v < 2 ^ 63 then Some v else None))"

definition exit_code :: "key_value list \<Rightarrow> i64 option" where
  "exit_code a =
     (case attr_str a ''output'' of
        None \<Rightarrow> None
      | Some output \<Rightarrow>
          (case find_map (strip_prefix ''Process exited with code '') (str_lines output) of
             None \<Rightarrow> None
           | Some t \<Rightarrow>
               (case parse_i64 (trim t) of
                  None \<Rightarrow> None
                | Some n \<Rightarrow> if n \<noteq> 0 then Some n else None)))"

section \<open>Placement\<close>

definition codex_placement :: "crates \<Rightarrow> codex_memory \<Rightarrow> str \<Rightarrow> byte list \<times> byte list" where
  "codex_placement cr mem conv =
     (case (case codex_get mem conv of None \<Rightarrow> None | Some c \<Rightarrow> cv_turn c) of
        Some turn \<Rightarrow> turn
      | None \<Rightarrow> (derive_id cr 16 [''codex.trace'', conv], []))"

definition own_context :: "log_record \<Rightarrow> (byte list \<times> byte list) option" where
  "own_context r = (case trace_context r of (Some t, Some s) \<Rightarrow> Some (t, s) | _ \<Rightarrow> None)"

definition codex_common :: "key_value list \<Rightarrow> str \<Rightarrow> (byte list \<times> byte list) option \<Rightarrow> key_value list" where
  "codex_common a conv own =
     (let at1 = (case own of
                   None \<Rightarrow> a
                 | Some (t, s) \<Rightarrow>
                     add_attr (add_attr a (kv_str ''evald.otel.trace_id'' (hex_encode t)))
                       (kv_str ''evald.otel.span_id'' (hex_encode s)));
          at2 = (if conv \<noteq> [] then add_attr at1 (kv_str ''gen_ai.conversation.id'' conv) else at1)
      in add_attr at2 (kv_str ''evald.source'' ''log''))"

definition codex_counts :: "(str \<times> str) list" where
  "codex_counts =
     [(''gen_ai.usage.input_tokens'', ''input_token_count''),
      (''gen_ai.usage.output_tokens'', ''output_token_count''),
      (''gen_ai.usage.cache_read.input_tokens'', ''cached_token_count''),
      (''gen_ai.usage.cache_creation.input_tokens'', ''cache_write_token_count''),
      (''gen_ai.usage.reasoning.output_tokens'', ''reasoning_token_count''),
      (''gen_ai.usage.total_tokens'', ''tool_token_count'')]"

definition codex_ttft :: "key_value list \<Rightarrow> f64 option" where
  "codex_ttft a =
     (case attr_f64 a ''ttft_ms'' of
        Some v \<Rightarrow> if is_finite v \<and> f_nonneg v then Some (f_div v (f_of_int 1000)) else None
      | None \<Rightarrow> None)"

section \<open>Events as spans\<close>

definition codex_llm_span ::
  "crates \<Rightarrow> record_ctx \<Rightarrow> log_record \<Rightarrow> str \<Rightarrow> str option \<Rightarrow> codex_memory \<Rightarrow> normalized_span" where
  "codex_llm_span cr ctx r conv err mem =
     (let a = lr_attributes r;
          time = record_time r;
          remembered = (case codex_get mem conv of Some c \<Rightarrow> c | None \<Rightarrow> conversation_default);
          (trace_id, parent) = codex_placement cr mem conv;
          (start, own) =
            (case (own_context r, cv_request remembered) of
               (Some own, _) \<Rightarrow> (start_of time a, Some own)
             | (None, Some q) \<Rightarrow>
                 (min (cq_start q) time, if cq_trace_id q \<noteq> [] then Some (cq_trace_id q, cq_span_id q) else None)
             | (None, None) \<Rightarrow> (time, None));
          at1 = add_attr (codex_common a conv own) (kv_str ''gen_ai.operation.name'' ''chat'');
          at2 = add_some (kv_str ''gen_ai.provider.name'') (cv_provider remembered) at1;
          at3 = add_some (kv_str ''gen_ai.request.model'') (attr_str a ''model'') at2;
          at4 = add_some (kv_str ''gen_ai.response.model'') (attr_str a ''model'') at3;
          at5 = fold (\<lambda>(k, src). add_some (\<lambda>n. kv_int k (as_i64 n)) (attr_u64 a src)) codex_counts at4;
          attributes = add_some (kv_f64 ''gen_ai.response.time_to_first_chunk'') (codex_ttft a) at5;
          attempt = str_or [] (attr_str a ''attempt'')
      in finish cr ctx
           \<lparr>sd_trace_id = trace_id, sd_span_id = derive_id cr 8 [''codex.llm'', conv, dec_of time, attempt],
            sd_parent_span_id = parent, sd_name = ''codex.llm_request'',
            sd_start_unix_nano = start, sd_end_unix_nano = time,
            sd_status = map_option Inl err, sd_attributes = attributes\<rparr>)"

text \<open>\<open>position\<close> and \<open>remove\<close>: the first refusal of a call, taken out of the list.\<close>

fun take_refusal :: "str \<Rightarrow> (str \<times> str) list \<Rightarrow> str option \<times> (str \<times> str) list" where
  "take_refusal tid [] = (None, [])"
| "take_refusal tid ((c, why) # xs) =
     (if c = tid then (Some why, xs)
      else let (w, ys) = take_refusal tid xs in (w, (c, why) # ys))"

definition take_refused :: "str \<Rightarrow> str option \<Rightarrow> codex_memory \<Rightarrow> str option \<times> codex_memory" where
  "take_refused conv call_id mem =
     (case (call_id, codex_get mem conv) of
        (Some tid, Some c) \<Rightarrow>
          if list_ex (\<lambda>(c', _). c' = tid) (cv_refused c)
          then (fst (take_refusal tid (cv_refused c)),
                codex_update conv (cv_refused_update (\<lambda>xs. snd (take_refusal tid xs))) mem)
          else (None, mem)
      | _ \<Rightarrow> (None, mem))"

definition codex_tool_span ::
  "crates \<Rightarrow> record_ctx \<Rightarrow> log_record \<Rightarrow> str \<Rightarrow> codex_memory \<Rightarrow> normalized_span \<times> codex_memory" where
  "codex_tool_span cr ctx r conv mem =
     (let a = lr_attributes r;
          time = record_time r;
          (trace_id, parent) = codex_placement cr mem conv;
          call_id = attr_str a ''call_id'';
          key = str_or (conv @ ''|'' @ dec_of time) call_id;
          at1 = add_attr (codex_common a conv (own_context r)) (kv_str ''gen_ai.operation.name'' ''execute_tool'');
          at2 = add_some (kv_str ''gen_ai.tool.name'') (codex_tool_name a) at1;
          at3 = add_some (kv_str ''gen_ai.tool.call.id'') call_id at2;
          at4 = add_some (kv_str ''gen_ai.tool.call.arguments'')
                  (case attr_str a ''arguments'' of Some s \<Rightarrow> non_empty s | None \<Rightarrow> None) at3;
          attributes = add_some (kv_str ''mcp.server.name'')
                  (case attr_str a ''mcp_server'' of Some s \<Rightarrow> non_empty s | None \<Rightarrow> None) at4;
          (refused, mem') = take_refused conv call_id mem;
          status = (case refused of
                      Some why \<Rightarrow> Some (Inl why)
                    | None \<Rightarrow>
                        if attr_str a ''success'' = Some ''false'' then Some (Inl ''tool failed'')
                        else map_option (\<lambda>c. Inl (''exit code '' @ int_to_string c)) (exit_code a))
      in (finish cr ctx
            \<lparr>sd_trace_id = trace_id, sd_span_id = derive_id cr 8 [''codex.tool'', key],
             sd_parent_span_id = parent, sd_name = ''codex.tool'',
             sd_start_unix_nano = start_of time a, sd_end_unix_nano = time,
             sd_status = status, sd_attributes = attributes\<rparr>,
          mem'))"

definition codex_prompt_span ::
  "crates \<Rightarrow> record_ctx \<Rightarrow> log_record \<Rightarrow> str \<Rightarrow> byte list \<times> byte list \<Rightarrow> normalized_span" where
  "codex_prompt_span cr ctx r conv turn =
     finish cr ctx
       \<lparr>sd_trace_id = fst turn, sd_span_id = snd turn, sd_parent_span_id = [],
        sd_name = ''codex.user_prompt'', sd_start_unix_nano = record_time r, sd_end_unix_nano = record_time r,
        sd_status = None, sd_attributes = codex_common (lr_attributes r) conv (own_context r)\<rparr>"

section \<open>One record\<close>

definition remember_request :: "log_record \<Rightarrow> str \<Rightarrow> codex_memory \<Rightarrow> codex_memory" where
  "remember_request r conv mem =
     (let (trace, span) = trace_context r;
          q = \<lparr>cq_trace_id = (case trace of Some t \<Rightarrow> t | None \<Rightarrow> []),
               cq_span_id = (case span of Some s \<Rightarrow> s | None \<Rightarrow> []),
               cq_start = start_of (record_time r) (lr_attributes r)\<rparr>
      in codex_update conv (cv_request_update (\<lambda>_. Some q)) mem)"

definition remember_refusal :: "key_value list \<Rightarrow> str \<Rightarrow> codex_memory \<Rightarrow> codex_memory" where
  "remember_refusal a conv mem =
     (let decision = str_or [] (attr_str a ''decision'')
      in if starts_with ''approved'' decision then mem
         else case attr_str a ''call_id'' of
                None \<Rightarrow> mem
              | Some call \<Rightarrow>
                  let why = decision @ '' ('' @ str_or ''unknown'' (attr_str a ''source'') @ '')''
                  in codex_update conv
                       (cv_refused_update (\<lambda>xs.
                          let ys = xs @ [(call, why)] in if refused_kept < length ys then tl ys else ys)) mem)"

definition codex_map_log ::
  "crates \<Rightarrow> record_ctx \<Rightarrow> log_record \<Rightarrow> str option \<Rightarrow> codex_memory \<Rightarrow> mapping \<times> codex_memory" where
  "codex_map_log cr ctx r name0 mem =
     (if \<not> codex_is_mine ctx then (NotMine, mem)
      else case (case name0 of None \<Rightarrow> None | Some n \<Rightarrow> strip_prefix ''codex.'' n) of
             None \<Rightarrow> (NotMine, mem)
           | Some event \<Rightarrow>
               let a = lr_attributes r;
                   conv = str_or [] (attr_str a ''conversation.id'')
               in if event = ''conversation_starts'' then
                    (MapFolded,
                     (case attr_str a ''provider_name'' of
                        Some (c # cs) \<Rightarrow> codex_update conv (cv_provider_update (\<lambda>_. Some (to_ascii_lowercase (c # cs)))) mem
                      | _ \<Rightarrow> mem))
                  else if event = ''user_prompt'' then
                    (let time = dec_of (record_time r);
                         turn = (derive_id cr 16 [''codex.turn'', conv, time], derive_id cr 8 [''codex.prompt'', conv, time])
                     in (MapSpan (codex_prompt_span cr ctx r conv turn),
                         codex_update conv (cv_turn_update (\<lambda>_. Some turn)) mem))
                  else if event = ''api_request'' \<and>
                          (case attr_str a ''endpoint'' of Some e \<Rightarrow> \<not> contains_str ''responses'' e | None \<Rightarrow> False) then
                    (MapFolded, mem)
                  else if event = ''api_request'' \<or> event = ''websocket_request'' then
                    (case request_error event a of
                       Some msg \<Rightarrow> (MapSpan (codex_llm_span cr ctx r conv (Some msg) mem), mem)
                     | None \<Rightarrow> (MapFolded, remember_request r conv mem))
                  else if event = ''sse_event'' then
                    (let kind = attr_str a ''event.kind'';
                         ends_call = (kind = None \<or> kind = Some ''response.completed'' \<or> kind = Some ''response.failed'')
                     in case (if ends_call then attr_str a ''error.message'' else None) of
                          Some err \<Rightarrow> (MapSpan (codex_llm_span cr ctx r conv (Some err) mem), mem)
                        | None \<Rightarrow>
                            if kind = Some ''response.completed'' \<and> attr_u64 a ''input_token_count'' \<noteq> None
                            then (MapSpan (codex_llm_span cr ctx r conv None mem), mem)
                            else (MapFolded, mem))
                  else if event = ''tool_decision'' then (MapFolded, remember_refusal a conv mem)
                  else if event = ''tool_result'' then
                    (let (span, mem') = codex_tool_span cr ctx r conv mem in (MapSpan span, mem'))
                  else (NotMine, mem))"

definition codex_fix_trace_span :: "normalized_span \<Rightarrow> normalized_span" where
  "codex_fix_trace_span n =
     (if ns_name n = ''handle_responses'' \<and> (\<not> tokens_is_empty (ns_tokens n) \<or> ns_cost_usd n \<noteq> None)
      then set_aside n usage_copy else n)\<lparr>ns_session_id := None\<rparr>"

end
