(* ===== verification/GeminiCli.thy ===== *)
theory GeminiCli
  imports LogRecord
begin

text \<open>
  \<^verbatim>\<open>src/gemini_cli.rs\<close>: Gemini CLI's log events as spans, placed by turn with what \<open>Recall\<close> keeps of a
  session, and the fix-up of its traced spans. The process-wide \<open>Recall\<close> and the memory of the
  request are passed in and out.
\<close>

definition gemini_service_name :: str where "gemini_service_name = ''gemini-cli''"

record gemini_turn =
  gt_trace_id :: "byte list"
  gt_prompt_span :: "byte list"

record gemini_session =
  gs_turn :: "gemini_turn option"
  gs_request :: "(byte list \<times> byte list) option"

definition gemini_session_default :: gemini_session where
  "gemini_session_default = \<lparr>gs_turn = None, gs_request = None\<rparr>"

type_synonym gemini_memory = "(str, gemini_session) omap \<times> gemini_session recall"

definition gemini_is_mine :: "record_ctx \<Rightarrow> bool" where
  "gemini_is_mine ctx \<longleftrightarrow> cx_service_name ctx = Some gemini_service_name \<or> cx_scope_name ctx = Some gemini_service_name"

definition gemini_is_trace_scope :: "str option \<Rightarrow> bool" where
  "gemini_is_trace_scope service_name \<longleftrightarrow> service_name = Some gemini_service_name"

definition gemini_get :: "gemini_memory \<Rightarrow> str \<Rightarrow> gemini_session option" where
  "gemini_get mem session = recall_get (snd mem) (fst mem) session"

definition both :: "byte list option \<times> byte list option \<Rightarrow> (byte list \<times> byte list) option" where
  "both c = (case c of (Some t, Some s) \<Rightarrow> Some (t, s) | _ \<Rightarrow> None)"

definition gemini_common :: "log_record \<Rightarrow> str \<Rightarrow> (byte list \<times> byte list) option \<Rightarrow> key_value list" where
  "gemini_common r session own =
     (let at1 = (case own of
                   None \<Rightarrow> lr_attributes r
                 | Some (t, s) \<Rightarrow>
                     add_attr (add_attr (lr_attributes r) (kv_str ''evald.otel.trace_id'' (hex_encode t)))
                       (kv_str ''evald.otel.span_id'' (hex_encode s)));
          at2 = (if session \<noteq> [] then add_attr at1 (kv_str ''gen_ai.conversation.id'' session) else at1)
      in add_attr at2 (kv_str ''evald.source'' ''log''))"

definition gemini_placement :: "crates \<Rightarrow> log_record \<Rightarrow> str \<Rightarrow> gemini_memory \<Rightarrow> byte list \<times> byte list" where
  "gemini_placement cr r session mem =
     (case (case gemini_get mem session of None \<Rightarrow> None | Some s \<Rightarrow> gs_turn s) of
        Some t \<Rightarrow> (gt_trace_id t, gt_prompt_span t)
      | None \<Rightarrow> (derive_id cr 16 [''gemini_cli.turn'', session, str_or [] (attr_str (lr_attributes r) ''prompt_id'')], []))"

definition gemini_usage :: "key_value list \<Rightarrow> (str \<times> u64 option) list" where
  "gemini_usage a =
     (let tool_input = or_zero (attr_u64 a ''tool_token_count'')
      in [(''gen_ai.usage.input_tokens'', map_option (\<lambda>i. wrap_add i tool_input) (attr_u64 a ''input_token_count'')),
          (''gen_ai.usage.output_tokens'', attr_u64 a ''output_token_count''),
          (''gen_ai.usage.cache_read.input_tokens'', attr_u64 a ''cached_content_token_count''),
          (''gen_ai.usage.reasoning.output_tokens'', attr_u64 a ''thoughts_token_count''),
          (''gen_ai.usage.total_tokens'', attr_u64 a ''total_token_count'')])"

definition add_counts :: "(str \<times> u64 option) list \<Rightarrow> key_value list \<Rightarrow> key_value list" where
  "add_counts usage attrs = fold (\<lambda>(k, v). add_some (\<lambda>n. kv_int k (as_i64 n)) v) usage attrs"

definition gemini_llm_span ::
  "crates \<Rightarrow> record_ctx \<Rightarrow> log_record \<Rightarrow> str \<Rightarrow> str option \<Rightarrow> gemini_memory \<Rightarrow> normalized_span" where
  "gemini_llm_span cr ctx r session err mem =
     (let a = lr_attributes r;
          time = record_time r;
          (trace_id, parent) = gemini_placement cr r session mem;
          remembered = (case gemini_get mem session of None \<Rightarrow> None | Some s \<Rightarrow> gs_request s);
          own = opt_or (both (trace_context r)) remembered;
          at1 = add_attr (gemini_common r session own) (kv_str ''gen_ai.operation.name'' ''chat'');
          provider = (if attr_str a ''auth_type'' = Some ''vertex-ai'' then ''gcp.vertex_ai'' else ''gcp.gemini'');
          at2 = add_attr at1 (kv_str ''gen_ai.provider.name'' provider);
          model = attr_str a ''model'';
          at3 = add_some (kv_str ''gen_ai.request.model'') model at2;
          at4 = add_some (kv_str ''gen_ai.response.model'') model at3;
          attributes = add_counts (gemini_usage a) at4
      in finish cr ctx
           \<lparr>sd_trace_id = trace_id,
            sd_span_id = derive_id cr 8 [''gemini_cli.llm'', session, dec_of time, str_or [] model],
            sd_parent_span_id = parent, sd_name = ''gemini_cli.llm_request'',
            sd_start_unix_nano = start_of time a, sd_end_unix_nano = time,
            sd_status = map_option Inl err, sd_attributes = attributes\<rparr>)"

definition filled :: "str option \<Rightarrow> str option" where
  "filled x = (case x of Some s \<Rightarrow> non_empty s | None \<Rightarrow> None)"

definition gemini_tool_name :: "key_value list \<Rightarrow> str option" where
  "gemini_tool_name a =
     (case attr_str a ''function_name'' of
        None \<Rightarrow> None
      | Some name \<Rightarrow>
          (case filled (attr_str a ''mcp_server_name'') of
             None \<Rightarrow> Some name
           | Some s \<Rightarrow>
               (case strip_prefix (''mcp_'' @ s @ ''_'') name of
                  Some tool \<Rightarrow> Some (''mcp__'' @ s @ ''__'' @ tool)
                | None \<Rightarrow> Some name)))"

definition gemini_tool_span :: "crates \<Rightarrow> record_ctx \<Rightarrow> log_record \<Rightarrow> str \<Rightarrow> gemini_memory \<Rightarrow> normalized_span" where
  "gemini_tool_span cr ctx r session mem =
     (let a = lr_attributes r;
          time = record_time r;
          (trace_id, parent) = gemini_placement cr r session mem;
          at1 = add_attr (gemini_common r session (both (trace_context r))) (kv_str ''gen_ai.operation.name'' ''execute_tool'');
          tool = gemini_tool_name a;
          at2 = add_some (kv_str ''gen_ai.tool.name'') tool at1;
          at3 = add_some (kv_str ''gen_ai.tool.call.arguments'') (filled (attr_str a ''function_args'')) at2;
          attributes = add_some (kv_str ''mcp.server.name'') (filled (attr_str a ''mcp_server_name'')) at3;
          status = (if attr_str a ''decision'' = Some ''reject'' then Some (Inl ''rejected'')
                    else if attr_str a ''success'' = Some ''false''
                    then Some (Inl (str_or ''tool failed'' (attr_str a ''error_type'')))
                    else None)
      in finish cr ctx
           \<lparr>sd_trace_id = trace_id,
            sd_span_id = derive_id cr 8 [''gemini_cli.tool'', session, dec_of time, str_or [] tool],
            sd_parent_span_id = parent, sd_name = ''gemini_cli.tool'',
            sd_start_unix_nano = start_of time a, sd_end_unix_nano = time,
            sd_status = status, sd_attributes = attributes\<rparr>)"

definition gemini_map_log :: "crates \<Rightarrow> record_ctx \<Rightarrow> log_record \<Rightarrow> str option \<Rightarrow> gemini_memory \<Rightarrow> mapping \<times> gemini_memory" where
  "gemini_map_log cr ctx r name0 mem =
     (if \<not> gemini_is_mine ctx then (NotMine, mem)
      else case name0 of
             None \<Rightarrow> (NotMine, mem)
           | Some name \<Rightarrow>
               let a = lr_attributes r;
                   session = str_or [] (attr_str a ''session.id'')
               in if name = ''gemini_cli.user_prompt'' then
                    (let time = record_time r;
                         prompt = str_or [] (attr_str a ''prompt_id'');
                         turn = \<lparr>gt_trace_id = derive_id cr 16 [''gemini_cli.turn'', session, prompt, dec_of time],
                                 gt_prompt_span = derive_id cr 8 [''gemini_cli.prompt'', session, dec_of time]\<rparr>;
                         span = finish cr ctx
                           \<lparr>sd_trace_id = gt_trace_id turn, sd_span_id = gt_prompt_span turn, sd_parent_span_id = [],
                            sd_name = ''gemini_cli.user_prompt'', sd_start_unix_nano = time, sd_end_unix_nano = time,
                            sd_status = None, sd_attributes = gemini_common r session None\<rparr>
                     in (MapSpan span,
                         recall_update gemini_session_default session (gs_turn_update (\<lambda>_. Some turn)) mem))
                  else if name = ''gemini_cli.api_response'' then
                    (MapSpan (gemini_llm_span cr ctx r session None mem), mem)
                  else if name = ''gemini_cli.api_error'' then
                    (let msg = str_or ''API request failed''
                           (opt_or (opt_or (attr_str a ''error'') (attr_str a ''error.message'')) (attr_str a ''error_type''))
                     in (MapSpan (gemini_llm_span cr ctx r session (Some msg) mem), mem))
                  else if name = ''gemini_cli.tool_call'' then
                    (MapSpan (gemini_tool_span cr ctx r session mem), mem)
                  else if name = ''gemini_cli.api_request'' then
                    (MapFolded,
                     (case both (trace_context r) of
                        None \<Rightarrow> mem
                      | Some c \<Rightarrow> recall_update gemini_session_default session (gs_request_update (\<lambda>_. Some c)) mem))
                  else if name = ''gen_ai.client.inference.operation.details'' then (MapFolded, mem)
                  else (NotMine, mem))"

definition gemini_fix_trace_span :: "normalized_span \<Rightarrow> normalized_span" where
  "gemini_fix_trace_span n =
     (if ns_name n = ''llm_call'' then set_aside n usage_copy else n)\<lparr>ns_session_id := None\<rparr>"

end
