(* ===== verification/EvalEvent.thy ===== *)
theory EvalEvent
  imports LogRecord
begin

text \<open>
  \<^verbatim>\<open>src/evalevent.rs\<close>: an evaluation-result event as a score, and a stored score as the event again.
  SHA-256 and the JSON writer are parameters.
\<close>

definition eval_event_name :: str where "eval_event_name = ''gen_ai.evaluation.result''"
definition ev_name :: str where "ev_name = ''gen_ai.evaluation.name''"
definition ev_value :: str where "ev_value = ''gen_ai.evaluation.score.value''"
definition ev_label :: str where "ev_label = ''gen_ai.evaluation.score.label''"
definition ev_explanation :: str where "ev_explanation = ''gen_ai.evaluation.explanation''"
definition ev_error_type :: str where "ev_error_type = ''error.type''"

definition max_name :: usize where "max_name = 256"
definition max_label :: usize where "max_label = 256"
definition max_explanation :: usize where "max_explanation = 4096"
definition max_error_type :: usize where "max_error_type = 256"

text \<open>The loop of \<open>cap\<close>: down to the nearest character boundary.\<close>

fun boundary_at :: "str \<Rightarrow> nat \<Rightarrow> nat" where
  "boundary_at s 0 = 0"
| "boundary_at s (Suc n) = (if starts_char (s ! Suc n) then Suc n else boundary_at s n)"

definition cap :: "str \<Rightarrow> usize \<Rightarrow> str" where
  "cap s max0 = (if length s \<le> max0 then s else take (boundary_at s max0) s)"

definition be_bytes :: "u64 \<Rightarrow> str" where
  "be_bytes n = map (\<lambda>i. char_of (n div 256 ^ (7 - i) mod 256)) [0..<8]"

definition score_id :: "crates \<Rightarrow> str \<Rightarrow> str \<Rightarrow> str \<Rightarrow> u64 \<Rightarrow> str" where
  "score_id cr trace_id span_id name time =
     ''gaie-'' @ hex_encode (take 16 (cr_sha256 cr
        (concat (map (\<lambda>p. p @ [nul]) [trace_id, span_id, name]) @ be_bytes time)))"

definition capped :: "(str \<Rightarrow> str) \<Rightarrow> usize \<Rightarrow> str option \<Rightarrow> str option" where
  "capped f max0 x = (case x of None \<Rightarrow> None | Some s \<Rightarrow> non_empty (cap (f s) max0))"

definition ev_finite :: "f64 option \<Rightarrow> f64 option" where
  "ev_finite x = (case x of Some v \<Rightarrow> if is_finite v then Some v else None | None \<Rightarrow> None)"

text \<open>The value and label of the score, or \<open>None\<close> for an event with nothing to store.\<close>

definition ev_values ::
  "f64 option \<Rightarrow> str option \<Rightarrow> str option \<Rightarrow> (data_type \<times> f64 option \<times> str option) option" where
  "ev_values value label err =
     (case (value, label, err) of
        (Some v, l, _) \<Rightarrow> Some (Numeric, Some v, l)
      | (None, Some l, _) \<Rightarrow> Some (Categorical, None, Some l)
      | (None, None, Some _) \<Rightarrow> Some (Categorical, None, Some ''error'')
      | (None, None, None) \<Rightarrow> None)"

definition ev_comment :: "str option \<Rightarrow> str option \<Rightarrow> str option" where
  "ev_comment explanation err =
     (case (explanation, err) of
        (Some e, Some t) \<Rightarrow> Some (e @ '' | error.type='' @ t)
      | (Some e, None) \<Rightarrow> Some e
      | (None, Some t) \<Rightarrow> Some (''error.type='' @ t)
      | (None, None) \<Rightarrow> None)"

definition score_from_event ::
  "crates \<Rightarrow> byte list \<Rightarrow> byte list \<Rightarrow> key_value list \<Rightarrow> u64 \<Rightarrow> u64 \<Rightarrow> score option" where
  "score_from_event cr trace_id span_id a id_time ts =
     (case attr_str a ev_name of
        None \<Rightarrow> None
      | Some raw \<Rightarrow>
          let name = cap (trim raw) max_name
          in if name = [] then None
             else let value = ev_finite (attr_f64 a ev_value);
                      label = capped trim max_label (attr_str a ev_label);
                      explanation = capped id max_explanation (attr_str a ev_explanation);
                      err = capped trim max_error_type (attr_str a ev_error_type)
                  in case ev_values value label err of
                       None \<Rightarrow> None
                     | Some (dt, num, st) \<Rightarrow>
                         let trace = hex_encode trace_id
                         in if span_id = [] then
                              (if trace = [] then None
                               else Some \<lparr>sc_id = score_id cr trace [] name id_time, sc_target = TargetTrace trace,
                                      sc_name = name, sc_num_value = num, sc_str_value = st, sc_data_type = dt,
                                      sc_source = SrcEval, sc_comment = ev_comment explanation err,
                                      sc_config_id = None, sc_agg_stats = None, sc_ts_unix_nano = ts\<rparr>)
                            else Some \<lparr>sc_id = score_id cr trace (hex_encode span_id) name id_time,
                                   sc_target = TargetSpan (hex_encode span_id),
                                   sc_name = name, sc_num_value = num, sc_str_value = st, sc_data_type = dt,
                                   sc_source = SrcEval, sc_comment = ev_comment explanation err,
                                   sc_config_id = None, sc_agg_stats = None, sc_ts_unix_nano = ts\<rparr>)"

definition to_score :: "crates \<Rightarrow> otlp_span \<Rightarrow> otlp_event \<Rightarrow> score option" where
  "to_score cr sp e =
     score_from_event cr (op_trace_id sp) (op_span_id sp) (oe_attributes e) (oe_time_unix_nano e)
       (if 0 < oe_time_unix_nano e then oe_time_unix_nano e else op_end_time_unix_nano sp)"

text \<open>The events of a request in order, each a score or malformed.\<close>

definition eval_events :: "resource_spans list \<Rightarrow> (otlp_span \<times> otlp_event) list" where
  "eval_events req =
     concat (map (\<lambda>rs. concat (map (\<lambda>ss. concat (map (\<lambda>sp.
        map (Pair sp) (filter (\<lambda>e. oe_name e = eval_event_name) (op_events sp))) (ss_spans ss))) (rs_scope_spans rs))) req)"

definition extract_events :: "crates \<Rightarrow> resource_spans list \<Rightarrow> score list \<times> u64" where
  "extract_events cr req =
     (let rs = map (\<lambda>(sp, e). to_score cr sp e) (eval_events req)
      in (List.map_filter id rs, length (filter (\<lambda>x. x = None) rs)))"

text \<open>The process-wide counters \<open>INGESTED\<close> and \<open>MALFORMED\<close>.\<close>

definition count_events :: "nat \<Rightarrow> u64 \<Rightarrow> u64 \<times> u64 \<Rightarrow> u64 \<times> u64" where
  "count_events ok bad c = (wrap_add (fst c) ok, wrap_add (snd c) bad)"

section \<open>A score as the event\<close>

definition insert_some :: "str \<Rightarrow> json option \<Rightarrow> (str, json) omap \<Rightarrow> (str, json) omap" where
  "insert_some k v m = (case v of None \<Rightarrow> m | Some j \<Rightarrow> om_insert k j m)"

definition export_line :: "crates \<Rightarrow> score \<Rightarrow> str option" where
  "export_line cr s =
     (let line = (\<lambda>trace span.
            (let attrs = insert_some ev_explanation (map_option JStr (sc_comment s))
                  (insert_some ev_label (map_option JStr (sc_str_value s))
                    (insert_some ev_value (map_option json_f64_or_null (sc_num_value s))
                      (om_insert ev_name (JStr (sc_name s)) om_empty)));
                 m1 = om_insert ''time_unix_nano'' (JNum (PosInt (sc_ts_unix_nano s)))
                        (om_insert ''name'' (JStr eval_event_name) om_empty);
                 m2 = insert_some ''span_id'' (map_option JStr span) (insert_some ''trace_id'' (map_option JStr trace) m1)
             in cr_to_string cr (JObj (om_insert ''attributes'' (JObj attrs) m2))))
      in case sc_target s of
           TargetSpan i \<Rightarrow> line None (Some i)
         | TargetTrace i \<Rightarrow> line (Some i) None
         | _ \<Rightarrow> None)"

text \<open>\<open>newest\<close> is \<open>list_scores\<close>: the stored scores, newest first.\<close>

definition export_lines :: "crates \<Rightarrow> score list \<Rightarrow> str option \<Rightarrow> usize \<Rightarrow> str list" where
  "export_lines cr newest name limit =
     rev (take limit (List.map_filter (export_line cr)
       (filter (\<lambda>s. case name of None \<Rightarrow> True | Some n \<Rightarrow> sc_name s = n) newest)))"

section \<open>Bounds\<close>

lemma boundary_at_le: "boundary_at s n \<le> n"
  by (induction s n rule: boundary_at.induct) auto

lemma cap_length: "length (cap s n) \<le> n"
  using boundary_at_le [of s n] by (simp add: cap_def)

lemma boundary_at_starts:
  "n < length s \<Longrightarrow> boundary_at s n = 0 \<or> (starts_char (s ! boundary_at s n) \<and> boundary_at s n < length s)"
  by (induction s n rule: boundary_at.induct) auto

lemma capped_Some: "capped f n x = Some s \<Longrightarrow> s \<noteq> [] \<and> length s \<le> n"
  by (auto simp: capped_def non_empty_def cap_length split: option.splits if_splits)

lemma ev_values_Some:
  "ev_values v l e = Some (dt, num, st) \<Longrightarrow>
     num = v \<and> (num \<noteq> None \<or> st \<noteq> None) \<and> (st = l \<or> (l = None \<and> st = Some ''error''))"
  by (auto simp: ev_values_def split: option.splits)

lemma ev_values_None: "ev_values v l e = None \<longleftrightarrow> v = None \<and> l = None \<and> e = None"
  by (auto simp: ev_values_def split: option.splits)

lemma extract_events_partition:
  "length (fst (extract_events cr req)) + snd (extract_events cr req) = length (eval_events req)"
proof -
  have "length (List.map_filter id rs) + length (filter (\<lambda>x. x = None) rs) = length rs" for rs :: "'a option list"
    by (induction rs) (auto simp: List.map_filter_def split: option.splits)
  from this [of "map (\<lambda>(sp, e). to_score cr sp e) (eval_events req)"] show ?thesis
    by (simp add: extract_events_def Let_def)
qed

lemma ev_finite_Some: "ev_finite x = Some v \<Longrightarrow> is_finite v"
  by (auto simp: ev_finite_def split: option.splits if_splits)

lemma ev_comment_length:
  assumes "\<And>e. explanation = Some e \<Longrightarrow> length e \<le> max_explanation" "\<And>t. err = Some t \<Longrightarrow> length t \<le> max_error_type"
    and "ev_comment explanation err = Some c"
  shows "length c \<le> 4096 + 14 + 256"
  using assms by (cases explanation; cases err) (force simp: ev_comment_def max_explanation_def max_error_type_def)+

definition score_bounded :: "score \<Rightarrow> bool" where
  "score_bounded sc \<longleftrightarrow> sc_name sc \<noteq> [] \<and> length (sc_name sc) \<le> 256 \<and>
     (case sc_num_value sc of None \<Rightarrow> sc_str_value sc \<noteq> None | Some v \<Rightarrow> is_finite v) \<and>
     (case sc_str_value sc of None \<Rightarrow> True | Some l \<Rightarrow> length l \<le> 256) \<and>
     (case sc_comment sc of None \<Rightarrow> True | Some c \<Rightarrow> length c \<le> 4096 + 14 + 256)"

lemma score_from_event_bounded:
  assumes "score_from_event cr t s a it ts = Some sc"
  shows "score_bounded sc"
proof -
  let ?v = "ev_finite (attr_f64 a ev_value)" and ?l = "capped trim max_label (attr_str a ev_label)"
  let ?x = "capped id max_explanation (attr_str a ev_explanation)" and ?e = "capped trim max_error_type (attr_str a ev_error_type)"
  obtain raw dt num st where raw: "attr_str a ev_name = Some raw" "cap (trim raw) max_name \<noteq> []"
    and v: "ev_values ?v ?l ?e = Some (dt, num, st)"
    and sc: "sc_name sc = cap (trim raw) max_name" "sc_num_value sc = num" "sc_str_value sc = st"
      "sc_comment sc = ev_comment ?x ?e"
    using assms by (auto simp: score_from_event_def Let_def split: option.splits if_splits)
  note vs = ev_values_Some [OF v]
  have num: "case num of None \<Rightarrow> st \<noteq> None | Some x \<Rightarrow> is_finite x" using vs ev_finite_Some by (auto split: option.splits)
  have st: "case st of None \<Rightarrow> True | Some l \<Rightarrow> length l \<le> 256"
    using vs capped_Some [of trim max_label "attr_str a ev_label"] by (auto simp: max_label_def split: option.splits)
  have c: "case ev_comment ?x ?e of None \<Rightarrow> True | Some c \<Rightarrow> length c \<le> 4096 + 14 + 256"
    using ev_comment_length [of ?x ?e] capped_Some by (auto split: option.splits)
  show ?thesis using raw cap_length [of "trim raw" max_name] num st c
    unfolding score_bounded_def sc max_name_def by blast
qed

text \<open>
  An evaluation event becomes a score exactly when it names an evaluation, carries a finite
  value, a label or an error type, and comes with a trace or a span to target; and the score is
  bounded: the name and the label at most 256 bytes, the comment at most the capped explanation and
  error type together, the value finite and present when the label is not.
\<close>
theorem evaluation_event_becomes_a_bounded_score:
  "(score_from_event cr t s a it ts \<noteq> None) =
      ((\<exists>n. attr_str a ev_name = Some n \<and> cap (trim n) max_name \<noteq> []) \<and>
       \<not> (ev_finite (attr_f64 a ev_value) = None \<and> capped trim max_label (attr_str a ev_label) = None \<and>
          capped trim max_error_type (attr_str a ev_error_type) = None) \<and>
       \<not> (s = [] \<and> t = []))"
  "case score_from_event cr t s a it ts of None \<Rightarrow> True | Some sc \<Rightarrow> score_bounded sc"
proof -
  let ?v = "ev_finite (attr_f64 a ev_value)" and ?l = "capped trim max_label (attr_str a ev_label)"
  let ?e = "capped trim max_error_type (attr_str a ev_error_type)"
  have hex: "hex_encode t = [] \<longleftrightarrow> t = []" by (cases t) (simp_all add: hex_encode_def)
  have "(score_from_event cr t s a it ts \<noteq> None) =
      ((\<exists>n. attr_str a ev_name = Some n \<and> cap (trim n) max_name \<noteq> []) \<and> ev_values ?v ?l ?e \<noteq> None \<and>
       \<not> (s = [] \<and> hex_encode t = []))"
    by (auto simp: score_from_event_def Let_def split: option.splits)
  then show "(score_from_event cr t s a it ts \<noteq> None) =
      ((\<exists>n. attr_str a ev_name = Some n \<and> cap (trim n) max_name \<noteq> []) \<and>
       \<not> (?v = None \<and> ?l = None \<and> ?e = None) \<and> \<not> (s = [] \<and> t = []))"
    unfolding ev_values_None hex .
  show "case score_from_event cr t s a it ts of None \<Rightarrow> True | Some sc \<Rightarrow> score_bounded sc"
    using score_from_event_bounded by (auto split: option.split)
qed

end
