(* ===== verification/Doors.thy ===== *)
theory Doors
  imports ClaudeCode Codex GeminiCli EvalEvent
begin

text \<open>
  The two OTLP doors: \<open>normalize_request\<close> of \<^verbatim>\<open>src/normalize.rs\<close> (spans, with the fix-up of a coding
  agent's scope, then pricing) and \<open>normalize_logs\<close> of \<^verbatim>\<open>src/logs.rs\<close> (each record a span, a score or
  an outcome only). The current price table is a parameter; the process-wide \<open>Recall\<close>s and counters
  are state passed in and out.
\<close>

section \<open>Traces\<close>

definition schema_attr :: "str option \<Rightarrow> normalized_span \<Rightarrow> normalized_span" where
  "schema_attr surl n =
     (case surl of
        None \<Rightarrow> n
      | Some su \<Rightarrow>
          if om_get (ns_raw_attributes n) ''otel.schema_url'' \<noteq> None then n
          else n\<lparr>ns_raw_attributes := om_insert ''otel.schema_url'' (JStr su) (ns_raw_attributes n)\<rparr>)"

definition scope_fix :: "crates \<Rightarrow> str option \<Rightarrow> str option \<Rightarrow> normalized_span \<Rightarrow> normalized_span" where
  "scope_fix cr service_name scope_name n =
     (if scope_name = Some claude_tracing_scope then claude_fix_trace_span cr n
      else if codex_is_trace_scope service_name then codex_fix_trace_span n
      else if gemini_is_trace_scope service_name then gemini_fix_trace_span n
      else n)"

definition resource_service :: "key_value list option \<Rightarrow> str option" where
  "resource_service res = (case res of None \<Rightarrow> None | Some attrs \<Rightarrow> attr_str attrs ''service.name'')"

definition scope_names :: "otlp_scope option \<Rightarrow> str option \<times> str option" where
  "scope_names sc = (case sc of Some x \<Rightarrow> (non_empty (sco_name x), non_empty (sco_version x)) | None \<Rightarrow> (None, None))"

definition normalize_scope ::
  "crates \<Rightarrow> price_table \<Rightarrow> str option \<Rightarrow> str option \<Rightarrow> scope_spans \<Rightarrow> normalized_span list" where
  "normalize_scope cr prices service_name schema_url ss =
     (let (scope_name, scope_version) = scope_names (ss_scope ss);
          scope_schema = opt_or (non_empty (ss_schema_url ss)) schema_url
      in map (\<lambda>sp. apply_price prices (scope_fix cr service_name scope_name
                (schema_attr scope_schema (normalize_span cr sp service_name scope_name scope_version)))) (ss_spans ss))"

definition normalize_request :: "crates \<Rightarrow> price_table \<Rightarrow> resource_spans list \<Rightarrow> normalized_span list" where
  "normalize_request cr prices req =
     concat (map (\<lambda>rs. concat (map (normalize_scope cr prices (resource_service (rs_resource rs)) (non_empty (rs_schema_url rs)))
       (rs_scope_spans rs))) req)"

section \<open>Logs\<close>

record logs_batch =
  lb_spans :: "normalized_span list"
  lb_scores :: "score list"
  lb_records :: usize
  lb_outcomes :: "u64 list"

definition logs_batch_default :: logs_batch where
  "logs_batch_default = \<lparr>lb_spans = [], lb_scores = [], lb_records = 0, lb_outcomes = replicate 6 0\<rparr>"

text \<open>These counts are at most the records of one request, which fit in memory: they do not wrap.\<close>

definition note_outcome :: "outcome \<Rightarrow> logs_batch \<Rightarrow> logs_batch" where
  "note_outcome o' b =
     b\<lparr>lb_outcomes := (lb_outcomes b)[outcome_index o' := lb_outcomes b ! outcome_index o' + 1]\<rparr>"

definition generic_span :: "crates \<Rightarrow> record_ctx \<Rightarrow> log_record \<Rightarrow> str option \<Rightarrow> normalized_span" where
  "generic_span cr ctx r name =
     (let t = record_time r;
          (trace, parent) = trace_context r;
          t_str = dec_of t;
          n = str_or ''log'' name;
          body_digest = (case lr_body r of Some b \<Rightarrow> cr_debug cr b | None \<Rightarrow> []);
          observed = dec_of (lr_observed_time_unix_nano r);
          trace_id = (case trace of
                        Some x \<Rightarrow> x
                      | None \<Rightarrow> derive_id cr 16
                          [''evald.log.trace'', str_or [] (cx_service_name ctx), n, t_str, observed, body_digest]);
          span_id = derive_id cr 8 [''evald.log.span'', hex_encode trace_id, n, t_str, observed, body_digest];
          at1 = lr_attributes r @ (case lr_body r of Some b \<Rightarrow> [(''log.body'', Some b)] | None \<Rightarrow> []);
          at2 = at1 @ (if lr_severity_text r \<noteq> [] then [kv_str ''log.severity_text'' (lr_severity_text r)] else []);
          at3 = at2 @ (if lr_severity_number r \<noteq> 0 then [kv_int ''log.severity_number'' (lr_severity_number r)] else []);
          attributes = at3 @ [kv_str ''evald.source'' ''log'']
      in finish cr ctx
           \<lparr>sd_trace_id = trace_id, sd_span_id = span_id,
            sd_parent_span_id = (case parent of Some p \<Rightarrow> p | None \<Rightarrow> []), sd_name = n,
            sd_start_unix_nano = t, sd_end_unix_nano = t, sd_status = None, sd_attributes = attributes\<rparr>)"

text \<open>What a request is mapped with: the batch, the malformed events, the memories of the two dialects.\<close>

record logs_state =
  ls_batch :: logs_batch
  ls_eval_bad :: u64
  ls_codex :: codex_memory
  ls_gemini :: gemini_memory

definition map_dialect ::
  "crates \<Rightarrow> record_ctx \<Rightarrow> log_record \<Rightarrow> str option \<Rightarrow> logs_state \<Rightarrow> mapping \<times> logs_state" where
  "map_dialect cr ctx r name st =
     (case claude_map_log cr ctx r name of
        NotMine \<Rightarrow>
          (case codex_map_log cr ctx r name (ls_codex st) of
             (NotMine, cm) \<Rightarrow>
               (let (m, gm) = gemini_map_log cr ctx r name (ls_gemini st)
                in (m, st\<lparr>ls_codex := cm, ls_gemini := gm\<rparr>))
           | (m, cm) \<Rightarrow> (m, st\<lparr>ls_codex := cm\<rparr>))
      | m \<Rightarrow> (m, st))"

definition in_batch :: "(logs_batch \<Rightarrow> logs_batch) \<Rightarrow> logs_state \<Rightarrow> logs_state" where
  "in_batch f st = st\<lparr>ls_batch := f (ls_batch st)\<rparr>"

definition push_span :: "price_table \<Rightarrow> normalized_span \<Rightarrow> logs_state \<Rightarrow> logs_state" where
  "push_span prices sp = in_batch (\<lambda>b. note_outcome OutSpan (b\<lparr>lb_spans := lb_spans b @ [apply_price prices sp]\<rparr>))"

definition log_step ::
  "crates \<Rightarrow> price_table \<Rightarrow> logs_policy \<Rightarrow> record_ctx \<Rightarrow> log_record \<Rightarrow> logs_state \<Rightarrow> logs_state" where
  "log_step cr prices policy ctx r st0 =
     (let st = in_batch (\<lambda>b. b\<lparr>lb_records := lb_records b + 1\<rparr>) st0
      in if policy = PolicyOff then in_batch (note_outcome OutOff) st
         else let name = event_name r
              in if name = Some eval_event_name then
                   (let (trace, span) = trace_context r; t = record_time r
                    in case score_from_event cr (case trace of Some x \<Rightarrow> x | None \<Rightarrow> []) (case span of Some x \<Rightarrow> x | None \<Rightarrow> [])
                              (lr_attributes r) t t of
                         Some sc \<Rightarrow> in_batch (\<lambda>b. note_outcome OutScore (b\<lparr>lb_scores := lb_scores b @ [sc]\<rparr>)) st
                       | None \<Rightarrow> in_batch (note_outcome OutMalformed) (st\<lparr>ls_eval_bad := ls_eval_bad st + 1\<rparr>))
                 else (case map_dialect cr ctx r name st of
                         (MapSpan sp, st') \<Rightarrow> push_span prices sp st'
                       | (MapFolded, st') \<Rightarrow> in_batch (note_outcome OutFolded) st'
                       | (NotMine, st') \<Rightarrow>
                           if policy = PolicyAll then push_span prices (generic_span cr ctx r name) st'
                           else in_batch (note_outcome OutUnmapped) st'))"

definition scope_ctx :: "resource_logs \<Rightarrow> scope_logs \<Rightarrow> record_ctx" where
  "scope_ctx rl sl =
     (let (n, v) = scope_names (sl_scope sl)
      in \<lparr>cx_service_name = resource_service (rl_resource rl), cx_scope_name = n, cx_scope_version = v\<rparr>)"

text \<open>The records of a request with their contexts, in the order of the three loops.\<close>

definition request_records :: "resource_logs list \<Rightarrow> (record_ctx \<times> log_record) list" where
  "request_records req =
     concat (map (\<lambda>rl. concat (map (\<lambda>sl. map (Pair (scope_ctx rl sl)) (sl_log_records sl)) (rl_scope_logs rl))) req)"

text \<open>The process-wide state: the dialects' \<open>Recall\<close>s, \<open>OUTCOMES\<close>, and the event counters.\<close>

record logs_global =
  lg_codex :: "conversation recall"
  lg_gemini :: "gemini_session recall"
  lg_outcomes :: "u64 list"
  lg_events :: "u64 \<times> u64"

definition logs_global_start :: logs_global where
  "logs_global_start = \<lparr>lg_codex = recall_new, lg_gemini = recall_new, lg_outcomes = replicate 6 0, lg_events = (0, 0)\<rparr>"

definition normalize_logs ::
  "crates \<Rightarrow> price_table \<Rightarrow> logs_policy \<Rightarrow> resource_logs list \<Rightarrow> logs_global \<Rightarrow> logs_batch \<times> logs_global" where
  "normalize_logs cr prices policy req g =
     (let st0 = \<lparr>ls_batch = logs_batch_default, ls_eval_bad = 0,
                 ls_codex = (om_empty, lg_codex g), ls_gemini = (om_empty, lg_gemini g)\<rparr>;
          st = fold (\<lambda>(ctx, r). log_step cr prices policy ctx r) (request_records req) st0;
          b = ls_batch st
      in (b, \<lparr>lg_codex = snd (ls_codex st), lg_gemini = snd (ls_gemini st),
              lg_outcomes = map2 wrap_add (lg_outcomes g) (lb_outcomes b),
              lg_events = count_events (lb_outcomes b ! outcome_index OutScore) (ls_eval_bad st) (lg_events g)\<rparr>))"

section \<open>Where each record goes\<close>

text \<open>The counts of a batch as the code reads them: \<open>n\<close> by outcome.\<close>

definition outcome_count :: "logs_batch \<Rightarrow> outcome \<Rightarrow> u64" where
  "outcome_count b o' = lb_outcomes b ! outcome_index o'"

definition policy_outcomes :: "logs_policy \<Rightarrow> u64 list \<Rightarrow> nat \<Rightarrow> u64 list" where
  "policy_outcomes policy os n =
     (case policy of PolicyOff \<Rightarrow> [0, 0, 0, 0, n, 0] | PolicyGenai \<Rightarrow> os[4 := 0] | PolicyAll \<Rightarrow> os[3 := 0, 4 := 0])"

definition outcomes_ok :: "logs_policy \<Rightarrow> nat \<Rightarrow> logs_batch \<Rightarrow> bool" where
  "outcomes_ok policy n b \<longleftrightarrow> length (lb_outcomes b) = 6 \<and> lb_records b = n \<and> sum_list (lb_outcomes b) = n \<and>
     outcome_count b OutSpan = length (lb_spans b) \<and> outcome_count b OutScore = length (lb_scores b) \<and>
     lb_outcomes b = policy_outcomes policy (lb_outcomes b) n"

lemma in_batch_fields [simp]:
  "ls_batch (in_batch f st) = f (ls_batch st)" "ls_codex (in_batch f st) = ls_codex st" "ls_gemini (in_batch f st) = ls_gemini st"
  by (simp_all add: in_batch_def)

lemma map_dialect_batch [simp]: "ls_batch (snd (map_dialect cr ctx r name st)) = ls_batch st"
  by (simp add: map_dialect_def case_prod_beta Let_def split: mapping.split)

text \<open>What one record adds to the batch.\<close>

definition batch_add :: "outcome \<Rightarrow> normalized_span list \<Rightarrow> score list \<Rightarrow> logs_batch \<Rightarrow> logs_batch" where
  "batch_add o' sps scs b = note_outcome o' (b\<lparr>lb_records := lb_records b + 1, lb_spans := lb_spans b @ sps,
     lb_scores := lb_scores b @ scs\<rparr>)"

definition fits :: "logs_policy \<Rightarrow> outcome \<Rightarrow> normalized_span list \<Rightarrow> score list \<Rightarrow> bool" where
  "fits policy o' sps scs \<longleftrightarrow> length sps = (if o' = OutSpan then 1 else 0) \<and> length scs = (if o' = OutScore then 1 else 0) \<and>
     (policy = PolicyOff \<longleftrightarrow> o' = OutOff) \<and> \<not> (policy = PolicyAll \<and> o' = OutUnmapped)"

lemma batch_add_simps:
  "batch_add o' [] [] b = note_outcome o' (b\<lparr>lb_records := lb_records b + 1\<rparr>)"
  "batch_add OutSpan [sp] [] b = note_outcome OutSpan (b\<lparr>lb_records := lb_records b + 1, lb_spans := lb_spans b @ [sp]\<rparr>)"
  "batch_add OutScore [] [sc] b = note_outcome OutScore (b\<lparr>lb_records := lb_records b + 1, lb_scores := lb_scores b @ [sc]\<rparr>)"
  by (simp_all add: batch_add_def)

lemma log_step_adds:
  "\<exists>o' sps scs. ls_batch (log_step cr prices policy ctx r st) = batch_add o' sps scs (ls_batch st) \<and> fits policy o' sps scs"
proof (cases "policy = PolicyOff")
  case True
  then have "ls_batch (log_step cr prices policy ctx r st) = batch_add OutOff [] [] (ls_batch st) \<and> fits policy OutOff [] []"
    by (simp add: log_step_def Let_def batch_add_simps fits_def)
  then show ?thesis by blast
next
  case on: False
  let ?st = "in_batch (\<lambda>b. b\<lparr>lb_records := lb_records b + 1\<rparr>) st"
  show ?thesis
  proof (cases "event_name r = Some eval_event_name")
    case True
    let ?sc = "score_from_event cr (case fst (trace_context r) of Some x \<Rightarrow> x | None \<Rightarrow> [])
        (case snd (trace_context r) of Some x \<Rightarrow> x | None \<Rightarrow> []) (lr_attributes r) (record_time r) (record_time r)"
    show ?thesis
    proof (cases ?sc)
      case None
      then have "ls_batch (log_step cr prices policy ctx r st) = batch_add OutMalformed [] [] (ls_batch st)
          \<and> fits policy OutMalformed [] []"
        using on True by (simp add: log_step_def Let_def case_prod_beta batch_add_simps fits_def)
      then show ?thesis by blast
    next
      case (Some sc)
      then have "ls_batch (log_step cr prices policy ctx r st) = batch_add OutScore [] [sc] (ls_batch st)
          \<and> fits policy OutScore [] [sc]"
        using on True by (simp add: log_step_def Let_def case_prod_beta batch_add_simps fits_def)
      then show ?thesis by blast
    qed
  next
    case False
    obtain m st' where m: "map_dialect cr ctx r (event_name r) ?st = (m, st')" by fastforce
    have b: "ls_batch st' = (ls_batch st)\<lparr>lb_records := lb_records (ls_batch st) + 1\<rparr>"
    proof -
      have "ls_batch st' = ls_batch (snd (map_dialect cr ctx r (event_name r) ?st))" by (simp only: m snd_conv)
      then show ?thesis by simp
    qed
    have eq: "log_step cr prices policy ctx r st =
        (case m of MapSpan sp \<Rightarrow> push_span prices sp st' | MapFolded \<Rightarrow> in_batch (note_outcome OutFolded) st'
         | NotMine \<Rightarrow> if policy = PolicyAll then push_span prices (generic_span cr ctx r (event_name r)) st'
                     else in_batch (note_outcome OutUnmapped) st')"
      using on False m by (simp add: log_step_def Let_def split: mapping.split)
    have push: "ls_batch (push_span prices sp st') = batch_add OutSpan [apply_price prices sp] [] (ls_batch st)" for sp
      by (simp add: push_span_def b batch_add_simps)
    have plain: "ls_batch (in_batch (note_outcome o1) st') = batch_add o1 [] [] (ls_batch st)" for o1
      by (simp add: b batch_add_simps)
    have f: "fits policy OutSpan [sp] []" "fits policy OutFolded [] []" "policy \<noteq> PolicyAll \<Longrightarrow> fits policy OutUnmapped [] []" for sp
      using on by (simp_all add: fits_def)
    show ?thesis
    proof (cases m)
      case (MapSpan sp)
      show ?thesis unfolding eq MapSpan mapping.case using push [of sp] f(1) [of "apply_price prices sp"] by blast
    next
      case MapFolded
      show ?thesis unfolding eq MapFolded mapping.case using plain [of OutFolded] f(2) by blast
    next
      case NotMine
      show ?thesis
      proof (cases "policy = PolicyAll")
        case True
        show ?thesis unfolding eq NotMine mapping.case if_P [OF True]
          using push [of "generic_span cr ctx r (event_name r)"] f(1) [of "apply_price prices (generic_span cr ctx r (event_name r))"] by blast
      next
        case False
        show ?thesis unfolding eq NotMine mapping.case if_not_P [OF False] using plain [of OutUnmapped] f(3) [OF False] by blast
      qed
    qed
  qed
qed

lemma batch_add_fields [simp]:
  "lb_records (batch_add o' sps scs b) = lb_records b + 1" "lb_spans (batch_add o' sps scs b) = lb_spans b @ sps"
  "lb_scores (batch_add o' sps scs b) = lb_scores b @ scs"
  "lb_outcomes (batch_add o' sps scs b) = (lb_outcomes b)[outcome_index o' := lb_outcomes b ! outcome_index o' + 1]"
  by (simp_all add: batch_add_def note_outcome_def)

lemma six: "length os = 6 \<Longrightarrow> \<exists>a b c d e f. os = [a, b, c, d, e, f]"
  by (auto simp: eval_nat_numeral length_Suc_conv)

lemma outcomes_ok_add:
  assumes "outcomes_ok policy n b" "fits policy o' sps scs"
  shows "outcomes_ok policy (Suc n) (batch_add o' sps scs b)"
proof -
  obtain a c d e f g where os: "lb_outcomes b = [a, c, d, e, f, g]" using assms(1) six unfolding outcomes_ok_def by blast
  show ?thesis using assms
    by (cases o'; cases policy)
      (auto simp: outcomes_ok_def fits_def os outcome_count_def outcome_index_def policy_outcomes_def eval_nat_numeral)
qed

lemma outcomes_ok_default: "outcomes_ok policy 0 logs_batch_default"
  by (cases policy) (simp_all add: outcomes_ok_def logs_batch_default_def policy_outcomes_def outcome_count_def outcome_index_def
      eval_nat_numeral)

lemma outcomes_ok_fold:
  "outcomes_ok policy n (ls_batch st) \<Longrightarrow>
     outcomes_ok policy (n + length rs) (ls_batch (fold (\<lambda>(ctx, r). log_step cr prices policy ctx r) rs st))"
proof (induction rs arbitrary: n st)
  case (Cons x rs)
  obtain ctx r where x: "x = (ctx, r)" by fastforce
  obtain o' sps scs where s: "ls_batch (log_step cr prices policy ctx r st) = batch_add o' sps scs (ls_batch st)"
    "fits policy o' sps scs" using log_step_adds by blast
  have "outcomes_ok policy (Suc n) (ls_batch (log_step cr prices policy ctx r st))"
    unfolding s(1) using outcomes_ok_add [OF Cons(2) s(2)] .
  from Cons(1) [OF this] show ?case by (simp add: x)
qed simp

text \<open>
  C8. Every log record of a request has exactly one outcome: the outcomes sum to the records, the
  spans and scores stored are as many as the records counted as spans and as scores; with the policy
  off every record is counted as off, otherwise none is, and with the policy all none is unmapped.
\<close>
theorem every_log_record_has_one_outcome:
  "outcomes_ok policy (length (request_records req)) (fst (normalize_logs cr prices policy req g))"
proof -
  let ?st = "\<lparr>ls_batch = logs_batch_default, ls_eval_bad = 0, ls_codex = (om_empty, lg_codex g), ls_gemini = (om_empty, lg_gemini g)\<rparr>"
  have "outcomes_ok policy 0 (ls_batch ?st)" by (simp add: outcomes_ok_default)
  from outcomes_ok_fold [OF this, of "request_records req" cr prices] show ?thesis
    by (simp add: normalize_logs_def Let_def)
qed

section \<open>The dialects' memories stay bounded\<close>

definition few_refused :: "conversation \<Rightarrow> bool" where
  "few_refused c \<longleftrightarrow> length (cv_refused c) \<le> refused_kept"

definition codex_memory_ok :: "codex_memory \<Rightarrow> bool" where
  "codex_memory_ok mem \<longleftrightarrow> recall_ok (snd mem) \<and> all_remembered few_refused mem"

lemma codex_update_ok:
  "codex_memory_ok mem \<Longrightarrow> (\<And>c. few_refused c \<Longrightarrow> few_refused (f c)) \<Longrightarrow> codex_memory_ok (codex_update conv f mem)"
  unfolding codex_memory_ok_def codex_update_def
  by (intro conjI recall_update_ok all_remembered_update) (auto simp: few_refused_def conversation_default_def)

lemma take_refusal_length: "length (snd (take_refusal tid xs)) \<le> length xs"
  by (induction tid xs rule: take_refusal.induct) (auto simp: case_prod_beta)

lemma take_refused_ok: "codex_memory_ok mem \<Longrightarrow> codex_memory_ok (snd (take_refused conv call_id mem))"
  by (auto simp: take_refused_def few_refused_def split: option.split
      intro!: codex_update_ok intro: order_trans [OF take_refusal_length])

lemma codex_tool_span_memory: "snd (codex_tool_span cr ctx r conv mem) = snd (take_refused conv (attr_str (lr_attributes r) ''call_id'') mem)"
  by (simp add: codex_tool_span_def Let_def case_prod_beta)

lemma remember_ok:
  "codex_memory_ok mem \<Longrightarrow> codex_memory_ok (remember_refusal a conv mem)"
  "codex_memory_ok mem \<Longrightarrow> codex_memory_ok (remember_request r conv mem)"
  "codex_memory_ok mem \<Longrightarrow> codex_memory_ok (codex_update conv (cv_turn_update g) mem)"
  "codex_memory_ok mem \<Longrightarrow> codex_memory_ok (codex_update conv (cv_provider_update h) mem)"
  by (auto simp: remember_refusal_def remember_request_def Let_def case_prod_beta few_refused_def refused_kept_def
      split: option.split intro!: codex_update_ok)

lemma codex_map_log_ok:
  assumes "codex_memory_ok mem"
  shows "codex_memory_ok (snd (codex_map_log cr ctx r name mem))"
proof -
  note u = remember_ok [OF assms] take_refused_ok [OF assms]
  show ?thesis
  proof (cases "case name of None \<Rightarrow> None | Some n \<Rightarrow> strip_prefix ''codex.'' n")
    case None
    then show ?thesis using assms by (simp add: codex_map_log_def)
  next
    case (Some event)
    show ?thesis unfolding codex_map_log_def Some Let_def
      by (simp only: option.case split: if_split)
        (simp add: u assms case_prod_beta codex_tool_span_memory split: option.split list.split)
  qed
qed

lemma gemini_map_log_ok:
  "recall_ok (snd mem) \<Longrightarrow> recall_ok (snd (snd (gemini_map_log cr ctx r name mem)))"
  by (simp add: gemini_map_log_def recall_update_ok Let_def split: option.split)

definition memories_ok :: "logs_state \<Rightarrow> bool" where
  "memories_ok st \<longleftrightarrow> codex_memory_ok (ls_codex st) \<and> recall_ok (snd (ls_gemini st))"

lemma map_dialect_ok:
  assumes "memories_ok st"
  shows "memories_ok (snd (map_dialect cr ctx r name st))"
proof -
  have "codex_memory_ok (snd (codex_map_log cr ctx r name (ls_codex st)))"
    "recall_ok (snd (snd (gemini_map_log cr ctx r name (ls_gemini st))))"
    using assms codex_map_log_ok gemini_map_log_ok by (simp_all add: memories_ok_def)
  then show ?thesis using assms
    by (cases "codex_map_log cr ctx r name (ls_codex st)")
      (simp add: memories_ok_def map_dialect_def Let_def case_prod_beta split: mapping.split)
qed

lemma in_batch_ok [simp]: "memories_ok (in_batch f st) = memories_ok st"
  by (simp add: memories_ok_def)

lemma log_step_ok:
  assumes "memories_ok st"
  shows "memories_ok (log_step cr prices policy ctx r st)"
proof -
  let ?st = "in_batch (\<lambda>b. b\<lparr>lb_records := lb_records b + 1\<rparr>) st"
  have st: "memories_ok ?st" "memories_ok (?st\<lparr>ls_eval_bad := n\<rparr>)" for n
    using assms by (simp_all add: memories_ok_def)
  have d: "memories_ok (snd (map_dialect cr ctx r (event_name r) ?st))" using st(1) by (rule map_dialect_ok)
  show ?thesis
    by (cases "map_dialect cr ctx r (event_name r) ?st")
      (use st d in \<open>simp add: log_step_def push_span_def Let_def case_prod_beta split: option.split mapping.split\<close>)
qed

definition node_memory_ok :: "logs_global \<Rightarrow> bool" where
  "node_memory_ok g \<longleftrightarrow> codex_memory_ok (om_empty, lg_codex g) \<and> recall_ok (lg_gemini g)"

lemma log_steps_ok: "memories_ok st \<Longrightarrow> memories_ok (fold (\<lambda>(ctx, r). log_step cr prices policy ctx r) rs st)"
  by (induction rs arbitrary: st) (auto simp: log_step_ok)

lemma codex_memory_forget_local: "codex_memory_ok (local, r) \<Longrightarrow> codex_memory_ok (om_empty, r)"
  by (auto simp: codex_memory_ok_def all_remembered_def map_simps)

lemma normalize_logs_ok:
  assumes "node_memory_ok g"
  shows "node_memory_ok (snd (normalize_logs cr prices policy req g))"
proof -
  let ?st = "\<lparr>ls_batch = logs_batch_default, ls_eval_bad = 0, ls_codex = (om_empty, lg_codex g), ls_gemini = (om_empty, lg_gemini g)\<rparr>"
  have "memories_ok ?st" using assms by (simp add: memories_ok_def node_memory_ok_def)
  then have "memories_ok (fold (\<lambda>(ctx, r). log_step cr prices policy ctx r) (request_records req) ?st)" by (rule log_steps_ok)
  then show ?thesis
    by (simp add: normalize_logs_def Let_def memories_ok_def node_memory_ok_def)
      (metis codex_memory_forget_local prod.collapse)
qed

text \<open>A node's requests, one after another, each with the price table and policy it is mapped under.\<close>

fun logs_run :: "crates \<Rightarrow> (price_table \<times> logs_policy \<times> resource_logs list) list \<Rightarrow> logs_global \<Rightarrow> logs_global" where
  "logs_run cr [] g = g"
| "logs_run cr ((prices, policy, req) # rest) g = logs_run cr rest (snd (normalize_logs cr prices policy req g))"

lemma logs_run_ok: "node_memory_ok g \<Longrightarrow> node_memory_ok (logs_run cr reqs g)"
  by (induction cr reqs g rule: logs_run.induct) (simp_all add: normalize_logs_ok)

text \<open>
  What a node remembers of coding-agent sessions stays bounded whatever requests it maps: at most
  4096 sessions for each dialect, each remembered once and under the key its age is known by, and at
  most 16 refused tool calls in each remembered conversation.
\<close>
theorem session_memory_stays_bounded:
  "node_memory_ok (logs_run cr reqs logs_global_start)"
proof (rule logs_run_ok)
  have "codex_memory_ok (om_empty, recall_new)"
    using recall_ok_new [where 'a = conversation]
    by (simp add: codex_memory_ok_def all_remembered_def recall_new_def map_simps)
  then show "node_memory_ok logs_global_start" by (simp add: node_memory_ok_def logs_global_start_def recall_ok_new)
qed

end
