(* ===== verification/OneCall.thy ===== *)
theory OneCall
  imports Doors
begin

text \<open>
  The two descriptions of one Claude Code call, its log event and its traced span, followed from the
  doors to the call ledger; and how an event's token counts are read and priced.
\<close>

section \<open>Attributes a mapping adds\<close>

lemma last_value_add:
  "last_value (add_attr attrs kv) k =
     (if fst kv = k \<and> k \<notin> fst ` set attrs then Some (snd kv) else last_value attrs k)"
proof (cases "list_ex (\<lambda>x. fst x = fst kv) attrs")
  case True
  then obtain x where "x \<in> set attrs" "fst x = fst kv" unfolding list_ex_iff by blast
  then have "fst kv \<in> fst ` set attrs" by (metis imageI)
  then show ?thesis using True by (auto simp: add_attr_def)
next
  case False
  then have n: "fst kv \<notin> fst ` set attrs" unfolding list_ex_iff by (metis imageE)
  then have "find (\<lambda>x. fst x = fst kv) (rev attrs) = None" unfolding find_None_iff by (metis imageI set_rev)
  then show ?thesis using False n by (cases "fst kv = k") (simp_all add: add_attr_def last_value_def)
qed

lemma add_some_other:
  assumes "\<And>v. fst (f v) \<noteq> k"
  shows "attr (add_some f x attrs) k = attr attrs k"
    and "last_value (add_some f x attrs) k = last_value attrs k"
    and "k \<in> fst ` set (add_some f x attrs) \<longleftrightarrow> k \<in> fst ` set attrs"
  using assms by (auto simp: add_some_def attr_add last_value_add split: option.split)

lemma add_attr_other:
  assumes "fst kv \<noteq> k"
  shows "attr (add_attr attrs kv) k = attr attrs k"
    and "last_value (add_attr attrs kv) k = last_value attrs k"
    and "k \<in> fst ` set (add_attr attrs kv) \<longleftrightarrow> k \<in> fst ` set attrs"
  using assms by (auto simp: attr_add last_value_add)

lemma add_attr_new:
  assumes "fst kv = k" "k \<notin> fst ` set attrs"
  shows "attr (add_attr attrs kv) k = snd kv" "last_value (add_attr attrs kv) k = Some (snd kv)"
  using assms by (simp_all add: attr_add last_value_add)

lemma add_some_new:
  assumes "\<And>v. fst (f v) = k" "k \<notin> fst ` set attrs"
  shows "attr (add_some f x attrs) k = (case x of None \<Rightarrow> None | Some v \<Rightarrow> snd (f v))"
    and "last_value (add_some f x attrs) k = map_option (\<lambda>v. snd (f v)) x"
proof -
  have "last_value attrs k = None" using assms(2) by (force simp: last_value_def find_None_iff)
  then show "attr (add_some f x attrs) k = (case x of None \<Rightarrow> None | Some v \<Rightarrow> snd (f v))"
    "last_value (add_some f x attrs) k = map_option (\<lambda>v. snd (f v)) x"
    using assms attr_absent [OF assms(2)] by (auto simp: add_some_def add_attr_new split: option.split)
qed

lemmas added = add_some_other add_attr_other

section \<open>What pricing and the schema attribute leave alone\<close>

lemma apply_price_get:
  "k \<noteq> basis_key \<Longrightarrow> om_get (ns_raw_attributes (apply_price t s)) k = om_get (ns_raw_attributes s) k"
  by (auto simp: apply_price_def Let_def map_simps split: option.split)

lemma apply_price_fields [simp]:
  "ns_trace_id (apply_price t s) = ns_trace_id s" "ns_span_id (apply_price t s) = ns_span_id s"
  "ns_name (apply_price t s) = ns_name s" "ns_tokens (apply_price t s) = ns_tokens s"
  by (simp_all add: apply_price_def Let_def split: option.split)

lemma schema_attr_get: "k \<noteq> ''otel.schema_url'' \<Longrightarrow> om_get (ns_raw_attributes (schema_attr u n)) k = om_get (ns_raw_attributes n) k"
  by (auto simp: schema_attr_def map_simps split: option.split)

lemma schema_attr_fields [simp]:
  "ns_trace_id (schema_attr u n) = ns_trace_id n" "ns_span_id (schema_attr u n) = ns_span_id n"
  "ns_name (schema_attr u n) = ns_name n"
  by (simp_all add: schema_attr_def split: option.split)

section \<open>The event and the traced span\<close>

text \<open>What the two doors hand to the store for the call: from its event, and from its span.\<close>

definition event_copy :: "crates \<Rightarrow> price_table \<Rightarrow> record_ctx \<Rightarrow> log_record \<Rightarrow> normalized_span" where
  "event_copy cr prices ctx r = apply_price prices (claude_llm_span cr ctx r None)"

definition traced_copy ::
  "crates \<Rightarrow> price_table \<Rightarrow> str option \<Rightarrow> str option \<Rightarrow> str option \<Rightarrow> str option \<Rightarrow> otlp_span \<Rightarrow> normalized_span" where
  "traced_copy cr prices sv sn sc u sp =
     apply_price prices (claude_fix_trace_span cr (schema_attr u (normalize_span cr sp sv sn sc)))"

lemma traced_copy_at_the_door:
  "normalize_scope cr prices sv u \<lparr>ss_scope = Some \<lparr>sco_name = claude_tracing_scope, sco_version = v\<rparr>, ss_schema_url = w, ss_spans = sps\<rparr> =
     map (traced_copy cr prices sv (Some claude_tracing_scope) (non_empty v) (opt_or (non_empty w) u)) sps"
  by (simp add: normalize_scope_def scope_names_def traced_copy_def scope_fix_def non_empty_def claude_tracing_scope_def)

lemma event_copy_at_the_door:
  assumes "claude_is_mine ctx" "event_name r = Some ''claude_code.api_request'' \<or> event_name r = Some ''api_request''" "policy \<noteq> PolicyOff"
  shows "lb_spans (ls_batch (log_step cr prices policy ctx r st)) = lb_spans (ls_batch st) @ [event_copy cr prices ctx r]"
proof -
  have "claude_map_log cr ctx r (event_name r) = MapSpan (claude_llm_span cr ctx r None)"
    using assms(1,2) by (auto simp: claude_map_log_def strip_prefix_def starts_with_def)
  moreover have "event_name r \<noteq> Some eval_event_name" using assms(2) by (auto simp: eval_event_name_def)
  ultimately show ?thesis
    using assms(3) by (simp add: log_step_def map_dialect_def push_span_def in_batch_def note_outcome_def event_copy_def Let_def)
qed

lemma literal_key_facts:
  "call_key \<notin> canonical_keys" "call_anchor \<notin> canonical_keys" "''request_id'' \<notin> canonical_keys"
  "call_key \<noteq> basis_key" "call_anchor \<noteq> basis_key" "call_key \<noteq> ''otel.schema_url''"
  "call_anchor \<noteq> ''otel.schema_url''" "call_anchor \<noteq> call_key"
  by (simp_all add: canonical_keys_def usage_key_def tool_name_keys_def tool_call_id_keys_def agent_name_keys_def
      agent_id_keys_def call_key_def call_anchor_def basis_key_def)

lemma event_attributes_call:
  assumes "call_key \<notin> fst ` set a" "call_anchor \<notin> fst ` set a"
  shows "last_value (claude_llm_attributes a key) call_key = Some (Some (StringValue (''claude_code.llm:'' @ key)))"
    and "last_value (claude_llm_attributes a key) call_anchor = None"
proof -
  have none: "last_value a call_anchor = None" using assms(2) by (force simp: last_value_def find_None_iff)
  show "last_value (claude_llm_attributes a key) call_anchor = None"
    by (simp add: claude_llm_attributes_def Let_def added call_key_def call_anchor_def none [unfolded call_anchor_def])
  show "last_value (claude_llm_attributes a key) call_key = Some (Some (StringValue (''claude_code.llm:'' @ key)))"
    unfolding claude_llm_attributes_def Let_def
    by (subst add_attr_new(2)) (use assms(1) in \<open>simp_all add: added kv_str_def call_key_def\<close>)
qed

text \<open>A record and a span that describe the call \<open>rid\<close>, without call keys of their own.\<close>

definition describe_one_call :: "log_record \<Rightarrow> otlp_span \<Rightarrow> str \<Rightarrow> bool" where
  "describe_one_call r sp rid \<longleftrightarrow>
     rid \<noteq> [] \<and> attr_str (lr_attributes r) ''request_id'' = Some rid \<and>
     op_name sp = claude_llm_name \<and>
     last_value (op_attributes sp) ''request_id'' = Some (Some (StringValue rid)) \<and>
     fst (trace_context r) = Some (op_trace_id sp) \<and>
     call_key \<notin> fst ` set (lr_attributes r) \<and> call_anchor \<notin> fst ` set (lr_attributes r) \<and>
     call_anchor \<notin> fst ` set (op_attributes sp)"

lemma event_copy_call:
  assumes "describe_one_call r sp rid"
  shows "attr_as_str call_key (event_copy cr prices ctx r) = Some (''claude_code.llm:'' @ rid)"
    and "attr_as_str call_anchor (event_copy cr prices ctx r) = None"
    and "ns_trace_id (event_copy cr prices ctx r) = hex_encode (op_trace_id sp)"
    and "ns_span_id (event_copy cr prices ctx r) = hex_encode (llm_span_id cr rid)"
    and "ns_name (event_copy cr prices ctx r) = claude_llm_name"
proof -
  have d: "attr_str (lr_attributes r) ''request_id'' = Some rid" "fst (trace_context r) = Some (op_trace_id sp)"
    and nk: "call_key \<notin> fst ` set (lr_attributes r)" "call_anchor \<notin> fst ` set (lr_attributes r)"
    using assms by (simp_all add: describe_one_call_def)
  have key: "claude_llm_key r = rid" by (simp add: claude_llm_key_def d str_or_def)
  have get: "om_get (ns_raw_attributes (claude_llm_span cr ctx r None)) k =
      om_get (raw_attributes (claude_llm_attributes (lr_attributes r) rid)) k" if "k \<notin> canonical_keys" for k
    by (simp add: claude_llm_span_def finish_def Let_def case_prod_beta normalize_span_get that key)
  show "attr_as_str call_key (event_copy cr prices ctx r) = Some (''claude_code.llm:'' @ rid)"
    "attr_as_str call_anchor (event_copy cr prices ctx r) = None"
    by (simp_all add: attr_as_str_def event_copy_def apply_price_get literal_key_facts get raw_attributes_get
        event_attributes_call [OF nk])
  show "ns_trace_id (event_copy cr prices ctx r) = hex_encode (op_trace_id sp)"
    "ns_span_id (event_copy cr prices ctx r) = hex_encode (llm_span_id cr rid)"
    "ns_name (event_copy cr prices ctx r) = claude_llm_name"
    using d by (simp_all add: event_copy_def claude_llm_span_def claude_placement_def Let_def case_prod_beta key)
qed

lemma claude_fix_ttft_get:
  "k \<noteq> ''gen_ai.response.time_to_first_chunk'' \<Longrightarrow> om_get (claude_fix_ttft m) k = om_get m k"
  by (auto simp: claude_fix_ttft_def map_simps split: option.split)

lemma traced_copy_call:
  assumes "describe_one_call r sp rid"
  shows "attr_as_str call_key (traced_copy cr prices sv sn sc u sp) = Some (''claude_code.llm:'' @ rid)"
    and "attr_as_str call_anchor (traced_copy cr prices sv sn sc u sp) = None"
    and "ns_trace_id (traced_copy cr prices sv sn sc u sp) = hex_encode (op_trace_id sp)"
    and "ns_span_id (traced_copy cr prices sv sn sc u sp) = hex_encode (llm_span_id cr rid)"
    and "ns_name (traced_copy cr prices sv sn sc u sp) = claude_llm_name"
proof -
  let ?n = "schema_attr u (normalize_span cr sp sv sn sc)"
  have d: "op_name sp = claude_llm_name" "last_value (op_attributes sp) ''request_id'' = Some (Some (StringValue rid))" "rid \<noteq> []"
    and "call_anchor \<notin> fst ` set (op_attributes sp)" using assms by (simp_all add: describe_one_call_def)
  then have na: "last_value (op_attributes sp) call_anchor = None" by (force simp: last_value_def find_None_iff)
  have get: "om_get (ns_raw_attributes ?n) k = om_get (raw_attributes (op_attributes sp)) k"
    if "k \<notin> canonical_keys" "k \<noteq> ''otel.schema_url''" for k
    using that by (simp add: schema_attr_get normalize_span_get)
  have req: "raw_str (claude_fix_ttft (ns_raw_attributes ?n)) ''request_id'' = Some rid"
    using d by (simp add: raw_str_def claude_fix_ttft_get get literal_key_facts raw_attributes_get non_empty_def)
  have anchor: "om_get (claude_fix_ttft (ns_raw_attributes ?n)) call_anchor = None"
  proof -
    have "call_anchor \<noteq> ''gen_ai.response.time_to_first_chunk''" by (simp add: call_anchor_def)
    then show ?thesis using na by (simp add: claude_fix_ttft_get get literal_key_facts raw_attributes_get)
  qed
  have fix_eq: "claude_fix_trace_span cr ?n = claude_fix_llm cr ?n"
    by (simp add: claude_fix_trace_span_def d)
  show "attr_as_str call_key (traced_copy cr prices sv sn sc u sp) = Some (''claude_code.llm:'' @ rid)"
    "ns_trace_id (traced_copy cr prices sv sn sc u sp) = hex_encode (op_trace_id sp)"
    "ns_span_id (traced_copy cr prices sv sn sc u sp) = hex_encode (llm_span_id cr rid)"
    "ns_name (traced_copy cr prices sv sn sc u sp) = claude_llm_name"
    by (simp_all add: traced_copy_def fix_eq claude_fix_llm_def Let_def req attr_as_str_def apply_price_get
        literal_key_facts map_simps d)
  have "call_anchor \<noteq> ''evald.otel.span_id''" by (simp add: call_anchor_def)
  then show "attr_as_str call_anchor (traced_copy cr prices sv sn sc u sp) = None"
    by (simp add: traced_copy_def fix_eq claude_fix_llm_def Let_def req attr_as_str_def apply_price_get
        literal_key_facts map_simps anchor)
qed

section \<open>Admitted once\<close>

text \<open>What the ingest of a batch does to the ledger: filter, and remember when the rest is durable.\<close>

definition admit :: "normalized_span list \<Rightarrow> call_ledger \<Rightarrow> normalized_span list \<times> call_ledger" where
  "admit spans l = (let (kept, ks, l') = call_filter spans l in (kept, remember ks l'))"

lemma admit_first_then_drop:
  assumes l: "ledger_ok l" "k \<notin> cl_set l"
    and a: "attr_as_str call_key a = Some k" "attr_as_str call_anchor a = None"
    and b: "attr_as_str call_key b = Some k" "attr_as_str call_anchor b = None"
  shows "fst (admit [a] l) = [a]" and "fst (admit [b] (snd (admit [a] l))) = []"
proof -
  have f: "call_filter [a] l = ([a], [k], l)" using l a by (simp add: call_filter_def)
  then show "fst (admit [a] l) = [a]" by (simp add: admit_def)
  have "k \<notin> set (cl_order l)" using l by (simp add: ledger_ok_def)
  then have nk: "new_keys [k] l = [k]" by (simp add: new_keys_def)
  note o' = remember_order [OF l(1), of "[k]"]
  have "1 \<le> cl_capacity l" using l by (simp add: ledger_ok_def)
  then have "k \<in> set (cl_order (remember [k] l))" unfolding o'(1) nk by (simp add: Suc_diff_le)
  then have "k \<in> cl_set (remember [k] l)" using o'(2) by (simp add: ledger_ok_def)
  moreover have "snd (admit [a] l) = remember [k] l" by (simp add: admit_def f)
  ultimately show "fst (admit [b] (snd (admit [a] l))) = []" using b by (simp add: admit_def call_filter_def)
qed

text \<open>
  C6. When Claude Code reports one API call on both signals, the span made from its event and its
  traced span get one trace id, one span id and one call key, so they are one span to the store; and
  whichever is ingested first is kept while the other is dropped, as long as the ledger remembers it.
\<close>
theorem one_call_is_one_span:
  fixes cr :: crates and prices :: price_table and ctx :: record_ctx and sv sn sc u :: "str option"
  assumes "describe_one_call r sp rid" "ledger_ok l" "''claude_code.llm:'' @ rid \<notin> cl_set l"
  defines "e \<equiv> event_copy cr prices ctx r" and "t \<equiv> traced_copy cr prices sv sn sc u sp"
  shows "(span_key e = span_key t) \<and>
    (may_carry_keys [e] \<and> may_carry_keys [t]) \<and>
    (fst (admit [e] l) = [e] \<and> fst (admit [t] (snd (admit [e] l))) = []) \<and>
    (fst (admit [t] l) = [t] \<and> fst (admit [e] (snd (admit [t] l))) = [])"
proof -
  note E = event_copy_call [OF assms(1), of cr prices ctx, folded e_def]
  note T = traced_copy_call [OF assms(1), of cr prices sv sn sc u, folded t_def]
  have p1: "span_key e = span_key t" by (simp add: span_key_def E T)
  have p2: "may_carry_keys [e] \<and> may_carry_keys [t]" by (simp add: may_carry_keys_def E T claude_llm_name_def starts_with_def)
  have p3: "fst (admit [e] l) = [e] \<and> fst (admit [t] (snd (admit [e] l))) = []"
    using admit_first_then_drop [OF assms(2,3) E(1,2) T(1,2)] by blast
  have p4: "fst (admit [t] l) = [t] \<and> fst (admit [e] (snd (admit [t] l))) = []"
    using admit_first_then_drop [OF assms(2,3) T(1,2) E(1,2)] by blast
  show ?thesis using p1 p2 p3 p4 by blast
qed

definition demo_crates :: crates where
  "demo_crates = \<lparr>cr_to_string = (\<lambda>_. Some ''json''), cr_from_str = (\<lambda>_. None), cr_sha256 = (\<lambda>_. replicate 32 7),
     cr_debug = (\<lambda>_. ''any'')\<rparr>"

definition demo_event :: log_record where
  "demo_event = \<lparr>lr_time_unix_nano = 9, lr_observed_time_unix_nano = 0, lr_severity_number = 0, lr_severity_text = [],
     lr_event_name = [], lr_body = None, lr_attributes = [kv_str ''request_id'' ''req''],
     lr_trace_id = replicate 16 1, lr_span_id = replicate 8 2\<rparr>"

definition demo_span :: otlp_span where
  "demo_span = \<lparr>op_trace_id = replicate 16 1, op_span_id = replicate 8 3, op_parent_span_id = [],
     op_name = claude_llm_name, op_kind = 1, op_start_time_unix_nano = 5, op_end_time_unix_nano = 9,
     op_attributes = [kv_str ''request_id'' ''req''], op_events = [], op_status = None\<rparr>"

definition demo_table :: price_table where
  "demo_table = \<lparr>pt_version = ''v'', pt_as_of = None, pt_models = om_empty\<rparr>"

lemma demo_call: "describe_one_call demo_event demo_span ''req''"
  by (simp add: describe_one_call_def demo_event_def demo_span_def kv_str_def attr_str_def attr_Cons scalar_string_def
      last_value_def trace_context_def id_set_def list_ex_iff call_key_def call_anchor_def)

theorem one_call_is_one_span_witness:
  "fst (admit [traced_copy demo_crates demo_table None None None None demo_span]
     (snd (admit [event_copy demo_crates demo_table \<lparr>cx_service_name = None, cx_scope_name = None, cx_scope_version = None\<rparr>
        demo_event] (with_capacity 4)))) = []"
  using one_call_is_one_span [OF demo_call ledger_ok_start [of 4]] by (simp add: with_capacity_def)

end
