(* ===== verification/Dialects.thy ===== *)
theory Dialects
  imports Normalize
begin

text \<open>
  A span reads the same in the OpenInference spelling and in the OTel \<open>gen_ai\<close> spelling: the
  translation of attribute keys, and the fields and the price it leaves as they are.
\<close>

section \<open>The translation\<close>

definition spellings :: "(str \<times> str) list" where
  "spellings =
     [(''llm.token_count.prompt'', ''gen_ai.usage.input_tokens''),
      (''llm.token_count.completion'', ''gen_ai.usage.output_tokens''),
      (''llm.token_count.total'', ''gen_ai.usage.total_tokens''),
      (''llm.token_count.prompt_details.cache_read'', ''gen_ai.usage.cache_read.input_tokens''),
      (''llm.token_count.prompt_details.cache_write'', ''gen_ai.usage.cache_creation.input_tokens''),
      (''llm.token_count.completion_details.reasoning'', ''gen_ai.usage.reasoning_tokens''),
      (''llm.model_name'', ''gen_ai.request.model''),
      (''llm.provider'', ''gen_ai.provider.name''),
      (''llm.cost.total'', ''gen_ai.usage.cost''),
      (''input.value'', ''gen_ai.input.messages''),
      (''output.value'', ''gen_ai.output.messages''),
      (''session.id'', ''gen_ai.conversation.id'')]"

definition translate_key :: "str \<Rightarrow> str" where
  "translate_key k = (case map_of spellings k of Some k' \<Rightarrow> k' | None \<Rightarrow> k)"

definition original_key :: "str \<Rightarrow> str" where
  "original_key k = (case map_of (map prod.swap spellings) k of Some k' \<Rightarrow> k' | None \<Rightarrow> k)"

definition is_gen_ai :: "str \<Rightarrow> bool" where
  "is_gen_ai k = starts_with ''gen_ai.'' k"

definition to_gen_ai :: "key_value list \<Rightarrow> key_value list" where
  "to_gen_ai attrs = map (\<lambda>(k, v). (translate_key k, v)) attrs"

definition no_gen_ai :: "key_value list \<Rightarrow> bool" where
  "no_gen_ai attrs \<longleftrightarrow> list_all (\<lambda>kv. \<not> is_gen_ai (fst kv)) attrs"

lemma swap_keys_gen_ai: "map_of (map prod.swap spellings) k = Some k' \<Longrightarrow> is_gen_ai k"
  by (auto simp: spellings_def is_gen_ai_def starts_with_def split: if_splits)

lemma original_translate:
  assumes "\<not> is_gen_ai k"
  shows "original_key (translate_key k) = k"
proof (cases "map_of spellings k")
  case None
  have "map_of (map prod.swap spellings) k = None" using assms swap_keys_gen_ai by fastforce
  then show ?thesis using None by (simp add: translate_key_def original_key_def)
next
  case (Some k')
  then have "(k, k') \<in> set spellings" by (rule map_of_SomeD)
  then have "map_of (map prod.swap spellings) k' = Some k" by (auto simp: spellings_def)
  then show ?thesis using Some by (simp add: translate_key_def original_key_def)
qed

lemma find_translated:
  assumes "no_gen_ai attrs"
  shows "find (\<lambda>kv. fst kv = k) (to_gen_ai attrs) =
    (if translate_key (original_key k) = k
     then map_option (\<lambda>(_, v). (k, v)) (find (\<lambda>kv. fst kv = original_key k) attrs) else None)"
  using assms
proof (induction attrs)
  case Nil
  then show ?case by (simp add: to_gen_ai_def)
next
  case (Cons kv attrs)
  obtain k0 v where kv: "kv = (k0, v)" by fastforce
  have n: "\<not> is_gen_ai k0" "no_gen_ai attrs" using Cons(2) by (simp_all add: no_gen_ai_def kv)
  have "translate_key k0 = k \<longleftrightarrow> translate_key (original_key k) = k \<and> k0 = original_key k"
    using original_translate [OF n(1)] by auto
  then show ?case using Cons(1) [OF n(2)] by (simp add: to_gen_ai_def kv)
qed

lemma attr_translated:
  assumes "no_gen_ai attrs"
  shows "attr (to_gen_ai attrs) k =
    (if translate_key (original_key k) = k then attr attrs (original_key k) else None)"
  by (auto simp: attr_def find_translated [OF assms] split: option.split)

lemma last_translated:
  assumes "no_gen_ai attrs"
  shows "last_value (to_gen_ai attrs) k =
    (if translate_key (original_key k) = k then last_value attrs (original_key k) else None)"
proof -
  have "no_gen_ai (rev attrs)" using assms by (simp add: no_gen_ai_def)
  moreover have "rev (to_gen_ai attrs) = to_gen_ai (rev attrs)" by (simp add: to_gen_ai_def rev_map)
  ultimately show ?thesis by (auto simp: last_value_def find_translated option.map_comp o_def case_prod_beta)
qed

lemma attr_gen_ai: "no_gen_ai attrs \<Longrightarrow> is_gen_ai k \<Longrightarrow> attr attrs k = None"
  by (intro attr_absent) (auto simp: no_gen_ai_def list_all_iff)

lemma last_gen_ai: "no_gen_ai attrs \<Longrightarrow> is_gen_ai k \<Longrightarrow> last_value attrs k = None"
  by (force simp: last_value_def find_None_iff no_gen_ai_def list_all_iff)

section \<open>What the agent pass depends on\<close>

definition is_set_aside :: "str option \<Rightarrow> i32 \<Rightarrow> tokens \<Rightarrow> f64 option \<Rightarrow> bool" where
  "is_set_aside kind otel t cost \<longleftrightarrow>
     (case kind of None \<Rightarrow> False
      | Some k \<Rightarrow> \<not> eq_ignore_ascii_case k ''TOOL'' \<and>
          (eq_ignore_ascii_case k ''AGENT'' \<or> eq_ignore_ascii_case k ''CHAIN'') \<and> otel \<noteq> span_kind_client \<and>
          (\<not> tokens_is_empty t \<or> cost \<noteq> None))"

lemma agent_normalize_usage:
  "ns_tokens (agent_normalize s) =
     (if is_set_aside (ns_oi_kind s) (ns_otel_kind s) (ns_tokens s) (ns_cost_usd s) then tokens_default else ns_tokens s)"
  "ns_cost_usd (agent_normalize s) =
     (if is_set_aside (ns_oi_kind s) (ns_otel_kind s) (ns_tokens s) (ns_cost_usd s) then None else ns_cost_usd s)"
  by (simp_all add: agent_normalize_def is_set_aside_def Let_def split: option.split)

lemma canonical_text [simp]:
  "ns_provider (canonical s keys) = ns_provider s" "ns_input_value (canonical s keys) = ns_input_value s"
  "ns_output_value (canonical s keys) = ns_output_value s" "ns_user_id (canonical s keys) = ns_user_id s"
  by (simp_all add: canonical_def split: option.splits)

lemma agent_normalize_text:
  "ns_provider (agent_normalize s) = ns_provider s" "ns_input_value (agent_normalize s) = ns_input_value s"
  "ns_output_value (agent_normalize s) = ns_output_value s" "ns_user_id (agent_normalize s) = ns_user_id s"
  "ns_session_id (agent_normalize s) = ns_session_id s"
  by (simp_all add: agent_normalize_def set_aside_def Let_def split: option.splits)

section \<open>The two spellings read alike\<close>

text \<open>The fields the two spellings carry.\<close>

definition semantics ::
  "normalized_span \<Rightarrow> tokens \<times> str option \<times> str option \<times> f64 option \<times> str option \<times> str option \<times> str option \<times> str option" where
  "semantics n = (ns_tokens n, ns_model n, ns_provider n, ns_cost_usd n, ns_input_value n, ns_output_value n,
     ns_session_id n, ns_user_id n)"

lemmas read_keys = prompt_keys_def completion_keys_def total_keys_def cache_read_keys_def cache_write_keys_def
  reasoning_keys_def model_keys_def provider_keys_def input_keys_def output_keys_def session_keys_def cost_attributes_def

lemma indexed_none:
  assumes "no_gen_ai attrs"
  shows "indexed_messages cr attrs kind = None"
proof -
  have "message_key (''gen_ai.'' @ kind @ ''.'') (fst kv) = None" if "kv \<in> set attrs" for kv
    using assms that by (auto simp: message_key_def strip_prefix_def is_gen_ai_def no_gen_ai_def list_all_iff
        starts_with_iff split: option.split)
  then have "fold (bucket (''gen_ai.'' @ kind @ ''.'')) attrs m = m" for m
    by (induction attrs) (simp_all add: bucket_def)
  then show ?thesis by (simp add: indexed_messages_def messages_from.simps map_simps)
qed

lemma indexed_none_translated:
  assumes "no_gen_ai attrs" "kind \<in> {''prompt'', ''completion''}"
  shows "indexed_messages cr (to_gen_ai attrs) kind = None"
proof -
  have "message_key (''gen_ai.'' @ kind @ ''.'') (fst kv) = None" if mem: "kv \<in> set (to_gen_ai attrs)" for kv
  proof -
    obtain p where p: "kv = (case p of (k, v) \<Rightarrow> (translate_key k, v))" "p \<in> set attrs"
      using mem unfolding to_gen_ai_def set_map by (rule imageE)
    then obtain k v where kv: "(k, v) \<in> set attrs" "fst kv = translate_key k" by (cases p) simp
    have n: "\<not> is_gen_ai k" using assms(1) kv(1) by (auto simp: no_gen_ai_def list_all_iff)
    have "strip_prefix (''gen_ai.'' @ kind @ ''.'') (translate_key k) = None"
    proof (cases "map_of spellings k")
      case None
      then show ?thesis using n by (auto simp: translate_key_def strip_prefix_def is_gen_ai_def starts_with_iff)
    next
      case (Some k')
      then have "(k, k') \<in> set spellings" by (rule map_of_SomeD)
      then show ?thesis using assms(2) Some
        by (auto simp: translate_key_def spellings_def strip_prefix_def starts_with_def)
    qed
    then show ?thesis by (simp add: message_key_def kv(2))
  qed
  then have "fold (bucket (''gen_ai.'' @ kind @ ''.'')) xs m = m" if "set xs \<subseteq> set (to_gen_ai attrs)" for xs m
    using that by (induction xs) (simp_all add: bucket_def)
  then show ?thesis by (simp add: indexed_messages_def messages_from.simps map_simps)
qed

definition spelled :: "str \<Rightarrow> bool" where
  "spelled k \<longleftrightarrow> translate_key (original_key k) = k \<and> \<not> is_gen_ai (original_key k)"

lemma find_map_filter_by:
  "ys = filter P xs \<Longrightarrow> (\<And>x. x \<in> set xs \<Longrightarrow> \<not> P x \<Longrightarrow> h x = None) \<Longrightarrow> find_map h xs = find_map h ys"
  by (induction xs arbitrary: ys) (auto split: option.split)

lemma first_translated:
  assumes n: "no_gen_ai attrs" and get: "\<And>a k. f a k = g (attr a k)" and none: "g None = None"
    and keys: "filter spelled keys' = map translate_key ks"
      "list_all (\<lambda>k. \<not> is_gen_ai k) ks" "filter (\<lambda>k. \<not> is_gen_ai k) keys = ks"
  shows "find_map (f (to_gen_ai attrs)) keys' = find_map (f attrs) keys"
proof -
  have "find_map (f (to_gen_ai attrs)) keys' = find_map (f (to_gen_ai attrs)) (map translate_key ks)"
    by (rule find_map_filter_by [where P = spelled]) (auto simp: get attr_translated [OF n] attr_gen_ai [OF n] spelled_def none keys(1) [symmetric])
  also have "\<dots> = find_map (f attrs) ks"
    using keys(2) by (induction ks) (simp_all add: get attr_translated [OF n] original_translate split: option.split)
  also have "\<dots> = find_map (f attrs) keys"
    by (rule find_map_filter_by [where P = "\<lambda>k. \<not> is_gen_ai k", symmetric]) (auto simp: get attr_gen_ai [OF n] none keys(3) [symmetric])
  finally show ?thesis .
qed

lemmas known_keys = spelled_def translate_key_def original_key_def spellings_def is_gen_ai_def starts_with_def read_keys

lemma reads_alike:
  assumes n: "no_gen_ai attrs"
  shows "read_tokens (to_gen_ai attrs) = read_tokens attrs"
    and "first_str (to_gen_ai attrs) model_keys = first_str attrs model_keys"
    and "first_str (to_gen_ai attrs) provider_keys = first_str attrs provider_keys"
    and "first_str (to_gen_ai attrs) input_keys = first_str attrs input_keys"
    and "first_str (to_gen_ai attrs) output_keys = first_str attrs output_keys"
    and "first_str (to_gen_ai attrs) session_keys = first_str attrs session_keys"
    and "first_str (to_gen_ai attrs) [''user.id''] = first_str attrs [''user.id'']"
    and "first_f64 (to_gen_ai attrs) cost_attributes = first_f64 attrs cost_attributes"
    and "attr_str (to_gen_ai attrs) ''openinference.span.kind'' = attr_str attrs ''openinference.span.kind''"
proof -
  have str: "first_str (to_gen_ai attrs) keys = first_str attrs keys"
    if "filter spelled keys = map translate_key (filter (\<lambda>k. \<not> is_gen_ai k) keys)" for keys
    unfolding first_str_def
    by (rule first_translated [OF n, where g = "\<lambda>v. case v of None \<Rightarrow> None | Some x \<Rightarrow> scalar_string x"])
      (use that in \<open>simp_all add: attr_str_def list_all_iff\<close>)
  have u64: "first_u64 (to_gen_ai attrs) keys = first_u64 attrs keys"
    if "filter spelled keys = map translate_key (filter (\<lambda>k. \<not> is_gen_ai k) keys)" for keys
    unfolding first_u64_def
    by (rule first_translated [OF n, where g = "\<lambda>v. attr_u64 [([], v)] []"])
      (use that in \<open>simp_all add: attr_u64_def attr_Cons list_all_iff\<close>)
  have f64: "first_f64 (to_gen_ai attrs) keys = first_f64 attrs keys"
    if "filter spelled keys = map translate_key (filter (\<lambda>k. \<not> is_gen_ai k) keys)" for keys
    unfolding first_f64_def
    by (rule first_translated [OF n, where g = "\<lambda>v. attr_f64 [([], v)] []"])
      (use that in \<open>simp_all add: attr_f64_def attr_Cons list_all_iff\<close>)
  have same: "filter spelled keys = map translate_key (filter (\<lambda>k. \<not> is_gen_ai k) keys)"
    if "keys \<in> {prompt_keys, completion_keys, total_keys, cache_read_keys, cache_write_keys, reasoning_keys, model_keys,
      provider_keys, input_keys, output_keys, session_keys, cost_attributes}" for keys
    using that by (elim insertE emptyE) (simp_all add: known_keys)
  show "read_tokens (to_gen_ai attrs) = read_tokens attrs"
    by (simp add: read_tokens_def u64 same)
  show "first_str (to_gen_ai attrs) model_keys = first_str attrs model_keys"
    "first_str (to_gen_ai attrs) provider_keys = first_str attrs provider_keys"
    "first_str (to_gen_ai attrs) input_keys = first_str attrs input_keys"
    "first_str (to_gen_ai attrs) output_keys = first_str attrs output_keys"
    "first_str (to_gen_ai attrs) session_keys = first_str attrs session_keys"
    by (simp_all add: str same)
  show "first_str (to_gen_ai attrs) [''user.id''] = first_str attrs [''user.id'']"
    by (rule str) (simp add: known_keys)
  show "first_f64 (to_gen_ai attrs) cost_attributes = first_f64 attrs cost_attributes" by (simp add: f64 same)
  show "attr_str (to_gen_ai attrs) ''openinference.span.kind'' = attr_str attrs ''openinference.span.kind''"
    by (simp add: attr_str_def attr_translated [OF n] known_keys)
qed

lemma raw_translated:
  assumes "no_gen_ai attrs"
  shows "om_get (raw_attributes (to_gen_ai attrs)) k =
    (if spelled k then om_get (raw_attributes attrs) (original_key k) else None)"
  by (simp add: raw_attributes_get last_translated [OF assms] spelled_def last_gen_ai [OF assms])

lemma raw_gen_ai: "no_gen_ai attrs \<Longrightarrow> is_gen_ai k \<Longrightarrow> om_get (raw_attributes attrs) k = None"
  by (simp add: raw_attributes_get last_gen_ai)

lemma cost_keys_free: "k \<in> set cost_attributes \<Longrightarrow> k \<notin> canonical_keys"
  "k \<in> set [''llm.token_count.total'', ''gen_ai.usage.total_tokens''] \<Longrightarrow> k \<notin> canonical_keys"
  by (auto simp: cost_attributes_def canonical_keys_def usage_key_def tool_name_keys_def tool_call_id_keys_def
      agent_name_keys_def agent_id_keys_def)

text \<open>
  C29. A span reads the same in either convention: a span in the OpenInference spelling, without
  \<open>gen_ai\<close> attributes and with a stated kind, and its translation key by key into the \<open>gen_ai\<close>
  spelling are normalized to the same kind, tokens, model, provider, cost, input, output, session and
  user, and any price table derives the same cost for both.
\<close>
theorem either_convention_reads_alike:
  fixes cr :: crates and sp :: otlp_span and sv sn sc :: "str option"
  assumes "no_gen_ai (op_attributes sp)" and "attr_str (op_attributes sp) ''openinference.span.kind'' = Some kind"
  defines "n \<equiv> normalize_span cr sp sv sn sc"
    and "n' \<equiv> normalize_span cr (sp\<lparr>op_attributes := to_gen_ai (op_attributes sp)\<rparr>) sv sn sc"
  shows "(semantics n' = semantics n) \<and>
    (ns_oi_kind n' = ns_oi_kind n) \<and>
    (derive_cost t n' = derive_cost t n)"
proof -
  let ?sp = "sp\<lparr>op_attributes := to_gen_ai (op_attributes sp)\<rparr>"
  let ?s = "read_span cr sp sv sn sc" and ?s' = "read_span cr ?sp sv sn sc"
  note r = reads_alike [OF assms(1)] and i = indexed_none [OF assms(1)] indexed_none_translated [OF assms(1)]
  have kind: "ns_oi_kind ?s' = ns_oi_kind ?s" using assms(2) by (simp add: read_span_def Let_def r)
  have same: "ns_tokens ?s' = ns_tokens ?s" "ns_cost_usd ?s' = ns_cost_usd ?s" "ns_otel_kind ?s' = ns_otel_kind ?s"
    "ns_model ?s' = ns_model ?s" "ns_provider ?s' = ns_provider ?s" "ns_input_value ?s' = ns_input_value ?s"
    "ns_output_value ?s' = ns_output_value ?s" "ns_session_id ?s' = ns_session_id ?s" "ns_user_id ?s' = ns_user_id ?s"
    by (simp_all add: read_span_def Let_def r i)
  have p1: "semantics n' = semantics n"
    unfolding n_def n'_def normalize_span_def semantics_def
    by (simp add: agent_normalize_usage agent_normalize_text same kind)
  have p2: "ns_oi_kind n' = ns_oi_kind n"
    using kind unfolding n_def n'_def normalize_span_def
    by (simp add: agent_normalize_def set_aside_def is_kind_def Let_def same split: option.split)
  have get: "om_get (ns_raw_attributes n) k = om_get (raw_attributes (op_attributes sp)) k"
    "om_get (ns_raw_attributes n') k = (if spelled k then om_get (raw_attributes (op_attributes sp)) (original_key k) else None)"
    if "k \<notin> canonical_keys" for k
    using that by (simp_all add: n_def n'_def normalize_span_get raw_translated [OF assms(1)])
  have rep: "reported_total n' = reported_total n"
    by (simp add: reported_total_def get cost_keys_free raw_gen_ai [OF assms(1)] known_keys split: option.split)
  have cost: "has_cost_attribute n' = has_cost_attribute n"
    by (simp add: has_cost_attribute_def get cost_keys_free raw_gen_ai [OF assms(1)] known_keys)
  have eqs: "ns_tokens n' = ns_tokens n" "ns_model n' = ns_model n" "ns_cost_usd n' = ns_cost_usd n"
    using p1 by (simp_all add: semantics_def)
  have p3: "derive_cost t n' = derive_cost t n" unfolding derive_cost_def eqs rep cost by (rule refl)
  show ?thesis using p1 p2 p3 by blast
qed

definition llm_span_attributes :: "key_value list" where
  "llm_span_attributes = [kv_str ''openinference.span.kind'' ''LLM'', kv_str ''llm.model_name'' ''m'',
     kv_int ''llm.token_count.prompt'' 7, kv_int ''llm.token_count.completion'' 2]"

definition openinference_span :: otlp_span where
  "openinference_span = \<lparr>op_trace_id = [1], op_span_id = [2], op_parent_span_id = [], op_name = ''chat'', op_kind = 1,
     op_start_time_unix_nano = 1, op_end_time_unix_nano = 2, op_attributes = llm_span_attributes, op_events = [], op_status = None\<rparr>"

definition no_crates :: crates where
  "no_crates = \<lparr>cr_to_string = (\<lambda>_. None), cr_from_str = (\<lambda>_. None), cr_sha256 = (\<lambda>_. replicate 32 1), cr_debug = (\<lambda>_. [])\<rparr>"

theorem either_convention_reads_alike_witness:
  "ns_oi_kind (normalize_span no_crates (openinference_span\<lparr>op_attributes := to_gen_ai llm_span_attributes\<rparr>) None None None)
     = ns_oi_kind (normalize_span no_crates openinference_span None None None)"
proof -
  have "no_gen_ai (op_attributes openinference_span)"
    "attr_str (op_attributes openinference_span) ''openinference.span.kind'' = Some ''LLM''"
    by (simp_all add: openinference_span_def llm_span_attributes_def no_gen_ai_def is_gen_ai_def starts_with_def attr_str_def
        attr_Cons kv_str_def kv_int_def scalar_string_def)
  from either_convention_reads_alike [OF this, of no_crates None None None] show ?thesis
    by (simp add: openinference_span_def)
qed

end
