(* ===== verification/Counts.thy ===== *)
theory Counts
  imports OneCall Dialects
begin

text \<open>
  Token counts from the wire to the price: the loosely typed forms of a count, the counts of a
  Claude Code event, and the sums and totals that are read wrongly.
\<close>

section \<open>One count, three forms\<close>

text \<open>
  A token count below 2^53 is read as itself whether it is sent as an integer, as a double or as
  decimal text, and a negative or fractional number is not read as a count at all.
\<close>
theorem count_reads_alike_in_every_form:
  assumes "n < 2 ^ 53"
  shows "attr_u64 [(k, Some (IntValue (int n)))] k = Some n"
    and "attr_u64 [(k, Some (DoubleValue (f_of_int (int n))))] k = Some n"
    and "attr_u64 [(k, Some (StringValue (dec_of n)))] k = Some n"
    and "attr_u64 [(k, Some (IntValue (- int n - 1)))] k = None"
    and "\<not> f_integral d \<or> \<not> f_nonneg d \<Longrightarrow> attr_u64 [(k, Some (DoubleValue d))] k = None"
proof -
  have "n \<le> u64_max" using assms by (simp add: u64_max_def)
  then show "attr_u64 [(k, Some (StringValue (dec_of n)))] k = Some n"
    by (simp add: attr_u64_def attr_Cons parse_dec_of)
  show "attr_u64 [(k, Some (DoubleValue (f_of_int (int n))))] k = Some n"
    using f_of_nat_exact [OF assms] by (simp add: attr_u64_def attr_Cons)
  show "attr_u64 [(k, Some (IntValue (int n)))] k = Some n" "attr_u64 [(k, Some (IntValue (- int n - 1)))] k = None"
    "\<not> f_integral d \<or> \<not> f_nonneg d \<Longrightarrow> attr_u64 [(k, Some (DoubleValue d))] k = None"
    by (auto simp: attr_u64_def attr_Cons)
qed

theorem count_reads_alike_in_every_form_witness:
  "attr_u64 [(''k'', Some (DoubleValue (f_of_int 4096)))] ''k'' = Some 4096"
  using count_reads_alike_in_every_form(2) [of 4096 "''k''"] by simp

section \<open>The counts of a Claude Code event\<close>

text \<open>The event's own keys are Claude Code's, not those of a convention.\<close>

definition plain_keys :: "key_value list \<Rightarrow> bool" where
  "plain_keys a \<longleftrightarrow> list_all (\<lambda>kv. \<not> is_gen_ai (fst kv) \<and> \<not> starts_with ''llm.'' (fst kv)
     \<and> fst kv \<noteq> ''openinference.span.kind'') a"

lemma plain_absent:
  "plain_keys a \<Longrightarrow> is_gen_ai k \<or> starts_with ''llm.'' k \<or> k = ''openinference.span.kind'' \<Longrightarrow> k \<notin> fst ` set a"
  by (auto simp: plain_keys_def list_all_iff)

definition event_counts :: "key_value list \<Rightarrow> tokens" where
  "event_counts a = \<lparr>tk_prompt = attr_u64 a ''input_tokens'', tk_completion = attr_u64 a ''output_tokens'',
     tk_total = claude_total a, tk_cache_read = attr_u64 a ''cache_read_tokens'',
     tk_cache_write = attr_u64 a ''cache_creation_tokens'', tk_reasoning = None\<rparr>"

definition event_total :: "key_value list \<Rightarrow> nat" where
  "event_total a = or_zero (attr_u64 a ''input_tokens'') + or_zero (attr_u64 a ''output_tokens'')
     + or_zero (attr_u64 a ''cache_read_tokens'') + or_zero (attr_u64 a ''cache_creation_tokens'')"

lemma or_zero_le: "or_zero x \<le> n \<Longrightarrow> x = Some m \<Longrightarrow> m \<le> n"
  by simp

lemma claude_total_exact:
  assumes "event_total a < 2 ^ 63" "attr_u64 a ''input_tokens'' \<noteq> None \<or> attr_u64 a ''output_tokens'' \<noteq> None"
  shows "claude_total a = Some (event_total a)"
proof -
  have "wrap_sum [attr_u64 a ''input_tokens'', attr_u64 a ''output_tokens'', attr_u64 a ''cache_read_tokens'',
      attr_u64 a ''cache_creation_tokens''] = event_total a"
    using assms(1) by (simp add: wrap_sum_def wrap_add_def event_total_def)
  then show ?thesis using assms(2) by (simp add: claude_total_def Let_def)
qed

text \<open>Reading back an integer attribute the mapping added.\<close>

lemma added_count:
  assumes "k \<notin> fst ` set attrs" "\<And>n. x = Some n \<Longrightarrow> n < 2 ^ 63"
  shows "attr_u64 (add_some (\<lambda>v. kv_int k (as_i64 v)) x attrs) k = x"
proof -
  have a: "attr (add_some (\<lambda>v. kv_int k (as_i64 v)) x attrs) k = (case x of None \<Rightarrow> None | Some v \<Rightarrow> snd (kv_int k (as_i64 v)))"
    by (rule add_some_new) (use assms(1) in simp_all)
  show ?thesis
    unfolding attr_u64_def a using assms(2) by (cases x) (simp_all add: kv_int_def as_i64_def)
qed

lemma attr_u64_other:
  "(\<And>v. fst (f v) \<noteq> k) \<Longrightarrow> attr_u64 (add_some f x attrs) k = attr_u64 attrs k"
  "fst kv \<noteq> k \<Longrightarrow> attr_u64 (add_attr attrs kv) k = attr_u64 attrs k"
  by (simp_all add: attr_u64_def added)

lemma attr_u64_absent: "k \<notin> fst ` set attrs \<Longrightarrow> attr_u64 attrs k = None"
  by (simp add: attr_u64_def attr_absent)

definition claude_added :: "str list" where
  "claude_added = [''gen_ai.operation.name'', ''gen_ai.provider.name'', ''gen_ai.request.model'', ''gen_ai.response.model'',
     ''gen_ai.usage.input_tokens'', ''gen_ai.usage.output_tokens'', ''gen_ai.usage.cache_read.input_tokens'',
     ''gen_ai.usage.cache_creation.input_tokens'', ''gen_ai.usage.total_tokens'', ''gen_ai.usage.cost'',
     ''gen_ai.response.id'', ''gen_ai.response.time_to_first_chunk'', ''evald.source'', ''evald.call_key'']"

lemma claude_keys:
  assumes "k \<notin> fst ` set a" "k \<notin> set claude_added"
  shows "k \<notin> fst ` set (claude_llm_attributes a key)"
proof -
  have n: "''gen_ai.operation.name'' \<noteq> k" "''gen_ai.provider.name'' \<noteq> k" "''gen_ai.request.model'' \<noteq> k"
    "''gen_ai.response.model'' \<noteq> k" "''gen_ai.usage.input_tokens'' \<noteq> k" "''gen_ai.usage.output_tokens'' \<noteq> k"
    "''gen_ai.usage.cache_read.input_tokens'' \<noteq> k" "''gen_ai.usage.cache_creation.input_tokens'' \<noteq> k"
    "''gen_ai.usage.total_tokens'' \<noteq> k" "''gen_ai.usage.cost'' \<noteq> k" "''gen_ai.response.id'' \<noteq> k"
    "''gen_ai.response.time_to_first_chunk'' \<noteq> k" "''evald.source'' \<noteq> k" "''evald.call_key'' \<noteq> k"
    using assms(2) unfolding claude_added_def by auto
  show ?thesis unfolding claude_llm_attributes_def Let_def call_key_def
    by (simp only: added kv_key n assms(1) not_False_eq_True)
qed

lemma event_read_tokens:
  assumes p: "plain_keys a" and t: "event_total a < 2 ^ 63"
    and io: "attr_u64 a ''input_tokens'' \<noteq> None \<or> attr_u64 a ''output_tokens'' \<noteq> None"
  shows "read_tokens (claude_llm_attributes a key) = event_counts a"
proof -
  have small: "attr_u64 a ''input_tokens'' = Some n \<Longrightarrow> n < 2 ^ 63" "attr_u64 a ''output_tokens'' = Some n \<Longrightarrow> n < 2 ^ 63"
    "attr_u64 a ''cache_read_tokens'' = Some n \<Longrightarrow> n < 2 ^ 63" "attr_u64 a ''cache_creation_tokens'' = Some n \<Longrightarrow> n < 2 ^ 63"
    "claude_total a = Some n \<Longrightarrow> n < 2 ^ 63" for n
    using t claude_total_exact [OF t io] by (auto simp: event_total_def)
  note abs = plain_absent [OF p]
  have none: "attr_u64 (claude_llm_attributes a key) k = None"
    if "k \<in> {''llm.token_count.prompt'', ''gen_ai.usage.prompt_tokens'', ''llm.token_count.completion'',
        ''gen_ai.usage.completion_tokens'', ''llm.token_count.total'', ''llm.token_count.prompt_details.cache_read'',
        ''llm.token_count.prompt_details.cache_write'', ''gen_ai.usage.cache_write.input_tokens'',
        ''llm.token_count.completion_details.reasoning'', ''gen_ai.usage.reasoning_tokens'',
        ''gen_ai.usage.reasoning.output_tokens''}" for k
  proof (rule attr_u64_absent)
    have "is_gen_ai k \<or> starts_with ''llm.'' k \<or> k = ''openinference.span.kind''" "k \<notin> set claude_added"
      using that by (elim insertE emptyE; simp add: is_gen_ai_def starts_with_def claude_added_def)+
    then show "k \<notin> fst ` set (claude_llm_attributes a key)" by (intro claude_keys abs)
  qed
  have "attr_u64 (claude_llm_attributes a key) ''gen_ai.usage.input_tokens'' = attr_u64 a ''input_tokens''"
    by (simp add: claude_llm_attributes_def Let_def attr_u64_other call_key_def, rule added_count,
        simp add: added abs is_gen_ai_def starts_with_def, erule small(1))
  moreover have "attr_u64 (claude_llm_attributes a key) ''gen_ai.usage.output_tokens'' = attr_u64 a ''output_tokens''"
    by (simp add: claude_llm_attributes_def Let_def attr_u64_other call_key_def, rule added_count,
        simp add: added abs is_gen_ai_def starts_with_def, erule small(2))
  moreover have "attr_u64 (claude_llm_attributes a key) ''gen_ai.usage.cache_read.input_tokens'' = attr_u64 a ''cache_read_tokens''"
    by (simp add: claude_llm_attributes_def Let_def attr_u64_other call_key_def, rule added_count,
        simp add: added abs is_gen_ai_def starts_with_def, erule small(3))
  moreover have "attr_u64 (claude_llm_attributes a key) ''gen_ai.usage.cache_creation.input_tokens'' = attr_u64 a ''cache_creation_tokens''"
    by (simp add: claude_llm_attributes_def Let_def attr_u64_other call_key_def, rule added_count,
        simp add: added abs is_gen_ai_def starts_with_def, erule small(4))
  moreover have "attr_u64 (claude_llm_attributes a key) ''gen_ai.usage.total_tokens'' = claude_total a"
    by (simp add: claude_llm_attributes_def Let_def attr_u64_other call_key_def, rule added_count,
        simp add: added abs is_gen_ai_def starts_with_def, erule small(5))
  ultimately show ?thesis
    by (simp add: read_tokens_def event_counts_def first_u64_def read_keys none split: option.split)
qed

lemma attr_str_other:
  "(\<And>v. fst (f v) \<noteq> k) \<Longrightarrow> attr_str (add_some f x attrs) k = attr_str attrs k"
  "fst kv \<noteq> k \<Longrightarrow> attr_str (add_attr attrs kv) k = attr_str attrs k"
  by (simp_all add: attr_str_def added)

lemma event_kind:
  assumes "plain_keys a"
  shows "attr_str (claude_llm_attributes a key) ''openinference.span.kind'' = None"
    and "infer_oi_kind (claude_llm_attributes a key) = Some ''LLM''"
proof -
  have "''openinference.span.kind'' \<notin> fst ` set (claude_llm_attributes a key)"
    by (intro claude_keys plain_absent [OF assms]) (simp_all add: claude_added_def)
  then show "attr_str (claude_llm_attributes a key) ''openinference.span.kind'' = None"
    by (simp add: attr_str_def attr_absent)
  have "''gen_ai.operation.name'' \<notin> fst ` set a"
    by (intro plain_absent [OF assms]) (simp add: is_gen_ai_def starts_with_def)
  then have "attr_str (claude_llm_attributes a key) ''gen_ai.operation.name'' = Some ''chat''"
    by (simp add: claude_llm_attributes_def Let_def attr_str_other attr_str_add call_key_def)
  then show "infer_oi_kind (claude_llm_attributes a key) = Some ''LLM''"
    by (simp add: infer_oi_kind_def kind_of_operation_def to_ascii_lowercase_def lower_char_def is_upper_def)
qed

lemma last_added_count:
  assumes "k \<notin> fst ` set attrs"
  shows "last_value (add_some (\<lambda>v. kv_int k (as_i64 v)) x attrs) k = map_option (\<lambda>v. Some (IntValue (as_i64 v))) x"
proof -
  have "last_value (add_some (\<lambda>v. kv_int k (as_i64 v)) x attrs) k = map_option (\<lambda>v. snd (kv_int k (as_i64 v))) x"
    by (rule add_some_new) (use assms in simp_all)
  then show ?thesis by (simp add: kv_int_def)
qed

lemma event_reported_total:
  assumes p: "plain_keys a" and t: "event_total a < 2 ^ 63"
    and io: "attr_u64 a ''input_tokens'' \<noteq> None \<or> attr_u64 a ''output_tokens'' \<noteq> None"
  shows "om_get (raw_attributes (claude_llm_attributes a key)) ''llm.token_count.total'' = None"
    and "om_get (raw_attributes (claude_llm_attributes a key)) ''gen_ai.usage.total_tokens'' = Some (JNum (PosInt (event_total a)))"
proof -
  have "''llm.token_count.total'' \<notin> fst ` set (claude_llm_attributes a key)"
    by (intro claude_keys plain_absent [OF p]) (simp_all add: claude_added_def starts_with_def)
  then show "om_get (raw_attributes (claude_llm_attributes a key)) ''llm.token_count.total'' = None"
    by (force simp: raw_attributes_get last_value_def find_None_iff)
  have "last_value (claude_llm_attributes a key) ''gen_ai.usage.total_tokens'' = map_option (\<lambda>v. Some (IntValue (as_i64 v))) (claude_total a)"
    by (simp add: claude_llm_attributes_def Let_def added call_key_def, rule last_added_count,
        simp add: added plain_absent [OF p] is_gen_ai_def starts_with_def)
  then show "om_get (raw_attributes (claude_llm_attributes a key)) ''gen_ai.usage.total_tokens'' = Some (JNum (PosInt (event_total a)))"
    using t by (simp add: raw_attributes_get claude_total_exact [OF t io] as_i64_def json_int_def)
qed

lemma claude_llm_span_normal:
  "\<exists>sp. op_attributes sp = claude_llm_attributes (lr_attributes r) (claude_llm_key r) \<and>
     claude_llm_span cr ctx r err = normalize_span cr sp (cx_service_name ctx) (cx_scope_name ctx) (cx_scope_version ctx)"
  unfolding claude_llm_span_def finish_def Let_def case_prod_beta
  by (intro exI conjI, rule_tac [2] refl) simp

lemma event_span_counts:
  assumes p: "plain_keys (lr_attributes r)" and t: "event_total (lr_attributes r) < 2 ^ 63"
    and io: "attr_u64 (lr_attributes r) ''input_tokens'' \<noteq> None \<or> attr_u64 (lr_attributes r) ''output_tokens'' \<noteq> None"
  shows "ns_tokens (claude_llm_span cr ctx r err) = event_counts (lr_attributes r)"
    and "reported_total (claude_llm_span cr ctx r err) = Some (event_total (lr_attributes r))"
proof -
  obtain sp where sp: "op_attributes sp = claude_llm_attributes (lr_attributes r) (claude_llm_key r)"
    "claude_llm_span cr ctx r err = normalize_span cr sp (cx_service_name ctx) (cx_scope_name ctx) (cx_scope_version ctx)"
    using claude_llm_span_normal by blast
  let ?s = "read_span cr sp (cx_service_name ctx) (cx_scope_name ctx) (cx_scope_version ctx)"
  have kind: "ns_oi_kind ?s = Some ''LLM''" by (simp add: read_span_def Let_def sp event_kind [OF p])
  have "\<not> is_set_aside (ns_oi_kind ?s) (ns_otel_kind ?s) (ns_tokens ?s) (ns_cost_usd ?s)"
    by (simp add: kind is_set_aside_def eq_ignore_ascii_case_def to_ascii_lowercase_def lower_char_def is_upper_def)
  then have "ns_tokens (claude_llm_span cr ctx r err) = ns_tokens ?s"
    unfolding sp(2) normalize_span_def agent_normalize_usage by (rule if_not_P)
  also have "\<dots> = event_counts (lr_attributes r)"
    using claude_total_exact [OF t io]
    by (simp add: read_span_def Let_def sp event_read_tokens [OF p t io] derive_total_def event_counts_def)
  finally show "ns_tokens (claude_llm_span cr ctx r err) = event_counts (lr_attributes r)" .
  show "reported_total (claude_llm_span cr ctx r err) = Some (event_total (lr_attributes r))"
    by (simp add: reported_total_def sp normalize_span_get cost_keys_free event_reported_total [OF p t io] j_as_u64_def)
qed

text \<open>
  A Claude Code request event, whose input count excludes the cache, is priced with each of its
  tokens counted once: its span carries the event's counts and their sum as the reported total, and
  the split that pricing makes of them sums to that total, with the whole input count uncached.
\<close>
theorem claude_event_tokens_are_priced_once:
  fixes cr :: crates and ctx :: record_ctx and err :: "str option"
  assumes "plain_keys (lr_attributes r)" "event_total (lr_attributes r) < 2 ^ 63"
    and "attr_u64 (lr_attributes r) ''input_tokens'' \<noteq> None \<or> attr_u64 (lr_attributes r) ''output_tokens'' \<noteq> None"
  defines "e \<equiv> claude_llm_span cr ctx r err"
  defines "sp \<equiv> split_tokens (ns_tokens e) (detect_basis (ns_tokens e) (reported_total e))"
  shows "(ns_tokens e = event_counts (lr_attributes r)) \<and>
    (sp_uncached sp + sp_cache_read sp + sp_cache_write sp + sp_text_out sp + sp_reasoning sp = event_total (lr_attributes r)) \<and>
    (sp_uncached sp = or_zero (attr_u64 (lr_attributes r) ''input_tokens''))"
proof -
  let ?t = "event_counts (lr_attributes r)" and ?n = "event_total (lr_attributes r)"
  note c = event_span_counts [OF assms(1-3), of cr ctx err, folded e_def]
  have p1: "ns_tokens e = ?t" by (rule c)
  define b where "b = \<lparr>ba_cache_excl = (0 < cache_of ?t), ba_reasoning_add = False\<rparr>"
  have n: "?n = or_zero (tk_prompt ?t) + or_zero (tk_completion ?t) + cache_of ?t"
    by (simp add: event_total_def event_counts_def cache_of_def)
  have ok: "consistent_counts ?t b"
    using assms(2) n by (auto simp: consistent_counts_def b_def event_counts_def u64_max_def)
  have total: "counted_total ?t b = ?n" using n by (simp add: counted_total_def b_def)
  have unamb: "cache_of ?t \<noteq> or_zero (tk_reasoning ?t) \<or> ba_cache_excl b = ba_reasoning_add b"
    by (auto simp: b_def event_counts_def)
  note d = detect_basis_exact [OF ok unamb, unfolded total]
  note s = split_tokens_sum [OF ok d]
  have sp: "sp = split_tokens ?t (detect_basis ?t (Some ?n))" by (simp only: sp_def c)
  have p2: "sp_uncached sp + sp_cache_read sp + sp_cache_write sp + sp_text_out sp + sp_reasoning sp = ?n"
    unfolding sp s(1) total ..
  have "wrap_add (or_zero (tk_cache_read ?t)) (or_zero (tk_cache_write ?t)) = cache_of ?t"
    using ok by (simp add: consistent_counts_def cache_of_def wrap_add_exact)
  then have p3: "sp_uncached sp = or_zero (attr_u64 (lr_attributes r) ''input_tokens'')"
    using d(1) by (auto simp: sp split_tokens_def Let_def b_def event_counts_def split: if_splits)
  show ?thesis using p1 p2 p3 by blast
qed

definition counted_event :: log_record where
  "counted_event = demo_event\<lparr>lr_attributes := [kv_int ''input_tokens'' 600, kv_str ''output_tokens'' ''200'',
     kv_int ''cache_read_tokens'' 400]\<rparr>"

theorem claude_event_tokens_are_priced_once_witness:
  "ns_tokens (claude_llm_span demo_crates \<lparr>cx_service_name = None, cx_scope_name = None, cx_scope_version = None\<rparr> counted_event None)
     = event_counts (lr_attributes counted_event)"
proof -
  have u: "attr_u64 (lr_attributes counted_event) ''input_tokens'' = Some 600"
    "attr_u64 (lr_attributes counted_event) ''output_tokens'' = Some 200"
    "attr_u64 (lr_attributes counted_event) ''cache_read_tokens'' = Some 400"
    "attr_u64 (lr_attributes counted_event) ''cache_creation_tokens'' = None"
    by (simp_all add: counted_event_def attr_u64_def attr_Cons kv_int_def kv_str_def parse_u64_def starts_with_def is_digit_def
        u64_max_def)
  have "plain_keys (lr_attributes counted_event)"
    by (simp add: counted_event_def plain_keys_def is_gen_ai_def starts_with_def)
  moreover have "event_total (lr_attributes counted_event) < 2 ^ 63" by (simp add: event_total_def u)
  moreover have "attr_u64 (lr_attributes counted_event) ''input_tokens'' \<noteq> None \<or>
      attr_u64 (lr_attributes counted_event) ''output_tokens'' \<noteq> None" by (simp add: u)
  ultimately show ?thesis using claude_event_tokens_are_priced_once by blast
qed

section \<open>Counts that are read wrongly\<close>

definition cached_call :: "any_value \<Rightarrow> otlp_span" where
  "cached_call total0 = openinference_span\<lparr>op_attributes := [kv_str ''gen_ai.operation.name'' ''chat'',
     kv_int ''gen_ai.usage.input_tokens'' 100, kv_int ''gen_ai.usage.output_tokens'' 10,
     kv_int ''gen_ai.usage.cache_read.input_tokens'' 50, (''gen_ai.usage.total_tokens'', Some total0)]\<rparr>"

definition priced_split :: "normalized_span \<Rightarrow> token_split" where
  "priced_split n = split_tokens (ns_tokens n) (detect_basis (ns_tokens n) (reported_total n))"

lemma cached_call_reads:
  "ns_tokens (normalize_span cr (cached_call total0) sv sn sc) =
     derive_total \<lparr>tk_prompt = Some 100, tk_completion = Some 10,
       tk_total = attr_u64 [(''gen_ai.usage.total_tokens'', Some total0)] ''gen_ai.usage.total_tokens'',
       tk_cache_read = Some 50, tk_cache_write = None, tk_reasoning = None\<rparr>"
  "reported_total (normalize_span cr (cached_call total0) sv sn sc) = j_as_u64 (anyvalue_to_json total0)"
proof -
  let ?s = "read_span cr (cached_call total0) sv sn sc"
  have a: "op_attributes (cached_call total0) = [kv_str ''gen_ai.operation.name'' ''chat'',
     kv_int ''gen_ai.usage.input_tokens'' 100, kv_int ''gen_ai.usage.output_tokens'' 10,
     kv_int ''gen_ai.usage.cache_read.input_tokens'' 50, (''gen_ai.usage.total_tokens'', Some total0)]"
    by (simp add: cached_call_def)
  have kind: "ns_oi_kind ?s = Some ''LLM''"
    by (simp add: read_span_def Let_def a attr_str_def attr_Cons kv_str_def kv_int_def infer_oi_kind_def scalar_string_def
        kind_of_operation_def to_ascii_lowercase_def lower_char_def is_upper_def)
  have "\<not> is_set_aside (ns_oi_kind ?s) (ns_otel_kind ?s) (ns_tokens ?s) (ns_cost_usd ?s)"
    by (simp add: kind is_set_aside_def eq_ignore_ascii_case_def to_ascii_lowercase_def lower_char_def is_upper_def)
  then have "ns_tokens (normalize_span cr (cached_call total0) sv sn sc) = ns_tokens ?s"
    unfolding normalize_span_def agent_normalize_usage by (rule if_not_P)
  then show "ns_tokens (normalize_span cr (cached_call total0) sv sn sc) =
     derive_total \<lparr>tk_prompt = Some 100, tk_completion = Some 10,
       tk_total = attr_u64 [(''gen_ai.usage.total_tokens'', Some total0)] ''gen_ai.usage.total_tokens'',
       tk_cache_read = Some 50, tk_cache_write = None, tk_reasoning = None\<rparr>"
    by (simp add: read_span_def Let_def read_tokens_def a first_u64_def read_keys attr_u64_def attr_Cons kv_str_def kv_int_def
        split: option.split)
  show "reported_total (normalize_span cr (cached_call total0) sv sn sc) = j_as_u64 (anyvalue_to_json total0)"
    by (simp add: reported_total_def normalize_span_get cost_keys_free raw_attributes_get last_value_def a kv_str_def kv_int_def
        split: option.split)
qed

text \<open>
  A total sent as text is read as the span's total but not as its reported total: the same call,
  with a total of 160 tokens for 100 in, 10 out and 50 cached, is priced with the cache on top when
  the total is an integer and with the cache inside the input when it is text, fifty tokens short.
\<close>
theorem total_as_text_is_priced_on_another_basis:
  "ns_tokens (normalize_span cr (cached_call (StringValue ''160'')) sv sn sc) =
     ns_tokens (normalize_span cr (cached_call (IntValue 160)) sv sn sc) \<and>
   sp_uncached (priced_split (normalize_span cr (cached_call (IntValue 160)) sv sn sc)) = 100 \<and>
   sp_uncached (priced_split (normalize_span cr (cached_call (StringValue ''160'')) sv sn sc)) = 50"
  by (simp_all add: cached_call_reads priced_split_def attr_u64_def attr_Cons parse_u64_def starts_with_def is_digit_def
      u64_max_def derive_total_def json_int_def j_as_u64_def detect_basis_def split_tokens_def Let_def wrap_add_def)

text \<open>
  Sums of token counts are not guarded: counts that a client sends as text or integers and that
  fit their type each wrap when added, so that a Gemini CLI response is stored with fewer input
  tokens than it reports and a span without a total with a total smaller than its prompt.
\<close>
theorem token_sums_wrap:
  assumes "attr_u64 a ''input_token_count'' = Some i" "attr_u64 a ''tool_token_count'' = Some j"
    and "i \<le> u64_max" "j \<le> u64_max" "u64_max < i + j"
  shows "(snd (hd (gemini_usage a)) = Some (i + j - 2 ^ 64)) \<and>
    (i + j - 2 ^ 64 < i) \<and>
    (tk_total (derive_total (t\<lparr>tk_prompt := Some i, tk_completion := Some j, tk_total := None\<rparr>)) = Some (i + j - 2 ^ 64))"
proof -
  have m: "(i + j) mod 2 ^ 64 = i + j - 2 ^ 64"
    using assms(3-5) by (simp add: u64_max_def mod_if)
  have p1: "snd (hd (gemini_usage a)) = Some (i + j - 2 ^ 64)"
    using assms(1,2) m by (simp add: gemini_usage_def Let_def wrap_add_def)
  have p2: "i + j - 2 ^ 64 < i" using assms(3-5) by (simp add: u64_max_def)
  have p3: "tk_total (derive_total (t\<lparr>tk_prompt := Some i, tk_completion := Some j, tk_total := None\<rparr>)) = Some (i + j - 2 ^ 64)"
    using m by (simp add: derive_total_def wrap_add_def)
  show ?thesis using p1 p2 p3 by blast
qed

theorem token_sums_wrap_witness:
  "snd (hd (gemini_usage [kv_str ''input_token_count'' ''18446744073709551615'', kv_int ''tool_token_count'' 1])) = Some 0"
proof -
  let ?a = "[kv_str ''input_token_count'' ''18446744073709551615'', kv_int ''tool_token_count'' 1]"
  have "attr_u64 ?a ''input_token_count'' = Some u64_max" "attr_u64 ?a ''tool_token_count'' = Some 1"
    by (simp_all add: attr_u64_def attr_Cons kv_str_def kv_int_def parse_u64_def starts_with_def is_digit_def u64_max_def)
  from token_sums_wrap [OF this] show ?thesis by (simp add: u64_max_def)
qed

end
