(* ===== verification/Format.thy ===== *)
theory Format
  imports Wal
begin

text \<open>
  The on-disk format marker of \<^verbatim>\<open>src/store/format.rs\<close>. The data directory is the ordered map of
  the entries at its root; \<open>serde_json\<close> is \<open>fj_ser\<close> and \<open>fj_de\<close>, and the failure of each system call
  is an input.
\<close>

section \<open>The marker\<close>

definition format_version :: nat where "format_version = 1"
definition format_file :: str where "format_file = ''FORMAT''"

record format_marker =
  fm_format :: nat
  fm_evald_version :: str
  fm_created_unix_ms :: u64
  fm_stamped_from :: "str option"

datatype format_state = Fresh | Legacy | Marked format_marker

record format_json =
  fj_ser :: "format_marker \<Rightarrow> str option"
  fj_de :: "str \<Rightarrow> format_marker option"
  fj_version :: str

type_synonym data_dir = "(str, str) omap"

text \<open>What goes wrong in one call, if anything: reading the marker (other than that it is absent),
  creating the directory, writing the temporary file (after some of its bytes), the fsyncs, the rename.\<close>

record format_io =
  fi_read :: "io_error option"
  fi_mkdir :: "io_error option"
  fi_write :: "usize option"
  fi_sync :: "io_error option"
  fi_rename :: "io_error option"
  fi_dir_sync :: "io_error option"
  fi_now :: u64

definition state_files :: "str list" where
  "state_files = [''wal'', ''blocks'', ''index.redb'', ''scores.redb'']"

definition inspect :: "format_json \<Rightarrow> format_io \<Rightarrow> data_dir \<Rightarrow> io_error + format_state" where
  "inspect j io d =
     (case fi_read io of
        Some e \<Rightarrow> Inl e
      | None \<Rightarrow>
          (case om_get d format_file of
             Some text \<Rightarrow> (case fj_de j text of None \<Rightarrow> Inl InvalidData | Some m \<Rightarrow> Inr (Marked m))
           | None \<Rightarrow> Inr (if list_ex (\<lambda>p. om_get d p \<noteq> None) state_files then Legacy else Fresh)))"

definition check_readable :: "format_marker \<Rightarrow> io_error + unit" where
  "check_readable m = (if fm_format m = 0 \<or> format_version < fm_format m then Inl InvalidData else Inr ())"

definition format_tmp :: str where "format_tmp = format_file @ ''.tmp''"

definition new_marker :: "format_json \<Rightarrow> format_io \<Rightarrow> str option \<Rightarrow> format_marker" where
  "new_marker j io from =
     \<lparr>fm_format = format_version, fm_evald_version = fj_version j, fm_created_unix_ms = fi_now io, fm_stamped_from = from\<rparr>"

definition stamp :: "format_json \<Rightarrow> format_io \<Rightarrow> str option \<Rightarrow> data_dir \<Rightarrow> (io_error + format_marker) \<times> data_dir" where
  "stamp j io from d =
     (case fi_mkdir io of
        Some e \<Rightarrow> (Inl e, d)
      | None \<Rightarrow>
          (case fj_ser j (new_marker j io from) of
             None \<Rightarrow> (Inl OtherIo, d)
           | Some text \<Rightarrow>
               (let json = text @ [newline]
                in case fi_write io of
                     Some n \<Rightarrow> (Inl OtherIo, om_insert format_tmp (take n json) d)
                   | None \<Rightarrow>
                       (let d1 = om_insert format_tmp json d
                        in case fi_sync io of
                             Some e \<Rightarrow> (Inl e, d1)
                           | None \<Rightarrow>
                               (case fi_rename io of
                                  Some e \<Rightarrow> (Inl e, d1)
                                | None \<Rightarrow>
                                    (let d2 = om_insert format_file json (om_remove format_tmp d1)
                                     in case fi_dir_sync io of
                                          Some e \<Rightarrow> (Inl e, d2)
                                        | None \<Rightarrow> (Inr (new_marker j io from), d2)))))))"

definition ensure :: "format_json \<Rightarrow> format_io \<Rightarrow> data_dir \<Rightarrow> (io_error + format_marker) \<times> data_dir" where
  "ensure j io d =
     (case inspect j io d of
        Inl e \<Rightarrow> (Inl e, d)
      | Inr (Marked m) \<Rightarrow> (case check_readable m of Inl e \<Rightarrow> (Inl e, d) | Inr _ \<Rightarrow> (Inr m, d))
      | Inr Legacy \<Rightarrow> stamp j io (Some ''legacy'') d
      | Inr Fresh \<Rightarrow> stamp j io None d)"

section \<open>What an open finds\<close>

definition format_io_ok :: "u64 \<Rightarrow> format_io" where
  "format_io_ok now = \<lparr>fi_read = None, fi_mkdir = None, fi_write = None, fi_sync = None, fi_rename = None,
     fi_dir_sync = None, fi_now = now\<rparr>"

text \<open>The JSON of a marker, with the newline that is written after it, reads back.\<close>

definition marker_reads_back :: "format_json \<Rightarrow> bool" where
  "marker_reads_back j \<longleftrightarrow> (\<forall>m t. fj_ser j m = Some t \<longrightarrow> fj_de j (t @ [newline]) = Some m)"

text \<open>The marker a directory carries, when it carries one.\<close>

definition marker_of :: "format_json \<Rightarrow> data_dir \<Rightarrow> format_marker option" where
  "marker_of j d = Option.bind (om_get d format_file) (fj_de j)"

lemma tmp_is_another_name [simp]: "format_tmp \<noteq> format_file" "format_file \<noteq> format_tmp"
  by (simp_all add: format_tmp_def format_file_def)

lemma stamp_cases:
  assumes "marker_reads_back j" "om_get d format_file = None" "stamp j io from d = (r, d')"
  shows "om_get d' format_file = None \<and> (\<exists>e. r = Inl e) \<or>
     marker_of j d' = Some (new_marker j io from) \<and> ((\<exists>e. r = Inl e) \<or> r = Inr (new_marker j io from))"
    and "k \<noteq> format_file \<Longrightarrow> k \<noteq> format_tmp \<Longrightarrow> om_get d' k = om_get d k"
  using assms
  by (auto simp: stamp_def marker_of_def marker_reads_back_def Let_def map_simps split: option.splits)

lemma ensure_marked:
  assumes "om_get d format_file \<noteq> None" "ensure j io d = (r, d')"
  shows "d' = d \<and> (r = Inr mk \<longleftrightarrow>
    fi_read io = None \<and> marker_of j d = Some mk \<and> 1 \<le> fm_format mk \<and> fm_format mk \<le> format_version)"
  using assms
  by (auto simp: ensure_def inspect_def check_readable_def marker_of_def format_version_def split: option.splits if_splits)

lemma ensure_absent:
  assumes "om_get d format_file = None" "ensure j io d = (r, d')"
  obtains e where "r = Inl e" "d' = d" | origin where "stamp j io origin d = (r, d')"
  using assms by (auto simp: ensure_def inspect_def split: option.splits if_splits)

lemma ensure_again:
  assumes "marker_of j d = Some mk" "1 \<le> fm_format mk" "fm_format mk \<le> format_version" "fi_read io = None"
  shows "ensure j io d = (Inr mk, d)"
  using assms by (cases "om_get d format_file") (simp_all add: ensure_def inspect_def check_readable_def marker_of_def)

lemma new_marker_format [simp]: "fm_format (new_marker j io from) = format_version"
  by (simp add: new_marker_def)

text \<open>
  Opening a data directory never misreads it and never downgrades it. A directory with a marker
  is left as it is: it opens exactly when the marker parses and its format is one this build reads.
  One without is stamped, with nothing but the marker and its temporary file touched, and whatever
  call fails in between, the marker is then either still absent or complete, of this format. Once
  an open has succeeded, every later one gives the same marker and changes nothing.
\<close>
theorem format_is_stamped_once:
  assumes "marker_reads_back j" and "ensure j io d = (r, d')"
  shows "((om_get d format_file \<noteq> None) \<longrightarrow> (d' = d \<and> (r = Inr mk \<longleftrightarrow>
      fi_read io = None \<and> marker_of j d = Some mk \<and> 1 \<le> fm_format mk \<and> fm_format mk \<le> format_version))) \<and>
    (om_get d' format_file = om_get d format_file \<or>
      om_get d format_file = None \<and> (\<exists>mk. marker_of j d' = Some mk \<and> fm_format mk = format_version)) \<and>
    ((k \<noteq> format_file) \<longrightarrow> (k \<noteq> format_tmp) \<longrightarrow> (om_get d' k = om_get d k)) \<and>
    ((r = Inr mk) \<longrightarrow> (fi_read io' = None) \<longrightarrow> (ensure j io' d' = (Inr mk, d')))"
proof -
  have p1: "d' = d \<and> (r = Inr mk \<longleftrightarrow>
      fi_read io = None \<and> marker_of j d = Some mk \<and> 1 \<le> fm_format mk \<and> fm_format mk \<le> format_version)"
    if "om_get d format_file \<noteq> None" by (rule ensure_marked [OF that assms(2)])
  have p2: "om_get d' format_file = om_get d format_file \<or>
      om_get d format_file = None \<and> (\<exists>mk. marker_of j d' = Some mk \<and> fm_format mk = format_version)"
  proof (cases "om_get d format_file")
    case None
    then show ?thesis using assms(2) by (rule ensure_absent) (use stamp_cases(1) [OF assms(1) None] None in fastforce)+
  next
    case (Some t)
    then show ?thesis using ensure_marked [OF _ assms(2)] by simp
  qed
  have p3: "om_get d' k = om_get d k" if k: "k \<noteq> format_file" "k \<noteq> format_tmp"
  proof (cases "om_get d format_file")
    case None
    then show ?thesis using assms(2) by (rule ensure_absent) (use stamp_cases(2) [OF assms(1) None _ k] in fastforce)+
  next
    case (Some t)
    then show ?thesis using ensure_marked [OF _ assms(2)] by simp
  qed
  have p4: "ensure j io' d' = (Inr mk, d')" if r: "r = Inr mk" and io: "fi_read io' = None"
  proof (rule ensure_again [OF _ _ _ io])
    have "marker_of j d' = Some mk \<and> 1 \<le> fm_format mk \<and> fm_format mk \<le> format_version"
    proof (cases "om_get d format_file")
      case None
      then show ?thesis using assms(2)
        by (rule ensure_absent) (use stamp_cases(1) [OF assms(1) None] r in \<open>fastforce simp: format_version_def\<close>)+
    next
      case (Some t)
      then show ?thesis using ensure_marked [OF _ assms(2), of mk] r by simp
    qed
    then show "marker_of j d' = Some mk" "1 \<le> fm_format mk" "fm_format mk \<le> format_version" by simp_all
  qed
  show ?thesis using p1 p2 p3 p4 by blast
qed

definition first_marker :: format_marker where
  "first_marker = \<lparr>fm_format = 1, fm_evald_version = ''0.3.0'', fm_created_unix_ms = 7, fm_stamped_from = Some ''legacy''\<rparr>"

definition tiny_json :: format_json where
  "tiny_json =
     \<lparr>fj_ser = (\<lambda>m. if m = first_marker then Some ''M'' else None),
      fj_de = (\<lambda>t. if t = ''M'' @ [newline] then Some first_marker else None), fj_version = ''0.3.0''\<rparr>"

text \<open>A directory of v0.2, which has a log and no marker, is stamped, and opens the same way again.\<close>

theorem format_is_stamped_once_witness:
  "ensure tiny_json (format_io_ok 9) (snd (ensure tiny_json (format_io_ok 7) [(''wal'', [])])) =
     (Inr first_marker, snd (ensure tiny_json (format_io_ok 7) [(''wal'', [])]))"
proof -
  have m: "new_marker tiny_json (format_io_ok 7) (Some ''legacy'') = first_marker"
    by (simp add: new_marker_def tiny_json_def format_io_ok_def first_marker_def format_version_def)
  have rb: "marker_reads_back tiny_json" by (simp add: marker_reads_back_def tiny_json_def)
  have st: "fst (stamp tiny_json (format_io_ok 7) (Some ''legacy'') d) = Inr first_marker" for d
    unfolding stamp_def m by (simp add: format_io_ok_def tiny_json_def Let_def)
  have "inspect tiny_json (format_io_ok 7) [(''wal'', [])] = Inr Legacy"
    by (simp add: inspect_def format_io_ok_def om_get_def format_file_def state_files_def)
  then have "fst (ensure tiny_json (format_io_ok 7) [(''wal'', [])]) = Inr first_marker"
    unfolding ensure_def by (simp add: st)
  then have e: "ensure tiny_json (format_io_ok 7) [(''wal'', [])] =
      (Inr first_marker, snd (ensure tiny_json (format_io_ok 7) [(''wal'', [])]))"
    by (metis prod.collapse)
  show ?thesis using format_is_stamped_once [OF rb e, of first_marker _ "format_io_ok 9"] by (simp add: format_io_ok_def)
qed

end
