(* ===== verification/Auth.thy ===== *)
theory Auth
  imports Wal
begin

text \<open>
  The bearer-token gate of \<^verbatim>\<open>src/auth.rs\<close>. \<open>sha256\<close> is a parameter; the answer of
  \<open>read_to_string\<close> for the token file is an input.
\<close>

section \<open>The gate\<close>

definition min_token_len :: usize where "min_token_len = 16"

datatype auth_error = TokenTooShort usize | NonAsciiToken | NoTokens | AuthFile str io_error

record auth =
  au_tokens :: "byte list set option"

definition auth_disabled :: auth where "auth_disabled = \<lparr>au_tokens = None\<rparr>"

definition is_enabled :: "auth \<Rightarrow> bool" where "is_enabled a \<longleftrightarrow> au_tokens a \<noteq> None"

definition token_count :: "auth \<Rightarrow> usize" where
  "token_count a = (case au_tokens a of None \<Rightarrow> 0 | Some s \<Rightarrow> card s)"

definition is_ascii_graphic :: "char \<Rightarrow> bool" where
  "is_ascii_graphic c \<longleftrightarrow> 33 \<le> code c \<and> code c \<le> 126"

fun collect_tokens :: "(str \<Rightarrow> byte list) \<Rightarrow> str list \<Rightarrow> byte list set \<Rightarrow> auth_error + byte list set" where
  "collect_tokens sha256 [] acc = Inr acc"
| "collect_tokens sha256 (raw # rest) acc =
     (let tok = trim raw
      in if tok = [] then collect_tokens sha256 rest acc
         else if \<not> list_all is_ascii_graphic tok then Inl NonAsciiToken
         else if length tok < min_token_len then Inl (TokenTooShort (length tok))
         else collect_tokens sha256 rest (insert (sha256 tok) acc))"

definition from_tokens :: "(str \<Rightarrow> byte list) \<Rightarrow> str list \<Rightarrow> auth_error + auth" where
  "from_tokens sha256 tokens =
     (case collect_tokens sha256 tokens {} of
        Inl e \<Rightarrow> Inl e
      | Inr acc \<Rightarrow> if acc = {} then Inl NoTokens else Inr \<lparr>au_tokens = Some acc\<rparr>)"

definition parse_token_file :: "str \<Rightarrow> str list" where
  "parse_token_file text =
     filter (\<lambda>l. l \<noteq> [] \<and> \<not> starts_with ''#'' l) (map trim (str_lines text))"

definition from_sources ::
  "(str \<Rightarrow> byte list) \<Rightarrow> str list \<Rightarrow> (str \<times> (io_error + str)) option \<Rightarrow> auth_error + auth" where
  "from_sources sha256 inline file =
     (let tokens = filter (\<lambda>s. s \<noteq> []) (map trim inline);
          file = (case file of Some (path, r) \<Rightarrow> if path = [] then None else Some (path, r) | None \<Rightarrow> None)
      in if tokens = [] \<and> file = None then Inr auth_disabled
         else case file of
                None \<Rightarrow> from_tokens sha256 tokens
              | Some (path, Inl e) \<Rightarrow> Inl (AuthFile path e)
              | Some (path, Inr text) \<Rightarrow> from_tokens sha256 (tokens @ parse_token_file text))"

definition bearer_token :: "str option \<Rightarrow> str option" where
  "bearer_token authorization =
     (case authorization of
        None \<Rightarrow> None
      | Some v \<Rightarrow>
          (case split_once (CHR '' '') (trim v) of
             None \<Rightarrow> None
           | Some (scheme, token) \<Rightarrow>
               if \<not> eq_ignore_ascii_case scheme ''bearer'' then None
               else let token = trim token in if token = [] then None else Some token))"

definition auth_check :: "(str \<Rightarrow> byte list) \<Rightarrow> auth \<Rightarrow> str option \<Rightarrow> bool" where
  "auth_check sha256 a authorization =
     (case au_tokens a of
        None \<Rightarrow> True
      | Some s \<Rightarrow> (case bearer_token authorization of Some tok \<Rightarrow> sha256 tok \<in> s | None \<Rightarrow> False))"

section \<open>What is configured\<close>

text \<open>The tokens the operator configured: every inline one and every line of the file that is one.\<close>

definition configured_tokens :: "str list \<Rightarrow> (str \<times> (io_error + str)) option \<Rightarrow> str list" where
  "configured_tokens inline file =
     filter (\<lambda>s. s \<noteq> []) (map trim inline) @
     (case file of Some (p # ps, Inr text) \<Rightarrow> parse_token_file text | _ \<Rightarrow> [])"

definition sendable :: "str \<Rightarrow> bool" where
  "sendable t \<longleftrightarrow> list_all is_ascii_graphic t \<and> min_token_len \<le> length t"

text \<open>Trimming twice changes nothing: what \<open>trim_end\<close> leaves is a prefix, so it starts with no space.\<close>

lemma trim_end_prefix: "\<exists>u. s = trim_end s @ u"
proof (induction s rule: trim_end.induct)
  case (1 s)
  show ?case
  proof (cases "find_map (\<lambda>w. strip_suffix w s) utf8_spaces")
    case (Some t)
    then obtain w where w: "s = t @ w" using find_map_Some strip_suffix_Some by metis
    obtain u where "t = trim_end t @ u" using 1 [OF Some] by blast
    then have "s = trim_end t @ u @ w" using w by (metis append.assoc)
    moreover have "trim_end s = trim_end t" using Some by (simp add: trim_end.simps [of s])
    ultimately show ?thesis by metis
  qed (simp add: trim_end.simps [of s])
qed

lemma trim_end_no_space: "find_map (\<lambda>w. strip_suffix w (trim_end s)) utf8_spaces = None"
proof (induction s rule: trim_end.induct)
  case (1 s)
  show ?case
    using 1 by (cases "find_map (\<lambda>w. strip_suffix w s) utf8_spaces") (simp_all add: trim_end.simps [of s])
qed

lemma trim_trim [simp]: "trim (trim s) = trim s"
proof (rule trim_id)
  show "find_map (\<lambda>w. strip_suffix w (trim s)) utf8_spaces = None" by (simp add: trim_def trim_end_no_space)
  obtain u where u: "trim_start s = trim s @ u" using trim_end_prefix by (metis trim_def)
  have "strip_prefix w (trim s) = None" if "w \<in> set utf8_spaces" for w
    using trim_start_no_space [of s] that u by (cases "strip_prefix w (trim s)") (auto simp: find_map_None strip_prefix_Some)
  then show "find_map (\<lambda>w. strip_prefix w (trim s)) utf8_spaces = None" by (simp add: find_map_None)
qed

lemma utf8_space_ends:
  assumes "w \<in> set utf8_spaces"
  shows "\<not> is_ascii_graphic (hd w) \<and> \<not> is_ascii_graphic (List.last w)"
proof -
  have ends: "\<not> is_ascii_graphic (hd (map char_of ns)) \<and> \<not> is_ascii_graphic (List.last (map char_of ns))"
    if "ns \<noteq> []" "hd ns < 33 \<or> 126 < hd ns" "List.last ns < 33 \<or> 126 < List.last ns" "hd ns < 256" "List.last ns < 256"
    for ns :: "nat list"
    using that by (simp add: hd_map last_map is_ascii_graphic_def) linarith
  let ?codes = "[[9], [10], [11], [12], [13], [32], [194, 133], [194, 160], [225, 154, 128], [226, 128, 168],
       [226, 128, 169], [226, 128, 175], [226, 129, 159], [227, 128, 128]]
      @ map (\<lambda>i. [226, 128, 128 + i]) [0..<11] :: nat list list"
  obtain ns where w: "w = map char_of ns" and ns: "ns \<in> set ?codes"
    using assms unfolding utf8_spaces_def set_map by blast
  have "list_all (\<lambda>ns. ns \<noteq> [] \<and> (hd ns < 33 \<or> 126 < hd ns) \<and> (List.last ns < 33 \<or> 126 < List.last ns)
      \<and> hd ns < 256 \<and> List.last ns < 256) ?codes" by code_simp
  then show ?thesis using ns ends unfolding w list_all_iff by blast
qed

lemma graphic_ends_trim:
  assumes "is_ascii_graphic (hd s)" "is_ascii_graphic (List.last s)"
  shows "trim s = s"
proof (rule trim_id)
  have "strip_prefix w s = None" if w: "w \<in> set utf8_spaces" for w
    using utf8_space_ends [OF w] utf8_spaces_nonempty [OF w] assms(1)
    by (cases "strip_prefix w s") (auto simp: strip_prefix_Some)
  then show "find_map (\<lambda>w. strip_prefix w s) utf8_spaces = None" by (simp add: find_map_None)
  have "strip_suffix w s = None" if w: "w \<in> set utf8_spaces" for w
    using utf8_space_ends [OF w] utf8_spaces_nonempty [OF w] assms(2)
    by (cases "strip_suffix w s") (auto simp: strip_suffix_Some)
  then show "find_map (\<lambda>w. strip_suffix w s) utf8_spaces = None" by (simp add: find_map_None)
qed

lemma sendable_ends: "sendable t \<Longrightarrow> t \<noteq> [] \<and> is_ascii_graphic (hd t) \<and> is_ascii_graphic (List.last t)"
  by (cases t) (auto simp: sendable_def min_token_len_def list_all_iff)

lemma sendable_trim: "sendable t \<Longrightarrow> trim t = t"
  using sendable_ends graphic_ends_trim by blast

lemma bearer_token_sendable:
  assumes "sendable t"
  shows "bearer_token (Some (''Bearer '' @ t)) = Some t"
proof -
  have "trim (''Bearer '' @ t) = ''Bearer '' @ t"
    using sendable_ends [OF assms] by (intro graphic_ends_trim) (auto simp: is_ascii_graphic_def)
  moreover have "split_once (CHR '' '') (''Bearer '' @ t) = Some (''Bearer'', t)"
    using split_once_append [of "CHR '' ''" "''Bearer''" t] by simp
  moreover have "eq_ignore_ascii_case ''Bearer'' ''bearer''" by code_simp
  ultimately show ?thesis using sendable_trim [OF assms] sendable_ends [OF assms] by (simp add: bearer_token_def)
qed

lemma collect_tokens_sendable:
  "collect_tokens sha256 ts acc = Inr s \<Longrightarrow> t \<in> set ts \<Longrightarrow> trim t \<noteq> [] \<Longrightarrow> sendable (trim t)"
proof (induction ts arbitrary: acc)
  case (Cons x ts)
  show ?case
  proof (cases "trim x = []")
    case True
    then show ?thesis using Cons by auto
  next
    case False
    then have "sendable (trim x)" "collect_tokens sha256 ts (insert (sha256 (trim x)) acc) = Inr s"
      using Cons(2) by (auto simp: Let_def sendable_def not_less split: if_splits)
    then show ?thesis using Cons(1) Cons(3,4) by auto
  qed
qed simp

lemma collect_tokens_Inr:
  "collect_tokens sha256 ts acc = Inr s \<Longrightarrow> s = acc \<union> sha256 ` (trim ` set ts - {[]})"
proof (induction ts arbitrary: acc)
  case (Cons x ts)
  show ?case
  proof (cases "trim x = []")
    case True
    then show ?thesis using Cons by simp
  next
    case False
    then have "collect_tokens sha256 ts (insert (sha256 (trim x)) acc) = Inr s"
      using Cons(2) by (auto simp: Let_def split: if_splits)
    from Cons(1) [OF this] False show ?thesis by (simp add: insert_Diff_if)
  qed
qed simp

lemma from_tokens_nil [simp]: "from_tokens sha256 [] = Inl NoTokens"
  by (simp add: from_tokens_def)

lemma from_tokens_Inr:
  assumes "from_tokens sha256 ts = Inr a" "\<forall>t\<in>set ts. t \<noteq> [] \<and> trim t = t"
  shows "au_tokens a = Some (sha256 ` set ts)" "ts \<noteq> []" "\<forall>t\<in>set ts. sendable t"
proof -
  obtain s where s: "collect_tokens sha256 ts {} = Inr s" "s \<noteq> {}" "a = \<lparr>au_tokens = Some s\<rparr>"
    using assms(1) by (auto simp: from_tokens_def split: sum.splits if_splits)
  have img: "trim ` set ts - {[]} = set ts" using assms(2) by force
  show "au_tokens a = Some (sha256 ` set ts)" using collect_tokens_Inr [OF s(1)] s(3) by (simp add: img)
  show "ts \<noteq> []" using collect_tokens_Inr [OF s(1)] s(2) by auto
  show "\<forall>t\<in>set ts. sendable t" using collect_tokens_sendable [OF s(1)] assms(2) by auto
qed

lemma configured_trimmed: "\<forall>t\<in>set (configured_tokens inline file). t \<noteq> [] \<and> trim t = t"
  by (auto simp: configured_tokens_def parse_token_file_def split: option.splits list.splits sum.splits)

lemma from_sources_cases:
  assumes "from_sources sha256 inline file = Inr a"
  shows "(a = auth_disabled \<and> configured_tokens inline file = [] \<and> (\<forall>r p. file = Some (p, r) \<longrightarrow> p = []))
    \<or> from_tokens sha256 (configured_tokens inline file) = Inr a"
  using assms
  by (auto simp: from_sources_def configured_tokens_def Let_def split: option.splits if_splits sum.splits list.splits)

text \<open>
  C27. The gate the sources build never fails open. It is disabled exactly when no source was given
  (no inline token but blanks, no path of a token file); otherwise a request passes exactly when its
  header is a bearer token whose digest is that of a configured token. Every configured token is one
  a client can send, of at least 16 printable characters, and sending it passes.
\<close>
theorem gate_admits_exactly_the_configured_tokens:
  assumes "from_sources sha256 inline file = Inr a"
  shows "(is_enabled a \<longleftrightarrow> configured_tokens inline file \<noteq> []) \<and>
    (configured_tokens inline file = [] \<longleftrightarrow> filter (\<lambda>s. s \<noteq> []) (map trim inline) = [] \<and> (file = None \<or> fst (the file) = [])) \<and>
    ((is_enabled a) \<longrightarrow> (auth_check sha256 a h \<longleftrightarrow>
      (\<exists>t. bearer_token h = Some t \<and> sha256 t \<in> sha256 ` set (configured_tokens inline file)))) \<and>
    ((t \<in> set (configured_tokens inline file)) \<longrightarrow> (sendable t \<and> auth_check sha256 a (Some (''Bearer '' @ t))))"
proof -
  let ?cs = "configured_tokens inline file"
  have c: "?cs = [] \<longleftrightarrow> a = auth_disabled" and e: "a \<noteq> auth_disabled \<Longrightarrow> from_tokens sha256 ?cs = Inr a"
    using from_sources_cases [OF assms] from_tokens_Inr(1,2) [OF _ configured_trimmed]
    by (fastforce simp: auth_disabled_def, blast)
  note tok = from_tokens_Inr [OF e configured_trimmed]
  have p1: "is_enabled a \<longleftrightarrow> ?cs \<noteq> []"
    using c tok(1) by (auto simp: is_enabled_def auth_disabled_def)
  have p2: "?cs = [] \<longleftrightarrow> filter (\<lambda>s. s \<noteq> []) (map trim inline) = [] \<and> (file = None \<or> fst (the file) = [])"
    using assms by (auto simp: from_sources_def Let_def configured_tokens_def split: option.splits list.splits sum.splits)
  have p3: "auth_check sha256 a h \<longleftrightarrow> (\<exists>t. bearer_token h = Some t \<and> sha256 t \<in> sha256 ` set ?cs)" if "is_enabled a"
    using that tok(1) c p1 by (auto simp: auth_check_def split: option.splits)
  have p4: "sendable t \<and> auth_check sha256 a (Some (''Bearer '' @ t))" if "t \<in> set ?cs"
  proof -
    have "au_tokens a = Some (sha256 ` set ?cs)" and t: "sendable t" using that tok(1,3) c by auto
    then show ?thesis using that bearer_token_sendable [OF t] unfolding auth_check_def by simp
  qed
  show ?thesis using p1 p2 p3 p4 by blast
qed

lemma collect_tokens_sendable_Cons:
  "sendable t \<Longrightarrow> collect_tokens sha256 (t # ts) acc = collect_tokens sha256 ts (insert (sha256 t) acc)"
  using sendable_ends [of t] by (simp add: sendable_trim sendable_def)

theorem gate_admits_exactly_the_configured_tokens_witness:
  "auth_check (map code) \<lparr>au_tokens = Some {map code ''correct-horse-battery'', map code ''staple-correct-horse''}\<rparr>
     (Some ''Bearer staple-correct-horse'')"
proof -
  let ?file = "Some (''/run/tokens'', Inr ''staple-correct-horse'')"
  have s1: "sendable ''correct-horse-battery''" and s2: "sendable ''staple-correct-horse''" by code_simp+
  have l: "str_lines ''staple-correct-horse'' = [''staple-correct-horse'']" by code_simp
  have p: "parse_token_file ''staple-correct-horse'' = [''staple-correct-horse'']"
    by (simp add: parse_token_file_def l sendable_trim [OF s2] starts_with_def)
  have "collect_tokens (map code) [''correct-horse-battery'', ''staple-correct-horse''] {} =
      Inr {map code ''staple-correct-horse'', map code ''correct-horse-battery''}"
    unfolding collect_tokens_sendable_Cons [OF s1] collect_tokens_sendable_Cons [OF s2] collect_tokens.simps(1) ..
  then have "from_tokens (map code) [''correct-horse-battery'', ''staple-correct-horse''] =
      Inr \<lparr>au_tokens = Some {map code ''correct-horse-battery'', map code ''staple-correct-horse''}\<rparr>"
    by (simp add: from_tokens_def insert_commute del: list.map)
  then have "from_sources (map code) [''correct-horse-battery''] ?file =
      Inr \<lparr>au_tokens = Some {map code ''correct-horse-battery'', map code ''staple-correct-horse''}\<rparr>"
    using sendable_trim [OF s1] by (simp add: from_sources_def p)
  moreover have "''staple-correct-horse'' \<in> set (configured_tokens [''correct-horse-battery''] ?file)"
    by (simp add: configured_tokens_def p)
  ultimately show ?thesis using gate_admits_exactly_the_configured_tokens by fastforce
qed

end
