(* ===== verification/FloatOrd.thy ===== *)
theory FloatOrd
  imports Float
begin

text \<open>
  The order of \<open>f64\<close> and the folds over it that the reports use: comparison (false when either side
  is a NaN), \<open>min\<close> and \<open>max\<close> (which prefer a number to a NaN), and \<open>Iterator::sum\<close>, which starts
  from \<open>-0.0\<close>.
\<close>

text \<open>A finite or infinite double as a point of the extended line: its bits, read with their sign.\<close>

definition f_key :: "f64 \<Rightarrow> int" where
  "f_key d = (if f_neg d then - int (unat d - 2 ^ 63) else int (unat d))"

definition f_lt :: "f64 \<Rightarrow> f64 \<Rightarrow> bool" where
  "f_lt a b \<longleftrightarrow> \<not> is_nan a \<and> \<not> is_nan b \<and> f_key a < f_key b"

definition f_eq :: "f64 \<Rightarrow> f64 \<Rightarrow> bool" where
  "f_eq a b \<longleftrightarrow> \<not> is_nan a \<and> \<not> is_nan b \<and> f_key a = f_key b"

definition f_min :: "f64 \<Rightarrow> f64 \<Rightarrow> f64" where
  "f_min a b = (if is_nan a then b else if is_nan b then a else if f_lt b a then b else a)"

definition f_max :: "f64 \<Rightarrow> f64 \<Rightarrow> f64" where
  "f_max a b = (if is_nan a then b else if is_nan b then a else if f_lt a b then b else a)"

definition f_sum :: "f64 list \<Rightarrow> f64" where
  "f_sum xs = fold (\<lambda>x acc. f_add acc x) xs (f_make True 0)"

definition f_zero :: f64 where "f_zero = 0"
definition f_one :: f64 where "f_one = f_of_int 1"

definition f_of_bool :: "bool \<Rightarrow> f64" where
  "f_of_bool b = (if b then f_one else f_zero)"

end
