(* ===== verification/Scores.thy ===== *)
theory Scores
  imports Model Wal "HOL-Library.Product_Lexorder"
begin

text \<open>
  The score store of \<^verbatim>\<open>src/store/scores.rs\<close>. A redb table is an ordered map and the multimap the
  ordered map of its \<open>(key, id)\<close> pairs; a write transaction that fails changes nothing.
  \<open>serde_json\<close> is the pair \<open>js\<close> (\<open>to_string\<close>) and \<open>jp\<close> (\<open>from_str\<close>).
\<close>

section \<open>The store\<close>

record score_store =
  st_scores :: "(str, str) omap"
  st_by_target :: "(str \<times> str, unit) omap"

definition scores_open :: score_store where
  "scores_open = \<lparr>st_scores = om_empty, st_by_target = om_empty\<rparr>"

record score_json =
  js :: "score \<Rightarrow> str option"
  jp :: "str \<Rightarrow> score option"

definition parse_score :: "score_json \<Rightarrow> str \<Rightarrow> io_error + score" where
  "parse_score j text = (case jp j text of Some s \<Rightarrow> Inr s | None \<Rightarrow> Inl InvalidData)"

definition old_key_of :: "score_json \<Rightarrow> score_store \<Rightarrow> str \<Rightarrow> io_error + str option" where
  "old_key_of j st i =
     (case om_get (st_scores st) i of
        Some existing \<Rightarrow>
          (case parse_score j existing of Inr s \<Rightarrow> Inr (Some (score_target_key (sc_target s))) | Inl e \<Rightarrow> Inl e)
      | None \<Rightarrow> Inr None)"

definition put_one :: "score_json \<Rightarrow> score \<Rightarrow> score_store \<Rightarrow> io_error + score_store" where
  "put_one j sc st =
     (let new_key = score_target_key (sc_target sc)
      in case old_key_of j st (sc_id sc) of
           Inl e \<Rightarrow> Inl e
         | Inr old_key \<Rightarrow>
             (let by_target =
                    (case old_key of
                       Some old \<Rightarrow> if old \<noteq> new_key then om_remove (old, sc_id sc) (st_by_target st) else st_by_target st
                     | None \<Rightarrow> st_by_target st)
              in case js j sc of
                   None \<Rightarrow> Inl InvalidData
                 | Some json \<Rightarrow>
                     Inr \<lparr>st_scores = om_insert (sc_id sc) json (st_scores st),
                          st_by_target = om_insert (new_key, sc_id sc) () by_target\<rparr>))"

fun put_each :: "score_json \<Rightarrow> score list \<Rightarrow> score_store \<Rightarrow> io_error + score_store" where
  "put_each j [] st = Inr st"
| "put_each j (sc # rest) st = (case put_one j sc st of Inl e \<Rightarrow> Inl e | Inr st' \<Rightarrow> put_each j rest st')"

definition put_batch :: "score_json \<Rightarrow> score list \<Rightarrow> score_store \<Rightarrow> (io_error + unit) \<times> score_store" where
  "put_batch j scs st =
     (if scs = [] then (Inr (), st)
      else case put_each j scs st of Inl e \<Rightarrow> (Inl e, st) | Inr st' \<Rightarrow> (Inr (), st'))"

definition score_get :: "score_json \<Rightarrow> str \<Rightarrow> score_store \<Rightarrow> io_error + score option" where
  "score_get j i st =
     (case om_get (st_scores st) i of
        Some v \<Rightarrow> (case parse_score j v of Inr s \<Rightarrow> Inr (Some s) | Inl e \<Rightarrow> Inl e)
      | None \<Rightarrow> Inr None)"

fun parse_all :: "score_json \<Rightarrow> str list \<Rightarrow> io_error + score list" where
  "parse_all j [] = Inr []"
| "parse_all j (v # vs) =
     (case parse_score j v of
        Inl e \<Rightarrow> Inl e
      | Inr s \<Rightarrow> (case parse_all j vs of Inl e \<Rightarrow> Inl e | Inr ss \<Rightarrow> Inr (s # ss)))"

definition ids_of_target :: "score_store \<Rightarrow> str \<Rightarrow> str list" where
  "ids_of_target st key = map snd (filter (\<lambda>k. fst k = key) (om_keys (st_by_target st)))"

definition sort_newest_first :: "score list \<Rightarrow> score list" where
  "sort_newest_first = sort_key_desc sc_ts_unix_nano"

definition by_target_key :: "score_json \<Rightarrow> str \<Rightarrow> score_store \<Rightarrow> io_error + score list" where
  "by_target_key j key st =
     (case parse_all j (List.map_filter (om_get (st_scores st)) (ids_of_target st key)) of
        Inl e \<Rightarrow> Inl e
      | Inr out \<Rightarrow> Inr (sort_newest_first out))"

definition scores_list :: "score_json \<Rightarrow> usize \<Rightarrow> score_store \<Rightarrow> io_error + score list" where
  "scores_list j limit st =
     (case parse_all j (om_values (st_scores st)) of
        Inl e \<Rightarrow> Inl e
      | Inr out \<Rightarrow> Inr (take limit (sort_newest_first out)))"

definition scores_count :: "score_store \<Rightarrow> usize" where
  "scores_count st = length (st_scores st)"

section \<open>The map it stores\<close>

text \<open>
  What a score store promises: a map from ids to scores, the last put winning, and a batch that is
  either stored whole or not at all.
\<close>

type_synonym score_map = "str \<rightharpoonup> score"

definition put_all :: "score list \<Rightarrow> score_map \<Rightarrow> score_map" where
  "put_all scs m = fold (\<lambda>s m. m(sc_id s \<mapsto> s)) scs m"

definition put_spec :: "score_json \<Rightarrow> score list \<Rightarrow> score_map \<Rightarrow> score_map" where
  "put_spec j scs m = (if list_all (\<lambda>s. js j s \<noteq> None) scs then put_all scs m else m)"

definition reads_back :: "score_json \<Rightarrow> score \<Rightarrow> bool" where
  "reads_back j s \<longleftrightarrow> (case js j s of Some t \<Rightarrow> jp j t = Some s | None \<Rightarrow> True)"

definition row_holds :: "score_json \<Rightarrow> (str, str) omap \<Rightarrow> str \<Rightarrow> score option \<Rightarrow> bool" where
  "row_holds j tbl i r \<longleftrightarrow>
     (case r of
        None \<Rightarrow> om_get tbl i = None
      | Some s \<Rightarrow> sc_id s = i \<and> (\<exists>t. om_get tbl i = Some t \<and> jp j t = Some s))"

definition stores :: "score_json \<Rightarrow> score_store \<Rightarrow> score_map \<Rightarrow> bool" where
  "stores j st m \<longleftrightarrow> om_ok (st_scores st) \<and> om_ok (st_by_target st) \<and>
     (\<forall>i. row_holds j (st_scores st) i (m i)) \<and>
     (\<forall>k i. (k, i) \<in> set (om_keys (st_by_target st)) \<longleftrightarrow> (\<exists>s. m i = Some s \<and> score_target_key (sc_target s) = k))"

lemma stores_None: "stores j st m \<Longrightarrow> m i = None \<Longrightarrow> om_get (st_scores st) i = None"
  unfolding stores_def row_holds_def by (auto dest!: spec [of _ i])

lemma stores_Some:
  "stores j st m \<Longrightarrow> m i = Some s \<Longrightarrow> \<exists>t. om_get (st_scores st) i = Some t \<and> jp j t = Some s \<and> sc_id s = i"
  unfolding stores_def row_holds_def by (auto dest!: spec [of _ i])

lemma stores_open: "stores j scores_open Map.empty"
  by (simp add: stores_def row_holds_def scores_open_def map_simps om_keys_get)

lemma stores_old_key:
  assumes "stores j st m"
  shows "old_key_of j st i = Inr (map_option (\<lambda>s. score_target_key (sc_target s)) (m i))"
  using stores_None [OF assms] stores_Some [OF assms]
  by (cases "m i") (fastforce simp: old_key_of_def parse_score_def)+

lemma put_one_stores:
  assumes "stores j st m" "js j sc = Some t" "reads_back j sc"
  shows "\<exists>st'. put_one j sc st = Inr st' \<and> stores j st' (m(sc_id sc \<mapsto> sc))"
proof -
  let ?new = "score_target_key (sc_target sc)"
  let ?bt = "case m (sc_id sc) of None \<Rightarrow> st_by_target st
    | Some old \<Rightarrow> if score_target_key (sc_target old) \<noteq> ?new
        then om_remove (score_target_key (sc_target old), sc_id sc) (st_by_target st) else st_by_target st"
  let ?tbl = "om_insert (sc_id sc) t (st_scores st)" and ?targets = "om_insert (?new, sc_id sc) () ?bt"
  note S = assms(1) [unfolded stores_def]
  have "put_one j sc st = Inr \<lparr>st_scores = ?tbl, st_by_target = ?targets\<rparr>"
    by (simp add: put_one_def stores_old_key [OF assms(1)] assms(2) Let_def split: option.split)
  moreover have "stores j \<lparr>st_scores = ?tbl, st_by_target = ?targets\<rparr> (m(sc_id sc \<mapsto> sc))"
    unfolding stores_def score_store.select_convs
  proof (intro conjI allI)
    show "om_ok ?tbl" "om_ok ?targets" using S by (simp_all split: option.split)
    show "row_holds j ?tbl i ((m(sc_id sc \<mapsto> sc)) i)" for i
    proof -
      have "row_holds j (st_scores st) i (m i)" using S by blast
      then show ?thesis using assms(2,3) by (cases "i = sc_id sc") (auto simp: row_holds_def reads_back_def map_simps split: option.split)
    qed
    show "(k, i) \<in> set (om_keys ?targets) \<longleftrightarrow> (\<exists>s. (m(sc_id sc \<mapsto> sc)) i = Some s \<and> score_target_key (sc_target s) = k)" for k i
      using S by (auto simp: map_simps split: option.splits if_splits)
  qed
  ultimately show ?thesis by blast
qed

lemma put_each_stores:
  assumes "stores j st m" "list_all (reads_back j) scs"
  shows "if list_all (\<lambda>s. js j s \<noteq> None) scs then \<exists>st'. put_each j scs st = Inr st' \<and> stores j st' (put_all scs m)
    else put_each j scs st = Inl InvalidData"
  using assms
proof (induction scs arbitrary: st m)
  case (Cons sc scs)
  show ?case
  proof (cases "js j sc")
    case None
    then show ?thesis using stores_old_key [OF Cons(2)] by (simp add: put_one_def Let_def)
  next
    case (Some t)
    then obtain st' where st': "put_one j sc st = Inr st'" "stores j st' (m(sc_id sc \<mapsto> sc))"
      using put_one_stores [OF Cons(2) Some] Cons(3) by auto
    have "put_all (sc # scs) m = put_all scs (m(sc_id sc \<mapsto> sc))" by (simp add: put_all_def)
    then show ?thesis using Cons(1) [OF st'(2)] Cons(3) Some st'(1) by simp
  qed
qed (simp add: put_all_def)

lemma put_batch_stores:
  assumes "stores j st m" "list_all (reads_back j) scs"
  shows "stores j (snd (put_batch j scs st)) (put_spec j scs m)"
    and "fst (put_batch j scs st) = (if list_all (\<lambda>s. js j s \<noteq> None) scs then Inr () else Inl InvalidData)"
  using put_each_stores [OF assms] assms(1)
  by (auto simp: put_batch_def put_spec_def put_all_def split: if_splits)

lemma stores_get: "stores j st m \<Longrightarrow> score_get j i st = Inr (m i)"
  using stores_None [of j st m i] stores_Some [of j st m i]
  by (cases "m i") (fastforce simp: score_get_def parse_score_def)+

text \<open>Reading the texts of a list of stored ids gives their scores.\<close>

lemma parse_ids:
  assumes "stores j st m" "set ids \<subseteq> dom m"
  shows "parse_all j (List.map_filter (om_get (st_scores st)) ids) = Inr (map (the \<circ> m) ids)"
  using assms(2)
proof (induction ids)
  case (Cons i ids)
  then obtain s t where "m i = Some s" "om_get (st_scores st) i = Some t" "jp j t = Some s"
    using stores_Some [OF assms(1)] by fastforce
  then show ?case using Cons by (simp add: map_filter_simps parse_score_def)
qed (simp add: map_filter_simps)

lemma stores_dom: "stores j st m \<Longrightarrow> set (om_keys (st_scores st)) = dom m"
  using stores_None stores_Some by (fastforce simp: om_keys_get)

lemma values_map_filter: "om_ok m \<Longrightarrow> om_values m = List.map_filter (om_get m) (om_keys m)"
proof -
  assume ok: "om_ok m"
  have "List.map_filter (om_get m) (map fst xs) = map snd xs" if "set xs \<subseteq> set m" for xs
    using that by (induction xs) (auto simp: map_filter_simps om_in_set_get [OF ok])
  then show ?thesis by (simp add: om_values_def om_keys_def)
qed

text \<open>The scores of a list of distinct stored ids, newest first.\<close>

definition newest_first :: "score list \<Rightarrow> bool" where
  "newest_first l \<longleftrightarrow> sorted_wrt (\<lambda>a b. sc_ts_unix_nano b \<le> sc_ts_unix_nano a) l"

lemma sorted_ids:
  assumes "stores j st m" "set ids \<subseteq> dom m" "distinct ids"
  defines "l \<equiv> sort_newest_first (map (the \<circ> m) ids)"
  shows "distinct (map sc_id l)" "set l = {s. \<exists>i\<in>set ids. m i = Some s}" "newest_first l"
proof -
  have i: "sc_id (the (m i)) = i" if "i \<in> set ids" for i
    using assms(2) that stores_Some [OF assms(1)] by fastforce
  have "map (sc_id \<circ> (the \<circ> m)) ids = ids" using i by (simp add: map_idI)
  then have "distinct (map sc_id (map (the \<circ> m) ids))" using assms(3) by simp
  moreover have "mset (map sc_id l) = mset (map sc_id (map (the \<circ> m) ids))"
    by (simp only: l_def sort_newest_first_def mset_map mset_sort_key_desc)
  ultimately show "distinct (map sc_id l)" using mset_eq_imp_distinct_iff by blast
  show "set l = {s. \<exists>i\<in>set ids. m i = Some s}" using assms(2) by (force simp: l_def sort_newest_first_def)
  show "newest_first l" by (simp add: newest_first_def l_def sort_newest_first_def sort_key_desc_sorted)
qed

lemma ids_of_target_spec:
  assumes "stores j st m"
  shows "set (ids_of_target st key) = {i. \<exists>s. m i = Some s \<and> score_target_key (sc_target s) = key}"
    and "distinct (ids_of_target st key)"
proof -
  show "set (ids_of_target st key) = {i. \<exists>s. m i = Some s \<and> score_target_key (sc_target s) = key}"
    using assms unfolding stores_def ids_of_target_def by force
  have "distinct (filter (\<lambda>k. fst k = key) (om_keys (st_by_target st)))"
    using assms om_ok_distinct [of "st_by_target st"] by (simp add: stores_def)
  then show "distinct (ids_of_target st key)"
    unfolding ids_of_target_def distinct_map by (auto simp: inj_on_def)
qed

lemma stores_by_target:
  assumes "stores j st m"
  shows "\<exists>l. by_target_key j key st = Inr l \<and> distinct (map sc_id l) \<and>
    set l = {s \<in> ran m. score_target_key (sc_target s) = key} \<and> newest_first l"
proof -
  let ?ids = "ids_of_target st key"
  note ids = ids_of_target_spec [OF assms]
  have sub: "set ?ids \<subseteq> dom m" using ids(1) by blast
  have "by_target_key j key st = Inr (sort_newest_first (map (the \<circ> m) ?ids))"
    by (simp add: by_target_key_def parse_ids [OF assms sub])
  moreover have "{s. \<exists>i\<in>set ?ids. m i = Some s} = {s \<in> ran m. score_target_key (sc_target s) = key}"
    using ids(1) by (auto simp: ran_def)
  ultimately show ?thesis using sorted_ids [OF assms sub ids(2)] by simp
qed

lemma stores_list:
  assumes "stores j st m"
  shows "\<exists>l. scores_list j limit st = Inr (take limit l) \<and> distinct (map sc_id l) \<and> set l = ran m \<and> newest_first l"
proof -
  let ?ids = "om_keys (st_scores st)"
  have ok: "om_ok (st_scores st)" using assms by (simp add: stores_def)
  have sub: "set ?ids \<subseteq> dom m" using stores_dom [OF assms] by simp
  have "scores_list j limit st = Inr (take limit (sort_newest_first (map (the \<circ> m) ?ids)))"
    by (simp add: scores_list_def values_map_filter [OF ok] parse_ids [OF assms sub])
  moreover have "{s. \<exists>i\<in>set ?ids. m i = Some s} = ran m" using stores_dom [OF assms] by (auto simp: ran_def)
  ultimately show ?thesis using sorted_ids [OF assms sub om_ok_distinct [OF ok]] by auto
qed

lemma stores_count: "stores j st m \<Longrightarrow> scores_count st = card (dom m)"
  using stores_dom [of j st m] om_ok_distinct [of "st_scores st"] distinct_card [of "om_keys (st_scores st)"]
  by (simp add: stores_def scores_count_def om_keys_def)

text \<open>The state after a sequence of batches.\<close>

definition put_batches :: "score_json \<Rightarrow> score list list \<Rightarrow> score_store" where
  "put_batches j batches = fold (\<lambda>b st. snd (put_batch j b st)) batches scores_open"

lemma put_batches_stores:
  assumes "list_all (list_all (reads_back j)) batches"
  shows "stores j (put_batches j batches) (fold (put_spec j) batches Map.empty)"
proof -
  have "stores j (fold (\<lambda>b st. snd (put_batch j b st)) batches st) (fold (put_spec j) batches m)"
    if "stores j st m" for st m
    using assms that by (induction batches arbitrary: st m) (simp_all add: put_batch_stores(1))
  then show ?thesis by (simp add: put_batches_def stores_open)
qed

text \<open>
  C18. The score store is a map from ids to scores: after any batches of scores that read back from
  their JSON, an id gives the score last put under it by a batch that could be written whole, a
  target key gives exactly the scores whose target it now is (none under a target they have left),
  the list is a prefix of all of them, each once and newest first, and the count is their number.
\<close>
theorem score_store_is_a_map:
  assumes "list_all (list_all (reads_back j)) batches"
  defines "st \<equiv> put_batches j batches" and "m \<equiv> fold (put_spec j) batches Map.empty"
  shows "(score_get j i st = Inr (m i)) \<and>
    (\<exists>l. by_target_key j key st = Inr l \<and> distinct (map sc_id l) \<and>
      set l = {s \<in> ran m. score_target_key (sc_target s) = key} \<and> newest_first l) \<and>
    (\<exists>l. scores_list j limit st = Inr (take limit l) \<and> distinct (map sc_id l) \<and> set l = ran m \<and> newest_first l) \<and>
    (scores_count st = card (dom m))"
proof -
  have s: "stores j st m" using put_batches_stores [OF assms(1)] by (simp add: st_def m_def)
  have p1: "score_get j i st = Inr (m i)" by (rule stores_get [OF s])
  have p2: "\<exists>l. by_target_key j key st = Inr l \<and> distinct (map sc_id l) \<and>
      set l = {s \<in> ran m. score_target_key (sc_target s) = key} \<and> newest_first l" by (rule stores_by_target [OF s])
  have p3: "\<exists>l. scores_list j limit st = Inr (take limit l) \<and> distinct (map sc_id l) \<and> set l = ran m \<and> newest_first l"
    by (rule stores_list [OF s])
  have p4: "scores_count st = card (dom m)" by (rule stores_count [OF s])
  show ?thesis using p1 p2 p3 p4 by blast
qed

definition sample_score :: "str \<Rightarrow> score_target \<Rightarrow> u64 \<Rightarrow> score" where
  "sample_score i t ts = \<lparr>sc_id = i, sc_target = t, sc_name = ''quality'', sc_num_value = None, sc_str_value = Some ''ok'',
     sc_data_type = Categorical, sc_source = SrcHuman, sc_comment = None, sc_config_id = None, sc_agg_stats = None,
     sc_ts_unix_nano = ts\<rparr>"

text \<open>Score \<open>a\<close> is put under a trace, then again under a span: only the span still has it.\<close>

definition sample_json :: score_json where
  "sample_json =
     \<lparr>js = (\<lambda>s. Some (case sc_target s of TargetTrace t \<Rightarrow> ''T'' | _ \<Rightarrow> ''S'')),
      jp = (\<lambda>t. if t = ''T'' then Some (sample_score ''a'' (TargetTrace ''t'') 1)
                 else Some (sample_score ''a'' (TargetSpan ''s'') 2))\<rparr>"

theorem score_store_is_a_map_witness:
  "by_target_key sample_json ''trace:t'' (put_batches sample_json
     [[sample_score ''a'' (TargetTrace ''t'') 1], [sample_score ''a'' (TargetSpan ''s'') 2]]) = Inr []"
proof -
  let ?bs = "[[sample_score ''a'' (TargetTrace ''t'') 1], [sample_score ''a'' (TargetSpan ''s'') 2]]"
  have rb: "list_all (list_all (reads_back sample_json)) ?bs" by (simp add: reads_back_def sample_json_def sample_score_def)
  have m: "fold (put_spec sample_json) ?bs Map.empty = [''a'' \<mapsto> sample_score ''a'' (TargetSpan ''s'') 2]"
    by (simp add: put_spec_def put_all_def sample_json_def sample_score_def)
  obtain l where l: "by_target_key sample_json ''trace:t'' (put_batches sample_json ?bs) = Inr l"
    "set l = {s \<in> ran [''a'' \<mapsto> sample_score ''a'' (TargetSpan ''s'') 2]. score_target_key (sc_target s) = ''trace:t''}"
    using score_store_is_a_map [OF rb, where key = "''trace:t''"] unfolding m by blast
  have "ran [''a'' \<mapsto> sample_score ''a'' (TargetSpan ''s'') 2] = {sample_score ''a'' (TargetSpan ''s'') 2}" by simp
  then have "set l = {}" unfolding l(2) by (simp add: score_target_key_def sample_score_def)
  then show ?thesis using l(1) by simp
qed

end
