(* ===== verification/Rollup.thy ===== *)
theory Rollup
  imports FloatOrd Scores Query
begin

text \<open>
  \<^verbatim>\<open>src/rollup.rs\<close>: what a trace scores when its spans are scored. The tree of a trace's spans (with
  an entry point for every cycle of parents), the breadth-first walk to the shallowest carriers of a
  name, and the functions that combine their values.
\<close>

section \<open>Functions and rules\<close>

datatype rollup_fn = RollMean | RollMin | RollMax | RollSum | RollAll | RollAny

definition rollup_as_str :: "rollup_fn \<Rightarrow> str" where
  "rollup_as_str f =
     (case f of RollMean \<Rightarrow> ''mean'' | RollMin \<Rightarrow> ''min'' | RollMax \<Rightarrow> ''max'' | RollSum \<Rightarrow> ''sum''
      | RollAll \<Rightarrow> ''all'' | RollAny \<Rightarrow> ''any'')"

definition rollup_fn_parse :: "str \<Rightarrow> rollup_fn option" where
  "rollup_fn_parse s =
     (let t = to_ascii_lowercase (trim s)
      in if t \<in> set [''mean'', ''avg'', ''average''] then Some RollMean
         else if t = ''min'' then Some RollMin
         else if t = ''max'' then Some RollMax
         else if t \<in> set [''sum'', ''total''] then Some RollSum
         else if t \<in> set [''all'', ''and''] then Some RollAll
         else if t \<in> set [''any'', ''or''] then Some RollAny
         else None)"

definition roll_apply :: "rollup_fn \<Rightarrow> f64 list \<Rightarrow> f64" where
  "roll_apply f vs =
     (case f of
        RollMean \<Rightarrow> f_div (f_sum vs) (f_of_int (int (length vs)))
      | RollMin \<Rightarrow> fold (\<lambda>v acc. f_min acc v) vs (f_inf False)
      | RollMax \<Rightarrow> fold (\<lambda>v acc. f_max acc v) vs (f_inf True)
      | RollSum \<Rightarrow> f_sum vs
      | RollAll \<Rightarrow> f_of_bool (list_all (\<lambda>v. \<not> is_zero v) vs)
      | RollAny \<Rightarrow> f_of_bool (list_ex (\<lambda>v. \<not> is_zero v) vs))"

record rollup_config =
  rg_by_name :: "(str, rollup_fn) omap"
  rg_default_numeric :: rollup_fn

datatype rule_error = MalformedRule str | UnknownFunction str str

fun parse_rules :: "str list \<Rightarrow> (str, rollup_fn) omap \<Rightarrow> rule_error + (str, rollup_fn) omap" where
  "parse_rules [] m = Inr m"
| "parse_rules (raw # rest) m =
     (let spec = trim raw
      in if spec = [] then parse_rules rest m
         else case split_once (CHR ''='') spec of
                None \<Rightarrow> Inl (MalformedRule spec)
              | Some (name, func) \<Rightarrow>
                  (case rollup_fn_parse func of
                     None \<Rightarrow> Inl (UnknownFunction func spec)
                   | Some f \<Rightarrow> parse_rules rest (om_insert (trim name) f m)))"

definition rollup_config_parse :: "str list \<Rightarrow> rule_error + rollup_config" where
  "rollup_config_parse rules =
     (case parse_rules (concat (map (split_on (CHR '','')) rules)) om_empty of
        Inl e \<Rightarrow> Inl e
      | Inr m \<Rightarrow> Inr \<lparr>rg_by_name = m, rg_default_numeric = RollMean\<rparr>)"

definition function_for :: "rollup_config \<Rightarrow> str \<Rightarrow> data_type \<Rightarrow> rollup_fn" where
  "function_for c name ty =
     (case om_get (rg_by_name c) name of
        Some f \<Rightarrow> f
      | None \<Rightarrow> if ty = Boolean then RollAll else rg_default_numeric c)"

section \<open>The tree\<close>

type_synonym edges = "(str, str list) omap"

definition kids :: "edges \<Rightarrow> str \<Rightarrow> str list" where
  "kids ch i = (case om_get ch i of Some ks \<Rightarrow> ks | None \<Rightarrow> [])"

text \<open>The spans' ids as the ordered set \<open>present\<close>.\<close>

definition present_ids :: "normalized_span list \<Rightarrow> str list" where
  "present_ids spans = om_keys (fold (\<lambda>s. om_insert (ns_span_id s) ()) spans om_empty)"

definition place_span :: "str list \<Rightarrow> normalized_span \<Rightarrow> edges \<times> str list \<Rightarrow> edges \<times> str list" where
  "place_span present s acc =
     (let (ch, roots) = acc
      in case ns_parent_span_id s of
           Some parent \<Rightarrow>
             if parent \<in> set present \<and> parent \<noteq> ns_span_id s
             then (om_alter parent [] (\<lambda>ks. ks @ [ns_span_id s]) ch, roots)
             else (ch, roots @ [ns_span_id s])
         | None \<Rightarrow> (ch, roots @ [ns_span_id s]))"

text \<open>The ids that still have children to enqueue: what both breadth-first walks run down.\<close>

definition unvisited :: "edges \<Rightarrow> str set \<Rightarrow> nat" where
  "unvisited ch seen = length (filter (\<lambda>k. k \<notin> seen) (om_keys ch))"

lemma unvisited_less:
  assumes "i \<notin> seen" "kids ch i \<noteq> []"
  shows "unvisited ch (insert i seen) < unvisited ch seen"
proof -
  have "i \<in> set (om_keys ch)" using assms(2) om_keys_get [of i ch] by (auto simp: kids_def split: option.splits)
  then have i: "i \<in> set (filter (\<lambda>k. k \<notin> seen) (om_keys ch))" using assms(1) by simp
  have "filter (\<lambda>k. k \<notin> insert i seen) (om_keys ch) = filter (\<lambda>k. k \<noteq> i) (filter (\<lambda>k. k \<notin> seen) (om_keys ch))"
    by (auto simp: filter_filter intro: filter_cong)
  then show ?thesis using length_filter_less [OF i, of "\<lambda>k. k \<noteq> i"] by (simp add: unvisited_def)
qed

lemma unvisited_le: "unvisited ch (insert i seen) \<le> unvisited ch seen"
proof -
  have "length (filter (\<lambda>k. k \<notin> insert i seen) ks) \<le> length (filter (\<lambda>k. k \<notin> seen) ks)" for ks :: "str list"
    by (induction ks) auto
  then show ?thesis unfolding unvisited_def .
qed

lemma walk_measure:
  assumes "i \<notin> seen"
  shows "((unvisited ch (insert i seen), length (q @ kids ch i)), (unvisited ch seen, length (i # q))) \<in> less_than <*lex*> less_than"
  using unvisited_less [OF assms, of ch] unvisited_le [of ch i seen] by (cases "kids ch i") auto

function tree_walk :: "edges \<Rightarrow> str list \<Rightarrow> str set \<Rightarrow> str set" where
  "tree_walk ch [] seen = seen"
| "tree_walk ch (i # q) seen = (if i \<in> seen then tree_walk ch q seen else tree_walk ch (q @ kids ch i) (insert i seen))"
  by pat_completeness auto

termination
  by (relation "inv_image (less_than <*lex*> less_than) (\<lambda>(ch, q, seen). (unvisited ch seen, length q))")
    (use walk_measure in auto)

text \<open>A cycle of parents leaves spans no root reaches; each such component gets its least id as a root.\<close>

definition add_entry :: "edges \<Rightarrow> str \<Rightarrow> str list \<times> str set \<Rightarrow> str list \<times> str set" where
  "add_entry ch i acc =
     (let (roots, reachable) = acc
      in if i \<in> reachable then (roots, reachable) else (roots @ [i], tree_walk ch [i] reachable))"

definition tree_build :: "normalized_span list \<Rightarrow> edges \<times> str list" where
  "tree_build spans =
     (let present = present_ids spans;
          (ch, roots) = fold (place_span present) spans (om_empty, []);
          reachable = tree_walk ch roots {};
          unreachable = filter (\<lambda>i. i \<notin> reachable) present
      in (ch, fst (fold (add_entry ch) unreachable (roots, reachable))))"

section \<open>The shallowest carriers\<close>

type_synonym span_scores = "(str, score list) omap"

definition carried :: "span_scores \<Rightarrow> str \<Rightarrow> str \<Rightarrow> score option" where
  "carried by_span name i =
     (case om_get by_span i of None \<Rightarrow> None | Some scs \<Rightarrow> find (\<lambda>s. sc_name s = name) scs)"

function carriers :: "edges \<Rightarrow> span_scores \<Rightarrow> str \<Rightarrow> str list \<Rightarrow> str set \<Rightarrow> (str \<times> score) list" where
  "carriers ch by_span name [] seen = []"
| "carriers ch by_span name (i # q) seen =
     (if i \<in> seen then carriers ch by_span name q seen
      else case carried by_span name i of
             Some sc \<Rightarrow> (i, sc) # carriers ch by_span name q (insert i seen)
           | None \<Rightarrow> carriers ch by_span name (q @ kids ch i) (insert i seen))"
  by pat_completeness auto

termination
proof (relation "inv_image (less_than <*lex*> less_than) (\<lambda>(ch, b, n, q, seen). (unvisited ch seen, length q))", goal_cases)
  case (3 ch b n i q seen)
  then show ?case using walk_measure [of i seen ch q] by simp
next
  case (4 ch b n i q seen sc)
  then show ?case using unvisited_le [of ch i seen] by auto
qed auto

definition shallowest_carriers :: "edges \<times> str list \<Rightarrow> str \<Rightarrow> span_scores \<Rightarrow> (str \<times> score) list" where
  "shallowest_carriers tree name by_span = carriers (fst tree) by_span name (snd tree) {}"

section \<open>One trace\<close>

record rolled_score =
  rl_name :: str
  rl_value :: f64
  rl_measured :: bool
  rl_function :: "str option"
  rl_n :: usize
  rl_spans :: "str list"
  rl_type :: data_type

definition measured_scores :: "str \<Rightarrow> score list \<Rightarrow> (str, rolled_score) omap" where
  "measured_scores trace_id scores =
     fold (\<lambda>s m. if sc_target s = TargetTrace trace_id
                 then (case sc_num_value s of
                         None \<Rightarrow> m
                       | Some v \<Rightarrow> om_insert (sc_name s)
                           \<lparr>rl_name = sc_name s, rl_value = v, rl_measured = True, rl_function = None, rl_n = 1,
                            rl_spans = [], rl_type = sc_data_type s\<rparr> m)
                 else m) scores om_empty"

definition rollable :: "score \<Rightarrow> bool" where
  "rollable s \<longleftrightarrow> sc_num_value s \<noteq> None \<and> sc_data_type s \<noteq> Categorical \<and> sc_data_type s \<noteq> TextType"

definition index_scores :: "score list \<Rightarrow> span_scores" where
  "index_scores scores =
     fold (\<lambda>s m. case sc_target s of
                   TargetSpan i \<Rightarrow> if rollable s then om_alter i [] (\<lambda>scs. scs @ [s]) m else m
                 | _ \<Rightarrow> m) scores om_empty"

definition score_names :: "span_scores \<Rightarrow> str list" where
  "score_names by_span = om_keys (fold (\<lambda>s. om_insert (sc_name s) ()) (concat (om_values by_span)) om_empty)"

definition common_type :: "data_type option \<Rightarrow> score \<Rightarrow> data_type option" where
  "common_type seen s =
     (case seen of
        Some t \<Rightarrow> Some (if t \<noteq> sc_data_type s then Numeric else t)
      | None \<Rightarrow> Some (sc_data_type s))"

definition derive_score :: "rollup_config \<Rightarrow> str \<Rightarrow> (str \<times> score) list \<Rightarrow> rolled_score option" where
  "derive_score config name found =
     (let with_value = filter (\<lambda>(i, s). sc_num_value s \<noteq> None) found;
          values = List.map_filter (\<lambda>(i, s). sc_num_value s) found;
          ty = (case fold (\<lambda>(i, s) t. common_type t s) with_value None of Some t \<Rightarrow> t | None \<Rightarrow> Numeric)
      in if values = [] then None
         else let f = function_for config name ty
              in Some \<lparr>rl_name = name, rl_value = roll_apply f values, rl_measured = False,
                       rl_function = Some (rollup_as_str f), rl_n = length values,
                       rl_spans = map fst with_value, rl_type = ty\<rparr>)"

definition roll_name :: "edges \<times> str list \<Rightarrow> span_scores \<Rightarrow> rollup_config \<Rightarrow> str \<Rightarrow> (str, rolled_score) omap \<Rightarrow> (str, rolled_score) omap" where
  "roll_name tree by_span config name out =
     (if om_get out name \<noteq> None then out
      else let found = shallowest_carriers tree name by_span
           in if found = [] then out
              else case derive_score config name found of None \<Rightarrow> out | Some r \<Rightarrow> om_insert name r out)"

definition rollup_trace :: "str \<Rightarrow> normalized_span list \<Rightarrow> score list \<Rightarrow> rollup_config \<Rightarrow> rolled_score list" where
  "rollup_trace trace_id spans scores config =
     (let out = measured_scores trace_id scores; by_span = index_scores scores
      in if by_span = [] then om_values out
         else om_values (fold (roll_name (tree_build spans) by_span config) (score_names by_span) out))"

definition as_scores :: "str \<Rightarrow> rolled_score list \<Rightarrow> u64 \<Rightarrow> score list" where
  "as_scores trace_id rolled ts =
     map (\<lambda>r. \<lparr>sc_id = ''rollup:'' @ trace_id @ '':'' @ rl_name r, sc_target = TargetTrace trace_id, sc_name = rl_name r,
            sc_num_value = Some (rl_value r), sc_str_value = None, sc_data_type = rl_type r, sc_source = SrcEval,
            sc_comment = Some (''derived by rollup ('' @ (case rl_function r of Some f \<Rightarrow> f | None \<Rightarrow> ''?'') @
              '' over '' @ dec_of (rl_n r) @ '' span scores)''),
            sc_config_id = None, sc_agg_stats = None, sc_ts_unix_nano = ts\<rparr>)
       (filter (\<lambda>r. \<not> rl_measured r) rolled)"

text \<open>\<open>Store::trace_scores\<close> and \<open>Store::trace_rollup\<close>: each reads the trace anew.\<close>

fun scores_of_spans :: "score_json \<Rightarrow> score_store \<Rightarrow> normalized_span list \<Rightarrow> io_error + score list" where
  "scores_of_spans j st [] = Inr []"
| "scores_of_spans j st (s # rest) =
     (case by_target_key j (score_target_key (TargetSpan (ns_span_id s))) st of
        Inl e \<Rightarrow> Inl e
      | Inr xs \<Rightarrow> (case scores_of_spans j st rest of Inl e \<Rightarrow> Inl e | Inr ys \<Rightarrow> Inr (xs @ ys)))"

definition trace_scores :: "score_json \<Rightarrow> score_store \<Rightarrow> str \<Rightarrow> io_error + normalized_span list \<Rightarrow> io_error + score list" where
  "trace_scores j st trace_id tr =
     (case by_target_key j (score_target_key (TargetTrace trace_id)) st of
        Inl e \<Rightarrow> Inl e
      | Inr own \<Rightarrow>
          (case tr of
             Inl e \<Rightarrow> Inl e
           | Inr spans \<Rightarrow>
               (case scores_of_spans j st spans of Inl e \<Rightarrow> Inl e | Inr xs \<Rightarrow> Inr (own @ xs))))"

definition trace_rollup ::
  "codec \<Rightarrow> score_json \<Rightarrow> rollup_config \<Rightarrow> str \<Rightarrow> hot_tier \<times> view \<times> view \<Rightarrow> hot_tier \<times> view \<times> view \<Rightarrow> score_store
     \<Rightarrow> io_error + rolled_score list" where
  "trace_rollup cx j config trace_id read1 read2 st =
     (case (case read1 of (hot, v1, v2) \<Rightarrow> trace cx trace_id hot v1 v2) of
        Inl e \<Rightarrow> Inl e
      | Inr spans \<Rightarrow>
          (case trace_scores j st trace_id (case read2 of (hot, v1, v2) \<Rightarrow> trace cx trace_id hot v1 v2) of
             Inl e \<Rightarrow> Inl e
           | Inr scores \<Rightarrow> Inr (rollup_trace trace_id spans scores config)))"

section \<open>The walks\<close>

definition child :: "edges \<Rightarrow> (str \<times> str) set" where
  "child ch = {(p, k). k \<in> set (kids ch p)}"

lemma walk_contains: "seen \<union> set q \<subseteq> tree_walk ch q seen"
  by (induction ch q seen rule: tree_walk.induct) auto

lemma walk_closed:
  "\<forall>x\<in>seen. set (kids ch x) \<subseteq> seen \<union> set q \<Longrightarrow> x \<in> tree_walk ch q seen \<Longrightarrow> set (kids ch x) \<subseteq> tree_walk ch q seen"
proof (induction ch q seen rule: tree_walk.induct)
  case (2 ch i q seen)
  show ?case
  proof (cases "i \<in> seen")
    case True
    have "\<forall>x\<in>seen. set (kids ch x) \<subseteq> seen \<union> set q" using 2(3) True by auto
    then show ?thesis using 2(1) [OF True] 2(4) True by simp
  next
    case False
    have "\<forall>x\<in>insert i seen. set (kids ch x) \<subseteq> insert i seen \<union> set (q @ kids ch i)" using 2(3) by auto
    then show ?thesis using 2(2) [OF False] 2(4) False by simp
  qed
qed auto

lemma walk_origin:
  "x \<in> tree_walk ch q seen \<Longrightarrow> x \<in> seen \<or> x \<in> set q \<or> (\<exists>p\<in>tree_walk ch q seen. x \<in> set (kids ch p))"
proof (induction ch q seen rule: tree_walk.induct)
  case (2 ch i q seen)
  show ?case
  proof (cases "i \<in> seen")
    case True
    then show ?thesis using 2 by auto
  next
    case False
    have "i \<in> tree_walk ch (q @ kids ch i) (insert i seen)" using walk_contains by blast
    then show ?thesis using 2(2) [OF False] 2(3) False by auto
  qed
qed simp

lemma walk_sound: "x \<in> tree_walk ch q seen \<Longrightarrow> x \<in> seen \<or> (\<exists>r\<in>set q. (r, x) \<in> (child ch)\<^sup>*)"
proof (induction ch q seen rule: tree_walk.induct)
  case (2 ch i q seen)
  show ?case
  proof (cases "i \<in> seen")
    case True
    then show ?thesis using 2 by auto
  next
    case False
    have "x \<in> insert i seen \<or> (\<exists>r\<in>set (q @ kids ch i). (r, x) \<in> (child ch)\<^sup>*)" using 2(2) [OF False] 2(3) False by simp
    then show ?thesis by (auto simp: child_def intro: converse_rtrancl_into_rtrancl)
  qed
qed simp

section \<open>The tree reaches every span\<close>

lemma present_ids_set [simp]: "set (present_ids spans) = ns_span_id ` set spans"
proof -
  have "set (om_keys (fold (\<lambda>s. om_insert (ns_span_id s) ()) spans m)) = set (om_keys m) \<union> ns_span_id ` set spans" for m
    by (induction spans arbitrary: m) (auto simp: map_simps)
  then show ?thesis by (simp add: present_ids_def om_keys_def om_empty_def)
qed

lemma add_entries:
  assumes "\<forall>x\<in>R. \<exists>r\<in>set roots. (r, x) \<in> (child ch)\<^sup>*" "fold (add_entry ch) ids (roots, R) = (roots', R')"
  shows "(\<forall>x\<in>R'. \<exists>r\<in>set roots'. (r, x) \<in> (child ch)\<^sup>*) \<and> R \<subseteq> R' \<and> set ids \<subseteq> R'"
  using assms
proof (induction ids arbitrary: roots R)
  case (Cons i ids)
  show ?case
  proof (cases "i \<in> R")
    case True
    then show ?thesis using Cons(1) [OF Cons(2)] Cons(3) by (auto simp: add_entry_def)
  next
    case False
    let ?R = "tree_walk ch [i] R"
    have "\<forall>x\<in>?R. \<exists>r\<in>set (roots @ [i]). (r, x) \<in> (child ch)\<^sup>*" using walk_sound [of _ ch "[i]" R] Cons(2) by fastforce
    from Cons(1) [OF this] have "(\<forall>x\<in>R'. \<exists>r\<in>set roots'. (r, x) \<in> (child ch)\<^sup>*) \<and> ?R \<subseteq> R' \<and> set ids \<subseteq> R'"
      using Cons(3) False by (simp add: add_entry_def)
    moreover have "insert i R \<subseteq> ?R" using walk_contains [of R "[i]" ch] by simp
    ultimately show ?thesis by auto
  qed
qed simp

lemma tree_reaches:
  assumes "tree_build spans = (ch, roots)" "i \<in> ns_span_id ` set spans"
  shows "\<exists>r\<in>set roots. (r, i) \<in> (child ch)\<^sup>*"
proof -
  obtain roots0 where f: "fold (place_span (present_ids spans)) spans (om_empty, []) = (ch, roots0)"
    using assms(1) by (auto simp: tree_build_def Let_def case_prod_beta prod_eq_iff)
  let ?R = "tree_walk ch roots0 {}" and ?u = "filter (\<lambda>i. i \<notin> tree_walk ch roots0 {}) (present_ids spans)"
  obtain R' where R': "fold (add_entry ch) ?u (roots0, ?R) = (roots, R')"
    using assms(1) f by (auto simp: tree_build_def Let_def prod_eq_iff)
  have "\<forall>x\<in>?R. \<exists>r\<in>set roots0. (r, x) \<in> (child ch)\<^sup>*" using walk_sound [of _ ch roots0 "{}"] by blast
  note e = add_entries [OF this R']
  have "i \<in> R'"
  proof (cases "i \<in> ?R")
    case False
    then have "i \<in> set ?u" using assms(2) by simp
    then show ?thesis using e by blast
  qed (use e in blast)
  then show ?thesis using e by blast
qed

text \<open>An edge of the tree is a span's own parent link.\<close>

lemma place_span_child:
  assumes "fold (place_span present) spans (ch0, roots0) = (ch, roots)" "(p, k) \<in> child ch"
  shows "(p, k) \<in> child ch0 \<or> (\<exists>s\<in>set spans. ns_span_id s = k \<and> ns_parent_span_id s = Some p)"
  using assms
proof (induction spans arbitrary: ch0 roots0)
  case (Cons s spans)
  obtain ch1 roots1 where p1: "place_span present s (ch0, roots0) = (ch1, roots1)" by fastforce
  have "(p, k) \<in> child ch1 \<or> (\<exists>s\<in>set spans. ns_span_id s = k \<and> ns_parent_span_id s = Some p)"
    using Cons(1) [of ch1 roots1] Cons(2,3) p1 by simp
  moreover have "(p, k) \<in> child ch1 \<Longrightarrow> (p, k) \<in> child ch0 \<or> ns_span_id s = k \<and> ns_parent_span_id s = Some p"
    using p1 by (auto simp: place_span_def child_def kids_def map_simps split: option.splits if_splits)
  ultimately show ?case by auto
qed simp

lemma tree_child:
  assumes "tree_build spans = (ch, roots)" "(p, k) \<in> child ch"
  shows "\<exists>s\<in>set spans. ns_span_id s = k \<and> ns_parent_span_id s = Some p"
proof -
  obtain roots0 where f: "fold (place_span (present_ids spans)) spans (om_empty, []) = (ch, roots0)"
    using assms(1) by (auto simp: tree_build_def Let_def case_prod_beta prod_eq_iff)
  show ?thesis using place_span_child [OF f assms(2)] by (auto simp: child_def kids_def map_simps)
qed

text \<open>The edges of a trace's tree: those into a root (the entry point of a cycle) are cut.\<close>

definition tree_edges :: "edges \<times> str list \<Rightarrow> (str \<times> str) set" where
  "tree_edges tree = {(p, k) \<in> child (fst tree). k \<notin> set (snd tree)}"

lemma reach_by_tree_edges:
  assumes "(r, x) \<in> (child ch)\<^sup>*" "r \<in> set roots"
  shows "\<exists>r'\<in>set roots. (r', x) \<in> (tree_edges (ch, roots))\<^sup>*"
  using assms
proof (induction rule: rtrancl_induct)
  case (step y z)
  show ?case
  proof (cases "z \<in> set roots")
    case False
    then have "(y, z) \<in> tree_edges (ch, roots)" using step(2) by (simp add: tree_edges_def)
    then show ?thesis using step by (meson rtrancl_into_rtrancl)
  qed blast
qed blast

section \<open>What the carriers are\<close>

text \<open>The walk for a name is the plain walk of the tree in which a carrier has no children.\<close>

definition blocked :: "edges \<Rightarrow> span_scores \<Rightarrow> str \<Rightarrow> edges" where
  "blocked ch by_span name = filter (\<lambda>(k, ks). carried by_span name k = None) ch"

lemma kids_blocked: "kids (blocked ch by_span name) i = (if carried by_span name i = None then kids ch i else [])"
proof -
  have "om_get (filter (\<lambda>(k, ks). P k) m) i = (if P i then om_get m i else None)" for P and m :: edges
    unfolding om_get_def by (induction m) auto
  then show ?thesis by (simp add: kids_def blocked_def)
qed

lemma carriers_walk:
  "fst ` set (carriers ch b n q seen) = {i \<in> tree_walk (blocked ch b n) q seen - seen. carried b n i \<noteq> None}"
proof (induction ch b n q seen rule: carriers.induct)
  case (2 ch b n i q seen)
  show ?case
  proof (cases "i \<in> seen")
    case True
    then show ?thesis using 2(1) [OF True] by simp
  next
    case False
    have i: "i \<in> tree_walk (blocked ch b n) q' (insert i seen)" for q' using walk_contains by blast
    show ?thesis
    proof (cases "carried b n i")
      case None
      then show ?thesis using 2(2) [OF False None] False by (auto simp: kids_blocked)
    next
      case (Some sc)
      then show ?thesis using 2(3) [OF False Some] False i [of q] by (auto simp: kids_blocked)
    qed
  qed
qed simp

lemma carriers_carried: "(i, sc) \<in> set (carriers ch b n q seen) \<Longrightarrow> carried b n i = Some sc"
  by (induction ch b n q seen rule: carriers.induct) (auto split: if_splits option.splits)

lemma carriers_distinct: "distinct (map fst (carriers ch b n q seen))"
proof (induction ch b n q seen rule: carriers.induct)
  case (2 ch b n i q seen)
  have "i \<notin> fst ` set (carriers ch b n q (insert i seen))" unfolding carriers_walk by simp
  then show ?case using 2 by (simp split: option.split)
qed simp

lemma shallowest_cover:
  assumes "\<exists>r\<in>set roots. (r, i) \<in> (child ch)\<^sup>*" "carried b n i \<noteq> None"
  shows "\<exists>c\<in>fst ` set (shallowest_carriers (ch, roots) n b). (c, i) \<in> (tree_edges (ch, roots))\<^sup>*"
proof -
  let ?W = "tree_walk (blocked ch b n) roots {}" and ?C = "fst ` set (shallowest_carriers (ch, roots) n b)" and ?E = "tree_edges (ch, roots)"
  have C: "?C = {i \<in> ?W. carried b n i \<noteq> None}" by (simp add: shallowest_carriers_def carriers_walk)
  have closed: "x \<in> ?W \<Longrightarrow> set (kids (blocked ch b n) x) \<subseteq> ?W" for x by (rule walk_closed) simp_all
  obtain r where r: "r \<in> set roots" "(r, i) \<in> ?E\<^sup>*" using assms(1) reach_by_tree_edges by blast
  from r(2) have "i \<in> ?W \<or> (\<exists>c\<in>?C. (c, i) \<in> ?E\<^sup>*)"
  proof (induction rule: rtrancl_induct)
    case base
    show ?case using walk_contains [of "{}" roots "blocked ch b n"] r(1) by auto
  next
    case (step y z)
    show ?case
    proof (cases "\<exists>c\<in>?C. (c, y) \<in> ?E\<^sup>*")
      case True
      then show ?thesis using step(2) by (meson rtrancl_into_rtrancl)
    next
      case False
      then have y: "y \<in> ?W" "carried b n y = None" using step(3) C by auto
      have "z \<in> set (kids (blocked ch b n) y)" using step(2) y(2) by (simp add: kids_blocked tree_edges_def child_def)
      then show ?thesis using closed [OF y(1)] by blast
    qed
  qed
  then show ?thesis using C assms(2) by blast
qed

lemma shallowest_antichain:
  assumes parent: "\<And>p p' k. (p, k) \<in> child ch \<Longrightarrow> (p', k) \<in> child ch \<Longrightarrow> p = p'"
    and c: "c \<in> fst ` set (shallowest_carriers (ch, roots) n b)" and d: "d \<in> fst ` set (shallowest_carriers (ch, roots) n b)"
  shows "(c, d) \<notin> (tree_edges (ch, roots))\<^sup>+"
proof
  let ?W = "tree_walk (blocked ch b n) roots {}" and ?E = "tree_edges (ch, roots)"
  have C: "fst ` set (shallowest_carriers (ch, roots) n b) = {i \<in> ?W. carried b n i \<noteq> None}"
    by (simp add: shallowest_carriers_def carriers_walk)
  have up: "p \<in> ?W \<and> carried b n p = None" if e: "(p, k) \<in> ?E" and k: "k \<in> ?W" for p k
  proof -
    obtain y where y: "y \<in> ?W" "k \<in> set (kids (blocked ch b n) y)"
      using e k walk_origin [of k "blocked ch b n" roots "{}"] by (auto simp: tree_edges_def)
    then have "carried b n y = None" "(y, k) \<in> child ch" by (auto simp: kids_blocked child_def split: if_splits)
    then show ?thesis using y(1) e parent [of p k y] by (auto simp: tree_edges_def)
  qed
  assume "(c, d) \<in> ?E\<^sup>+"
  then have "d \<in> ?W \<Longrightarrow> carried b n c = None" by (induction rule: trancl_induct) (use up in blast)+
  then show False using c d C by blast
qed

section \<open>The scores a walk finds\<close>

lemma index_scores_get:
  "(case om_get (index_scores scores) i of None \<Rightarrow> [] | Some l \<Rightarrow> l) =
     filter (\<lambda>s. sc_target s = TargetSpan i \<and> rollable s) scores"
proof (induction scores rule: rev_induct)
  case Nil
  then show ?case by (simp add: index_scores_def map_simps)
next
  case (snoc s scores)
  have "index_scores (scores @ [s]) = (case sc_target s of
      TargetSpan i \<Rightarrow> if rollable s then om_alter i [] (\<lambda>scs. scs @ [s]) (index_scores scores) else index_scores scores
    | _ \<Rightarrow> index_scores scores)" by (simp add: index_scores_def split: score_target.split)
  then show ?case using snoc by (auto simp: map_simps split: score_target.split option.splits)
qed

lemma carried_index:
  "carried (index_scores scores) n i = find (\<lambda>s. sc_name s = n) (filter (\<lambda>s. sc_target s = TargetSpan i \<and> rollable s) scores)"
  unfolding index_scores_get [symmetric] carried_def by (simp split: option.split)

lemma carried_iff:
  "carried (index_scores scores) n i \<noteq> None \<longleftrightarrow> (\<exists>s\<in>set scores. sc_target s = TargetSpan i \<and> rollable s \<and> sc_name s = n)"
  unfolding carried_index by (auto simp: find_None_iff)

lemma carried_Some:
  "carried (index_scores scores) n i = Some s \<Longrightarrow> s \<in> set scores \<and> sc_target s = TargetSpan i \<and> rollable s \<and> sc_name s = n"
  unfolding carried_index by (auto simp: find_Some_iff dest: nth_mem)

lemma rollable_values:
  "\<forall>(i, s)\<in>set found. rollable s \<Longrightarrow>
     filter (\<lambda>(i, s). sc_num_value s \<noteq> None) found = found \<and>
     List.map_filter (\<lambda>(i, s). sc_num_value s) found = map (\<lambda>(i, s). the (sc_num_value s)) found"
  by (induction found) (auto simp: rollable_def map_filter_simps)

lemma find_ex: "find P xs \<noteq> None \<longleftrightarrow> (\<exists>x\<in>set xs. P x)"
  by (induction xs) auto

lemma derive_score_rollable:
  assumes "found \<noteq> []" "\<forall>(i, s)\<in>set found. rollable s"
  shows "\<exists>r f. derive_score cfg n found = Some r \<and> rl_name r = n \<and> \<not> rl_measured r \<and> rl_n r = length found \<and>
    rl_spans r = map fst found \<and> rl_function r = Some (rollup_as_str f) \<and>
    rl_value r = roll_apply f (map (\<lambda>(i, s). the (sc_num_value s)) found)"
  using rollable_values [OF assms(2)] assms(1) by (simp add: derive_score_def Let_def) blast

lemma roll_names_get:
  "om_get (fold (roll_name tree b cfg) names out) n =
     (if om_get out n \<noteq> None \<or> n \<notin> set names then om_get out n
      else let found = shallowest_carriers tree n b in if found = [] then None else derive_score cfg n found)"
proof (induction names arbitrary: out)
  case (Cons m names)
  show ?case unfolding fold.simps comp_def Cons
    by (auto simp: roll_name_def Let_def map_simps split: option.splits)
qed simp

lemma om_ok_index: "om_ok (index_scores scores)"
proof -
  have "om_ok m \<Longrightarrow> om_ok (fold (\<lambda>s m. case sc_target s of TargetSpan i \<Rightarrow>
      if rollable s then om_alter i [] (\<lambda>scs. scs @ [s]) m else m | _ \<Rightarrow> m) scores m)" for m
    by (induction scores arbitrary: m) (auto split: score_target.split)
  then show ?thesis by (simp add: index_scores_def)
qed

lemma score_names_set: "n \<in> set (score_names (index_scores scores)) \<longleftrightarrow> (\<exists>i. carried (index_scores scores) n i \<noteq> None)"
proof -
  let ?b = "index_scores scores"
  have keys: "set (om_keys (fold (\<lambda>s. om_insert (sc_name s) ()) xs m)) = set (om_keys m) \<union> sc_name ` set xs" for xs m
    by (induction xs arbitrary: m) (auto simp: map_simps)
  have "set (score_names ?b) = sc_name ` \<Union> (set ` set (om_values ?b))"
    unfolding score_names_def keys by (simp add: om_keys_def om_empty_def)
  also have "\<dots> = {n. \<exists>i l s. om_get ?b i = Some l \<and> s \<in> set l \<and> sc_name s = n}"
    using om_values_set [OF om_ok_index] by force
  finally have "n \<in> set (score_names ?b) \<longleftrightarrow> (\<exists>i l. om_get ?b i = Some l \<and> (\<exists>s\<in>set l. sc_name s = n))" by blast
  moreover have "carried ?b n i \<noteq> None \<longleftrightarrow> (\<exists>l. om_get ?b i = Some l \<and> (\<exists>s\<in>set l. sc_name s = n))" for i
    using find_ex [of "\<lambda>s. sc_name s = n"] by (cases "om_get ?b i") (simp_all only: carried_def option.case, simp_all)
  ultimately show ?thesis by blast
qed

lemma om_ok_roll: "om_ok out \<Longrightarrow> om_ok (fold (roll_name tree b cfg) names out)"
  by (induction names arbitrary: out) (auto simp: roll_name_def Let_def split: option.split)

lemma measured_get:
  "(case om_get (measured_scores t scores) n of None \<Rightarrow> True | Some r \<Rightarrow> rl_measured r \<and> rl_spans r = []) \<and>
   (om_get (measured_scores t scores) n = None \<longleftrightarrow>
     (\<forall>m\<in>set scores. \<not> (sc_name m = n \<and> sc_target m = TargetTrace t \<and> sc_num_value m \<noteq> None)))"
  unfolding measured_scores_def
  by (induction scores rule: rev_induct) (auto simp: map_simps split: option.splits)

lemma om_ok_measured: "om_ok (measured_scores t scores)"
  unfolding measured_scores_def by (induction scores rule: rev_induct) (auto split: option.split)

lemma no_carrier: "\<forall>i. carried b n i = None \<Longrightarrow> shallowest_carriers tree n b = []"
  using carriers_walk [of "fst tree" b n "snd tree" "{}"] by (auto simp: shallowest_carriers_def)

text \<open>What the rollup returns under one name.\<close>

lemma rollup_trace_get:
  "r \<in> set (rollup_trace t spans scores cfg) \<longleftrightarrow>
     (\<exists>n. (if om_get (measured_scores t scores) n \<noteq> None then om_get (measured_scores t scores) n = Some r
          else shallowest_carriers (tree_build spans) n (index_scores scores) \<noteq> [] \<and>
            derive_score cfg n (shallowest_carriers (tree_build spans) n (index_scores scores)) = Some r))"
proof -
  let ?out = "measured_scores t scores" and ?b = "index_scores scores"
  let ?all = "fold (roll_name (tree_build spans) ?b cfg) (score_names ?b) ?out"
  have "rollup_trace t spans scores cfg = om_values ?all"
    by (simp add: rollup_trace_def Let_def score_names_def om_values_def om_keys_def om_empty_def)
  then have "r \<in> set (rollup_trace t spans scores cfg) \<longleftrightarrow> (\<exists>n. om_get ?all n = Some r)"
    by (simp add: om_values_set om_ok_roll om_ok_measured)
  moreover have "shallowest_carriers (tree_build spans) n ?b = []" if "n \<notin> set (score_names ?b)" for n
    using that score_names_set no_carrier by blast
  then have "om_get ?all n = Some r \<longleftrightarrow>
      (if om_get ?out n \<noteq> None then om_get ?out n = Some r
       else shallowest_carriers (tree_build spans) n ?b \<noteq> [] \<and>
         derive_score cfg n (shallowest_carriers (tree_build spans) n ?b) = Some r)" for n
    by (cases "n \<in> set (score_names ?b)") (simp_all add: roll_names_get Let_def)
  ultimately show ?thesis by simp
qed

text \<open>
  C17. A trace's rollup counts every score of its spans once. Unless the trace itself carries the
  name, a numeric or boolean score of one of its spans is represented in the derived value: its span,
  or one above it in the tree, contributes, even when the parents form a cycle. No span contributes
  below another, and the value is the named function of exactly the contributors' values.
\<close>
theorem rollup_counts_every_score_once:
  assumes "s \<in> set scores" "sc_target s = TargetSpan i" "rollable s" "i \<in> ns_span_id ` set spans"
    and "\<forall>m\<in>set scores. \<not> (sc_name m = sc_name s \<and> sc_target m = TargetTrace t \<and> sc_num_value m \<noteq> None)"
    and "distinct (map ns_span_id spans)"
  defines "E \<equiv> tree_edges (tree_build spans)"
  shows "\<exists>r f. r \<in> set (rollup_trace t spans scores cfg) \<and> rl_name r = sc_name s \<and> \<not> rl_measured r \<and>
    (\<exists>c\<in>set (rl_spans r). (c, i) \<in> E\<^sup>*) \<and>
    distinct (rl_spans r) \<and> (\<forall>c\<in>set (rl_spans r). \<forall>d\<in>set (rl_spans r). (c, d) \<notin> E\<^sup>+) \<and>
    rl_function r = Some (rollup_as_str f) \<and>
    rl_value r = roll_apply f (map (\<lambda>c. the (sc_num_value (the (carried (index_scores scores) (sc_name s) c)))) (rl_spans r))"
proof -
  let ?b = "index_scores scores" and ?n = "sc_name s"
  obtain ch roots where tree: "tree_build spans = (ch, roots)" by fastforce
  let ?found = "shallowest_carriers (ch, roots) ?n ?b"
  have carried: "carried ?b ?n i \<noteq> None" using carried_iff assms(1-3) by blast
  have cover: "\<exists>c\<in>fst ` set ?found. (c, i) \<in> E\<^sup>*"
    using shallowest_cover [OF tree_reaches [OF tree assms(4)] carried] by (simp add: E_def tree)
  have rollable: "\<forall>(i, s)\<in>set ?found. rollable s"
    using carriers_carried carried_Some by (fastforce simp: shallowest_carriers_def)
  have ne: "?found \<noteq> []" using cover by auto
  obtain r f where r: "derive_score cfg ?n ?found = Some r" "rl_name r = ?n" "\<not> rl_measured r" "rl_spans r = map fst ?found"
    "rl_function r = Some (rollup_as_str f)" "rl_value r = roll_apply f (map (\<lambda>(i, s). the (sc_num_value s)) ?found)"
    using derive_score_rollable [OF ne rollable] by blast
  have "om_get (measured_scores t scores) ?n = None" using measured_get assms(5) by blast
  then have "r \<in> set (rollup_trace t spans scores cfg)"
    unfolding rollup_trace_get tree using r(1) ne by (intro exI [of _ ?n]) simp
  moreover have "distinct (rl_spans r)" by (simp add: r(4) shallowest_carriers_def carriers_distinct)
  moreover have "p = p'" if "(p, k) \<in> child ch" "(p', k) \<in> child ch" for p p' k
    using tree_child [OF tree that(1)] tree_child [OF tree that(2)] assms(6) by (auto simp: distinct_map inj_on_def)
  then have "\<forall>c\<in>set (rl_spans r). \<forall>d\<in>set (rl_spans r). (c, d) \<notin> E\<^sup>+"
    using shallowest_antichain [of ch _ roots ?n ?b] by (simp add: r(4) E_def tree)
  moreover have "map (\<lambda>(i, s). the (sc_num_value s)) ?found =
      map (\<lambda>c. the (sc_num_value (the (carried ?b ?n c)))) (rl_spans r)"
    unfolding r(4) map_map using carriers_carried [of _ _ ch ?b ?n roots "{}"]
    by (intro map_cong) (auto simp: shallowest_carriers_def)
  moreover have "\<exists>c\<in>set (rl_spans r). (c, i) \<in> E\<^sup>*" using cover by (simp add: r(4))
  ultimately show ?thesis using r(2,3,5,6) by metis
qed


text \<open>
  The trace of the module's own example: the scored step and its two scored children. The step's score
  stands for its subtree.
\<close>

definition step_span :: "str \<Rightarrow> str option \<Rightarrow> normalized_span" where
  "step_span i parent = (plain_span ''t'' i 1)\<lparr>ns_parent_span_id := parent\<rparr>"

definition step_score :: "str \<Rightarrow> f64 \<Rightarrow> score" where
  "step_score i v = (sample_score i (TargetSpan i) 1)\<lparr>sc_num_value := Some v, sc_data_type := Numeric\<rparr>"

theorem rollup_counts_every_score_once_witness:
  "\<exists>r f. r \<in> set (rollup_trace ''t'' [step_span ''a'' None, step_span ''b'' (Some ''a''), step_span ''c'' (Some ''b'')]
       [step_score ''b'' f_one, step_score ''c'' f_zero] \<lparr>rg_by_name = om_empty, rg_default_numeric = RollMean\<rparr>)
     \<and> rl_name r = ''quality'' \<and> rl_function r = Some (rollup_as_str f)"
proof -
  let ?spans = "[step_span ''a'' None, step_span ''b'' (Some ''a''), step_span ''c'' (Some ''b'')]"
  let ?scores = "[step_score ''b'' f_one, step_score ''c'' f_zero]"
  have "step_score ''c'' f_zero \<in> set ?scores" "sc_target (step_score ''c'' f_zero) = TargetSpan ''c''" "rollable (step_score ''c'' f_zero)"
    "''c'' \<in> ns_span_id ` set ?spans"
    "\<forall>m\<in>set ?scores. \<not> (sc_name m = sc_name (step_score ''c'' f_zero) \<and> sc_target m = TargetTrace ''t'' \<and> sc_num_value m \<noteq> None)"
    "distinct (map ns_span_id ?spans)"
    by (simp_all add: step_span_def step_score_def sample_score_def rollable_def)
  note w = rollup_counts_every_score_once [OF this]
  have n: "sc_name (step_score ''c'' f_zero) = ''quality''" by (simp add: step_score_def sample_score_def)
  show ?thesis using w [of "\<lparr>rg_by_name = om_empty, rg_default_numeric = RollMean\<rparr>"] unfolding n by blast
qed

end
