(* ===== verification/Usage.thy ===== *)
theory Usage
  imports FloatOrd Agent Price Scores
begin

text \<open>
  The usage series of \<^verbatim>\<open>src/usage.rs\<close>, recorded for each committed batch: interned labels with caps,
  a ceiling on the label tuples, histograms, the tool-call counters and the rolling score windows; and
  the time to first token of \<^verbatim>\<open>src/latency.rs\<close>. The lock is held for a whole call, so calls are
  steps. Rendering to text is not modelled.
\<close>

section \<open>Time to first token\<close>

definition ttft_attrs :: "(str \<times> f64) list" where
  "ttft_attrs =
     [(''gen_ai.response.time_to_first_chunk'', f_one), (''ai.response.msToFirstChunk'', f_round False 1 1000),
      (''ai.stream.msToFirstChunk'', f_round False 1 1000), (''time_to_first_token_ms'', f_round False 1 1000)]"

fun position :: "('a \<Rightarrow> bool) \<Rightarrow> 'a list \<Rightarrow> nat option" where
  "position P [] = None"
| "position P (x # xs) = (if P x then Some 0 else map_option Suc (position P xs))"

definition ttft_number :: "json \<Rightarrow> f64 option" where
  "ttft_number raw =
     opt_or (j_as_f64 raw) (case j_as_str raw of None \<Rightarrow> None | Some s \<Rightarrow> f_parse (trim s))"

definition ttft_step :: "str \<times> json \<Rightarrow> (nat \<times> f64) option \<Rightarrow> (nat \<times> f64) option" where
  "ttft_step kv best =
     (case position (\<lambda>(name, _). name = fst kv) ttft_attrs of
        None \<Rightarrow> best
      | Some i \<Rightarrow>
          if (case best of Some (seen, _) \<Rightarrow> seen \<le> i | None \<Rightarrow> False) then best
          else case ttft_number (snd kv) of
                 None \<Rightarrow> best
               | Some v \<Rightarrow> if is_finite v \<and> f_nonneg v then Some (i, f_mul v (snd (ttft_attrs ! i))) else best)"

definition ttft_seconds :: "(str, json) omap \<Rightarrow> f64 option" where
  "ttft_seconds attrs = map_option snd (fold ttft_step attrs None)"

section \<open>Labels\<close>

record interner =
  in_cap :: usize
  in_ids :: "(str, nat) omap"
  in_names :: "str list"

definition interner_new :: "usize \<Rightarrow> interner" where
  "interner_new cap = \<lparr>in_cap = cap, in_ids = om_empty, in_names = [''other'']\<rparr>"

text \<open>The id, whether the value was folded into \<open>other\<close>, and the interner after the call.\<close>

definition intern :: "str \<Rightarrow> interner \<Rightarrow> nat \<times> bool \<times> interner" where
  "intern v n =
     (case om_get (in_ids n) v of
        Some i \<Rightarrow> (i, False, n)
      | None \<Rightarrow>
          if length (in_names n) - 1 < in_cap n
          then (length (in_names n), False,
                n\<lparr>in_names := in_names n @ [v], in_ids := om_insert v (length (in_names n)) (in_ids n)\<rparr>)
          else (0, True, n))"

section \<open>Histograms\<close>

definition time_buckets :: "f64 list" where
  "time_buckets = map (\<lambda>c. f_round False c 100)
     [1, 2, 4, 8, 16, 32, 64, 128, 256, 512, 1024, 2048, 4096, 8192, 16384, 32768]"

record hist =
  hi_counts :: "u64 list"
  hi_sum :: f64
  hi_count :: u64

definition hist_new :: hist where
  "hist_new = \<lparr>hi_counts = replicate (length time_buckets) 0, hi_sum = f_zero, hi_count = 0\<rparr>"

text \<open>\<open>partition_point\<close> on ascending bounds: how many of them are below \<open>v\<close>.\<close>

definition observe :: "f64 \<Rightarrow> hist \<Rightarrow> hist" where
  "observe v h =
     (let i = length (takeWhile (\<lambda>b. f_lt b v) time_buckets)
      in h\<lparr>hi_counts := (if i < length (hi_counts h) then (hi_counts h)[i := hi_counts h ! i + 1] else hi_counts h),
           hi_sum := f_add (hi_sum h) v, hi_count := hi_count h + 1\<rparr>)"

section \<open>The series\<close>

record series =
  se_requests :: u64
  se_errors :: u64
  se_cost_usd :: f64
  se_without_cost :: u64
  se_cache_read :: u64
  se_cache_write :: u64
  se_reasoning :: u64
  se_input_tokens :: u64
  se_output_tokens :: u64
  se_duration :: hist
  se_ttft :: hist

definition series_new :: series where
  "series_new = \<lparr>se_requests = 0, se_errors = 0, se_cost_usd = f_zero, se_without_cost = 0, se_cache_read = 0,
     se_cache_write = 0, se_reasoning = 0, se_input_tokens = 0, se_output_tokens = 0, se_duration = hist_new,
     se_ttft = hist_new\<rparr>"

type_synonym series_key = "nat \<times> nat \<times> nat"

record usage =
  us_providers :: interner
  us_models :: interner
  us_services :: interner
  us_series :: "(series_key, series) omap"
  us_folded :: u64
  us_tools :: interner
  us_tool_series :: "(nat \<times> nat, u64 \<times> u64) omap"
  us_scores :: "(str, f64 list) omap"
  us_scores_untracked :: u64

definition max_series :: usize where "max_series = 2048"
definition provider_cap :: usize where "provider_cap = 16"
definition service_cap :: usize where "service_cap = 32"
definition tool_cap :: usize where "tool_cap = 64"
definition max_tool_series :: usize where "max_tool_series = 512"
definition score_window :: usize where "score_window = 1024"
definition score_names_cap :: usize where "score_names_cap = 64"

definition usage_new :: "usize \<Rightarrow> usage" where
  "usage_new model_cap = \<lparr>us_providers = interner_new provider_cap, us_models = interner_new (max model_cap 1),
     us_services = interner_new service_cap, us_series = om_empty, us_folded = 0, us_tools = interner_new tool_cap,
     us_tool_series = om_empty, us_scores = om_empty, us_scores_untracked = 0\<rparr>"

definition label_or :: "str option \<Rightarrow> str" where
  "label_or x = (case x of Some v \<Rightarrow> v | None \<Rightarrow> ''unknown'')"

definition record_tool :: "normalized_span \<Rightarrow> usage \<Rightarrow> usage" where
  "record_tool s u =
     (let (service, f1, services) = intern (label_or (ns_service_name s)) (us_services u);
          (tool, f2, tools) = intern (label_or (tool_name s)) (us_tools u);
          full = om_get (us_tool_series u) (service, tool) = None \<and> max_tool_series - 1 \<le> length (us_tool_series u);
          key = (if full then (0, 0) else (service, tool));
          folded = (f1 \<or> f2 \<or> full)
      in u\<lparr>us_services := services, us_tools := tools,
           us_folded := (if folded then us_folded u + 1 else us_folded u),
           us_tool_series := om_alter key (0, 0) (\<lambda>(n, bad). (n + 1, bad + (if span_failed s then 1 else 0))) (us_tool_series u)\<rparr>)"

text \<open>The three labels of a span, interned; and the counters of its series.\<close>

definition span_labels :: "normalized_span \<Rightarrow> str \<times> str \<times> str" where
  "span_labels s = (label_or (ns_provider s), label_or (ns_model s), label_or (ns_service_name s))"

definition intern_labels :: "str \<times> str \<times> str \<Rightarrow> usage \<Rightarrow> (series_key \<times> bool) \<times> usage" where
  "intern_labels l u =
     (case l of (provider, model, service) \<Rightarrow>
        let (p, f1, ps) = intern provider (us_providers u);
            (m, f2, ms) = intern model (us_models u);
            (v, f3, vs) = intern service (us_services u)
        in (((p, m, v), f1 \<or> f2 \<or> f3), u\<lparr>us_providers := ps, us_models := ms, us_services := vs\<rparr>))"

definition count_span :: "normalized_span \<Rightarrow> series \<Rightarrow> series" where
  "count_span s e =
     (let e1 = e\<lparr>se_requests := se_requests e + 1, se_errors := se_errors e + (if ns_status_code s = 2 then 1 else 0)\<rparr>;
          e2 = (case ns_cost_usd s of
                  Some c \<Rightarrow> if is_finite c then e1\<lparr>se_cost_usd := f_add (se_cost_usd e1) c\<rparr>
                            else e1\<lparr>se_without_cost := se_without_cost e1 + 1\<rparr>
                | None \<Rightarrow> e1\<lparr>se_without_cost := se_without_cost e1 + 1\<rparr>);
          e3 = e2\<lparr>se_duration := observe (f_div (f_of_int (int (duration_ns s))) (f_of_int 1000000000)) (se_duration e2)\<rparr>;
          e4 = (case ttft_seconds (ns_raw_attributes s) of Some t \<Rightarrow> e3\<lparr>se_ttft := observe t (se_ttft e3)\<rparr> | None \<Rightarrow> e3);
          t = ns_tokens s
      in e4\<lparr>se_input_tokens := wrap_add (se_input_tokens e4) (or_zero (tk_prompt t)),
            se_output_tokens := wrap_add (se_output_tokens e4) (or_zero (tk_completion t)),
            se_cache_read := wrap_add (se_cache_read e4) (or_zero (tk_cache_read t)),
            se_cache_write := wrap_add (se_cache_write e4) (or_zero (tk_cache_write t)),
            se_reasoning := wrap_add (se_reasoning e4) (or_zero (tk_reasoning t))\<rparr>)"

definition count_in_series :: "normalized_span \<Rightarrow> series_key \<times> bool \<Rightarrow> usage \<Rightarrow> usage" where
  "count_in_series s kf u =
     (let (key0, folded0) = kf;
          full = om_get (us_series u) key0 = None \<and> max_series - 1 \<le> length (us_series u);
          key = (if full then (0, 0, 0) else key0);
          folded = (folded0 \<or> full)
      in u\<lparr>us_folded := (if folded then us_folded u + 1 else us_folded u),
           us_series := om_alter key series_new (count_span s) (us_series u)\<rparr>)"

type_synonym label_memo = "((str \<times> str \<times> str) \<times> (series_key \<times> bool)) option"

definition record_span :: "normalized_span \<Rightarrow> usage \<times> label_memo \<Rightarrow> usage \<times> label_memo" where
  "record_span s um =
     (let (u, memo) = um
      in if \<not> is_llm_span s then (if is_kind s ''TOOL'' then record_tool s u else u, memo)
         else case (case memo of Some (l, kf) \<Rightarrow> if l = span_labels s then Some kf else None | None \<Rightarrow> None) of
                Some kf \<Rightarrow> (count_in_series s kf u, memo)
              | None \<Rightarrow>
                  (let (kf, u1) = intern_labels (span_labels s) u
                   in (count_in_series s kf u1, Some (span_labels s, kf))))"

definition usage_record :: "normalized_span list \<Rightarrow> usage \<Rightarrow> usage" where
  "usage_record spans u = fst (fold record_span spans (u, None))"

definition record_score :: "score \<Rightarrow> usage \<Rightarrow> usage" where
  "record_score sc u =
     (case sc_num_value sc of
        None \<Rightarrow> u
      | Some v \<Rightarrow>
          if \<not> is_finite v then u
          else if (case sc_target sc of TargetRun _ \<Rightarrow> True | _ \<Rightarrow> False) \<or> sc_agg_stats sc \<noteq> None then u
          else if om_get (us_scores u) (sc_name sc) = None \<and> score_names_cap \<le> length (us_scores u)
          then u\<lparr>us_scores_untracked := us_scores_untracked u + 1\<rparr>
          else u\<lparr>us_scores := om_alter (sc_name sc) []
                   (\<lambda>w. (if score_window \<le> length w then tl w else w) @ [v]) (us_scores u)\<rparr>)"

definition record_scores :: "score list \<Rightarrow> usage \<Rightarrow> usage" where
  "record_scores scs u = fold record_score scs u"

definition series_len :: "usage \<Rightarrow> usize" where
  "series_len u = length (us_series u)"

section \<open>Remembering the last labels changes nothing\<close>

text \<open>The same recording with every span's labels interned.\<close>

definition record_span_plain :: "normalized_span \<Rightarrow> usage \<Rightarrow> usage" where
  "record_span_plain s u =
     (if \<not> is_llm_span s then (if is_kind s ''TOOL'' then record_tool s u else u)
      else let (kf, u1) = intern_labels (span_labels s) u in count_in_series s kf u1)"

definition settled :: "str \<Rightarrow> interner \<Rightarrow> nat \<Rightarrow> bool \<Rightarrow> bool" where
  "settled v n i f \<longleftrightarrow>
     om_get (in_ids n) v = Some i \<and> \<not> f \<or> om_get (in_ids n) v = None \<and> f \<and> i = 0 \<and> \<not> length (in_names n) - 1 < in_cap n"

lemma settled_iff: "intern v n = (i, f, n) \<longleftrightarrow> settled v n i f"
proof -
  have "n\<lparr>in_names := in_names n @ [v], in_ids := x\<rparr> \<noteq> n" for x
  proof
    assume "n\<lparr>in_names := in_names n @ [v], in_ids := x\<rparr> = n"
    then have "in_names (n\<lparr>in_names := in_names n @ [v], in_ids := x\<rparr>) = in_names n" by (rule arg_cong)
    then show False by simp
  qed
  then show ?thesis by (auto simp: settled_def intern_def split: option.split)
qed

lemma intern_settles: "intern v n = (i, f, n') \<Longrightarrow> settled v n' i f"
  by (auto simp: settled_def intern_def map_simps split: option.splits if_splits)

lemma intern_keeps_settled: "settled v n i f \<Longrightarrow> settled v (snd (snd (intern w n))) i f"
  by (auto simp: settled_def intern_def map_simps split: option.splits if_splits)

definition labels_settled :: "str \<times> str \<times> str \<Rightarrow> series_key \<times> bool \<Rightarrow> usage \<Rightarrow> bool" where
  "labels_settled l kf u \<longleftrightarrow>
     (case (l, kf) of ((p, m, v), ((a, b, c), f)) \<Rightarrow>
        \<exists>f1 f2 f3. settled p (us_providers u) a f1 \<and> settled m (us_models u) b f2 \<and> settled v (us_services u) c f3 \<and>
          f = (f1 \<or> f2 \<or> f3))"

lemma labels_settled_intern:
  assumes "labels_settled l kf u"
  shows "intern_labels l u = (kf, u)"
proof -
  obtain p m v a b c f where lk: "l = (p, m, v)" "kf = ((a, b, c), f)" by (metis prod_cases3 surj_pair)
  obtain f1 f2 f3 where s: "intern p (us_providers u) = (a, f1, us_providers u)" "intern m (us_models u) = (b, f2, us_models u)"
    "intern v (us_services u) = (c, f3, us_services u)" "f = (f1 \<or> f2 \<or> f3)"
    using assms by (auto simp: labels_settled_def lk settled_iff)
  show ?thesis by (simp add: intern_labels_def lk s)
qed

lemma intern_labels_settles:
  assumes "intern_labels l u = (kf, u')"
  shows "labels_settled l kf u'"
proof -
  obtain p m v where l: "l = (p, m, v)" by (metis prod_cases3)
  obtain a f1 ps b f2 ms c f3 vs where i: "intern p (us_providers u) = (a, f1, ps)" "intern m (us_models u) = (b, f2, ms)"
    "intern v (us_services u) = (c, f3, vs)" by (metis prod_cases3)
  have "kf = ((a, b, c), f1 \<or> f2 \<or> f3)" "u' = u\<lparr>us_providers := ps, us_models := ms, us_services := vs\<rparr>"
    using assms by (simp_all add: intern_labels_def l i)
  then show ?thesis using i [THEN intern_settles] by (auto simp: labels_settled_def l)
qed

lemma labels_settled_tool: "labels_settled l kf u \<Longrightarrow> labels_settled l kf (record_tool s u)"
proof -
  assume l: "labels_settled l kf u"
  have e: "us_providers (record_tool s u) = us_providers u" "us_models (record_tool s u) = us_models u"
    "us_services (record_tool s u) = snd (snd (intern (label_or (ns_service_name s)) (us_services u)))"
    by (simp_all add: record_tool_def Let_def case_prod_beta)
  show ?thesis using l intern_keeps_settled unfolding labels_settled_def case_prod_beta e by blast
qed

lemma labels_settled_count [simp]: "labels_settled l kf (count_in_series s kf' u) = labels_settled l kf u"
  by (simp add: labels_settled_def count_in_series_def Let_def case_prod_beta)

lemma record_span_plain_eq:
  assumes "case memo of None \<Rightarrow> True | Some (l, kf) \<Rightarrow> labels_settled l kf u"
  shows "fst (record_span s (u, memo)) = record_span_plain s u \<and>
    (case snd (record_span s (u, memo)) of None \<Rightarrow> True | Some (l, kf) \<Rightarrow> labels_settled l kf (record_span_plain s u))"
proof (cases "is_llm_span s")
  case False
  then show ?thesis using assms
    by (auto simp: record_span_def record_span_plain_def labels_settled_tool split: option.splits)
next
  case True
  obtain kf1 u1 where i: "intern_labels (span_labels s) u = (kf1, u1)" by fastforce
  show ?thesis
  proof (cases "\<exists>kf. memo = Some (span_labels s, kf)")
    case hit: True
    then obtain kf where memo: "memo = Some (span_labels s, kf)" by blast
    then have "labels_settled (span_labels s) kf u" using assms by simp
    from labels_settled_intern [OF this] this show ?thesis
      using True by (simp add: record_span_def record_span_plain_def memo Let_def)
  next
    case False
    then have "(case memo of Some (l, kf) \<Rightarrow> if l = span_labels s then Some kf else None | None \<Rightarrow> None) = None"
      by (auto split: option.split)
    then show ?thesis
      using True i intern_labels_settles [OF i] by (simp add: record_span_def record_span_plain_def)
  qed
qed

lemma fold_record_plain:
  "case memo of None \<Rightarrow> True | Some (l, kf) \<Rightarrow> labels_settled l kf u \<Longrightarrow>
     fst (fold record_span spans (u, memo)) = fold record_span_plain spans u"
proof (induction spans arbitrary: u memo)
  case (Cons s spans)
  obtain u' memo' where r: "record_span s (u, memo) = (u', memo')" by fastforce
  note e = record_span_plain_eq [OF Cons(2), of s]
  from e have u': "u' = record_span_plain s u" by (simp add: r)
  from e have "case memo' of None \<Rightarrow> True | Some (l, kf) \<Rightarrow> labels_settled l kf u'" unfolding u' by (simp add: r)
  from Cons(1) [OF this] show ?case by (simp add: r u')
qed simp

lemma usage_record_plain: "usage_record spans u = fold record_span_plain spans u"
  using fold_record_plain [where memo = None and u = u and spans = spans] by (simp add: usage_record_def)

section \<open>Every span is counted once\<close>

lemma length_om_insert: "om_ok m \<Longrightarrow> length (om_insert k v m) = (if om_get m k = None then Suc (length m) else length m)"
proof -
  assume ok: "om_ok m"
  have len: "length m' = card (set (om_keys m'))" if "om_ok m'" for m' :: "('a::linorder, 'b) omap"
    using om_ok_distinct [OF that] distinct_card [of "om_keys m'"] by (simp add: om_keys_def)
  show ?thesis using len [OF ok] len [OF om_ok_insert [OF ok], of k v] by (simp add: map_simps om_keys_get card_insert_if)
qed

lemma sum_om_alter:
  assumes "om_ok m" "\<And>x. f (g x) = f x + c" "f d = (0::nat)"
  shows "sum_list (map f (om_values (om_alter k d g m))) = sum_list (map f (om_values m)) + c"
proof -
  have "sum_list (map f (om_values (om_insert k (g (case om_get m k of None \<Rightarrow> d | Some v \<Rightarrow> v)) m))) =
      sum_list (map f (om_values m)) + c"
    using assms(1)
  proof (induction m)
    case Nil
    show ?case by (simp add: om_values_def om_get_def assms(2,3))
  next
    case (Cons p m)
    have ok: "om_ok m" and less: "\<forall>k'\<in>fst ` set m. fst p < k'" using Cons(2) by (auto simp: om_ok_def om_keys_def)
    show ?case
    proof (cases "fst p < k")
      case True
      then have "k \<noteq> fst p" by auto
      then show ?thesis using Cons(1) [OF ok] True by (simp add: om_values_def om_get_def)
    next
      case False
      have "k \<noteq> fst p \<Longrightarrow> om_get m k = None"
        using False less by (auto simp: om_get_def map_of_eq_None_iff)
      then show ?thesis using False by (auto simp: om_values_def om_get_def assms(2,3))
    qed
  qed
  then show ?thesis by (simp add: om_alter_def)
qed

lemma all_om_alter:
  assumes "\<forall>v\<in>set (om_values m). P v" "\<And>v. P v \<Longrightarrow> P (g v)" "P d" "om_ok m"
  shows "\<forall>v\<in>set (om_values (om_alter k d g m)). P v"
proof -
  have P: "P v" if "om_get m i = Some v" for i v using assms(1) that om_values_set [OF assms(4)] by blast
  have "P v" if "om_get (om_alter k d g m) i = Some v" for i v
    using that P assms(2,3) by (auto simp: map_simps split: option.splits if_splits)
  then show ?thesis using om_values_set [OF om_ok_alter [OF assms(4)]] by blast
qed


text \<open>Equivalence: remembering the last three labels and the ids they got, to spare the lookups for the next
  span, changes nothing. Recording a batch is recording each of its spans with its labels interned afresh.\<close>

theorem label_memo_changes_nothing: "usage_record spans u = fold record_span_plain spans u"
  by (rule usage_record_plain)

definition total_requests :: "usage \<Rightarrow> nat" where
  "total_requests u = sum_list (map se_requests (om_values (us_series u)))"

definition total_tool_calls :: "usage \<Rightarrow> nat" where
  "total_tool_calls u = sum_list (map fst (om_values (us_tool_series u)))"

lemma series_insert_count:
  "se_requests (count_span s e) = se_requests e + 1" "hi_count (se_duration (count_span s e)) = hi_count (se_duration e) + 1"
  by (simp_all add: count_span_def Let_def observe_def split: option.splits if_splits)

definition usage_ok :: "usage \<Rightarrow> bool" where
  "usage_ok u \<longleftrightarrow>
     om_ok (us_series u) \<and> om_ok (us_tool_series u) \<and> om_ok (us_scores u) \<and>
     (\<forall>e\<in>set (om_values (us_series u)). hi_count (se_duration e) = se_requests e)"

lemma usage_ok_new [simp]: "usage_ok (usage_new cap)"
  by (simp add: usage_ok_def usage_new_def om_values_def om_empty_def om_ok_def om_keys_def)

lemma usage_ok_tool:
  assumes "usage_ok u"
  shows "usage_ok (record_tool s u) \<and> total_requests (record_tool s u) = total_requests u \<and>
    total_tool_calls (record_tool s u) = total_tool_calls u + 1"
proof -
  obtain key g where "us_tool_series (record_tool s u) = om_alter key (0, 0) g (us_tool_series u)"
    and g: "\<And>x. fst (g x) = fst x + 1"
    by (simp add: record_tool_def Let_def case_prod_beta)
  then have "total_tool_calls (record_tool s u) = total_tool_calls u + 1" "om_ok (us_tool_series (record_tool s u))"
    using assms sum_om_alter [where f = fst and c = 1 and d = "(0, 0)" and g = g and m = "us_tool_series u" and k = key] by (simp_all add: total_tool_calls_def usage_ok_def)
  then show ?thesis using assms
    by (simp add: usage_ok_def total_requests_def record_tool_def Let_def case_prod_beta)
qed

lemma usage_ok_count:
  assumes "usage_ok u"
  shows "usage_ok (count_in_series s kf u) \<and> total_requests (count_in_series s kf u) = total_requests u + 1 \<and>
    total_tool_calls (count_in_series s kf u) = total_tool_calls u"
proof -
  obtain key where key: "us_series (count_in_series s kf u) = om_alter key series_new (count_span s) (us_series u)"
    by (simp add: count_in_series_def Let_def case_prod_beta)
  have ok: "om_ok (us_series u)" using assms by (simp add: usage_ok_def)
  have "total_requests (count_in_series s kf u) = total_requests u + 1"
    using sum_om_alter [OF ok, where f = se_requests and c = 1 and d = series_new and g = "count_span s"]
    by (simp add: total_requests_def key series_insert_count series_new_def)
  moreover have "\<forall>e\<in>set (om_values (us_series (count_in_series s kf u))). hi_count (se_duration e) = se_requests e"
    unfolding key by (rule all_om_alter [OF _ _ _ ok])
      (use assms in \<open>simp_all add: usage_ok_def series_insert_count series_new_def hist_new_def\<close>)
  ultimately show ?thesis using assms
    by (simp add: usage_ok_def key, simp add: total_tool_calls_def count_in_series_def Let_def case_prod_beta)
qed

lemma intern_labels_series:
  "us_series (snd (intern_labels l u)) = us_series u" "us_tool_series (snd (intern_labels l u)) = us_tool_series u"
  "us_scores (snd (intern_labels l u)) = us_scores u" "us_tools (snd (intern_labels l u)) = us_tools u"
  by (simp_all add: intern_labels_def case_prod_beta Let_def)

lemma record_span_plain_counts:
  assumes "usage_ok u"
  shows "usage_ok (record_span_plain s u) \<and>
    total_requests (record_span_plain s u) = total_requests u + (if is_llm_span s then 1 else 0) \<and>
    total_tool_calls (record_span_plain s u) = total_tool_calls u + (if \<not> is_llm_span s \<and> is_kind s ''TOOL'' then 1 else 0)"
proof -
  have e: "usage_ok (snd (intern_labels l u))" "total_requests (snd (intern_labels l u)) = total_requests u"
    "total_tool_calls (snd (intern_labels l u)) = total_tool_calls u" for l
    using assms by (simp_all add: usage_ok_def total_requests_def total_tool_calls_def intern_labels_series)
  show ?thesis using assms usage_ok_tool [OF assms, of s] usage_ok_count [OF e(1)]
    by (simp add: record_span_plain_def case_prod_beta e)
qed

lemma usage_record_counts:
  assumes "usage_ok u"
  shows "usage_ok (usage_record spans u) \<and>
    total_requests (usage_record spans u) = total_requests u + length (filter is_llm_span spans) \<and>
    total_tool_calls (usage_record spans u) =
      total_tool_calls u + length (filter (\<lambda>s. \<not> is_llm_span s \<and> is_kind s ''TOOL'') spans)"
  using assms unfolding usage_record_plain
proof (induction spans arbitrary: u)
  case (Cons s spans)
  note p = record_span_plain_counts [OF Cons(2), of s]
  then show ?case using Cons(1) [of "record_span_plain s u"] by simp
qed simp

section \<open>Everything kept is bounded\<close>

definition interner_bounded :: "usize \<Rightarrow> interner \<Rightarrow> bool" where
  "interner_bounded cap n \<longleftrightarrow> in_cap n = cap \<and> length (in_names n) \<le> cap + 1 \<and> in_names n \<noteq> []"

lemma interner_bounded_new [simp]: "interner_bounded cap (interner_new cap)"
  by (simp add: interner_bounded_def interner_new_def)

lemma interner_bounded_intern: "interner_bounded cap n \<Longrightarrow> interner_bounded cap (snd (snd (intern v n)))"
  by (cases "in_names n") (auto simp: interner_bounded_def intern_def split: option.split)

definition map_bounded :: "'k \<Rightarrow> usize \<Rightarrow> ('k::linorder, 'v) omap \<Rightarrow> bool" where
  "map_bounded overflow cap m \<longleftrightarrow> om_ok m \<and> length m \<le> cap \<and> (length m = cap \<longrightarrow> om_get m overflow \<noteq> None)"

lemma length_om_alter: "om_ok m \<Longrightarrow> length (om_alter k d g m) = (if om_get m k = None then Suc (length m) else length m)"
  by (simp add: om_alter_def length_om_insert)

lemma map_bounded_alter_overflow: "map_bounded z cap m \<Longrightarrow> 0 < cap \<Longrightarrow> map_bounded z cap (om_alter z d g m)"
  by (cases "om_get m z = None") (auto simp: map_bounded_def length_om_alter om_ok_alter map_simps)

lemma map_bounded_alter:
  assumes "map_bounded z cap m" "0 < cap"
  shows "map_bounded z cap (om_alter (if om_get m k = None \<and> cap - 1 \<le> length m then z else k) d g m)"
proof (cases "om_get m k = None \<and> cap - 1 \<le> length m")
  case True
  then show ?thesis using map_bounded_alter_overflow [OF assms] by simp
next
  case False
  then show ?thesis using assms by (auto simp: map_bounded_def length_om_alter om_ok_alter map_simps)
qed

definition usage_bounded :: "usize \<Rightarrow> usage \<Rightarrow> bool" where
  "usage_bounded cap u \<longleftrightarrow>
     interner_bounded provider_cap (us_providers u) \<and> interner_bounded (max cap 1) (us_models u) \<and>
     interner_bounded service_cap (us_services u) \<and> interner_bounded tool_cap (us_tools u) \<and>
     map_bounded (0, 0, 0) max_series (us_series u) \<and> map_bounded (0, 0) max_tool_series (us_tool_series u) \<and>
     om_ok (us_scores u) \<and> length (us_scores u) \<le> score_names_cap \<and>
     (\<forall>w\<in>set (om_values (us_scores u)). length w \<le> score_window)"

lemma series_of_tool:
  "us_tool_series (record_tool s u) =
     om_alter
       (if om_get (us_tool_series u)
             (fst (intern (label_or (ns_service_name s)) (us_services u)), fst (intern (label_or (tool_name s)) (us_tools u))) = None \<and>
           max_tool_series - 1 \<le> length (us_tool_series u)
        then (0, 0)
        else (fst (intern (label_or (ns_service_name s)) (us_services u)), fst (intern (label_or (tool_name s)) (us_tools u))))
       (0, 0) (\<lambda>(n, bad). (n + 1, bad + (if span_failed s then 1 else 0))) (us_tool_series u)"
  by (simp add: record_tool_def Let_def case_prod_beta)

lemma series_of_count:
  "us_series (count_in_series s kf u) =
     om_alter (if om_get (us_series u) (fst kf) = None \<and> max_series - 1 \<le> length (us_series u) then (0, 0, 0) else fst kf)
       series_new (count_span s) (us_series u)"
  by (simp add: count_in_series_def Let_def case_prod_beta)

lemma usage_bounded_tool:
  assumes "usage_bounded cap u"
  shows "usage_bounded cap (record_tool s u)"
proof -
  have "map_bounded (0, 0) max_tool_series (us_tool_series (record_tool s u))"
    unfolding series_of_tool
    by (rule map_bounded_alter) (use assms in \<open>simp_all add: usage_bounded_def max_tool_series_def\<close>)
  then show ?thesis using assms
    by (simp add: usage_bounded_def, simp add: record_tool_def Let_def case_prod_beta interner_bounded_intern)
qed

lemma usage_bounded_count:
  assumes "usage_bounded cap u"
  shows "usage_bounded cap (count_in_series s kf u)"
proof -
  have "map_bounded (0, 0, 0) max_series (us_series (count_in_series s kf u))"
    unfolding series_of_count
    by (rule map_bounded_alter) (use assms in \<open>simp_all add: usage_bounded_def max_series_def\<close>)
  then show ?thesis using assms
    by (simp add: usage_bounded_def, simp add: count_in_series_def Let_def case_prod_beta)
qed

lemma usage_bounded_labels: "usage_bounded cap u \<Longrightarrow> usage_bounded cap (snd (intern_labels l u))"
  by (simp add: usage_bounded_def intern_labels_def Let_def case_prod_beta interner_bounded_intern)

lemma usage_bounded_record: "usage_bounded cap u \<Longrightarrow> usage_bounded cap (usage_record spans u)"
  unfolding usage_record_plain
  by (induction spans arbitrary: u)
    (simp_all add: record_span_plain_def case_prod_beta usage_bounded_tool usage_bounded_count usage_bounded_labels)

lemma usage_bounded_score:
  assumes "usage_bounded cap u"
  shows "usage_bounded cap (record_score sc u)"
proof -
  let ?push = "\<lambda>v w. (if score_window \<le> length w then tl w else w) @ [v]"
  have w: "length (?push v w) \<le> score_window" if "length w \<le> score_window" for v :: f64 and w
    using that by (auto simp: score_window_def)
  have ok: "om_ok (us_scores u)" and all: "\<forall>w\<in>set (om_values (us_scores u)). length w \<le> score_window"
    and len: "length (us_scores u) \<le> score_names_cap" using assms by (simp_all add: usage_bounded_def)
  have "\<forall>w\<in>set (om_values (om_alter (sc_name sc) [] (?push v) (us_scores u))). length w \<le> score_window" for v
    by (rule all_om_alter [OF all w _ ok]) simp_all
  then show ?thesis using assms ok len
    by (auto simp: usage_bounded_def record_score_def length_om_alter om_ok_alter split: option.split)
qed

lemma usage_bounded_scores: "usage_bounded cap u \<Longrightarrow> usage_bounded cap (record_scores scs u)"
  unfolding record_scores_def by (induction scs arbitrary: u) (simp_all add: usage_bounded_score)

text \<open>The states the two calls reach from a new usage, in any order.\<close>

inductive usage_run :: "usize \<Rightarrow> usage \<Rightarrow> nat \<Rightarrow> bool" for cap where
  usage_start: "usage_run cap (usage_new cap) 0"
| usage_spans: "usage_run cap u n \<Longrightarrow> usage_run cap (usage_record spans u) (n + length (filter is_llm_span spans))"
| usage_scores: "usage_run cap u n \<Longrightarrow> usage_run cap (record_scores scs u) n"

lemma usage_bounded_new [simp]: "usage_bounded cap (usage_new cap)"
  by (simp add: usage_bounded_def usage_new_def map_bounded_def max_series_def max_tool_series_def om_empty_def
      om_values_def om_ok_def om_keys_def om_get_def score_names_cap_def)

lemma record_scores_series:
  "us_series (record_scores scs u) = us_series u \<and> us_tool_series (record_scores scs u) = us_tool_series u"
  unfolding record_scores_def
  by (induction scs arbitrary: u) (auto simp: record_score_def split: option.split)

lemma usage_run_ok: "usage_run cap u n \<Longrightarrow> usage_bounded cap u \<and> usage_ok u \<and> total_requests u = n"
proof (induction rule: usage_run.induct)
  case usage_start
  have "total_requests (usage_new cap) = 0" by (simp add: total_requests_def usage_new_def om_values_def om_empty_def)
  then show ?case by simp
next
  case (usage_spans u n spans)
  then show ?case using usage_record_counts [of u spans] by (simp add: usage_bounded_record)
next
  case (usage_scores u n scs)
  then show ?case using usage_bounded_scores [of cap u scs] record_scores_series [of scs u]
    by (simp add: usage_ok_def total_requests_def usage_bounded_def)
qed

text \<open>C30. Bounds: whatever batches and scores have been recorded, in any order, the memory the usage series use is
  bounded: at most 2048 label tuples and 512 tool tuples, at most 64 score names of 1024 values each, at most one name
  more than its cap per label; and no LLM span is lost to a bound: the requests of all series add up to the LLM spans
  recorded, and each series' duration histogram has counted as many spans as the series has requests.\<close>

theorem usage_is_bounded_and_loses_no_span:
  assumes "usage_run cap u n"
  shows "series_len u \<le> 2048 \<and> length (us_tool_series u) \<le> 512 \<and> length (us_scores u) \<le> 64 \<and>
    (\<forall>w\<in>set (om_values (us_scores u)). length w \<le> 1024) \<and>
    length (in_names (us_providers u)) \<le> 17 \<and> length (in_names (us_models u)) \<le> max cap 1 + 1 \<and>
    length (in_names (us_services u)) \<le> 33 \<and> length (in_names (us_tools u)) \<le> 65 \<and>
    total_requests u = n \<and> (\<forall>e\<in>set (om_values (us_series u)). hi_count (se_duration e) = se_requests e)"
  using usage_run_ok [OF assms]
  by (simp add: usage_bounded_def usage_ok_def map_bounded_def interner_bounded_def series_len_def max_series_def
      max_tool_series_def score_names_cap_def score_window_def provider_cap_def service_cap_def tool_cap_def)

lemma usage_is_bounded_and_loses_no_span_witness:
  "total_requests (record_scores [] (usage_record [plain_span ''t'' ''a'' 5, plain_span ''t'' ''b'' 6] (usage_new 1))) = 2 \<and>
   series_len (record_scores [] (usage_record [plain_span ''t'' ''a'' 5, plain_span ''t'' ''b'' 6] (usage_new 1))) \<le> 2048"
proof -
  let ?spans = "[plain_span ''t'' ''a'' 5, plain_span ''t'' ''b'' 6]"
  have r: "usage_run 1 (record_scores [] (usage_record ?spans (usage_new 1))) (0 + length (filter is_llm_span ?spans))"
    by (rule usage_scores, rule usage_spans, rule usage_start)
  have "length (filter is_llm_span ?spans) = 2" by (simp add: is_llm_span_def plain_span_def)
  then show ?thesis using usage_is_bounded_and_loses_no_span [OF r] by simp
qed

section \<open>One pass finds the best-ranked time to first token\<close>

definition ttft_usable :: "json \<times> f64 \<Rightarrow> f64 option" where
  "ttft_usable rs = (case ttft_number (fst rs) of None \<Rightarrow> None
     | Some v \<Rightarrow> if is_finite v \<and> f_nonneg v then Some (f_mul v (snd rs)) else None)"

text \<open>The specification: of the attributes that carry the time, in order of rank, the first whose value is usable.\<close>

fun first_some :: "('a \<Rightarrow> 'b option) \<Rightarrow> 'a list \<Rightarrow> 'b option" where
  "first_some f [] = None"
| "first_some f (x # xs) = (case f x of Some y \<Rightarrow> Some y | None \<Rightarrow> first_some f xs)"

definition ttft_spec :: "(str, json) omap \<Rightarrow> f64 option" where
  "ttft_spec attrs =
     first_some (\<lambda>(name, scale). case om_get attrs name of None \<Rightarrow> None | Some raw \<Rightarrow> ttft_usable (raw, scale)) ttft_attrs"

definition ttft_rank :: "(nat \<Rightarrow> f64 option) \<Rightarrow> (nat \<times> f64) option" where
  "ttft_rank w = first_some (\<lambda>i. map_option (Pair i) (w i)) [0, 1, 2, 3]"

definition ttft_has :: "(str \<times> json) list \<Rightarrow> nat \<Rightarrow> f64 option" where
  "ttft_has xs i = (case map_of xs (fst (ttft_attrs ! i)) of None \<Rightarrow> None | Some raw \<Rightarrow> ttft_usable (raw, snd (ttft_attrs ! i)))"

lemma ttft_position:
  "position (\<lambda>(name, _). name = k) ttft_attrs = Some i \<Longrightarrow> i < 4 \<and> fst (ttft_attrs ! i) = k"
  "position (\<lambda>(name, _). name = k) ttft_attrs = None \<Longrightarrow> i < 4 \<Longrightarrow> fst (ttft_attrs ! i) \<noteq> k"
  by (auto simp: ttft_attrs_def nth_Cons' less_Suc_eq numeral_eq_Suc split: if_splits)

lemma ttft_names_distinct: "i < 4 \<Longrightarrow> j < 4 \<Longrightarrow> fst (ttft_attrs ! i) = fst (ttft_attrs ! j) \<longleftrightarrow> i = j"
  by (auto simp: ttft_attrs_def nth_Cons' less_Suc_eq numeral_eq_Suc)

lemma ttft_rank_update:
  assumes "i < 4" "w i = None"
  shows "(if (case ttft_rank w of Some (seen, _) \<Rightarrow> seen \<le> i | None \<Rightarrow> False) then ttft_rank w
     else case c of None \<Rightarrow> ttft_rank w | Some v \<Rightarrow> Some (i, v)) = ttft_rank (w(i := c))"
proof -
  consider "i = 0" | "i = 1" | "i = 2" | "i = 3" using assms(1) by linarith
  then show ?thesis using assms(2) by cases (auto simp: ttft_rank_def split: option.splits)
qed

lemma fold_ttft_step:
  assumes "distinct (map fst xs)" "\<And>i. i < 4 \<Longrightarrow> w i \<noteq> None \<Longrightarrow> fst (ttft_attrs ! i) \<notin> fst ` set xs"
  shows "fold ttft_step xs (ttft_rank w) = ttft_rank (\<lambda>i. case w i of Some v \<Rightarrow> Some v | None \<Rightarrow> ttft_has xs i)"
  using assms
proof (induction xs arbitrary: w)
  case Nil
  have "(\<lambda>i. case w i of Some v \<Rightarrow> Some v | None \<Rightarrow> ttft_has [] i) = w" by (auto simp: ttft_has_def fun_eq_iff split: option.split)
  then show ?case by simp
next
  case (Cons kv xs)
  obtain k raw where kv: "kv = (k, raw)" by (cases kv)
  let ?R = "\<lambda>w xs. ttft_rank (\<lambda>i. case w i of Some v \<Rightarrow> Some v | None \<Rightarrow> ttft_has xs i)"
  have cong: "ttft_rank a = ttft_rank b" if "\<And>i. i < 4 \<Longrightarrow> a i = b i" for a b
    using that [of 0] that [of 1] that [of 2] that [of 3] by (simp add: ttft_rank_def split: option.split)
  show ?case
  proof (cases "position (\<lambda>(name, _). name = k) ttft_attrs")
    case None
    then have "?R w (kv # xs) = ?R w xs"
      by (intro cong) (auto simp: ttft_has_def kv dest: ttft_position(2) split: option.split)
    then show ?thesis using Cons None by (auto simp: ttft_step_def kv)
  next
    case (Some i)
    note i = ttft_position(1) [OF Some]
    define c where "c = ttft_usable (raw, snd (ttft_attrs ! i))"
    have w: "w i = None" using Cons.prems(2) [of i] i by (cases "w i") (auto simp: kv)
    have step: "ttft_step kv (ttft_rank w) = ttft_rank (w(i := c))"
      unfolding ttft_rank_update [where i = i and w = w and c = c, OF conjunct1 [OF i] w, symmetric]
      by (simp add: ttft_step_def kv Some c_def ttft_usable_def split: option.split)
    have fresh: "fst (ttft_attrs ! i) \<notin> fst ` set xs" using Cons.prems(1) i by (simp add: kv)
    have "?R (w(i := c)) xs = ?R w (kv # xs)"
    proof (rule cong)
      fix j assume j: "j < (4::nat)"
      have none: "map_of xs k = None" using fresh i by (simp add: map_of_eq_None_iff)
      show "(case (w(i := c)) j of Some v \<Rightarrow> Some v | None \<Rightarrow> ttft_has xs j) = (case w j of Some v \<Rightarrow> Some v | None \<Rightarrow> ttft_has (kv # xs) j)"
        using ttft_names_distinct [OF j conjunct1 [OF i]] i w none
        by (auto simp: ttft_has_def kv c_def split: option.split)
    qed
    moreover have "fst (ttft_attrs ! j) \<notin> fst ` set xs" if "j < 4" "(w(i := c)) j \<noteq> None" for j
      using that Cons.prems(2) [of j] fresh by (cases "j = i") auto
    then have "fold ttft_step xs (ttft_rank (w(i := c))) = ?R (w(i := c)) xs"
      by (intro Cons.IH) (use Cons.prems(1) in simp_all)
    ultimately show ?thesis by (simp add: step)
  qed
qed

text \<open>Equivalence: the one pass over a span's attributes that looks for its time to first token finds what the
  ranking asks for: the best-ranked of the four attributes that holds a finite, non-negative number, scaled to seconds;
  a better-ranked attribute without a usable value never hides a lesser one.\<close>

theorem ttft_is_the_best_ranked:
  assumes "om_ok attrs"
  shows "ttft_seconds attrs = ttft_spec attrs"
proof -
  have "ttft_rank (\<lambda>_. None) = None" by (simp add: ttft_rank_def)
  then have "fold ttft_step attrs None = ttft_rank (ttft_has attrs)"
    using fold_ttft_step [of attrs "\<lambda>_. None"] om_ok_distinct [OF assms] by (simp add: om_keys_def)
  then show ?thesis
    by (simp add: ttft_seconds_def ttft_spec_def ttft_rank_def ttft_has_def ttft_attrs_def om_get_def split: option.split)
qed

lemma ttft_is_the_best_ranked_witness:
  "om_ok [(''ai.response.msToFirstChunk'', JNull), (''time_to_first_token_ms'', JStr ''abc'')] \<and>
   ttft_seconds [(''ai.response.msToFirstChunk'', JNull), (''time_to_first_token_ms'', JStr ''abc'')] =
   ttft_spec [(''ai.response.msToFirstChunk'', JNull), (''time_to_first_token_ms'', JStr ''abc'')]"
proof -
  have ok: "om_ok [(''ai.response.msToFirstChunk'', JNull), (''time_to_first_token_ms'', JStr ''abc'')]" by code_simp
  show ?thesis using ok ttft_is_the_best_ranked [OF ok] by blast
qed

end
