(* ===== verification/OtlpJson.thy ===== *)
theory OtlpJson
  imports Codex
begin

text \<open>
  OTLP-JSON bodies (\<^verbatim>\<open>src/ingest.rs\<close>): the two passes over the parsed JSON that make a conformant payload
  readable by the generated deserializers, integers spelled as strings and empty values. The JSON parser
  and the deserializers are parameters.
\<close>

definition empty_object :: "json \<Rightarrow> bool" where
  "empty_object v = (case v of JObj m \<Rightarrow> m = [] | _ \<Rightarrow> False)"

definition int_key :: "str \<Rightarrow> bool" where
  "int_key k \<longleftrightarrow> k = ''intValue'' \<or> k = ''asInt''"

text \<open>The number an \<open>intValue\<close> or \<open>asInt\<close> sent as text stands for.\<close>

definition spelled_int :: "str \<Rightarrow> json \<Rightarrow> i64 option" where
  "spelled_int k v = (if int_key k then (case v of JStr s \<Rightarrow> parse_i64 s | _ \<Rightarrow> None) else None)"

lemma size_member: "v \<in> set vs \<Longrightarrow> size v < size (JArr vs)"
  by (simp add: size_list_estimation' less_Suc_eq_le)

lemma size_field: "(k, v) \<in> set m \<Longrightarrow> size v < size (JObj m)"
proof -
  assume "(k, v) \<in> set m"
  then have "size_prod (\<lambda>x. 0) size (k, v) \<le> size_list (size_prod (\<lambda>x. 0) size) m" by (rule size_list_estimation') simp
  then show ?thesis by simp
qed

function coerce_otlp_json_ints :: "json \<Rightarrow> json" where
  "coerce_otlp_json_ints (JObj m) =
     JObj (map (\<lambda>(k, v). (k, case spelled_int k v of Some n \<Rightarrow> json_int n | None \<Rightarrow> coerce_otlp_json_ints v)) m)"
| "coerce_otlp_json_ints (JArr vs) = JArr (map coerce_otlp_json_ints vs)"
| "coerce_otlp_json_ints JNull = JNull"
| "coerce_otlp_json_ints (JBool b) = JBool b"
| "coerce_otlp_json_ints (JNum n) = JNum n"
| "coerce_otlp_json_ints (JStr s) = JStr s"
  by pat_completeness auto

termination
  by (relation "measure size") (auto intro: size_member size_field simp del: json.size)

definition drop_empty_value :: "(str, json) omap \<Rightarrow> (str, json) omap" where
  "drop_empty_value m =
     (if om_get m ''key'' \<noteq> None \<and> (case om_get m ''value'' of Some v \<Rightarrow> empty_object v | None \<Rightarrow> False)
      then om_remove ''value'' m else m)"

definition retain_values :: "str \<Rightarrow> json \<Rightarrow> json" where
  "retain_values k v =
     (if k = ''values'' then (case v of JArr vs \<Rightarrow> JArr (filter (\<lambda>i. \<not> empty_object i) vs) | _ \<Rightarrow> v) else v)"

lemma size_list_filter: "size_list f (filter P xs) \<le> size_list f xs"
  by (induction xs) auto

lemma size_retain_values: "size (retain_values k v) \<le> size v"
  by (auto simp: retain_values_def size_list_filter split: json.split)

lemma set_drop_empty_value: "set (drop_empty_value m) \<subseteq> set m"
  by (auto simp: drop_empty_value_def om_remove_def)

function drop_empty_any_values :: "json \<Rightarrow> json" where
  "drop_empty_any_values (JObj m) =
     JObj (map (\<lambda>(k, v). (k, drop_empty_any_values (retain_values k v))) (drop_empty_value m))"
| "drop_empty_any_values (JArr vs) = JArr (map drop_empty_any_values vs)"
| "drop_empty_any_values JNull = JNull"
| "drop_empty_any_values (JBool b) = JBool b"
| "drop_empty_any_values (JNum n) = JNum n"
| "drop_empty_any_values (JStr s) = JStr s"
  by pat_completeness auto

termination
proof (relation "measure size", goal_cases)
  case (2 m kv k v)
  then have "(k, v) \<in> set m" using set_drop_empty_value by auto
  then show ?case using size_field [of k v m] size_retain_values [of k v] by simp
qed (auto intro: size_member simp del: json.size)

section \<open>Decoding a body\<close>

text \<open>\<open>from_slice\<close> and \<open>from_value\<close> of \<open>serde_json\<close>, and \<open>decode\<close> of \<open>prost\<close>, for one request type.\<close>

record 'a decoder =
  de_from_slice :: "str \<Rightarrow> json option"
  de_from_value :: "json \<Rightarrow> 'a option"
  de_decode :: "str \<Rightarrow> 'a option"

definition decode_otlp_json_as :: "'a decoder \<Rightarrow> str \<Rightarrow> 'a option" where
  "decode_otlp_json_as d body =
     (case de_from_slice d body of
        None \<Rightarrow> None
      | Some v \<Rightarrow> de_from_value d (drop_empty_any_values (coerce_otlp_json_ints v)))"

definition is_json_request :: "str option \<Rightarrow> bool" where
  "is_json_request content_type = (case content_type of Some ct \<Rightarrow> contains_str ''json'' ct | None \<Rightarrow> False)"

text \<open>\<open>None\<close> is the 400 reply.\<close>

definition decode_body :: "'a decoder \<Rightarrow> bool \<Rightarrow> str \<Rightarrow> 'a option" where
  "decode_body d is_json body = (if is_json then decode_otlp_json_as d body else de_decode d body)"

section \<open>Integers spelled as text\<close>

lemma coerce_json_int [simp]: "coerce_otlp_json_ints (json_int n) = json_int n"
  by (simp add: json_int_def)

text \<open>The decimal text of an integer, and the protobuf JSON spelling of the integers \<open>c\<close> picks.\<close>

definition int_text :: "int \<Rightarrow> str" where
  "int_text n = (if n < 0 then CHR ''-'' # dec_of (nat (- n)) else dec_of (nat n))"

lemma parse_int_text:
  assumes "- (2 ^ 63) \<le> n" "n < 2 ^ 63"
  shows "parse_i64 (int_text n) = Some n"
proof (cases "n < 0")
  case True
  then show ?thesis using assms by (simp add: int_text_def parse_i64_def dec_value_dec_of dec_of_nonempty)
next
  case False
  obtain c t where d: "dec_of (nat n) = c # t" using dec_of_nonempty [of "nat n"] by (cases "dec_of (nat n)") auto
  moreover have "is_digit c" using dec_of_digits [of "nat n"] d by auto
  ultimately have "(case dec_of (nat n) of c # t \<Rightarrow> if c = CHR ''-'' then (True, t) else if c = CHR ''+'' then (False, t)
      else (False, dec_of (nat n)) | [] \<Rightarrow> (False, [])) = (False, dec_of (nat n))" by (auto simp: is_digit_def)
  then show ?thesis using assms False by (simp add: int_text_def parse_i64_def dec_value_dec_of dec_of_nonempty)
qed

definition i64_of_json :: "json \<Rightarrow> int option" where
  "i64_of_json v =
     (case v of JNum (PosInt n) \<Rightarrow> if int n < 2 ^ 63 then Some (int n) else None
      | JNum (NegInt n) \<Rightarrow> if - (2 ^ 63) \<le> n \<and> n < 0 then Some n else None | _ \<Rightarrow> None)"

lemma json_of_i64: "i64_of_json v = Some n \<Longrightarrow> json_int n = v \<and> parse_i64 (int_text n) = Some n"
  by (auto simp: i64_of_json_def json_int_def parse_int_text split: json.splits jnum.splits if_splits)

text \<open>Each \<open>intValue\<close> and \<open>asInt\<close> that holds an integer \<open>c\<close> picks is rewritten as text.\<close>

definition spell_int :: "(int \<Rightarrow> bool) \<Rightarrow> str \<Rightarrow> json \<Rightarrow> json option" where
  "spell_int c k v =
     (if int_key k then (case i64_of_json v of Some n \<Rightarrow> if c n then Some (JStr (int_text n)) else None | None \<Rightarrow> None) else None)"

function spell_ints :: "(int \<Rightarrow> bool) \<Rightarrow> json \<Rightarrow> json" where
  "spell_ints c (JObj m) = JObj (map (\<lambda>(k, v). (k, case spell_int c k v of Some t \<Rightarrow> t | None \<Rightarrow> spell_ints c v)) m)"
| "spell_ints c (JArr vs) = JArr (map (spell_ints c) vs)"
| "spell_ints c JNull = JNull"
| "spell_ints c (JBool b) = JBool b"
| "spell_ints c (JNum n) = JNum n"
| "spell_ints c (JStr s) = JStr s"
  by pat_completeness auto

termination
  by (relation "measure (\<lambda>(c, v). size v)") (auto intro: size_member size_field simp del: json.size)

lemma spell_ints_kind: "spelled_int k (spell_ints c v) = spelled_int k v"
  by (cases v) (simp_all add: spelled_int_def)

lemma coerce_spell_ints: "coerce_otlp_json_ints (spell_ints c v) = coerce_otlp_json_ints v"
proof (induction v rule: coerce_otlp_json_ints.induct)
  case (1 m)
  have "(case spelled_int k t of Some n \<Rightarrow> json_int n | None \<Rightarrow> coerce_otlp_json_ints t) =
      (case spelled_int k v of Some n \<Rightarrow> json_int n | None \<Rightarrow> coerce_otlp_json_ints v)"
    if kv: "(k, v) \<in> set m" and t: "t = (case spell_int c k v of Some t \<Rightarrow> t | None \<Rightarrow> spell_ints c v)" for k v t
  proof (cases "spell_int c k v")
    case None
    then show ?thesis using 1 [OF kv refl] t by (simp add: spell_ints_kind split: option.split)
  next
    case (Some x)
    then obtain n where n: "int_key k" "i64_of_json v = Some n" "x = JStr (int_text n)"
      by (auto simp: spell_int_def split: if_splits option.splits)
    then have "spelled_int k v = None" by (auto simp: spelled_int_def i64_of_json_def split: json.splits)
    then show ?thesis using json_of_i64 [OF n(2)] n t Some coerce_json_int [of n] by (simp add: spelled_int_def)
  qed
  then show ?case by (auto simp: split_beta intro!: map_cong)
qed simp_all

section \<open>Values that are not set\<close>

text \<open>An object whose \<open>value\<close> is set or that has no \<open>key\<close>, and whose \<open>values\<close> are all set; and a JSON whose
  objects all are such, at any depth.\<close>

definition set_values :: "(str, json) omap \<Rightarrow> bool" where
  "set_values m \<longleftrightarrow>
     drop_empty_value m = m \<and>
     list_all (\<lambda>(k, v). k = ''values'' \<longrightarrow> (case v of JArr vs \<Rightarrow> list_all (\<lambda>i. \<not> empty_object i) vs | _ \<Rightarrow> True)) m"

function no_empty_values :: "json \<Rightarrow> bool" where
  "no_empty_values (JObj m) = (set_values m \<and> list_all (\<lambda>(k, v). no_empty_values v) m)"
| "no_empty_values (JArr vs) = list_all no_empty_values vs"
| "no_empty_values JNull = True"
| "no_empty_values (JBool b) = True"
| "no_empty_values (JNum n) = True"
| "no_empty_values (JStr s) = True"
  by pat_completeness auto

termination
  by (relation "measure size") (auto intro: size_member size_field simp del: json.size)

lemma drop_empty_kind [simp]: "empty_object (drop_empty_any_values v) = empty_object v"
proof (cases v)
  case (JObj m)
  have "m = []" if "drop_empty_value m = []"
  proof (rule ccontr)
    assume ne: "m \<noteq> []"
    then obtain x where x: "om_get m ''key'' = Some x" and f: "filter (\<lambda>p. fst p \<noteq> ''value'') m = []"
      using \<open>drop_empty_value m = []\<close> by (auto simp: drop_empty_value_def om_remove_def split: if_splits)
    from x have "(''key'', x) \<in> set m" by (simp add: om_get_def map_of_SomeD)
    with f show False by (auto simp: filter_empty_conv)
  qed
  then have "drop_empty_value m = [] \<longleftrightarrow> m = []" by (auto simp: drop_empty_value_def om_remove_def)
  then show ?thesis by (simp add: JObj empty_object_def)
qed (simp_all add: empty_object_def)

lemma om_get_map_values: "om_get (map (\<lambda>(k, v). (k, f k v)) m) k = map_option (f k) (om_get m k)"
  by (induction m) (auto simp: om_get_def)

lemma drop_empty_value_get:
  "drop_empty_value m = m \<longleftrightarrow> \<not> (om_get m ''key'' \<noteq> None \<and> (\<exists>v. om_get m ''value'' = Some v \<and> empty_object v))"
proof -
  have "om_remove ''value'' m \<noteq> m" if "om_get m ''value'' = Some v" for v
  proof -
    have "om_get (om_remove ''value'' m) ''value'' = None" by (simp add: map_simps)
    then show ?thesis using that by (metis option.distinct(1))
  qed
  then show ?thesis by (auto simp: drop_empty_value_def split: option.splits)
qed

lemma drop_empty_value_idem: "drop_empty_value (drop_empty_value m) = drop_empty_value m"
  unfolding drop_empty_value_get
  by (auto simp: drop_empty_value_def map_simps split: option.splits if_splits)

lemma retain_values_kind: "empty_object (retain_values k v) = empty_object v"
  by (auto simp: retain_values_def empty_object_def split: json.split)

lemma retained_values_set:
  "case drop_empty_any_values (retain_values ''values'' v) of JArr vs \<Rightarrow> list_all (\<lambda>i. \<not> empty_object i) vs | _ \<Rightarrow> True"
  by (cases v) (auto simp: retain_values_def list_all_iff)

lemma drop_leaves_none: "no_empty_values (drop_empty_any_values v)"
proof (induction v rule: drop_empty_any_values.induct)
  case (1 m)
  let ?m = "map (\<lambda>(k, v). (k, drop_empty_any_values (retain_values k v))) (drop_empty_value m)"
  have get: "om_get ?m k = map_option (\<lambda>v. drop_empty_any_values (retain_values k v)) (om_get (drop_empty_value m) k)" for k
    by (rule om_get_map_values)
  have "drop_empty_value ?m = ?m"
    using drop_empty_value_idem [of m] unfolding drop_empty_value_get get by (auto simp: retain_values_kind)
  moreover have "list_all (\<lambda>(k, v). k = ''values'' \<longrightarrow>
      (case v of JArr vs \<Rightarrow> list_all (\<lambda>i. \<not> empty_object i) vs | _ \<Rightarrow> True)) ?m"
    using retained_values_set unfolding list_all_iff [of _ "map _ _"] by auto
  moreover have "list_all (\<lambda>(k, v). no_empty_values v) ?m" using 1 by (fastforce simp: list_all_iff)
  ultimately show ?case by (simp add: set_values_def)
qed (simp_all add: list_all_iff)

lemma drop_changes_nothing: "no_empty_values v \<Longrightarrow> drop_empty_any_values v = v"
proof (induction v rule: no_empty_values.induct)
  case (1 m)
  then have m: "drop_empty_value m = m" by (simp add: set_values_def)
  have "retain_values k v = v" "drop_empty_any_values v = v" if kv: "(k, v) \<in> set m" for k v
  proof -
    show "drop_empty_any_values v = v" using 1 kv by (fastforce simp: list_all_iff)
    have "k = ''values'' \<Longrightarrow> (case v of JArr vs \<Rightarrow> list_all (\<lambda>i. \<not> empty_object i) vs | _ \<Rightarrow> True)"
      using 1(2) kv by (auto simp: set_values_def list_all_iff)
    then show "retain_values k v = v" by (auto simp: retain_values_def list_all_iff filter_id_conv split: json.splits)
  qed
  then show ?case unfolding drop_empty_any_values.simps m by (auto intro!: map_idI)
next
  case (2 vs)
  then show ?case by (auto simp: list_all_iff intro!: map_idI)
qed simp_all

text \<open>
  C21. The two spellings of the integers under \<open>intValue\<close> and \<open>asInt\<close> (the keys the decoder coerces) are decoded
  alike: a body in which any of these numbers are spelled as text, as the protobuf JSON mapping has them,
  is decoded as the body with the numbers; what the deserializer is given never holds an empty \<open>value\<close>
  beside a \<open>key\<close> or an empty element of a \<open>values\<close> list, at any depth; and a body without them is handed
  over with nothing but those integers changed.
\<close>
theorem otlp_json_spellings_decode_alike:
  assumes "de_from_slice d body = Some v" and "de_from_slice d body' = Some (spell_ints c v)"
  shows "decode_otlp_json_as d body' = decode_otlp_json_as d body \<and>
    (\<exists>w. no_empty_values w \<and> decode_otlp_json_as d body = de_from_value d w) \<and>
    (no_empty_values (coerce_otlp_json_ints v) \<longrightarrow> decode_otlp_json_as d body = de_from_value d (coerce_otlp_json_ints v))"
  using assms drop_leaves_none [of "coerce_otlp_json_ints v"] drop_changes_nothing [of "coerce_otlp_json_ints v"]
  by (auto simp: decode_otlp_json_as_def coerce_spell_ints)

definition int_attribute :: "json \<Rightarrow> json" where
  "int_attribute v = JObj [(''key'', JStr ''n''), (''value'', JObj [(''intValue'', v)])]"

text \<open>\<open>A\<close> holds the number, \<open>B\<close> its text.\<close>

definition sample_decoder :: "json decoder" where
  "sample_decoder = \<lparr>de_from_slice = (\<lambda>b. if b = ''A'' then Some (int_attribute (JNum (PosInt 7)))
                                       else Some (int_attribute (JStr ''7''))),
     de_from_value = Some, de_decode = (\<lambda>_. None)\<rparr>"

theorem otlp_json_spellings_decode_alike_witness:
  "decode_otlp_json_as sample_decoder ''B'' = decode_otlp_json_as sample_decoder ''A''"
proof -
  have "spell_ints (\<lambda>_. True) (int_attribute (JNum (PosInt 7))) = int_attribute (JStr ''7'')"
    by code_simp
  then have "de_from_slice sample_decoder ''B'' = Some (spell_ints (\<lambda>_. True) (int_attribute (JNum (PosInt 7))))"
    by (simp add: sample_decoder_def)
  moreover have "de_from_slice sample_decoder ''A'' = Some (int_attribute (JNum (PosInt 7)))" by (simp add: sample_decoder_def)
  ultimately show ?thesis using otlp_json_spellings_decode_alike by blast
qed

end
