(* ===== verification/Http.thy ===== *)
theory Http
  imports Doors Auth Rollup Usage OtlpJson
begin

text \<open>
  The HTTP surface of \<^verbatim>\<open>src/ingest.rs\<close>: the gate in front of the router, the two export handlers, the
  reads of spans, traces, scores and blobs, and the two routes that post scores, with the check that a
  score's target exists. A handler is a function from the request's parts and the node's state to the
  reply and the state. Routing by path is axum's; a reply's body is the data it is made of, and texts that
  embed a library's error message are left out.
\<close>

section \<open>Replies\<close>

record span_view =
  vw_span :: normalized_span
  vw_usage_missing :: "usage_missing_reason option"
  vw_orphan_parent :: "bool option"

datatype join_status = Matched | Unmatched | Unverified | NotApplicable

record join_summary =
  jo_matched :: usize
  jo_unmatched :: usize
  jo_unverified :: usize
  jo_not_applicable :: usize

record join_json =
  jj_checked :: usize
  jj_summary :: join_summary
  jj_warn_unmatched :: bool
  jj_warn_unverified :: bool

datatype reply_body =
    TextBody str
  | BadBody
  | ExportBody bool
  | SpansBody "span_view list"
  | RolledBody "rolled_score list"
  | ScoresBody "score list"
  | ScoreBody score
  | BlobBody str
  | IdsBody "str list" join_json
  | AnnotationIdsBody "str list" join_json
  | DanglingBody join_json

record response =
  rp_status :: nat
  rp_headers :: "(str \<times> str) list"
  rp_body :: reply_body

definition ln :: "str \<Rightarrow> str" where "ln t = t @ [CHR 0x0A]"

text \<open>The dash of the messages, in UTF-8.\<close>

definition dash :: str where "dash = [CHR 0xE2, CHR 0x80, CHR 0x94]"

definition text_reply :: "nat \<Rightarrow> str \<Rightarrow> response" where
  "text_reply status t = \<lparr>rp_status = status, rp_headers = [], rp_body = TextBody (ln t)\<rparr>"

definition ok_reply :: "reply_body \<Rightarrow> response" where
  "ok_reply b = \<lparr>rp_status = 200, rp_headers = [], rp_body = b\<rparr>"

definition query_error :: response where
  "query_error = text_reply 500 ''evald: query failed''"

definition store_error_response :: "store_error \<Rightarrow> response" where
  "store_error_response err =
     (case err of
        Backpressure \<Rightarrow> \<lparr>rp_status = 429, rp_headers = [(''retry-after'', ''1'')], rp_body = TextBody (ln ''evald: overloaded, retry shortly'')\<rparr>
      | DiskFull _ _ \<Rightarrow> \<lparr>rp_status = 503, rp_headers = [(''retry-after'', ''30'')],
                        rp_body = TextBody (ln ''evald: out of disk headroom, retry later'')\<rparr>
      | _ \<Rightarrow> text_reply 503 ''evald: store unavailable'')"

definition success_response :: "bool \<Rightarrow> response" where
  "success_response is_json =
     \<lparr>rp_status = 200, rp_headers = [(''content-type'', if is_json then ''application/json'' else ''application/x-protobuf'')],
      rp_body = ExportBody is_json\<rparr>"

section \<open>The gate and the probes\<close>

definition require_bearer :: "(str \<Rightarrow> byte list) \<Rightarrow> auth \<Rightarrow> str option \<Rightarrow> ('s \<Rightarrow> response \<times> 's) \<Rightarrow> 's \<Rightarrow> response \<times> 's" where
  "require_bearer sha256 a header inner st =
     (if auth_check sha256 a header then inner st
      else (\<lparr>rp_status = 401, rp_headers = [(''www-authenticate'', ''Bearer'')],
             rp_body = TextBody (ln (''evald: unauthorized '' @ dash @ '' set Authorization: Bearer <token>''))\<rparr>, st))"

definition healthz :: response where "healthz = text_reply 200 ''ok''"

definition readyz :: "ingest_gate \<Rightarrow> response" where
  "readyz g = (if \<not> ig_closed g then text_reply 200 ''ready'' else text_reply 503 (''evald: not ready '' @ dash @ '' the store writer is not running''))"

definition mcp_origin_allowed :: "str \<Rightarrow> bool" where
  "mcp_origin_allowed origin =
     (case opt_or (strip_prefix ''http://'' origin) (strip_prefix ''https://'' origin) of
        None \<Rightarrow> False
      | Some rest \<Rightarrow>
          (let authority = hd (split_on (CHR ''/'') rest);
               hostname = (case strip_prefix ''['' authority of
                             Some v6 \<Rightarrow> hd (split_on (CHR '']'') v6)
                           | None \<Rightarrow> hd (split_on (CHR '':'') authority))
           in hostname = ''localhost'' \<or> hostname = ''127.0.0.1'' \<or> hostname = ''::1''))"

text \<open>The middleware around every route but the two probes, which are merged after it. A probe answers only
  \<open>GET\<close>, any other method with the reply of axum, \<open>not_allowed\<close>.\<close>

definition build_router ::
  "(str \<Rightarrow> byte list) \<Rightarrow> auth \<Rightarrow> ('s \<Rightarrow> ingest_gate) \<Rightarrow> ('s \<Rightarrow> response \<times> 's) \<Rightarrow> response \<Rightarrow> bool \<Rightarrow> str \<Rightarrow> str option \<Rightarrow> 's \<Rightarrow> response \<times> 's" where
  "build_router sha256 a gate inner not_allowed is_get path header st =
     (if path = ''/healthz'' then (if is_get then healthz else not_allowed, st)
      else if path = ''/readyz'' then (if is_get then readyz (gate st) else not_allowed, st)
      else if is_enabled a then require_bearer sha256 a header inner st
      else inner st)"

section \<open>The node\<close>

record node =
  nd_ingest :: ingest_env
  nd_scores :: score_store
  nd_usage :: "usage option"
  nd_logs :: logs_global

definition put_scores :: "score_json \<Rightarrow> score list \<Rightarrow> node \<Rightarrow> (io_error + unit) \<times> node" where
  "put_scores j scs nd =
     (case put_batch j scs (nd_scores nd) of
        (Inl e, st) \<Rightarrow> (Inl e, nd\<lparr>nd_scores := st\<rparr>)
      | (Inr _, st) \<Rightarrow> (Inr (), nd\<lparr>nd_scores := st, nd_usage := map_option (record_scores scs) (nd_usage nd)\<rparr>))"

text \<open>
  The libraries and the outcomes of the outside world one request meets: the digests and hashes, the
  blob files, the id of the queued command and the writer's answer to it.
\<close>

record outside =
  ou_crates :: crates
  ou_short_hash :: "str \<Rightarrow> str"
  ou_hasher :: "str \<Rightarrow> nat"
  ou_score_json :: score_json
  ou_blob_io :: blob_io
  ou_reply_id :: nat
  ou_ack :: "store_error + unit"

text \<open>\<open>ingest_batch\<close> with the scores it stores last.\<close>

definition store_batch ::
  "outside \<Rightarrow> normalized_span list \<Rightarrow> score list \<Rightarrow> node \<Rightarrow> ((store_error + usize) \<times> node) option" where
  "store_batch out spans scs nd =
     (let (stored, nd') = put_scores (ou_score_json out) scs nd
      in case ingest_batch (ou_short_hash out) (ou_hasher out) (ou_blob_io out) (ou_reply_id out) (ou_ack out) stored spans (nd_ingest nd) of
           None \<Rightarrow> None
         | Some (Inl e, env) \<Rightarrow> Some (Inl e, nd\<lparr>nd_ingest := env\<rparr>)
         | Some (Inr n, env) \<Rightarrow> Some (Inr n, nd'\<lparr>nd_ingest := env\<rparr>))"

section \<open>The export handlers\<close>

definition export_reply :: "bool \<Rightarrow> ((store_error + usize) \<times> node) option \<Rightarrow> (response \<times> node) option" where
  "export_reply is_json r =
     (case r of
        None \<Rightarrow> None
      | Some (Inr _, nd) \<Rightarrow> Some (success_response is_json, nd)
      | Some (Inl err, nd) \<Rightarrow> Some (store_error_response err, nd))"

definition bad_body :: response where
  "bad_body = \<lparr>rp_status = 400, rp_headers = [], rp_body = BadBody\<rparr>"

definition export_traces ::
  "outside \<Rightarrow> price_table \<Rightarrow> resource_spans list decoder \<Rightarrow> str option \<Rightarrow> str \<Rightarrow> node \<Rightarrow> (response \<times> node) option" where
  "export_traces out prices d content_type body nd =
     (let is_json = is_json_request content_type
      in case decode_body d is_json body of
           None \<Rightarrow> Some (bad_body, nd)
         | Some req \<Rightarrow>
             (let spans = normalize_request (ou_crates out) prices req;
                  (scs, bad) = extract_events (ou_crates out) req;
                  nd1 = nd\<lparr>nd_logs := (nd_logs nd)\<lparr>lg_events := count_events (length scs) bad (lg_events (nd_logs nd))\<rparr>\<rparr>
              in export_reply is_json (store_batch out spans scs nd1)))"

definition export_logs ::
  "outside \<Rightarrow> price_table \<Rightarrow> logs_policy \<Rightarrow> resource_logs list decoder \<Rightarrow> str option \<Rightarrow> str \<Rightarrow> node \<Rightarrow> (response \<times> node) option" where
  "export_logs out prices policy d content_type body nd =
     (let is_json = is_json_request content_type
      in case decode_body d is_json body of
           None \<Rightarrow> Some (bad_body, nd)
         | Some req \<Rightarrow>
             (let (b, logs) = normalize_logs (ou_crates out) prices policy req (nd_logs nd)
              in export_reply is_json (store_batch out (lb_spans b) (lb_scores b) (nd\<lparr>nd_logs := logs\<rparr>))))"

section \<open>Reads\<close>

definition default_span_limit :: usize where "default_span_limit = 100"
definition max_span_limit :: usize where "max_span_limit = 10000"

text \<open>\<open>unwrap_or(DEFAULT_SPAN_LIMIT).clamp(1, MAX_SPAN_LIMIT)\<close>.\<close>

definition span_limit :: "usize option \<Rightarrow> usize" where
  "span_limit l = min max_span_limit (max 1 (case l of Some n \<Rightarrow> n | None \<Rightarrow> default_span_limit))"

definition view_of :: "normalized_span \<Rightarrow> span_view" where
  "view_of s = \<lparr>vw_span = s, vw_usage_missing = usage_missing s, vw_orphan_parent = None\<rparr>"

definition views :: "normalized_span list \<Rightarrow> span_view list" where
  "views spans = map view_of spans"

definition views_in_trace :: "normalized_span list \<Rightarrow> span_view list" where
  "views_in_trace spans =
     (let present = set (map ns_span_id spans)
      in map (\<lambda>s. let orphan = (case ns_parent_span_id s of Some p \<Rightarrow> p \<notin> present | None \<Rightarrow> False)
                  in if orphan then (view_of s)\<lparr>vw_orphan_parent := Some True\<rparr> else view_of s) spans)"

definition get_spans :: "codec \<Rightarrow> str option \<Rightarrow> usize option \<Rightarrow> hot_tier \<Rightarrow> view \<Rightarrow> view \<Rightarrow> response" where
  "get_spans cx trace_id limit hot v1 v2 =
     (case query cx trace_id (Some (span_limit limit)) hot v1 v2 of
        Inr spans \<Rightarrow> ok_reply (SpansBody (views spans))
      | Inl _ \<Rightarrow> query_error)"

definition get_trace :: "codec \<Rightarrow> str \<Rightarrow> hot_tier \<Rightarrow> view \<Rightarrow> view \<Rightarrow> response" where
  "get_trace cx trace_id hot v1 v2 =
     (case trace cx trace_id hot v1 v2 of
        Inr spans \<Rightarrow> (if spans = [] then text_reply 404 ''evald: no spans for that trace_id''
                      else ok_reply (SpansBody (views_in_trace spans)))
      | Inl _ \<Rightarrow> query_error)"

definition get_trace_rollup ::
  "codec \<Rightarrow> score_json \<Rightarrow> rollup_config \<Rightarrow> str \<Rightarrow> hot_tier \<times> view \<times> view \<Rightarrow> hot_tier \<times> view \<times> view \<Rightarrow> score_store \<Rightarrow> response" where
  "get_trace_rollup cx j config trace_id read1 read2 st =
     (case trace_rollup cx j config trace_id read1 read2 st of
        Inr scs \<Rightarrow> ok_reply (RolledBody scs)
      | Inl _ \<Rightarrow> query_error)"

definition get_blob :: "blob_io \<Rightarrow> str \<Rightarrow> blob_store \<Rightarrow> response" where
  "get_blob io key st =
     (case blob_get io key st of
        Inr (Some bytes) \<Rightarrow> \<lparr>rp_status = 200, rp_headers = [(''content-type'', ''application/octet-stream'')], rp_body = BlobBody bytes\<rparr>
      | Inr None \<Rightarrow> text_reply 404 ''evald: no such blob''
      | Inl _ \<Rightarrow> query_error)"

definition target_from_parts :: "str option \<Rightarrow> str option \<Rightarrow> str option \<Rightarrow> str option \<Rightarrow> score_target option" where
  "target_from_parts span_id trace_id session_id run_id =
     (let non_empty = (\<lambda>s. case s of Some v \<Rightarrow> if v = [] then None else Some v | None \<Rightarrow> None)
      in case non_empty span_id of
           Some i \<Rightarrow> Some (TargetSpan i)
         | None \<Rightarrow>
             (case non_empty trace_id of
                Some i \<Rightarrow> Some (TargetTrace i)
              | None \<Rightarrow>
                  (case non_empty session_id of
                     Some i \<Rightarrow> Some (TargetSession i)
                   | None \<Rightarrow> map_option TargetRun (non_empty run_id))))"

definition get_scores ::
  "score_json \<Rightarrow> str option \<Rightarrow> str option \<Rightarrow> str option \<Rightarrow> str option \<Rightarrow> usize option \<Rightarrow> score_store \<Rightarrow> response" where
  "get_scores j span_id trace_id session_id run_id limit st =
     (case (case target_from_parts span_id trace_id session_id run_id of
              Some t \<Rightarrow> by_target_key j (score_target_key t) st
            | None \<Rightarrow> scores_list j (span_limit limit) st) of
        Inr scs \<Rightarrow> ok_reply (ScoresBody scs)
      | Inl _ \<Rightarrow> query_error)"

definition get_score_by_id :: "score_json \<Rightarrow> str \<Rightarrow> score_store \<Rightarrow> response" where
  "get_score_by_id j i st =
     (case score_get j i st of
        Inr (Some sc) \<Rightarrow> ok_reply (ScoreBody sc)
      | Inr None \<Rightarrow> text_reply 404 ''evald: no score with that id''
      | Inl _ \<Rightarrow> query_error)"

section \<open>Posting scores\<close>

record score_input =
  si_id :: "str option"
  si_trace_id :: "str option"
  si_span_id :: "str option"
  si_session_id :: "str option"
  si_run_id :: "str option"
  si_name :: str
  si_value :: "json option"
  si_num_value :: "f64 option"
  si_str_value :: "str option"
  si_data_type :: "data_type option"
  si_source :: "score_source option"
  si_comment :: "str option"
  si_config_id :: "str option"
  si_ts_unix_nano :: "u64 option"

datatype scores_body = One score_input | Many "score_input list"

definition input_value :: "score_input \<Rightarrow> f64 option \<times> str option \<times> data_type option" where
  "input_value i =
     (if si_num_value i = None \<and> si_str_value i = None
      then (case si_value i of
              Some (JNum n) \<Rightarrow> (j_as_f64 (JNum n), None, Some Numeric)
            | Some (JBool b) \<Rightarrow> (Some (if b then f_one else f_zero), None, Some Boolean)
            | Some (JStr s) \<Rightarrow> (None, Some s, Some Categorical)
            | _ \<Rightarrow> (None, None, None))
      else (si_num_value i, si_str_value i, None))"

datatype input_error = NoTarget | NoScoreValue

text \<open>\<open>uuid\<close> and \<open>now\<close> are the fresh id and the clock, read when the input has none.\<close>

definition resolve_score :: "score_source \<Rightarrow> str \<Rightarrow> u64 \<Rightarrow> score_input \<Rightarrow> input_error + score" where
  "resolve_score default_source uuid now i =
     (case target_from_parts (si_span_id i) (si_trace_id i) (si_session_id i) (si_run_id i) of
        None \<Rightarrow> Inl NoTarget
      | Some target \<Rightarrow>
          (let (num, text, inferred) = input_value i
           in if num = None \<and> text = None then Inl NoScoreValue
              else Inr \<lparr>sc_id = (case si_id i of Some x \<Rightarrow> x | None \<Rightarrow> uuid), sc_target = target, sc_name = si_name i,
                        sc_num_value = num, sc_str_value = text,
                        sc_data_type = (case opt_or (si_data_type i) inferred of Some t \<Rightarrow> t | None \<Rightarrow> Numeric),
                        sc_source = (case si_source i of Some s \<Rightarrow> s | None \<Rightarrow> default_source),
                        sc_comment = si_comment i, sc_config_id = si_config_id i, sc_agg_stats = None,
                        sc_ts_unix_nano = (case si_ts_unix_nano i of Some t \<Rightarrow> t | None \<Rightarrow> now)\<rparr>))"

text \<open>The scores with their trace hints, or the first error. \<open>fresh\<close> and \<open>clock\<close> answer the \<open>k\<close>-th input.\<close>

fun resolve_all ::
  "(nat \<Rightarrow> str) \<Rightarrow> (nat \<Rightarrow> u64) \<Rightarrow> nat \<Rightarrow> score_input list \<Rightarrow> input_error + (score \<times> str option) list" where
  "resolve_all fresh clock k [] = Inr []"
| "resolve_all fresh clock k (i # rest) =
     (case resolve_score SrcApi (fresh k) (clock k) i of
        Inl e \<Rightarrow> Inl e
      | Inr sc \<Rightarrow>
          (case resolve_all fresh clock (Suc k) rest of
             Inl e \<Rightarrow> Inl e
           | Inr scs \<Rightarrow> Inr ((sc, si_trace_id i) # scs)))"

definition join_record :: "join_status \<Rightarrow> join_summary \<Rightarrow> join_summary" where
  "join_record s j =
     (case s of
        Matched \<Rightarrow> j\<lparr>jo_matched := jo_matched j + 1\<rparr>
      | Unmatched \<Rightarrow> j\<lparr>jo_unmatched := jo_unmatched j + 1\<rparr>
      | Unverified \<Rightarrow> j\<lparr>jo_unverified := jo_unverified j + 1\<rparr>
      | NotApplicable \<Rightarrow> j\<lparr>jo_not_applicable := jo_not_applicable j + 1\<rparr>)"

definition join_default :: join_summary where
  "join_default = \<lparr>jo_matched = 0, jo_unmatched = 0, jo_unverified = 0, jo_not_applicable = 0\<rparr>"

definition join_to_json :: "usize \<Rightarrow> join_summary \<Rightarrow> join_json" where
  "join_to_json checked j =
     \<lparr>jj_checked = checked, jj_summary = j, jj_warn_unmatched = 0 < jo_unmatched j, jj_warn_unverified = 0 < jo_unverified j\<rparr>"

text \<open>The traces whose spans the check reads; the spans of one, \<open>None\<close> when they are not wanted or the read
  fails as \<open>Some None\<close>.\<close>

definition wanted_traces :: "(score_target \<times> str option) list \<Rightarrow> str list" where
  "wanted_traces items =
     concat (map (\<lambda>(t, hint). case t of TargetTrace i \<Rightarrow> [i]
                                | TargetSpan _ \<Rightarrow> (case hint of Some h \<Rightarrow> [h] | None \<Rightarrow> []) | _ \<Rightarrow> []) items)"

definition trace_spans ::
  "(str \<Rightarrow> io_error + normalized_span list) \<Rightarrow> (score_target \<times> str option) list \<Rightarrow> str \<Rightarrow> str set option option" where
  "trace_spans read items tid =
     (if tid \<in> set (wanted_traces items)
      then Some (case read tid of Inr spans \<Rightarrow> Some (set (map ns_span_id spans)) | Inl _ \<Rightarrow> None)
      else None)"

definition join_status_of ::
  "(str \<Rightarrow> str set option option) \<Rightarrow> str set \<Rightarrow> score_target \<times> str option \<Rightarrow> join_status" where
  "join_status_of spans_of hot_ids item =
     (case item of (target, hint) \<Rightarrow>
        (case target of
           TargetTrace i \<Rightarrow>
             (case spans_of i of
                Some (Some s) \<Rightarrow> if s = {} then Unmatched else Matched
              | _ \<Rightarrow> Unverified)
         | TargetSpan sid \<Rightarrow>
             (case (case hint of Some h \<Rightarrow> spans_of h | None \<Rightarrow> None) of
                Some (Some s) \<Rightarrow> if sid \<in> s then Matched else Unmatched
              | Some None \<Rightarrow> Unverified
              | None \<Rightarrow> if sid \<in> hot_ids then Matched else Unverified)
         | _ \<Rightarrow> NotApplicable))"

definition validate_targets ::
  "(str \<Rightarrow> io_error + normalized_span list) \<Rightarrow> normalized_span list \<Rightarrow> (score_target \<times> str option) list \<Rightarrow> join_status list \<times> join_summary" where
  "validate_targets read hot items =
     (let statuses = map (join_status_of (trace_spans read items) (set (map ns_span_id hot))) items
      in (statuses, fold join_record statuses join_default))"

definition post_scores ::
  "score_json \<Rightarrow> (str \<Rightarrow> scores_body option) \<Rightarrow> (nat \<Rightarrow> str) \<Rightarrow> (nat \<Rightarrow> u64) \<Rightarrow> (str \<Rightarrow> io_error + normalized_span list)
     \<Rightarrow> normalized_span list \<Rightarrow> bool \<Rightarrow> str \<Rightarrow> node \<Rightarrow> response \<times> node" where
  "post_scores j parse fresh clock read hot strict body nd =
     (case parse body of
        None \<Rightarrow> (bad_body, nd)
      | Some parsed \<Rightarrow>
          (case resolve_all fresh clock 0 (case parsed of One i \<Rightarrow> [i] | Many is \<Rightarrow> is) of
             Inl e \<Rightarrow> (text_reply 400 (case e of NoTarget \<Rightarrow> ''evald: a score needs one of span_id / trace_id / session_id / run_id''
                                       | NoScoreValue \<Rightarrow> ''evald: a score needs a value (number/string/bool, or num_value/str_value)''), nd)
           | Inr hinted \<Rightarrow>
               (let scs = map fst hinted;
                    (_, summary) = validate_targets read hot (map (\<lambda>(sc, hint). (sc_target sc, hint)) hinted);
                    join = join_to_json (length scs) summary
                in if strict \<and> 0 < jo_unmatched summary
                   then (\<lparr>rp_status = 422, rp_headers = [], rp_body = DanglingBody join\<rparr>, nd)
                   else case put_scores j scs nd of
                          (Inr _, nd') \<Rightarrow> (\<lparr>rp_status = 201, rp_headers = [], rp_body = IdsBody (map sc_id scs) join\<rparr>, nd')
                        | (Inl _, nd') \<Rightarrow> (text_reply 500 ''evald: could not store scores'', nd'))))"

record annotation_result =
  ar_label :: "str option"
  ar_score :: "f64 option"
  ar_explanation :: "str option"

record span_annotation =
  an_span_id :: str
  an_name :: str
  an_annotator_kind :: "str option"
  an_result :: "annotation_result option"
  an_identifier :: "str option"

definition annotation_score :: "str \<Rightarrow> u64 \<Rightarrow> span_annotation \<Rightarrow> score" where
  "annotation_score uuid now a =
     (let r = (case an_result a of Some r \<Rightarrow> r | None \<Rightarrow> \<lparr>ar_label = None, ar_score = None, ar_explanation = None\<rparr>)
      in \<lparr>sc_id = (case an_identifier a of
                     Some ident \<Rightarrow> if ident = [] then uuid else an_span_id a @ '':'' @ an_name a @ '':'' @ ident
                   | None \<Rightarrow> uuid),
          sc_target = TargetSpan (an_span_id a), sc_name = an_name a, sc_num_value = ar_score r, sc_str_value = ar_label r,
          sc_data_type = (if ar_score r \<noteq> None then Numeric else if ar_label r \<noteq> None then Categorical else TextType),
          sc_source = (if an_annotator_kind a = Some ''HUMAN'' then SrcHuman else SrcEval),
          sc_comment = ar_explanation r, sc_config_id = None, sc_agg_stats = None, sc_ts_unix_nano = now\<rparr>)"

fun annotation_scores :: "(nat \<Rightarrow> str) \<Rightarrow> u64 \<Rightarrow> nat \<Rightarrow> span_annotation list \<Rightarrow> score list" where
  "annotation_scores fresh now k [] = []"
| "annotation_scores fresh now k (a # rest) = annotation_score (fresh k) now a # annotation_scores fresh now (Suc k) rest"

definition post_span_annotations ::
  "score_json \<Rightarrow> (str \<Rightarrow> span_annotation list option) \<Rightarrow> (nat \<Rightarrow> str) \<Rightarrow> u64 \<Rightarrow> (str \<Rightarrow> io_error + normalized_span list)
     \<Rightarrow> normalized_span list \<Rightarrow> bool \<Rightarrow> str \<Rightarrow> node \<Rightarrow> response \<times> node" where
  "post_span_annotations j parse fresh now read hot strict body nd =
     (case parse body of
        None \<Rightarrow> (\<lparr>rp_status = 422, rp_headers = [], rp_body = BadBody\<rparr>, nd)
      | Some data \<Rightarrow>
          (let scs = annotation_scores fresh now 0 data;
               (_, summary) = validate_targets read hot (map (\<lambda>sc. (sc_target sc, None)) scs);
               join = join_to_json (length scs) summary
           in if strict \<and> 0 < jo_unmatched summary
              then (\<lparr>rp_status = 422, rp_headers = [], rp_body = DanglingBody join\<rparr>, nd)
              else case put_scores j scs nd of
                     (Inr _, nd') \<Rightarrow> (ok_reply (AnnotationIdsBody (map sc_id scs) join), nd')
                   | (Inl _, nd') \<Rightarrow> (text_reply 500 ''evald: could not store annotations'', nd')))"

section \<open>An export is answered with its outcome\<close>

lemma put_batch_fails: "fst (put_batch j scs st) = Inl e \<Longrightarrow> snd (put_batch j scs st) = st"
  by (auto simp: put_batch_def split: if_splits sum.splits)

lemma put_scores_eq:
  "put_scores j scs nd =
     (case fst (put_batch j scs (nd_scores nd)) of
        Inl e \<Rightarrow> (Inl e, nd)
      | Inr _ \<Rightarrow> (Inr (), nd\<lparr>nd_scores := snd (put_batch j scs (nd_scores nd)), nd_usage := map_option (record_scores scs) (nd_usage nd)\<rparr>))"
  using put_batch_fails [of j scs "nd_scores nd"] by (cases "put_batch j scs (nd_scores nd)") (auto simp: put_scores_def split: sum.split)

definition batch_stored :: "outside \<Rightarrow> normalized_span list \<Rightarrow> score list \<Rightarrow> node \<Rightarrow> node \<Rightarrow> bool" where
  "batch_stored out spans scs nd nd' \<longleftrightarrow>
     (case admitted spans (ie_calls (nd_ingest nd)) of (kept, ks, ledger) \<Rightarrow>
        fst (put_batch (ou_score_json out) scs (nd_scores nd)) = Inr () \<and>
        nd_scores nd' = snd (put_batch (ou_score_json out) scs (nd_scores nd)) \<and>
        ie_calls (nd_ingest nd') = remember ks ledger \<and>
        (kept = [] \<or>
         ou_ack out = Inr () \<and>
         (\<exists>ready. ig_queue (ie_gate (nd_ingest nd')) = ig_queue (ie_gate (nd_ingest nd)) @ [Append (ou_reply_id out) ready] \<and>
            list_all2 (\<lambda>s s'. span_moved (ie_blobs (nd_ingest nd')) (redacted (ou_short_hash out) (ie_redactor (nd_ingest nd)) s) s')
              kept ready)))"

definition scores_untouched :: "node \<Rightarrow> node \<Rightarrow> bool" where
  "scores_untouched nd nd' \<longleftrightarrow> nd_scores nd' = nd_scores nd \<and> nd_usage nd' = nd_usage nd"

lemma store_batch_spec:
  assumes "store_batch out spans scs nd = Some (r, nd')"
  shows "case r of Inr n \<Rightarrow> batch_stored out spans scs nd nd' | Inl e \<Rightarrow> scores_untouched nd nd'"
proof -
  obtain stored nd1 where p: "put_scores (ou_score_json out) scs nd = (stored, nd1)" by fastforce
  obtain env where i: "ingest_batch (ou_short_hash out) (ou_hasher out) (ou_blob_io out) (ou_reply_id out) (ou_ack out) stored spans
      (nd_ingest nd) = Some (r, env)"
    and nd': "nd' = (case r of Inl e \<Rightarrow> nd\<lparr>nd_ingest := env\<rparr> | Inr n \<Rightarrow> nd1\<lparr>nd_ingest := env\<rparr>)"
    using assms by (auto simp: store_batch_def p split: option.splits sum.splits)
  obtain kept ks ledger where a: "admitted spans (ie_calls (nd_ingest nd)) = (kept, ks, ledger)" by (metis prod_cases3)
  show ?thesis
  proof (cases r)
    case (Inl e)
    then show ?thesis by (simp add: nd' scores_untouched_def)
  next
    case (Inr n)
    have "stored = Inr () \<and> ie_calls env = remember ks ledger \<and>
        (kept = [] \<or> ou_ack out = Inr () \<and>
          (\<exists>ready. ig_queue (ie_gate env) = ig_queue (ie_gate (nd_ingest nd)) @ [Append (ou_reply_id out) ready] \<and>
            list_all2 (\<lambda>s s'. span_moved (ie_blobs env) (redacted (ou_short_hash out) (ie_redactor (nd_ingest nd)) s) s') kept ready))"
      using i a
    proof (cases rule: ingest_batch_cases)
      case (floor err g)
      then show ?thesis using Inr by simp
    next
      case (refused g ready n e2 res g2 err)
      then show ?thesis using Inr by simp
    next
      case (durable g ready m e2 res g2)
      note s = prepare_spec [OF durable(2)]
      have q: "ig_queue (ie_gate e2) = ig_queue (ie_gate (nd_ingest nd))" using s(3) reject_cases(1) [OF durable(1)] by simp
      have st: "stored = Inr ()" using durable(5) Inr by (auto split: sum.splits)
      have len: "length kept = length ready" using s(1) by (simp add: list_all2_lengthD)
      show ?thesis
      proof (cases "kept = []")
        case True
        then show ?thesis using st durable(6) by simp
      next
        case False
        then have "res \<noteq> None" using append_cases(2) [OF durable(3)] len by auto
        then have "res = Some (ou_reply_id out)" and ack: "ou_ack out = Inr ()"
          using durable(3,4) by (auto simp: append_def split: if_splits prod.splits sum.splits)
        then show ?thesis using st durable(6) q s(1) append_cases(1) [OF durable(3)] by auto
      qed
    qed
    then show ?thesis using Inr p
      by (auto simp: batch_stored_def a nd' put_scores_eq split: sum.splits)
  qed
qed

definition outcome_told :: "outside \<Rightarrow> normalized_span list \<Rightarrow> score list \<Rightarrow> node \<Rightarrow> response \<Rightarrow> node \<Rightarrow> bool" where
  "outcome_told out spans scs nd resp nd' \<longleftrightarrow>
     rp_status resp = 200 \<and> batch_stored out spans scs nd nd' \<or>
     (rp_status resp = 429 \<and> rp_headers resp = [(''retry-after'', ''1'')] \<or> rp_status resp = 503) \<and> scores_untouched nd nd'"

lemma export_reply_told:
  assumes "export_reply is_json (store_batch out spans scs nd) = Some (resp, nd')"
  shows "outcome_told out spans scs nd resp nd'"
proof -
  obtain r where s: "store_batch out spans scs nd = Some (r, nd')"
    and resp: "resp = (case r of Inl err \<Rightarrow> store_error_response err | Inr _ \<Rightarrow> success_response is_json)"
    using assms by (auto simp: export_reply_def split: option.splits sum.splits)
  show ?thesis using store_batch_spec [OF s] resp
    by (auto simp: outcome_told_def success_response_def store_error_response_def text_reply_def split: sum.splits store_error.splits)
qed

lemma batch_stored_logs [simp]: "batch_stored out spans scs (nd\<lparr>nd_logs := l\<rparr>) nd' = batch_stored out spans scs nd nd'"
  by (simp add: batch_stored_def)

lemma scores_untouched_logs [simp]: "scores_untouched (nd\<lparr>nd_logs := l\<rparr>) nd' = scores_untouched nd nd'"
  by (simp add: scores_untouched_def)

text \<open>
  C7. Either export door answers with what happened to the request: a body that cannot be decoded is a
  400 that changes nothing; a 200 means that every span the call ledger admitted was queued, redacted and
  with each payload in place or as a reference that reads back, that the writer acknowledged them, that
  the ledger remembers their calls, and that the request's scores are stored in one transaction; anything
  else is a reply the exporter retries, and no score of the request is stored.
\<close>
theorem export_is_answered_with_its_outcome:
  shows "(export_traces out prices d ct body nd = Some (resp, nd') \<longrightarrow>
       (case decode_body d (is_json_request ct) body of
          None \<Rightarrow> rp_status resp = 400 \<and> nd' = nd
        | Some req \<Rightarrow> outcome_told out (normalize_request (ou_crates out) prices req) (fst (extract_events (ou_crates out) req)) nd resp nd')) \<and>
     (export_logs out prices policy dl ct body nd = Some (resp, nd') \<longrightarrow>
       (case decode_body dl (is_json_request ct) body of
          None \<Rightarrow> rp_status resp = 400 \<and> nd' = nd
        | Some req \<Rightarrow>
            (let b = fst (normalize_logs (ou_crates out) prices policy req (nd_logs nd))
             in outcome_told out (lb_spans b) (lb_scores b) nd resp nd')))"
proof -
  have told: "outcome_told out spans scs nd resp nd'"
    if "export_reply (is_json_request ct) (store_batch out spans scs (nd\<lparr>nd_logs := l\<rparr>)) = Some (resp, nd')" for spans scs l
    using export_reply_told [OF that] by (simp add: outcome_told_def)
  show ?thesis
    by (auto simp: export_traces_def export_logs_def bad_body_def Let_def case_prod_beta intro: told split: option.splits)
qed

definition quiet_crates :: crates where
  "quiet_crates = \<lparr>cr_to_string = (\<lambda>_. None), cr_from_str = (\<lambda>_. None), cr_sha256 = (\<lambda>_. replicate 32 1), cr_debug = (\<lambda>_. [])\<rparr>"

definition quiet_outside :: outside where
  "quiet_outside = \<lparr>ou_crates = quiet_crates, ou_short_hash = (\<lambda>_. []), ou_hasher = demo_hash, ou_score_json = sample_json,
     ou_blob_io = quiet_io, ou_reply_id = 0, ou_ack = Inr ()\<rparr>"

definition demo_node :: node where
  "demo_node = \<lparr>nd_ingest = demo_env, nd_scores = scores_open, nd_usage = None, nd_logs = logs_global_start\<rparr>"

definition empty_decoder :: "'a list decoder" where
  "empty_decoder = \<lparr>de_from_slice = (\<lambda>_. None), de_from_value = (\<lambda>_. None), de_decode = (\<lambda>_. Some [])\<rparr>"

lemma demo_export:
  "export_traces quiet_outside \<lparr>pt_version = ''v'', pt_as_of = None, pt_models = om_empty\<rparr> empty_decoder None ''body'' demo_node =
     Some (success_response False, demo_node\<lparr>nd_logs := nd_logs demo_node\<lparr>lg_events := (0, 0)\<rparr>\<rparr>)"
  by (simp add: export_traces_def is_json_request_def decode_body_def empty_decoder_def normalize_request_def extract_events_def
      eval_events_def store_batch_def put_scores_def put_batch_def ingest_batch_def may_carry_keys_def reject_if_disk_full_def
      prepare_for_storage_def offload_large_payloads_def append_def remember_def export_reply_def demo_node_def demo_env_def
      count_events_def quiet_outside_def logs_global_start_def wrap_add_def)

theorem export_is_answered_with_its_outcome_witness:
  "outcome_told quiet_outside [] [] demo_node (success_response False) (demo_node\<lparr>nd_logs := nd_logs demo_node\<lparr>lg_events := (0, 0)\<rparr>\<rparr>)"
proof -
  have d: "decode_body empty_decoder (is_json_request None) ''body'' = Some []"
    by (simp add: decode_body_def is_json_request_def empty_decoder_def)
  note e = export_is_answered_with_its_outcome [THEN conjunct1, THEN mp, OF demo_export]
  show ?thesis using e by (simp add: d normalize_request_def extract_events_def eval_events_def map_filter_def)
qed

section \<open>Only the probes answer without a token\<close>

text \<open>
  When the gate is armed, a request that shows no configured token learns nothing and changes nothing:
  the reply and the state are the same whatever the routes behind the gate would do, the state is the one
  before, and the reply is a 401 or one of the two probes'; and a request that shows one, or any request
  when no gate is configured, is served by the routes.
\<close>
theorem only_the_probes_answer_without_a_token:
  "(is_enabled a \<and> \<not> auth_check sha256 a header \<longrightarrow>
      build_router sha256 a gate inner not_allowed is_get path header st = build_router sha256 a gate inner' not_allowed is_get path header st \<and>
      snd (build_router sha256 a gate inner not_allowed is_get path header st) = st \<and>
      (rp_status (fst (build_router sha256 a gate inner not_allowed is_get path header st)) = 401 \<or> path = ''/healthz'' \<or> path = ''/readyz'')) \<and>
   (auth_check sha256 a header \<and> path \<noteq> ''/healthz'' \<and> path \<noteq> ''/readyz'' \<longrightarrow>
      build_router sha256 a gate inner not_allowed is_get path header st = inner st)"
  by (auto simp: build_router_def require_bearer_def)

theorem only_the_probes_answer_without_a_token_witness:
  "snd (build_router (map code) \<lparr>au_tokens = Some {map code ''correct-horse-battery''}\<rparr> (\<lambda>_. ie_gate demo_env)
     (\<lambda>n. (bad_body, Suc n)) bad_body True ''/v1/sql'' (Some ''Basic x'') 0) = 0"
proof -
  let ?a = "\<lparr>au_tokens = Some {map code ''correct-horse-battery''}\<rparr>"
  have "is_enabled ?a \<and> \<not> auth_check (map code) ?a (Some ''Basic x'')" by code_simp
  then show ?thesis by (rule only_the_probes_answer_without_a_token [THEN conjunct1, THEN mp, THEN conjunct2, THEN conjunct1])
qed

section \<open>Posted scores\<close>

lemma join_counts:
  "jo_unmatched (fold join_record ss j) = jo_unmatched j + length (filter (\<lambda>s. s = Unmatched) ss)"
  by (induction ss arbitrary: j) (auto simp: join_record_def split: join_status.split)

lemma no_unmatched:
  "jo_unmatched (snd (validate_targets read hot items)) = 0 \<longleftrightarrow>
     (\<forall>x\<in>set items. join_status_of (trace_spans read items) (set (map ns_span_id hot)) x \<noteq> Unmatched)"
  by (auto simp: validate_targets_def join_counts join_default_def filter_empty_conv)

text \<open>What the check of a target proves: the trace has spans, the span is one of its trace's.\<close>

definition target_known :: "(str \<Rightarrow> io_error + normalized_span list) \<Rightarrow> score_target \<times> str option \<Rightarrow> bool" where
  "target_known read item =
     (case item of
        (TargetTrace t, _) \<Rightarrow> read t \<noteq> Inr []
      | (TargetSpan s, Some t) \<Rightarrow> (case read t of Inr spans \<Rightarrow> s \<in> set (map ns_span_id spans) | Inl _ \<Rightarrow> True)
      | _ \<Rightarrow> True)"

lemma status_known:
  assumes "x \<in> set items"
  shows "join_status_of (trace_spans read items) hot_ids x \<noteq> Unmatched \<longleftrightarrow> target_known read x"
proof -
  obtain t hint where x: "x = (t, hint)" by (cases x)
  have "i \<in> set (wanted_traces items)" if "t = TargetTrace i \<or> (\<exists>s. t = TargetSpan s) \<and> hint = Some i" for i
    using assms that by (force simp: wanted_traces_def x)
  then show ?thesis
    by (auto simp: x join_status_of_def target_known_def trace_spans_def split: score_target.splits option.splits sum.splits)
qed

lemma post_scores_cases:
  assumes "post_scores j parse fresh clock read hot strict body nd = (resp, nd')"
  obtains (refused) "rp_status resp \<noteq> 201" "nd' = nd"
  | (stored) parsed hinted join where "parse body = Some parsed"
      "resolve_all fresh clock 0 (case parsed of One i \<Rightarrow> [i] | Many is \<Rightarrow> is) = Inr hinted"
      "\<not> (strict \<and> 0 < jo_unmatched (snd (validate_targets read hot (map (\<lambda>(sc, hint). (sc_target sc, hint)) hinted))))"
      "rp_status resp = 201" "rp_body resp = IdsBody (map (sc_id \<circ> fst) hinted) join"
      "put_scores j (map fst hinted) nd = (Inr (), nd')"
proof (cases "parse body")
  case None
  then show thesis using assms refused by (auto simp: post_scores_def bad_body_def)
next
  case (Some parsed)
  show thesis
  proof (cases "resolve_all fresh clock 0 (case parsed of One i \<Rightarrow> [i] | Many is \<Rightarrow> is)")
    case (Inl e)
    then show thesis using assms refused Some by (auto simp: post_scores_def text_reply_def)
  next
    case (Inr hinted)
    then show thesis using assms refused stored Some
      by (auto simp: post_scores_def text_reply_def Let_def case_prod_beta put_scores_eq comp_def split: if_splits sum.splits)
  qed
qed

text \<open>The scores a body stands for, with their trace hints; none when it is refused.\<close>

definition posted :: "(str \<Rightarrow> scores_body option) \<Rightarrow> (nat \<Rightarrow> str) \<Rightarrow> (nat \<Rightarrow> u64) \<Rightarrow> str \<Rightarrow> (score \<times> str option) list" where
  "posted parse fresh clock body =
     (case parse body of
        None \<Rightarrow> []
      | Some parsed \<Rightarrow>
          (case resolve_all fresh clock 0 (case parsed of One i \<Rightarrow> [i] | Many is \<Rightarrow> is) of Inl _ \<Rightarrow> [] | Inr hinted \<Rightarrow> hinted))"

definition bare_input :: "str \<Rightarrow> str option \<Rightarrow> score_input" where
  "bare_input span trace_id = \<lparr>si_id = Some ''i'', si_trace_id = trace_id, si_span_id = Some span, si_session_id = None,
     si_run_id = None, si_name = ''quality'', si_value = Some (JBool True), si_num_value = None, si_str_value = None,
     si_data_type = None, si_source = None, si_comment = None, si_config_id = None, si_ts_unix_nano = Some 1\<rparr>"

definition bare_score :: "str \<Rightarrow> score" where
  "bare_score span = \<lparr>sc_id = ''i'', sc_target = TargetSpan span, sc_name = ''quality'', sc_num_value = Some f_one,
     sc_str_value = None, sc_data_type = Boolean, sc_source = SrcApi, sc_comment = None, sc_config_id = None,
     sc_agg_stats = None, sc_ts_unix_nano = 1\<rparr>"

lemma bare_resolved:
  assumes "span \<noteq> []"
  shows "resolve_all fresh clock 0 [bare_input span t] = Inr [(bare_score span, t)]"
  using assms by (simp add: resolve_score_def bare_input_def bare_score_def target_from_parts_def input_value_def opt_or_def
      split: option.split)

text \<open>
  C19. Posting scores is all or nothing: unless the reply is a 201 the node is as it was; on a 201 each score
  of the body is stored under the id the reply lists, and reads back as the last one posted under that
  id; and in strict mode every trace a stored score names has spans and every span given with its trace
  is one of them, or the store could not be read. Assumed is that \<open>serde_json\<close> reads back each posted score.
\<close>
theorem posted_scores_are_stored_or_refused:
  assumes "post_scores j parse fresh clock read hot strict body nd = (resp, nd')"
    and "stores j (nd_scores nd) m" and "list_all (reads_back j) (map fst (posted parse fresh clock body))"
  shows "if rp_status resp = 201
    then (\<exists>join. rp_body resp = IdsBody (map (sc_id \<circ> fst) (posted parse fresh clock body)) join) \<and>
      (\<forall>i. score_get j i (nd_scores nd') = Inr (put_all (map fst (posted parse fresh clock body)) m i)) \<and>
      (strict \<longrightarrow> (\<forall>(sc, hint)\<in>set (posted parse fresh clock body). target_known read (sc_target sc, hint)))
    else nd' = nd"
  using assms(1)
proof (cases rule: post_scores_cases)
  case refused
  then show ?thesis by simp
next
  case (stored parsed hinted join)
  let ?scs = "map fst hinted"
  have posted: "posted parse fresh clock body = hinted" using stored(1,2) by (simp add: posted_def)
  have ok: "fst (put_batch j ?scs (nd_scores nd)) = Inr ()" and nd': "nd_scores nd' = snd (put_batch j ?scs (nd_scores nd))"
    using stored(6) by (auto simp: put_scores_eq split: sum.splits)
  note rb = assms(3) [unfolded posted]
  have "list_all (\<lambda>s. js j s \<noteq> None) ?scs" using put_batch_stores(2) [OF assms(2) rb] ok by (auto split: if_splits)
  then have "stores j (nd_scores nd') (put_all ?scs m)"
    using put_batch_stores(1) [OF assms(2) rb] by (simp add: nd' put_spec_def)
  then have get: "score_get j i (nd_scores nd') = Inr (put_all ?scs m i)" for i by (rule stores_get)
  have known: "target_known read (sc_target sc, hint)" if "strict" "(sc, hint) \<in> set hinted" for sc hint
  proof -
    let ?items = "map (\<lambda>(sc, hint). (sc_target sc, hint)) hinted"
    have "jo_unmatched (snd (validate_targets read hot ?items)) = 0" using stored(3) that(1) by simp
    moreover have "(sc_target sc, hint) \<in> set ?items" using that(2) by force
    ultimately show ?thesis using status_known unfolding no_unmatched by blast
  qed
  show ?thesis using stored get known by (auto simp: posted)
qed

definition bare_json :: score_json where
  "bare_json = \<lparr>js = (\<lambda>_. Some ''x''), jp = (\<lambda>_. Some (bare_score ''ab''))\<rparr>"

theorem posted_scores_are_stored_or_refused_witness:
  "score_get bare_json ''i'' (nd_scores (snd (post_scores bare_json (\<lambda>_. Some (One (bare_input ''ab'' (Some ''t'')))) (\<lambda>_. ''u'')
     (\<lambda>_. 0) (\<lambda>_. Inr [plain_span ''t'' ''ab'' 5]) [] True ''body'' demo_node))) = Inr (Some (bare_score ''ab''))"
proof -
  let ?parse = "\<lambda>_ :: str. Some (One (bare_input ''ab'' (Some ''t'')))"
  let ?r = "post_scores bare_json ?parse (\<lambda>_. ''u'') (\<lambda>_. 0) (\<lambda>_. Inr [plain_span ''t'' ''ab'' 5]) [] True ''body'' demo_node"
  have st: "stores bare_json (nd_scores demo_node) Map.empty" by (simp add: demo_node_def stores_open)
  note res = bare_resolved [of "''ab''", OF list.distinct(2)]
  have p: "posted ?parse (\<lambda>_. ''u'') (\<lambda>_. 0) ''body'' = [(bare_score ''ab'', Some ''t'')]"
    by (simp add: posted_def res del: resolve_all.simps)
  have "jo_unmatched (snd (validate_targets (\<lambda>_. Inr [plain_span ''t'' ''ab'' 5]) [] [(TargetSpan ''ab'', Some ''t'')])) = 0"
    by (simp add: no_unmatched join_status_of_def trace_spans_def wanted_traces_def plain_span_def)
  moreover have "fst (put_batch bare_json [bare_score ''ab''] (nd_scores demo_node)) = Inr ()"
    by (simp add: put_batch_def put_one_def old_key_of_def demo_node_def scores_open_def map_simps bare_json_def Let_def)
  moreover have "sc_target (bare_score ''ab'') = TargetSpan ''ab''" by (simp add: bare_score_def)
  ultimately have "rp_status (fst ?r) = 201"
    by (simp add: post_scores_def res Let_def case_prod_beta put_scores_eq del: resolve_all.simps)
  moreover have "list_all (reads_back bare_json) (map fst [(bare_score ''ab'', Some ''t'')])" by (simp add: reads_back_def bare_json_def)
  ultimately show ?thesis
    using posted_scores_are_stored_or_refused [OF prod.collapse [symmetric] st, of ?parse "\<lambda>_. ''u''" "\<lambda>_. 0" "''body''"
        "\<lambda>_. Inr [plain_span ''t'' ''ab'' 5]" "[]" True]
    by (simp add: p put_all_def bare_score_def)
qed

section \<open>What the posting routes get wrong\<close>

text \<open>
  An empty trace id, which is read as no trace id when the target of a score is chosen, is still used
  as the hint of where its span is: posted strictly with one, a score of a span that is in the hot tier
  is refused as dangling, while the same score posted without it is stored.
\<close>
theorem empty_trace_id_refuses_a_score_of_a_stored_span:
  assumes "span \<noteq> []" "span \<in> set (map ns_span_id hot)" "read [] = Inr []"
    and "fst (put_batch j [bare_score span] (nd_scores nd)) = Inr ()"
  shows "rp_status (fst (post_scores j (\<lambda>_. Some (One (bare_input span (Some [])))) fresh clock read hot True body nd)) = 422 \<and>
    rp_status (fst (post_scores j (\<lambda>_. Some (One (bare_input span None))) fresh clock read hot True body nd)) = 201"
proof -
  have t: "sc_target (bare_score span) = TargetSpan span" by (simp add: bare_score_def)
  have "jo_unmatched (snd (validate_targets read hot [(TargetSpan span, Some [])])) = 1"
    using assms(3) by (simp add: validate_targets_def join_record_def join_default_def join_status_of_def trace_spans_def wanted_traces_def)
  moreover have "jo_unmatched (snd (validate_targets read hot [(TargetSpan span, None)])) = 0"
    using assms(2) by (simp add: validate_targets_def join_record_def join_default_def join_status_of_def)
  ultimately show ?thesis
    using assms(4)
    by (simp add: post_scores_def bare_resolved [OF assms(1)] t Let_def case_prod_beta put_scores_eq del: resolve_all.simps)
qed

theorem empty_trace_id_refuses_a_score_of_a_stored_span_witness:
  "rp_status (fst (post_scores sample_json (\<lambda>_. Some (One (bare_input ''ab'' (Some [])))) (\<lambda>_. ''u'') (\<lambda>_. 0) (\<lambda>_. Inr [])
     [plain_span ''t'' ''ab'' 5] True ''body'' demo_node)) = 422"
proof -
  have "''ab'' \<in> set (map ns_span_id [plain_span ''t'' ''ab'' 5])" by (simp add: plain_span_def)
  moreover have "fst (put_batch sample_json [bare_score ''ab''] (nd_scores demo_node)) = Inr ()"
    by (simp add: put_batch_def put_one_def old_key_of_def demo_node_def scores_open_def map_simps sample_json_def Let_def)
  ultimately show ?thesis
    using empty_trace_id_refuses_a_score_of_a_stored_span [of "''ab''" "[plain_span ''t'' ''ab'' 5]" "\<lambda>_. Inr []" sample_json demo_node]
    by blast
qed

definition named_annotation :: "str \<Rightarrow> str \<Rightarrow> str \<Rightarrow> f64 \<Rightarrow> span_annotation" where
  "named_annotation span label ident v = \<lparr>an_span_id = span, an_name = label, an_annotator_kind = None,
     an_result = Some \<lparr>ar_label = None, ar_score = Some v, ar_explanation = None\<rparr>, an_identifier = Some ident\<rparr>"

text \<open>
  The stable ids of span annotations are not injective: the span id, the name and the identifier are
  joined by colons unescaped, so the annotation \<open>a\<close> with identifier \<open>b:c\<close> and the annotation \<open>a:b\<close> with
  identifier \<open>c\<close> of one span get one id. Posted together, both are acknowledged and only the second is
  kept.
\<close>
theorem annotation_ids_collide:
  fixes now :: u64 and fresh :: "nat \<Rightarrow> str" and s :: str and v w :: f64
  defines "a \<equiv> annotation_score (fresh 0) now (named_annotation s ''a'' ''b:c'' v)"
    and "b \<equiv> annotation_score (fresh 1) now (named_annotation s ''a:b'' ''c'' w)" and "key \<equiv> s @ '':a:b:c''"
  assumes "stores j (nd_scores nd) m" "reads_back j a" "reads_back j b" "js j a \<noteq> None" "js j b \<noteq> None"
    and "post_span_annotations j (\<lambda>_. Some [named_annotation s ''a'' ''b:c'' v, named_annotation s ''a:b'' ''c'' w]) fresh now read hot
           False body nd = (resp, nd')"
  shows "rp_status resp = 200 \<and> (\<exists>join. rp_body resp = AnnotationIdsBody [key, key] join) \<and>
    score_get j key (nd_scores nd') = Inr (Some b) \<and> sc_name b = ''a:b'' \<and>
    (\<forall>i. i \<noteq> key \<longrightarrow> score_get j i (nd_scores nd') = Inr (m i))"
proof -
  have ids: "sc_id a = key" "sc_id b = key" "sc_name b = ''a:b''"
    by (simp_all add: a_def b_def annotation_score_def named_annotation_def key_def)
  have rb: "list_all (reads_back j) [a, b]" and js: "list_all (\<lambda>s. js j s \<noteq> None) [a, b]" using assms(5-8) by simp_all
  note p = put_batch_stores [OF assms(4) rb, unfolded put_spec_def if_P [OF js]]
  have scs: "annotation_scores fresh now 0 [named_annotation s ''a'' ''b:c'' v, named_annotation s ''a:b'' ''c'' w] = [a, b]"
    by (simp add: a_def b_def)
  have "rp_status resp = 200 \<and> (\<exists>join. rp_body resp = AnnotationIdsBody [key, key] join) \<and>
      nd_scores nd' = snd (put_batch j [a, b] (nd_scores nd))"
    using assms(9) p(2) ids by (auto simp: post_span_annotations_def scs Let_def case_prod_beta put_scores_eq ok_reply_def
        simp del: annotation_scores.simps)
  moreover from this have "score_get j i (nd_scores nd') = Inr (put_all [a, b] m i)" for i
    using stores_get [OF p(1)] by simp
  ultimately show ?thesis using ids by (simp add: put_all_def)
qed

definition named_json :: score_json where
  "named_json =
     \<lparr>js = (\<lambda>sc. Some (if sc_name sc = ''a'' then ''A'' else ''B'')),
      jp = (\<lambda>t. Some (annotation_score ''u'' 7 (if t = ''A'' then named_annotation ''ab'' ''a'' ''b:c'' f_one
                                          else named_annotation ''ab'' ''a:b'' ''c'' f_zero)))\<rparr>"

theorem annotation_ids_collide_witness:
  "score_get named_json ''ab:a:b:c'' (nd_scores (snd (post_span_annotations named_json
     (\<lambda>_. Some [named_annotation ''ab'' ''a'' ''b:c'' f_one, named_annotation ''ab'' ''a:b'' ''c'' f_zero]) (\<lambda>_. ''u'') 7 (\<lambda>_. Inr []) []
     False ''body'' demo_node))) = Inr (Some (annotation_score ''u'' 7 (named_annotation ''ab'' ''a:b'' ''c'' f_zero)))"
proof -
  let ?a = "annotation_score ''u'' 7 (named_annotation ''ab'' ''a'' ''b:c'' f_one)"
  let ?b = "annotation_score ''u'' 7 (named_annotation ''ab'' ''a:b'' ''c'' f_zero)"
  have st: "stores named_json (nd_scores demo_node) Map.empty" by (simp add: demo_node_def stores_open)
  have n: "sc_name ?a = ''a''" "sc_name ?b = ''a:b''" by (simp_all add: annotation_score_def named_annotation_def)
  have rb: "reads_back named_json ?a" "reads_back named_json ?b" "js named_json ?a \<noteq> None" "js named_json ?b \<noteq> None"
    by (simp_all add: reads_back_def named_json_def n)
  note r = annotation_ids_collide [where j = named_json and nd = demo_node and fresh = "\<lambda>_. ''u''" and now = 7 and s = "''ab''"
      and v = f_one and w = f_zero, OF st rb, OF prod.collapse [symmetric]]
  show ?thesis using r by simp
qed

end
