(* ===== verification/Sessions.thy ===== *)
theory Sessions
  imports Http
begin

text \<open>
  Sessions, \<^verbatim>\<open>src/sessions.rs\<close>: the spans of a session summed up, its tool calls merged over their
  copies and over nested spans of one call, and the repeats among them; and the two HTTP reads of them.
  A \<open>HashMap\<close> is iterated in an order of its own, here an argument that lists the values of the map; the
  JSON writer is a parameter.
\<close>

section \<open>What is summed up\<close>

definition loop_run :: usize where "loop_run = 3"

record tool_call =
  tc_name :: str
  tc_named :: bool
  tc_failed :: bool
  tc_trace_id :: str
  tc_span_id :: str
  tc_parent_span_id :: "str option"
  tc_start :: u64
  tc_arguments :: "str option"
  tc_by_id :: bool

record session_acc =
  sa_span_count :: usize
  sa_traces :: "str set"
  sa_cost :: "f64 option"
  sa_tokens :: tokens
  sa_start :: u64
  sa_end :: u64
  sa_llm_calls :: usize
  sa_llm_errors :: usize
  sa_tools :: "(str, tool_call) omap"
  sa_models :: "(str, unit) omap"
  sa_agents :: "(str, unit) omap"

definition acc_default :: session_acc where
  "acc_default = \<lparr>sa_span_count = 0, sa_traces = {}, sa_cost = None, sa_tokens = tokens_default, sa_start = u64_max, sa_end = 0,
     sa_llm_calls = 0, sa_llm_errors = 0, sa_tools = om_empty, sa_models = om_empty, sa_agents = om_empty\<rparr>"

record session_rollup =
  sr_session_id :: str
  sr_span_count :: usize
  sr_trace_count :: usize
  sr_cost_usd :: "f64 option"
  sr_tokens :: tokens
  sr_start_unix_nano :: u64
  sr_end_unix_nano :: u64
  sr_llm_calls :: usize
  sr_llm_errors :: usize
  sr_tool_calls :: usize
  sr_tool_errors :: usize
  sr_models :: "str list"
  sr_tools :: "(str, usize) omap"
  sr_agents :: "str list"
  sr_steps_per_trace :: f64
  sr_tool_error_rate :: "f64 option"
  sr_repeated_tool_calls :: usize
  sr_longest_repeat_run :: usize
  sr_loop_suspected :: bool
  sr_scanned :: usize
  sr_truncated :: bool

definition add_count :: "u64 option \<Rightarrow> u64 option \<Rightarrow> u64 option" where
  "add_count acc v = (case v of None \<Rightarrow> acc | Some n \<Rightarrow> Some (wrap_add (or_zero acc) n))"

definition add_tokens :: "tokens \<Rightarrow> tokens \<Rightarrow> tokens" where
  "add_tokens acc t =
     \<lparr>tk_prompt = add_count (tk_prompt acc) (tk_prompt t), tk_completion = add_count (tk_completion acc) (tk_completion t),
      tk_total = add_count (tk_total acc) (tk_total t), tk_cache_read = add_count (tk_cache_read acc) (tk_cache_read t),
      tk_cache_write = add_count (tk_cache_write acc) (tk_cache_write t),
      tk_reasoning = add_count (tk_reasoning acc) (tk_reasoning t)\<rparr>"

text \<open>The identity of a tool span's call: its call id, or the span itself.\<close>

definition call_identity :: "normalized_span \<Rightarrow> str" where
  "call_identity s =
     (case tool_call_id s of
        Some i \<Rightarrow> ''id:'' @ i
      | None \<Rightarrow> ''span:'' @ ns_trace_id s @ '':'' @ ns_span_id s)"

definition first_copy :: "normalized_span \<Rightarrow> tool_call" where
  "first_copy s = \<lparr>tc_name = ns_name s, tc_named = False, tc_failed = False, tc_trace_id = ns_trace_id s,
     tc_span_id = ns_span_id s, tc_parent_span_id = ns_parent_span_id s, tc_start = ns_start_unix_nano s,
     tc_arguments = None, tc_by_id = (tool_call_id s \<noteq> None)\<rparr>"

definition merge_copy :: "(json \<Rightarrow> str) \<Rightarrow> normalized_span \<Rightarrow> tool_call \<Rightarrow> tool_call" where
  "merge_copy disp s e =
     (let e1 = (case tool_name s of
                  Some n \<Rightarrow> if tc_named e then e else e\<lparr>tc_name := n, tc_named := True\<rparr>
                | None \<Rightarrow> e);
          e2 = (if tc_arguments e1 = None then e1\<lparr>tc_arguments := tool_arguments disp s\<rparr> else e1)
      in e2\<lparr>tc_start := min (tc_start e2) (ns_start_unix_nano s), tc_failed := tc_failed e2 \<or> span_failed s\<rparr>)"

definition add_span :: "(json \<Rightarrow> str) \<Rightarrow> normalized_span \<Rightarrow> session_acc \<Rightarrow> session_acc" where
  "add_span disp s a =
     (let a1 = a\<lparr>sa_span_count := sa_span_count a + 1, sa_traces := insert (ns_trace_id s) (sa_traces a),
                sa_cost := (case ns_cost_usd s of
                              Some c \<Rightarrow> Some (f_add (case sa_cost a of Some x \<Rightarrow> x | None \<Rightarrow> f_zero) c)
                            | None \<Rightarrow> sa_cost a),
                sa_tokens := add_tokens (sa_tokens a) (ns_tokens s),
                sa_start := min (sa_start a) (ns_start_unix_nano s), sa_end := max (sa_end a) (ns_end_unix_nano s),
                sa_agents := (case agent_name s of Some n \<Rightarrow> om_insert n () (sa_agents a) | None \<Rightarrow> sa_agents a)\<rparr>
      in if is_kind s ''LLM'' then
           a1\<lparr>sa_llm_calls := sa_llm_calls a1 + 1, sa_llm_errors := sa_llm_errors a1 + (if ns_status_code s = 2 then 1 else 0),
              sa_models := (case ns_model s of Some m \<Rightarrow> om_insert m () (sa_models a1) | None \<Rightarrow> sa_models a1)\<rparr>
         else if is_kind s ''TOOL'' then
           a1\<lparr>sa_tools := om_alter (call_identity s) (first_copy s) (merge_copy disp s) (sa_tools a1)\<rparr>
         else a1)"

section \<open>Nested calls and repeats\<close>

definition call_at :: "tool_call \<Rightarrow> str \<times> str" where
  "call_at c = (tc_trace_id c, tc_span_id c)"

text \<open>The index: a later call at the same place replaces an earlier one.\<close>

definition call_index :: "tool_call list \<Rightarrow> (str \<times> str) \<Rightarrow> nat option" where
  "call_index calls = map_of (rev (zip (map call_at calls) [0..<length calls]))"

fun climb :: "tool_call list \<Rightarrow> nat \<Rightarrow> nat \<Rightarrow> nat \<Rightarrow> nat" where
  "climb calls i 0 at = at"
| "climb calls i (Suc k) at =
     (case tc_parent_span_id (calls ! at) of
        None \<Rightarrow> at
      | Some parent \<Rightarrow>
          (case call_index calls (tc_trace_id (calls ! at), parent) of
             Some p \<Rightarrow> if tc_name (calls ! p) = tc_name (calls ! i) \<and> p \<noteq> i then climb calls i k p else at
           | None \<Rightarrow> at))"

definition merged_into :: "tool_call list \<Rightarrow> nat \<Rightarrow> nat option" where
  "merged_into calls i =
     (if tc_by_id (calls ! i) then None
      else let at = climb calls i (length calls) i in if at \<noteq> i then Some at else None)"

definition failed_into :: "tool_call list \<Rightarrow> nat \<Rightarrow> bool" where
  "failed_into calls t = list_ex (\<lambda>i. merged_into calls i = Some t \<and> tc_failed (calls ! i)) [0..<length calls]"

definition merge_nested :: "tool_call list \<Rightarrow> tool_call list" where
  "merge_nested calls =
     map (\<lambda>i. (calls ! i)\<lparr>tc_failed := tc_failed (calls ! i) \<or> failed_into calls i\<rparr>)
       (filter (\<lambda>i. merged_into calls i = None) [0..<length calls])"

definition call_order :: "tool_call \<Rightarrow> str \<times> u64 \<times> str" where
  "call_order c = (tc_trace_id c, tc_start c, tc_span_id c)"

definition same_call :: "tool_call \<Rightarrow> tool_call \<Rightarrow> bool" where
  "same_call p c \<longleftrightarrow>
     tc_trace_id p = tc_trace_id c \<and> tc_name p = tc_name c \<and> tc_arguments c \<noteq> None \<and> tc_arguments p = tc_arguments c"

text \<open>The scan from a call on, given the one before it: repeated, longest, run.\<close>

fun repeat_scan :: "tool_call option \<Rightarrow> tool_call list \<Rightarrow> usize \<times> usize \<times> usize \<Rightarrow> usize \<times> usize" where
  "repeat_scan prev [] st = (case st of (repeated, longest, run) \<Rightarrow> (repeated, longest))"
| "repeat_scan prev (c # cs) st =
     (case st of (repeated, longest, run) \<Rightarrow>
        let same = (case prev of Some p \<Rightarrow> same_call p c | None \<Rightarrow> False);
            repeated' = (if same then repeated + 1 else repeated);
            run' = (if same then run + 1 else 1)
        in repeat_scan (Some c) cs (repeated', max longest (if tc_arguments c \<noteq> None then run' else 0), run'))"

definition repeats :: "tool_call list \<Rightarrow> usize \<times> usize" where
  "repeats calls = repeat_scan None (sort_key call_order calls) (0, 0, 0)"

section \<open>One session, and all of them\<close>

type_synonym hash_order = "(str, tool_call) omap \<Rightarrow> tool_call list"

definition finish_session :: "hash_order \<Rightarrow> session_acc \<Rightarrow> str \<Rightarrow> usize \<Rightarrow> bool \<Rightarrow> session_rollup" where
  "finish_session order a session_id scanned truncated =
     (let calls = merge_nested (order (sa_tools a));
          tools = fold (\<lambda>c. om_alter (tc_name c) 0 Suc) calls om_empty;
          tool_errors = length (filter tc_failed calls);
          (repeated, longest) = repeats calls;
          trace_count = card (sa_traces a)
      in \<lparr>sr_session_id = session_id, sr_span_count = sa_span_count a, sr_trace_count = trace_count, sr_cost_usd = sa_cost a,
          sr_tokens = sa_tokens a, sr_start_unix_nano = sa_start a, sr_end_unix_nano = sa_end a, sr_llm_calls = sa_llm_calls a,
          sr_llm_errors = sa_llm_errors a, sr_tool_calls = length calls, sr_tool_errors = tool_errors,
          sr_models = om_keys (sa_models a), sr_tools = tools, sr_agents = om_keys (sa_agents a),
          sr_steps_per_trace = (if trace_count = 0 then f_zero else f_div (f_of_u64 (sa_llm_calls a)) (f_of_u64 trace_count)),
          sr_tool_error_rate = (if calls = [] then None else Some (f_div (f_of_u64 tool_errors) (f_of_u64 (length calls)))),
          sr_repeated_tool_calls = repeated, sr_longest_repeat_run = longest, sr_loop_suspected = (loop_run \<le> longest),
          sr_scanned = scanned, sr_truncated = truncated\<rparr>)"

definition session_rollup_of :: "(json \<Rightarrow> str) \<Rightarrow> hash_order \<Rightarrow> normalized_span list \<Rightarrow> str \<Rightarrow> bool \<Rightarrow> session_rollup option" where
  "session_rollup_of disp order spans session_id truncated =
     (let a = fold (add_span disp) (filter (\<lambda>s. ns_session_id s = Some session_id) spans) acc_default
      in if 0 < sa_span_count a then Some (finish_session order a session_id (length spans) truncated) else None)"

definition by_session_step :: "(json \<Rightarrow> str) \<Rightarrow> normalized_span \<Rightarrow> (str, session_acc) omap \<Rightarrow> (str, session_acc) omap" where
  "by_session_step disp s m =
     (case ns_session_id s of Some i \<Rightarrow> om_alter i acc_default (add_span disp s) m | None \<Rightarrow> m)"

text \<open>\<open>sort_by\<close> compares the ends, the later first, then the ids: a stable sort by the ends of the list
  sorted by id. \<open>listed\<close> is the order the map of the sessions is iterated in.\<close>

definition session_rollups ::
  "(json \<Rightarrow> str) \<Rightarrow> hash_order \<Rightarrow> ((str, session_acc) omap \<Rightarrow> (str \<times> session_acc) list) \<Rightarrow> normalized_span list \<Rightarrow> bool \<Rightarrow> session_rollup list" where
  "session_rollups disp order listed spans truncated =
     sort_key_desc sr_end_unix_nano (sort_key sr_session_id
       (map (\<lambda>(i, a). finish_session order a i (length spans) truncated) (listed (fold (by_session_step disp) spans om_empty))))"

section \<open>The two reads\<close>

definition session_scan_cap :: usize where "session_scan_cap = 50000"

datatype sessions_reply = SessionsReply "session_rollup list" | SessionReply session_rollup | NoSession | SessionsFailed

definition list_sessions ::
  "(json \<Rightarrow> str) \<Rightarrow> hash_order \<Rightarrow> ((str, session_acc) omap \<Rightarrow> (str \<times> session_acc) list) \<Rightarrow> codec \<Rightarrow> usize option
     \<Rightarrow> hot_tier \<Rightarrow> view \<Rightarrow> view \<Rightarrow> nat \<times> sessions_reply" where
  "list_sessions disp order listed cx limit hot v1 v2 =
     (let n = min 1000 (case limit of Some l \<Rightarrow> l | None \<Rightarrow> 20)
      in case query cx None (Some session_scan_cap) hot v1 v2 of
           Inl _ \<Rightarrow> (500, SessionsFailed)
         | Inr scanned \<Rightarrow>
             (200, SessionsReply (take n (session_rollups disp order listed scanned (session_scan_cap \<le> length scanned)))))"

definition get_session ::
  "(json \<Rightarrow> str) \<Rightarrow> hash_order \<Rightarrow> codec \<Rightarrow> str \<Rightarrow> hot_tier \<Rightarrow> view \<Rightarrow> view \<Rightarrow> nat \<times> sessions_reply" where
  "get_session disp order cx session_id hot v1 v2 =
     (case query cx None (Some session_scan_cap) hot v1 v2 of
        Inl _ \<Rightarrow> (500, SessionsFailed)
      | Inr scanned \<Rightarrow>
          (case session_rollup_of disp order scanned session_id (session_scan_cap \<le> length scanned) of
             Some r \<Rightarrow> (200, SessionReply r)
           | None \<Rightarrow> (404, NoSession)))"


section \<open>Merging does not depend on the order of the map\<close>

definition call_lookup :: "tool_call list \<Rightarrow> str \<times> str \<Rightarrow> tool_call option" where
  "call_lookup calls k = find (\<lambda>c. call_at c = k) calls"

primrec climb_to :: "(str \<times> str \<Rightarrow> tool_call option) \<Rightarrow> tool_call \<Rightarrow> nat \<Rightarrow> tool_call \<Rightarrow> tool_call" where
  "climb_to look c 0 at = at"
| "climb_to look c (Suc k) at =
     (case tc_parent_span_id at of
        None \<Rightarrow> at
      | Some parent \<Rightarrow>
          (case look (tc_trace_id at, parent) of
             Some p \<Rightarrow> if tc_name p = tc_name c \<and> p \<noteq> c then climb_to look c k p else at
           | None \<Rightarrow> at))"

definition target_of :: "tool_call list \<Rightarrow> tool_call \<Rightarrow> tool_call option" where
  "target_of calls c =
     (if tc_by_id c then None
      else let at = climb_to (call_lookup calls) c (length calls) c in if at \<noteq> c then Some at else None)"

definition mark_failed :: "tool_call list \<Rightarrow> tool_call \<Rightarrow> tool_call" where
  "mark_failed calls c = c\<lparr>tc_failed := tc_failed c \<or> (\<exists>d\<in>set calls. target_of calls d = Some c \<and> tc_failed d)\<rparr>"

lemma distinct_calls: "distinct (map call_at calls) \<Longrightarrow> distinct calls"
  by (simp add: distinct_map)

lemma find_distinct_key:
  assumes "distinct (map f xs)"
  shows "find (\<lambda>x. f x = k) xs = Some x \<longleftrightarrow> x \<in> set xs \<and> f x = k"
  using assms by (induction xs) auto

lemma call_index_iff:
  assumes "distinct (map call_at calls)"
  shows "call_index calls k = Some p \<longleftrightarrow> p < length calls \<and> call_at (calls ! p) = k"
proof -
  let ?z = "zip (map call_at calls) [0..<length calls]"
  have "distinct (map fst (rev ?z))" using assms by (simp flip: rev_map)
  then have "map_of (rev ?z) k = Some p \<longleftrightarrow> (k, p) \<in> set (rev ?z)" by (rule map_of_eq_Some_iff)
  also have "\<dots> \<longleftrightarrow> p < length calls \<and> call_at (calls ! p) = k" by (force simp: set_zip)
  finally show ?thesis by (simp add: call_index_def)
qed

lemma call_lookup_index:
  assumes "distinct (map call_at calls)"
  shows "call_lookup calls k = map_option (nth calls) (call_index calls k)"
proof (cases "call_index calls k")
  case None
  then have "\<not> (\<exists>c\<in>set calls. call_at c = k)" using call_index_iff [OF assms] by (metis in_set_conv_nth not_Some_eq)
  then show ?thesis using None by (auto simp: call_lookup_def find_None_iff)
next
  case (Some p)
  then have "p < length calls \<and> call_at (calls ! p) = k" using call_index_iff [OF assms] by blast
  then have "call_lookup calls k = Some (calls ! p)" unfolding call_lookup_def find_distinct_key [OF assms] by simp
  then show ?thesis using Some by simp
qed

lemma climb_value:
  assumes d: "distinct (map call_at calls)" and i: "i < length calls" and at: "at < length calls"
  shows "climb calls i k at < length calls \<and>
    calls ! climb calls i k at = climb_to (call_lookup calls) (calls ! i) k (calls ! at)"
  using at
proof (induction k arbitrary: at)
  case (Suc k)
  show ?case
  proof (cases "tc_parent_span_id (calls ! at)")
    case (Some parent)
    show ?thesis
    proof (cases "call_index calls (tc_trace_id (calls ! at), parent)")
      case (Some p)
      then have p: "p < length calls" using call_index_iff [OF d] by blast
      have "calls ! p \<noteq> calls ! i \<longleftrightarrow> p \<noteq> i" using d i p nth_eq_iff_index_eq [OF distinct_calls [OF d]] by simp
      then show ?thesis
        using Suc \<open>tc_parent_span_id (calls ! at) = Some parent\<close> Some p by (simp add: call_lookup_index [OF d])
    qed (use Suc \<open>tc_parent_span_id (calls ! at) = Some parent\<close> in \<open>simp add: call_lookup_index [OF d]\<close>)
  qed (use Suc in simp)
qed simp

lemma merged_into_target:
  assumes d: "distinct (map call_at calls)" and i: "i < length calls"
  shows "map_option (nth calls) (merged_into calls i) = target_of calls (calls ! i)"
    and "merged_into calls i = Some t \<Longrightarrow> t < length calls"
proof -
  note c = climb_value [OF d i i, of "length calls"]
  have "calls ! climb calls i (length calls) i \<noteq> calls ! i \<longleftrightarrow> climb calls i (length calls) i \<noteq> i"
    using c i nth_eq_iff_index_eq [OF distinct_calls [OF d], of "climb calls i (length calls) i" i] by blast
  then show "map_option (nth calls) (merged_into calls i) = target_of calls (calls ! i)"
    using c by (simp add: merged_into_def target_of_def Let_def)
  show "merged_into calls i = Some t \<Longrightarrow> t < length calls"
    using c by (auto simp: merged_into_def Let_def split: if_splits)
qed

lemma merge_nested_eq:
  assumes d: "distinct (map call_at calls)"
  shows "merge_nested calls = map (mark_failed calls) (filter (\<lambda>c. target_of calls c = None) calls)"
proof -
  have kept: "merged_into calls i = None \<longleftrightarrow> target_of calls (calls ! i) = None" if "i < length calls" for i
    using merged_into_target(1) [OF d that] by (metis option.map_disc_iff)
  have failed: "failed_into calls t \<longleftrightarrow> (\<exists>c\<in>set calls. target_of calls c = Some (calls ! t) \<and> tc_failed c)"
    if t: "t < length calls" for t
  proof -
    have "merged_into calls i = Some t \<longleftrightarrow> target_of calls (calls ! i) = Some (calls ! t)" if i: "i < length calls" for i
      using merged_into_target [OF d i] t nth_eq_iff_index_eq [OF distinct_calls [OF d]]
      by (cases "merged_into calls i") auto
    moreover have "set calls = nth calls ` {0..<length calls}" by (auto simp: set_conv_nth)
    ultimately show ?thesis by (simp add: failed_into_def list_ex_iff)
  qed
  have "merge_nested calls =
      map (\<lambda>i. mark_failed calls (calls ! i)) (filter (\<lambda>i. target_of calls (calls ! i) = None) [0..<length calls])"
    unfolding merge_nested_def using kept failed by (auto simp: mark_failed_def intro!: map_cong filter_cong)
  also have "\<dots> = map (mark_failed calls) (filter (\<lambda>c. target_of calls c = None) (map (nth calls) [0..<length calls]))"
    by (simp add: filter_map comp_def)
  finally show ?thesis by (simp add: map_nth)
qed

lemma target_of_perm:
  assumes "distinct (map call_at calls)" "mset calls' = mset calls"
  shows "target_of calls' = target_of calls"
proof -
  have d': "distinct (map call_at calls')" using assms by (metis mset_eq_imp_distinct_iff mset_map)
  have "call_lookup calls' k = call_lookup calls k" for k
  proof -
    have "call_lookup calls' k = Some c \<longleftrightarrow> call_lookup calls k = Some c" for c
      unfolding call_lookup_def find_distinct_key [OF assms(1)] find_distinct_key [OF d'] mset_eq_setD [OF assms(2)] by (rule refl)
    then show ?thesis by (metis not_Some_eq)
  qed
  then have look: "call_lookup calls' = call_lookup calls" by (rule ext)
  show ?thesis by (rule ext) (simp only: target_of_def look mset_eq_length [OF assms(2)])
qed

lemma merge_nested_perm:
  assumes "distinct (map call_at calls)" "mset calls' = mset calls"
  shows "mset (merge_nested calls') = mset (merge_nested calls)"
proof -
  have d': "distinct (map call_at calls')" using assms by (metis mset_eq_imp_distinct_iff mset_map)
  have "mark_failed calls' = mark_failed calls"
    using mset_eq_setD [OF assms(2)] by (simp add: mark_failed_def target_of_perm [OF assms] fun_eq_iff)
  then show ?thesis
    using assms(2) by (simp add: merge_nested_eq [OF assms(1)] merge_nested_eq [OF d'] target_of_perm [OF assms])
qed

lemma merge_nested_places:
  assumes "distinct (map call_at calls)"
  shows "distinct (map call_at (merge_nested calls))"
proof -
  have "map call_at (merge_nested calls) = map call_at (filter (\<lambda>c. target_of calls c = None) calls)"
    by (simp add: merge_nested_eq [OF assms] mark_failed_def call_at_def)
  then show ?thesis using assms by (simp add: distinct_map_filter)
qed

section \<open>The rollup does not depend on the order of the map\<close>

lemma tools_get:
  "om_get (fold (\<lambda>c. om_alter (tc_name c) 0 Suc) cs m) k =
     (let n = length (filter (\<lambda>c. tc_name c = k) cs)
      in if n = 0 then om_get m k else Some (n + (case om_get m k of None \<Rightarrow> 0 | Some x \<Rightarrow> x)))"
  by (induction cs arbitrary: m) (auto simp: map_simps Let_def split: option.split)

lemma tools_ok: "om_ok m \<Longrightarrow> om_ok (fold (\<lambda>c. om_alter (tc_name c) 0 Suc) cs m)"
  by (induction cs arbitrary: m) simp_all

lemma tools_perm:
  assumes "mset cs = mset cs'"
  shows "fold (\<lambda>c. om_alter (tc_name c) 0 Suc) cs om_empty = fold (\<lambda>c. om_alter (tc_name c) (0::nat) Suc) cs' om_empty"
proof -
  have "length (filter P cs) = length (filter P cs')" for P
    using assms by (metis mset_filter size_mset)
  then show ?thesis by (intro om_ext tools_ok) (simp_all add: tools_get)
qed

lemma repeats_perm:
  assumes "mset cs = mset cs'" "distinct (map call_at cs)"
  shows "repeats cs = repeats cs'"
proof -
  have "inj_on call_order (set cs)"
    using assms(2) by (auto simp: inj_on_def distinct_map call_order_def call_at_def)
  then have "sort_key call_order cs = sort_key call_order cs'"
    using assms(1) mset_eq_setD [OF assms(1)] by (intro sort_key_inj_key_eq) simp_all
  then show ?thesis by (simp add: repeats_def)
qed

lemma finish_session_perm:
  assumes "distinct (map call_at (om_values (sa_tools a)))"
    and "mset (order (sa_tools a)) = mset (om_values (sa_tools a))"
    and "mset (order' (sa_tools a)) = mset (om_values (sa_tools a))"
  shows "finish_session order a i n t = finish_session order' a i n t"
proof -
  let ?c = "merge_nested (order (sa_tools a))" and ?c' = "merge_nested (order' (sa_tools a))"
  have d: "distinct (map call_at (order (sa_tools a)))" using assms(1,2) by (metis mset_eq_imp_distinct_iff mset_map)
  have m: "mset ?c = mset ?c'" using merge_nested_perm [OF d] assms(2,3) by metis
  have "length (filter tc_failed ?c) = length (filter tc_failed ?c')" using m by (metis mset_filter size_mset)
  moreover have "length ?c = length ?c'" "?c = [] \<longleftrightarrow> ?c' = []" using m mset_eq_length [OF m] by auto
  moreover note tools_perm [OF m] repeats_perm [OF m merge_nested_places [OF d]]
  ultimately show ?thesis by (simp add: finish_session_def Let_def)
qed

text \<open>Each call sits where its first copy is.\<close>

definition span_at :: "normalized_span \<Rightarrow> str \<times> str" where
  "span_at s = (ns_trace_id s, ns_span_id s)"

definition calls_placed :: "normalized_span list \<Rightarrow> session_acc \<Rightarrow> bool" where
  "calls_placed spans a \<longleftrightarrow> om_ok (sa_tools a) \<and>
     (\<forall>k c. om_get (sa_tools a) k = Some c \<longrightarrow> (\<exists>s\<in>set spans. call_identity s = k \<and> call_at c = span_at s))"

lemma merge_copy_at [simp]: "call_at (merge_copy disp s c) = call_at c"
  by (auto simp: merge_copy_def call_at_def Let_def split: option.split)

lemma first_copy_at: "call_at (first_copy s) = span_at s"
  by (simp add: first_copy_def call_at_def span_at_def)

lemma add_span_placed:
  assumes "calls_placed spans a"
  shows "calls_placed (spans @ [s]) (add_span disp s a)"
proof (cases "\<not> is_kind s ''LLM'' \<and> is_kind s ''TOOL''")
  case True
  then have t: "sa_tools (add_span disp s a) = om_alter (call_identity s) (first_copy s) (merge_copy disp s) (sa_tools a)"
    by (simp add: add_span_def Let_def)
  have "\<exists>s'\<in>set (spans @ [s]). call_identity s' = k \<and> call_at c = span_at s'"
    if "om_get (sa_tools (add_span disp s a)) k = Some c" for k c
  proof (cases "om_get (sa_tools a) k")
    case None
    then show ?thesis using that by (auto simp: t map_simps first_copy_at split: if_splits)
  next
    case (Some c0)
    then have "call_at c = call_at c0" using that by (auto simp: t map_simps split: if_splits)
    moreover have "\<exists>s\<in>set spans. call_identity s = k \<and> call_at c0 = span_at s" using assms Some by (simp add: calls_placed_def)
    ultimately show ?thesis by auto
  qed
  then show ?thesis using assms by (simp add: calls_placed_def t)
next
  case False
  then have "sa_tools (add_span disp s a) = sa_tools a" by (auto simp: add_span_def Let_def)
  then show ?thesis using assms by (fastforce simp: calls_placed_def)
qed

lemma fold_add_span_placed: "calls_placed done a \<Longrightarrow> calls_placed (done @ spans) (fold (add_span disp) spans a)"
proof (induction spans arbitrary: "done" a)
  case (Cons s spans)
  from Cons(1) [OF add_span_placed [OF Cons(2)]] show ?case by simp
qed simp

lemma acc_placed: "calls_placed spans (fold (add_span disp) spans acc_default)"
  using fold_add_span_placed [of "[]" acc_default] by (simp add: calls_placed_def acc_default_def map_simps)

lemma placed_distinct:
  assumes "calls_placed spans a" "inj_on span_at (set spans)"
  shows "distinct (map call_at (om_values (sa_tools a)))"
proof -
  have ok: "om_ok (sa_tools a)" using assms(1) by (simp add: calls_placed_def)
  have "k = k'" if in1: "(k, c) \<in> set (sa_tools a)" and in2: "(k', c') \<in> set (sa_tools a)" and eq: "call_at c = call_at c'"
    for k k' c c'
  proof -
    obtain s s' where "s \<in> set spans" "call_identity s = k" "call_at c = span_at s"
      "s' \<in> set spans" "call_identity s' = k'" "call_at c' = span_at s'"
      using assms(1) in1 in2 unfolding calls_placed_def om_in_set_get [OF ok] by metis
    then show ?thesis using assms(2) eq by (metis inj_onD)
  qed
  moreover have "distinct (map fst (sa_tools a))" using om_ok_distinct [OF ok] by (simp add: om_keys_def)
  ultimately have "inj_on (call_at \<circ> snd) (set (sa_tools a))"
    by (auto simp: inj_on_def) (metis eq_key_imp_eq_value)
  moreover have "distinct (sa_tools a)" using \<open>distinct (map fst (sa_tools a))\<close> by (simp add: distinct_map)
  ultimately show ?thesis by (simp add: om_values_def distinct_map)
qed

lemma by_session_get:
  "om_get (fold (by_session_step disp) spans m) i =
     (let ss = filter (\<lambda>s. ns_session_id s = Some i) spans
      in if ss = [] then om_get m i
         else Some (fold (add_span disp) ss (case om_get m i of Some a \<Rightarrow> a | None \<Rightarrow> acc_default)))"
  by (induction spans arbitrary: m) (auto simp: by_session_step_def map_simps Let_def split: option.splits)

lemma by_session_ok: "om_ok m \<Longrightarrow> om_ok (fold (by_session_step disp) spans m)"
  by (induction spans arbitrary: m) (simp_all add: by_session_step_def split: option.split)

lemma add_span_count: "sa_span_count (add_span disp s a) = sa_span_count a + 1"
  by (simp add: add_span_def Let_def)

lemma fold_add_span_count: "sa_span_count (fold (add_span disp) spans a) = sa_span_count a + length spans"
  by (induction spans arbitrary: a) (simp_all add: add_span_count)

lemma sort_key_desc_then_key:
  fixes xs :: "'a list" and f :: "'a \<Rightarrow> 'b::linorder" and g :: "'a \<Rightarrow> 'c::linorder"
  assumes "distinct (map g xs)"
  shows "sorted_wrt (\<lambda>a b. f b < f a \<or> f a = f b \<and> g a < g b) (sort_key_desc f (sort_key g xs))"
    (is "sorted_wrt ?lt ?ys")
proof (rule sorted_wrt_iff_nth_less [THEN iffD2], intro allI impI)
  fix i j
  assume ij: "i < j" "j < length ?ys"
  let ?a = "?ys ! i" and ?b = "?ys ! j"
  have le: "f ?b \<le> f ?a" using sorted_wrt_nth_less [OF sort_key_desc_sorted ij] .
  show "?lt ?a ?b"
  proof (cases "f ?a = f ?b")
    case True
    let ?P = "\<lambda>y. f y = f ?a"
    have split: "?ys = take j ?ys @ ?b # drop (Suc j) ?ys" using ij(2) by (rule id_take_nth_drop)
    have in1: "?a \<in> set (filter ?P (take j ?ys))" using ij by (auto simp: in_set_conv_nth intro!: exI [of _ i])
    have "sorted (map g (filter ?P (sort_key g xs)))" by (simp add: sorted_filter)
    then have "sorted (map g (filter ?P ?ys))" by (simp add: sort_key_desc_stable)
    moreover have "filter ?P ?ys = filter ?P (take j ?ys) @ ?b # filter ?P (drop (Suc j) ?ys)"
      by (subst split, subst filter_append) (simp add: True)
    ultimately have "g ?a \<le> g ?b" using in1 by (auto simp: sorted_append)
    moreover have "g ?a \<noteq> g ?b"
    proof -
      have "mset (map g ?ys) = mset (map g xs)" by simp
      then have "distinct (map g ?ys)" using assms by (metis mset_eq_imp_distinct_iff)
      then show ?thesis using nth_eq_iff_index_eq [of "map g ?ys" i j] ij by simp
    qed
    ultimately show ?thesis using True by simp
  next
    case False
    then show ?thesis using le by simp
  qed
qed

text \<open>
  C20. The list of sessions is the rollup of each: whatever orders the hash maps are iterated in, it holds
  every session some span names exactly once, each with the rollup the read of that one session gives
  (under any other iteration order), the most recently active first and ties by id.
\<close>
theorem every_session_is_rolled_up_once:
  fixes disp :: "json \<Rightarrow> str" and truncated :: bool
  assumes "inj_on span_at (set spans)"
    and "\<And>m. mset (order m) = mset (om_values m)" "\<And>m. mset (order' m) = mset (om_values m)" "\<And>m. mset (listed m) = mset m"
  defines "rs \<equiv> session_rollups disp order listed spans truncated"
  shows "distinct (map sr_session_id rs) \<and> set (map sr_session_id rs) = {i. \<exists>s\<in>set spans. ns_session_id s = Some i} \<and>
    (\<forall>r\<in>set rs. session_rollup_of disp order' spans (sr_session_id r) truncated = Some r) \<and>
    sorted_wrt (\<lambda>a b. sr_end_unix_nano b < sr_end_unix_nano a \<or>
      sr_end_unix_nano a = sr_end_unix_nano b \<and> sr_session_id a < sr_session_id b) rs"
proof -
  let ?m = "fold (by_session_step disp) spans om_empty"
  let ?fin = "\<lambda>(i, a). finish_session order a i (length spans) truncated"
  have ok: "om_ok ?m" by (simp add: by_session_ok)
  have id: "sr_session_id (?fin p) = fst p" for p by (simp add: finish_session_def Let_def case_prod_beta)
  have keys: "mset (map fst (listed ?m)) = mset (om_keys ?m)" by (simp add: assms(4) om_keys_def)
  then have dk: "distinct (map fst (listed ?m))" using om_ok_distinct [OF ok] by (metis mset_eq_imp_distinct_iff)
  have d: "distinct (map sr_session_id (map ?fin (listed ?m)))" using dk by (simp add: comp_def id)
  have m: "mset rs = mset (map ?fin (listed ?m))" by (simp add: rs_def session_rollups_def)
  have p1: "distinct (map sr_session_id rs)" using d m by (metis mset_eq_imp_distinct_iff mset_map)
  have "set (map sr_session_id rs) = set (map sr_session_id (map ?fin (listed ?m)))" using m by (metis mset_eq_setD mset_map)
  also have "\<dots> = set (om_keys ?m)" using mset_eq_setD [OF keys] by (simp add: image_image id)
  also have "\<dots> = {i. \<exists>s\<in>set spans. ns_session_id s = Some i}"
    by (auto simp: om_keys_get by_session_get Let_def map_simps filter_empty_conv split: if_splits)
  finally have p2: "set (map sr_session_id rs) = {i. \<exists>s\<in>set spans. ns_session_id s = Some i}" .
  have p3: "session_rollup_of disp order' spans (sr_session_id r) truncated = Some r" if rin: "r \<in> set rs" for r
  proof -
    obtain i a where r: "r = finish_session order a i (length spans) truncated" and ia: "(i, a) \<in> set (listed ?m)"
      using rin mset_eq_setD [OF m] by auto
    then have "om_get ?m i = Some a" using mset_eq_setD [OF assms(4)] om_in_set_get [OF ok] by blast
    moreover define ss where "ss = filter (\<lambda>s. ns_session_id s = Some i) spans"
    ultimately have a: "a = fold (add_span disp) ss acc_default" and ne: "ss \<noteq> []"
      by (auto simp: by_session_get Let_def map_simps split: if_splits)
    have "inj_on span_at (set ss)" using assms(1) by (auto simp: ss_def intro: inj_on_subset)
    then have "finish_session order a i (length spans) truncated = finish_session order' a i (length spans) truncated"
      unfolding a by (intro finish_session_perm placed_distinct [OF acc_placed] assms(2,3))
    moreover have "0 < sa_span_count a" using ne by (simp add: a fold_add_span_count)
    moreover have "sr_session_id r = i" using id [of "(i, a)"] by (simp add: r)
    ultimately show ?thesis by (simp add: session_rollup_of_def Let_def ss_def [symmetric] a [symmetric] r)
  qed
  have p4: "sorted_wrt (\<lambda>a b. sr_end_unix_nano b < sr_end_unix_nano a \<or>
      sr_end_unix_nano a = sr_end_unix_nano b \<and> sr_session_id a < sr_session_id b) rs"
    unfolding rs_def session_rollups_def using sort_key_desc_then_key [OF d] .
  show ?thesis using p1 p2 p3 p4 by blast
qed

lemma every_session_is_rolled_up_once_witness:
  "set (map sr_session_id (session_rollups (\<lambda>_. []) om_values (\<lambda>m. m) [(plain_span ''t'' ''a'' 5)\<lparr>ns_session_id := Some ''s''\<rparr>] False))
     = {''s''}"
proof -
  let ?ss = "[(plain_span ''t'' ''a'' 5)\<lparr>ns_session_id := Some ''s''\<rparr>]"
  have "inj_on span_at (set ?ss)" by simp
  from every_session_is_rolled_up_once [OF this, of om_values om_values "\<lambda>m. m" "\<lambda>_. []" False] show ?thesis by simp
qed

section \<open>Spans that are each other's parents\<close>

lemma climb_one:
  assumes "tc_parent_span_id b = Some (tc_span_id a)" "tc_trace_id b = tc_trace_id a"
    and "call_lookup calls (call_at a) = Some a"
  shows "climb_to (call_lookup calls) a k b = b"
  using assms by (cases k) (simp_all add: call_at_def)

text \<open>
  C39. Two calls of one tool without call ids whose spans name each other as parent are each merged into the
  other, so that neither is left: the session's tool calls, its failures and its repeats miss both.
\<close>
theorem mutual_parents_lose_both_calls:
  assumes "distinct (map call_at calls)" "a \<in> set calls" "b \<in> set calls" "a \<noteq> b"
    and "tc_name a = tc_name b" "tc_trace_id a = tc_trace_id b" "\<not> tc_by_id a" "\<not> tc_by_id b"
    and "tc_parent_span_id a = Some (tc_span_id b)" "tc_parent_span_id b = Some (tc_span_id a)"
  shows "call_at a \<notin> call_at ` set (merge_nested calls) \<and> call_at b \<notin> call_at ` set (merge_nested calls)"
proof -
  have look: "call_lookup calls (call_at c) = Some c" if "c \<in> set calls" for c
    using that find_distinct_key [OF assms(1)] by (simp add: call_lookup_def)
  have gone: "target_of calls x \<noteq> None"
    if x: "x \<in> set calls" "y \<in> set calls" "x \<noteq> y" "tc_name y = tc_name x" "tc_trace_id y = tc_trace_id x" "\<not> tc_by_id x"
      "tc_parent_span_id x = Some (tc_span_id y)" "tc_parent_span_id y = Some (tc_span_id x)" for x y
  proof -
    obtain k where k: "length calls = Suc k" using x(1) by (cases calls) auto
    have "call_lookup calls (tc_trace_id x, tc_span_id y) = Some y" using look [OF x(2)] x(5) by (simp add: call_at_def)
    moreover have "climb_to (call_lookup calls) x k y = y" by (rule climb_one) (use x look in auto)
    ultimately have "climb_to (call_lookup calls) x (length calls) x = y" using x by (simp add: k)
    then show ?thesis using x by (simp add: target_of_def)
  qed
  have "call_at c \<notin> call_at ` set (merge_nested calls)" if c: "c \<in> set calls" "target_of calls c \<noteq> None" for c
  proof
    assume "call_at c \<in> call_at ` set (merge_nested calls)"
    then obtain d where d: "d \<in> set calls" "target_of calls d = None" "call_at d = call_at c"
      by (auto simp: merge_nested_eq [OF assms(1)] mark_failed_def call_at_def)
    then have "d = c" using look [OF c(1)] look [OF d(1)] by simp
    then show False using c d by simp
  qed
  then show ?thesis using gone [of a b] gone [of b a] assms by simp
qed

definition cyclic_call :: "str \<Rightarrow> str \<Rightarrow> tool_call" where
  "cyclic_call span parent = (first_copy (plain_span ''t'' span 5))\<lparr>tc_parent_span_id := Some parent, tc_by_id := False\<rparr>"

theorem mutual_parents_lose_both_calls_witness:
  "call_at (cyclic_call ''a'' ''b'') \<notin> call_at ` set (merge_nested [cyclic_call ''a'' ''b'', cyclic_call ''b'' ''a''])"
proof -
  let ?a = "cyclic_call ''a'' ''b''" and ?b = "cyclic_call ''b'' ''a''"
  have "call_at ?a \<noteq> call_at ?b" by (simp add: cyclic_call_def first_copy_def plain_span_def call_at_def)
  then show ?thesis
    using mutual_parents_lose_both_calls [of "[?a, ?b]" ?a ?b]
    by (auto simp: cyclic_call_def first_copy_def plain_span_def call_at_def)
qed

end
