(* ===== verification/FloatOps.thy ===== *)
theory FloatOps
  imports Price FloatOrd
begin

text \<open>
  More of the \<open>f64\<close> of the standard library, used by the evaluation and its reports: subtraction, the
  comparison \<open><=\<close>, \<open>abs\<close>, \<open>sqrt\<close> (the exact root rounded to the nearest double), \<open>clamp\<close>, decimal
  literals, and the text with a fixed number of places.
\<close>

definition f_opposite :: "f64 \<Rightarrow> f64" where
  "f_opposite a = f_make (\<not> f_neg a) (unat a mod 2 ^ 63)"

definition f_minus :: "f64 \<Rightarrow> f64 \<Rightarrow> f64" where
  "f_minus a b = f_add a (f_opposite b)"

definition f_abs :: "f64 \<Rightarrow> f64" where
  "f_abs a = f_make False (unat a mod 2 ^ 63)"

definition f_le :: "f64 \<Rightarrow> f64 \<Rightarrow> bool" where
  "f_le a b \<longleftrightarrow> f_lt a b \<or> f_eq a b"

definition f_clamp :: "f64 \<Rightarrow> f64 \<Rightarrow> f64 \<Rightarrow> f64" where
  "f_clamp lo hi a = (if f_lt a lo then lo else if f_lt hi a then hi else a)"

text \<open>The literal \<open>n\<close> with its point \<open>p\<close> places from the right.\<close>

definition f_lit :: "nat \<Rightarrow> nat \<Rightarrow> f64" where
  "f_lit n p = f_round False n (10 ^ p)"

text \<open>The integer part of the root of \<open>n\<close>, its bits found from \<open>2 ^ k\<close> down.\<close>

fun root_from :: "nat \<Rightarrow> nat \<Rightarrow> nat \<Rightarrow> nat" where
  "root_from n r 0 = (if (r + 1) * (r + 1) \<le> n then r + 1 else r)"
| "root_from n r (Suc k) = root_from n (if (r + 2 ^ Suc k) * (r + 2 ^ Suc k) \<le> n then r + 2 ^ Suc k else r) k"

definition nat_root :: "nat \<Rightarrow> nat" where
  "nat_root n = root_from n 0 (bit_length n div 2)"

text \<open>A root has at least 55 bits after the scaling by \<open>4 ^ 600\<close>, and a last bit that tells it from an exact one.\<close>

definition f_sqrt :: "f64 \<Rightarrow> f64" where
  "f_sqrt a =
     (if is_nan a \<or> is_zero a then a
      else if f_neg a then f_nan
      else if \<not> is_finite a then a
      else (case f_ratio a of (n, d) \<Rightarrow>
        let x = n * 4 ^ 600 div d; r = nat_root x
        in f_round False (2 * r + (if r * r * d = n * 4 ^ 600 then 0 else 1)) (2 ^ 601)))"

section \<open>Text of numbers\<close>

text \<open>\<open>{:.p}\<close> of an \<open>f64\<close>: the exact value rounded to \<open>p\<close> places, ties to even.\<close>

definition f_fixed :: "nat \<Rightarrow> f64 \<Rightarrow> str" where
  "f_fixed p d =
     (if is_nan d then ''NaN''
      else (if f_neg d then ''-'' else '''') @
           (if \<not> is_finite d then ''inf''
            else (case f_ratio d of (n, m) \<Rightarrow>
              let q = nearest_even (n * 10 ^ p) m
              in dec_of (q div 10 ^ p) @ (if p = 0 then [] else CHR ''.'' # pad_to p (dec_of (q mod 10 ^ p))))))"

text \<open>\<open>{:+.p}\<close>.\<close>

definition f_signed :: "nat \<Rightarrow> f64 \<Rightarrow> str" where
  "f_signed p d = (if is_nan d \<or> f_neg d then f_fixed p d else CHR ''+'' # f_fixed p d)"

end
