(* ===== verification/EditDistance.thy ===== *)
theory EditDistance
  imports Blob FloatOps
begin

text \<open>
  The edit distance of \<^verbatim>\<open>src/eval.rs\<close>: the two-row loop over the characters of two texts, and the similarity
  the \<open>levenshtein\<close> evaluator scores with. The loop is shown to compute the least number of insertions,
  deletions and replacements that turn one text into the other.
\<close>

section \<open>The code\<close>

text \<open>\<open>str::chars\<close>: each character as its UTF-8 bytes.\<close>

function chars :: "str \<Rightarrow> str list" where
  "chars [] = []"
| "chars (c # s) = (c # takeWhile (\<lambda>x. \<not> starts_char x) s) # chars (dropWhile (\<lambda>x. \<not> starts_char x) s)"
  by pat_completeness auto

termination
  by (relation "measure length") (auto simp: le_imp_less_Suc length_dropWhile_le)

text \<open>The inner loop from a column on: the rest of \<open>b\<close>, the rest of \<open>prev\<close> from the column before, and the
  cell just written.\<close>

fun lev_row :: "'c \<Rightarrow> 'c list \<Rightarrow> nat list \<Rightarrow> nat \<Rightarrow> nat list" where
  "lev_row x (y # ys) (p0 # p1 # ps) left =
     (let cost = (if x \<noteq> y then 1 else 0);
          cell = min (min (p1 + 1) (left + 1)) (p0 + cost)
      in cell # lev_row x ys (p1 # ps) cell)"
| "lev_row x ys ps left = []"

text \<open>The outer loop from row \<open>i\<close> on: \<open>cur[0] = i\<close>, then the row, then the swap.\<close>

fun lev_rows :: "nat \<Rightarrow> 'c list \<Rightarrow> 'c list \<Rightarrow> nat list \<Rightarrow> nat list" where
  "lev_rows i [] b prev = prev"
| "lev_rows i (x # xs) b prev = lev_rows (Suc i) xs b (i # lev_row x b prev i)"

definition levenshtein :: "str \<Rightarrow> str \<Rightarrow> usize" where
  "levenshtein a b = (let b' = chars b in lev_rows 1 (chars a) b' [0..<Suc (length b')] ! length b')"

definition levenshtein_similarity :: "str \<Rightarrow> str \<Rightarrow> f64" where
  "levenshtein_similarity a b =
     (let m = max (length (chars a)) (length (chars b))
      in if m = 0 then f_one
         else f_minus f_one (f_div (f_of_int (int (levenshtein a b))) (f_of_int (int m))))"

section \<open>What the loop computes\<close>

text \<open>The distance by recursion on the last characters, on reversed lists.\<close>

fun lev :: "'c list \<Rightarrow> 'c list \<Rightarrow> nat" where
  "lev [] ys = length ys"
| "lev xs [] = length xs"
| "lev (x # xs) (y # ys) = min (min (lev xs (y # ys) + 1) (lev (x # xs) ys + 1)) (lev xs ys + (if x \<noteq> y then 1 else 0))"

lemma lev_Nil [simp]: "lev xs [] = length xs"
  by (cases xs) auto

fun prefix_row :: "'c list \<Rightarrow> 'c list \<Rightarrow> 'c list \<Rightarrow> nat list" where
  "prefix_row ra rb [] = [lev ra rb]"
| "prefix_row ra rb (y # ys) = lev ra rb # prefix_row ra (y # rb) ys"

lemma prefix_row_Cons: "\<exists>t. prefix_row ra rb ys = lev ra rb # t"
  by (cases ys) auto

lemma length_prefix_row [simp]: "length (prefix_row ra rb ys) = Suc (length ys)"
  by (induction ys arbitrary: rb) auto

lemma prefix_row_last: "prefix_row ra rb ys ! length ys = lev ra (rev ys @ rb)"
  by (induction ys arbitrary: rb) auto

lemma prefix_row_Nil: "prefix_row [] rb ys = [length rb..<Suc (length rb + length ys)]"
proof (induction ys arbitrary: rb)
  case (Cons y ys)
  then show ?case by (simp add: upt_conv_Cons del: upt_Suc)
qed simp

lemma lev_row_prefix: "lev (x # ra) rb # lev_row x ys (prefix_row ra rb ys) (lev (x # ra) rb) = prefix_row (x # ra) rb ys"
proof (induction ys arbitrary: rb)
  case (Cons y ys)
  obtain t where t: "prefix_row ra (y # rb) ys = lev ra (y # rb) # t" using prefix_row_Cons by blast
  show ?case using Cons [of "y # rb"] by (simp add: t Let_def)
qed simp

lemma lev_rows_prefix:
  "lev_rows (Suc (length ra)) xs b (prefix_row ra [] b) = prefix_row (rev xs @ ra) [] b"
proof (induction xs arbitrary: ra)
  case (Cons x xs)
  have "Suc (length ra) # lev_row x b (prefix_row ra [] b) (Suc (length ra)) = prefix_row (x # ra) [] b"
    using lev_row_prefix [of x ra "[]" b] by simp
  then show ?case using Cons [of "x # ra"] by simp
qed simp

lemma levenshtein_lev: "levenshtein a b = lev (rev (chars a)) (rev (chars b))"
  using lev_rows_prefix [of "[]" "chars a" "chars b"] prefix_row_Nil [of "[]" "chars b"]
  by (simp add: levenshtein_def Let_def prefix_row_last del: upt_Suc)

section \<open>Edits\<close>

text \<open>One insertion, deletion or replacement.\<close>

inductive edit :: "'c list \<Rightarrow> 'c list \<Rightarrow> bool" where
  insertion: "edit (u @ v) (u @ c # v)"
| deletion: "edit (u @ c # v) (u @ v)"
| replacement: "edit (u @ c # v) (u @ d # v)"

lemma edit_Cons: "edit a b \<Longrightarrow> edit (x # a) (x # b)"
  by (erule edit.cases) (metis append_Cons edit.intros)+

lemma edits_Cons: "(edit ^^ n) a b \<Longrightarrow> (edit ^^ n) (x # a) (x # b)"
  by (induction n arbitrary: b) (auto dest: edit_Cons)

lemma edit_first: "edit xs (c # xs)" "edit (c # xs) xs" "edit (c # xs) (d # xs)"
  using edit.intros [of "[]"] by auto

lemma edits_insert: "(edit ^^ n) a b \<Longrightarrow> (edit ^^ Suc n) a (c # b)"
  using relpowp_Suc_I [of n edit a b] edit_first(1) by metis

lemma edits_delete: "(edit ^^ n) a b \<Longrightarrow> (edit ^^ Suc n) (c # a) b"
  using relpowp_Suc_I2 [of edit _ a n b] edit_first(2) by metis

lemma edits_replace: "(edit ^^ n) a b \<Longrightarrow> (edit ^^ Suc n) (c # a) (d # b)"
  using relpowp_Suc_I [OF edits_Cons] edit_first(3) by metis

lemma edits_lev: "(edit ^^ lev a b) a b"
proof (induction a b rule: lev.induct)
  case (1 ys)
  show ?case
  proof (induction ys)
    case (Cons y ys)
    then show ?case using edits_insert by fastforce
  qed simp
next
  case (2 x xs)
  have "(edit ^^ length zs) zs []" for zs :: "'a list"
  proof (induction zs)
    case (Cons z zs)
    then show ?case using edits_delete by fastforce
  qed simp
  from this [of "x # xs"] show ?case by simp
next
  case (3 x xs y ys)
  let ?m = "lev (x # xs) (y # ys)"
  have m: "?m = min (min (Suc (lev xs (y # ys))) (Suc (lev (x # xs) ys))) (lev xs ys + (if x \<noteq> y then 1 else 0))" by simp
  have d: "?m = Suc (lev xs (y # ys)) \<or> ?m = Suc (lev (x # xs) ys) \<or> ?m = Suc (lev xs ys) \<or> x = y \<and> ?m = lev xs ys"
    unfolding m by (simp add: min_def)
  consider "?m = Suc (lev xs (y # ys))" | "?m = Suc (lev (x # xs) ys)" | "?m = Suc (lev xs ys)" | "x = y" "?m = lev xs ys"
    using d by blast
  then show ?case
  proof cases
    case 1
    then show ?thesis using edits_delete [OF 3(1)] by (simp only:)
  next
    case 2
    then show ?thesis using edits_insert [OF 3(2)] by (simp only:)
  next
    case 3
    then show ?thesis using edits_replace [OF \<open>(edit ^^ lev xs ys) xs ys\<close>] by (simp only:)
  next
    case 4
    then show ?thesis using edits_Cons [OF 3(3)] by (simp only:)
  qed
qed

lemma lev_Cons_left: "lev (x # xs) ys \<le> lev xs ys + 1"
  by (cases ys) auto

lemma lev_Cons_right: "lev xs (y # ys) \<le> lev xs ys + 1"
  by (cases xs) auto

lemma lev_drop: "lev xs ys \<le> lev (x # xs) ys + 1"
proof (induction ys)
  case (Cons y ys)
  then show ?case using lev_Cons_right [of xs y ys] by auto
qed simp

lemma lev_change: "lev (c # xs) ys \<le> lev (d # xs) ys + 1"
proof (induction ys)
  case (Cons y ys)
  then show ?case using lev_Cons_right [of xs y ys] by auto
qed simp

lemma lev_append:
  assumes "\<And>ys. lev v ys \<le> lev w ys + 1"
  shows "lev (u @ v) ys \<le> lev (u @ w) ys + 1"
proof (induction u arbitrary: ys)
  case (Cons x u)
  show ?case
  proof (induction ys)
    case Nil
    then show ?case using Cons [of "[]"] by simp
  next
    case (Cons y ys)
    then show ?case using Cons.IH \<open>\<And>ys. lev (u @ v) ys \<le> lev (u @ w) ys + 1\<close> [of ys] \<open>\<And>ys. lev (u @ v) ys \<le> lev (u @ w) ys + 1\<close> [of "y # ys"]
      by auto
  qed
qed (use assms in simp)

lemma lev_edit: "edit a b \<Longrightarrow> lev a ys \<le> lev b ys + 1"
  by (induction rule: edit.induct) (rule lev_append lev_drop lev_Cons_left lev_change)+

lemma lev_same: "lev xs xs = 0"
  by (induction xs) auto

lemma lev_edits: "(edit ^^ n) a b \<Longrightarrow> lev a b \<le> n"
proof (induction n arbitrary: a)
  case (Suc n)
  then obtain c where "edit a c" "(edit ^^ n) c b" by (blast dest: relpowp_Suc_D2)
  then show ?case using lev_edit [of a c b] Suc.IH [of c] by simp
qed (simp add: lev_same)

lemma edit_rev: "edit a b \<Longrightarrow> edit (rev a) (rev b)"
  by (erule edit.cases) (simp_all add: edit.intros)

lemma edits_rev: "(edit ^^ n) a b \<Longrightarrow> (edit ^^ n) (rev a) (rev b)"
  by (induction n arbitrary: b) (auto dest: edit_rev)

text \<open>
  C22. The two-row loop computes the edit distance: its result is the least number of insertions,
  deletions and replacements of one character that turn the first text into the second.
\<close>
theorem levenshtein_is_the_edit_distance:
  "levenshtein a b = (LEAST n. (edit ^^ n) (chars a) (chars b))"
proof (rule Least_equality [symmetric])
  show "(edit ^^ levenshtein a b) (chars a) (chars b)"
    using edits_rev [OF edits_lev [of "rev (chars a)" "rev (chars b)"]] by (simp add: levenshtein_lev)
  show "levenshtein a b \<le> n" if "(edit ^^ n) (chars a) (chars b)" for n
    using lev_edits [OF edits_rev [OF that]] by (simp add: levenshtein_lev)
qed

lemma lev_le: "lev xs ys \<le> max (length xs) (length ys)"
  by (induction xs ys rule: lev.induct) (auto simp: min_def max_def)

lemma levenshtein_le: "levenshtein a b \<le> max (length (chars a)) (length (chars b))"
  using lev_le [of "rev (chars a)" "rev (chars b)"] by (simp add: levenshtein_lev)

lemma concat_chars: "concat (chars s) = s"
  by (induction s rule: chars.induct) auto

lemma levenshtein_0_iff: "levenshtein a b = 0 \<longleftrightarrow> a = b"
proof
  assume "levenshtein a b = 0"
  then have "(edit ^^ 0) (rev (chars a)) (rev (chars b))" using edits_lev [of "rev (chars a)" "rev (chars b)"] by (simp add: levenshtein_lev)
  then have "chars a = chars b" by simp
  then show "a = b" using concat_chars by metis
qed (simp add: levenshtein_lev lev_same)

end
