(* ===== verification/Eval.thy ===== *)
theory Eval
  imports EditDistance Scores
begin

text \<open>
  The offline evaluation runner, \<^verbatim>\<open>src/eval.rs\<close>: the dataset, the fourteen deterministic evaluators with
  their compilation, one evaluator's aggregate with the scores it persists, the run with its threshold
  gate, and the \<open>eval run\<close> command around it. The regex crate, the JSON parser and the JSON-schema
  validator are parameters; an error is its kind, its message's embedded texts left out.
\<close>

section \<open>Text\<close>

text \<open>\<open>{:?}\<close> of an \<open>Option<usize>\<close>.\<close>

definition debug_bound :: "usize option \<Rightarrow> str" where
  "debug_bound b = (case b of None \<Rightarrow> ''None'' | Some n \<Rightarrow> ''Some('' @ dec_of n @ '')'')"

fun join_str :: "str \<Rightarrow> str list \<Rightarrow> str" where
  "join_str sep [] = []"
| "join_str sep [x] = x"
| "join_str sep (x # y # xs) = x @ sep @ join_str sep (y # xs)"

section \<open>Dataset and configuration\<close>

record dataset_item =
  di_id :: "str option"
  di_input :: "str option"
  di_output :: str
  di_expected_output :: "str option"
  di_span_id :: "str option"
  di_trace_id :: "str option"
  di_context :: "str list option"
  di_metadata :: "json option"

definition given :: "str option \<Rightarrow> bool" where
  "given s = (case s of Some v \<Rightarrow> v \<noteq> [] | None \<Rightarrow> False)"

definition item_target :: "dataset_item \<Rightarrow> str \<Rightarrow> score_target" where
  "item_target i run_id =
     (if given (di_span_id i) then TargetSpan (the (di_span_id i))
      else if given (di_trace_id i) then TargetTrace (the (di_trace_id i))
      else TargetRun run_id)"

definition has_span_or_trace :: "dataset_item \<Rightarrow> bool" where
  "has_span_or_trace i \<longleftrightarrow> given (di_span_id i) \<or> given (di_trace_id i)"

datatype evaluator_spec =
    SpecExactMatch
  | SpecContains "str option"
  | SpecRegex str
  | SpecJsonValid
  | SpecLevenshtein f64
  | SpecNonEmpty
  | SpecContainsAll "str list"
  | SpecContainsAny "str list"
  | SpecLengthBounds "usize option" "usize option"
  | SpecNumericTolerance f64
  | SpecEqualsNumeric
  | SpecJsonSchema json
  | SpecLatency f64
  | SpecCost f64

definition spec_name :: "evaluator_spec \<Rightarrow> str" where
  "spec_name sp =
     (case sp of
        SpecExactMatch \<Rightarrow> ''exact_match''
      | SpecContains _ \<Rightarrow> ''contains''
      | SpecRegex _ \<Rightarrow> ''regex''
      | SpecJsonValid \<Rightarrow> ''json_valid''
      | SpecLevenshtein _ \<Rightarrow> ''levenshtein''
      | SpecNonEmpty \<Rightarrow> ''non_empty''
      | SpecContainsAll _ \<Rightarrow> ''contains_all''
      | SpecContainsAny _ \<Rightarrow> ''contains_any''
      | SpecLengthBounds _ _ \<Rightarrow> ''length_bounds''
      | SpecNumericTolerance _ \<Rightarrow> ''numeric_tolerance''
      | SpecEqualsNumeric \<Rightarrow> ''equals_numeric''
      | SpecJsonSchema _ \<Rightarrow> ''json_schema''
      | SpecLatency _ \<Rightarrow> ''latency''
      | SpecCost _ \<Rightarrow> ''cost'')"

datatype eval_error =
    DatasetUnreadable
  | DatasetLine nat
  | DatasetEmpty
  | InvalidRegex str
  | EmptySubstrings str
  | BoundsCrossed
  | BoundsMissing
  | BadLimit str
  | InvalidSchema
  | DuplicateEvaluator str
  | JudgeFailed
  | StoreFailed

text \<open>A compiled schema answers \<open>is_valid\<close> and, for the message, the first error of \<open>validate\<close>.\<close>

record validator =
  va_is_valid :: "json \<Rightarrow> bool"
  va_validate :: "json \<Rightarrow> str option"

record eval_libs =
  el_regex :: "str \<Rightarrow> (str \<Rightarrow> bool) option"
  el_parse :: "str \<Rightarrow> json option"
  el_schema :: "json \<Rightarrow> validator option"

text \<open>\<open>load_dataset\<close>: \<open>item_of\<close> reads one line.\<close>

fun load_lines :: "(str \<Rightarrow> dataset_item option) \<Rightarrow> nat \<Rightarrow> str list \<Rightarrow> eval_error + dataset_item list" where
  "load_lines item_of i [] = Inr []"
| "load_lines item_of i (l # ls) =
     (if trim l = [] then load_lines item_of (i + 1) ls
      else case item_of (trim l) of
             None \<Rightarrow> Inl (DatasetLine (i + 1))
           | Some item \<Rightarrow> (case load_lines item_of (i + 1) ls of Inl e \<Rightarrow> Inl e | Inr items \<Rightarrow> Inr (item # items)))"

definition load_dataset :: "(str \<Rightarrow> dataset_item option) \<Rightarrow> str option \<Rightarrow> eval_error + dataset_item list" where
  "load_dataset item_of file =
     (case file of None \<Rightarrow> Inl DatasetUnreadable | Some text \<Rightarrow> load_lines item_of 0 (str_lines text))"

section \<open>Evaluators\<close>

datatype evaluator =
    ExactMatch
  | Contains "str option"
  | RegexEval "str \<Rightarrow> bool"
  | JsonValid
  | Levenshtein f64
  | NonEmpty
  | ContainsAll "str list"
  | ContainsAny "str list"
  | LengthBounds "usize option" "usize option"
  | NumericTolerance f64
  | EqualsNumeric
  | JsonSchemaEval validator
  | Latency f64
  | Cost f64

definition evaluator_name :: "evaluator \<Rightarrow> str" where
  "evaluator_name e =
     (case e of
        ExactMatch \<Rightarrow> ''exact_match''
      | Contains _ \<Rightarrow> ''contains''
      | RegexEval _ \<Rightarrow> ''regex''
      | JsonValid \<Rightarrow> ''json_valid''
      | Levenshtein _ \<Rightarrow> ''levenshtein''
      | NonEmpty \<Rightarrow> ''non_empty''
      | ContainsAll _ \<Rightarrow> ''contains_all''
      | ContainsAny _ \<Rightarrow> ''contains_any''
      | LengthBounds _ _ \<Rightarrow> ''length_bounds''
      | NumericTolerance _ \<Rightarrow> ''numeric_tolerance''
      | EqualsNumeric \<Rightarrow> ''equals_numeric''
      | JsonSchemaEval _ \<Rightarrow> ''json_schema''
      | Latency _ \<Rightarrow> ''latency''
      | Cost _ \<Rightarrow> ''cost'')"

text \<open>A limit must be a finite number that is not negative.\<close>

definition limited :: "str \<Rightarrow> f64 \<Rightarrow> evaluator \<Rightarrow> eval_error + evaluator" where
  "limited label x e = (if is_finite x \<and> f_nonneg x then Inr e else Inl (BadLimit label))"

definition compile :: "eval_libs \<Rightarrow> evaluator_spec \<Rightarrow> eval_error + evaluator" where
  "compile libs sp =
     (case sp of
        SpecExactMatch \<Rightarrow> Inr ExactMatch
      | SpecContains s \<Rightarrow> Inr (Contains s)
      | SpecRegex p \<Rightarrow> (case el_regex libs p of None \<Rightarrow> Inl (InvalidRegex p) | Some re \<Rightarrow> Inr (RegexEval re))
      | SpecJsonValid \<Rightarrow> Inr JsonValid
      | SpecLevenshtein t \<Rightarrow> Inr (Levenshtein t)
      | SpecNonEmpty \<Rightarrow> Inr NonEmpty
      | SpecContainsAll subs \<Rightarrow> (if subs = [] then Inl (EmptySubstrings ''contains_all'') else Inr (ContainsAll subs))
      | SpecContainsAny subs \<Rightarrow> (if subs = [] then Inl (EmptySubstrings ''contains_any'') else Inr (ContainsAny subs))
      | SpecLengthBounds lo hi \<Rightarrow>
          (if (case (lo, hi) of (Some l, Some h) \<Rightarrow> \<not> l \<le> h | _ \<Rightarrow> False) then Inl BoundsCrossed
           else if lo = None \<and> hi = None then Inl BoundsMissing
           else Inr (LengthBounds lo hi))
      | SpecNumericTolerance t \<Rightarrow> limited ''numeric_tolerance'' t (NumericTolerance t)
      | SpecEqualsNumeric \<Rightarrow> Inr EqualsNumeric
      | SpecJsonSchema s \<Rightarrow> (case el_schema libs s of None \<Rightarrow> Inl InvalidSchema | Some v \<Rightarrow> Inr (JsonSchemaEval v))
      | SpecLatency m \<Rightarrow> limited ''latency'' m (Latency m)
      | SpecCost m \<Rightarrow> limited ''cost'' m (Cost m))"

record item_score =
  is_value :: f64
  is_passed :: bool
  is_comment :: "str option"

definition verdict :: "bool \<Rightarrow> str \<Rightarrow> item_score" where
  "verdict pass note =
     \<lparr>is_value = f_of_bool pass, is_passed = pass, is_comment = (if pass \<or> note = [] then None else Some note)\<rparr>"

definition contains_all_score :: "str list \<Rightarrow> dataset_item \<Rightarrow> item_score" where
  "contains_all_score subs i =
     (let present = length (filter (\<lambda>s. contains_str s (di_output i)) subs);
          passed = (present = length subs)
      in \<lparr>is_value = f_div (f_of_u64 present) (f_of_u64 (length subs)), is_passed = passed,
          is_comment = (if passed then None
                        else Some (''missing: '' @ join_str '', '' (filter (\<lambda>s. \<not> contains_str s (di_output i)) subs)))\<rparr>)"

definition length_bounds_score :: "usize option \<Rightarrow> usize option \<Rightarrow> dataset_item \<Rightarrow> item_score" where
  "length_bounds_score lo hi i =
     (let len = length (chars (di_output i));
          pass = ((case lo of None \<Rightarrow> True | Some l \<Rightarrow> l \<le> len) \<and> (case hi of None \<Rightarrow> True | Some h \<Rightarrow> len \<le> h))
      in verdict pass (''length '' @ dec_of len @ '' outside bounds (min='' @ debug_bound lo @ '', max='' @ debug_bound hi @ '')''))"

text \<open>The two numbers of \<open>numeric_tolerance\<close> and \<open>equals_numeric\<close>.\<close>

definition both_numbers :: "dataset_item \<Rightarrow> (f64 \<times> f64) option" where
  "both_numbers i =
     (case di_expected_output i of
        None \<Rightarrow> None
      | Some expected \<Rightarrow>
          (case (f_parse (trim (di_output i)), f_parse (trim expected)) of
             (Some a, Some b) \<Rightarrow> Some (a, b)
           | _ \<Rightarrow> None))"

definition json_schema_score :: "eval_libs \<Rightarrow> validator \<Rightarrow> dataset_item \<Rightarrow> item_score" where
  "json_schema_score libs v i =
     (case el_parse libs (di_output i) of
        None \<Rightarrow> verdict False ''output is not valid JSON''
      | Some instance_value \<Rightarrow>
          verdict (va_is_valid v instance_value)
            (case va_validate v instance_value of Some e \<Rightarrow> ''schema violation: '' @ e | None \<Rightarrow> ''schema violation''))"

definition metadata_f64 :: "dataset_item \<Rightarrow> str \<Rightarrow> f64 option" where
  "metadata_f64 i key =
     (case di_metadata i of
        Some (JObj m) \<Rightarrow>
          (case om_get m key of
             None \<Rightarrow> None
           | Some v \<Rightarrow>
               (case opt_or (j_as_f64 v) (case j_as_str v of Some s \<Rightarrow> f_parse (trim s) | None \<Rightarrow> None) of
                  None \<Rightarrow> None
                | Some n \<Rightarrow> if is_finite n then Some n else None))
      | _ \<Rightarrow> None)"

definition latency_score :: "f64 \<Rightarrow> dataset_item \<Rightarrow> item_score option" where
  "latency_score max_ms i =
     map_option
       (\<lambda>ms. verdict (f_le ms max_ms) (''latency '' @ f_fixed 3 ms @ ''ms exceeds max_ms '' @ f_fixed 3 max_ms))
       (opt_or (metadata_f64 i ''latency_ms'')
          (map_option (\<lambda>ns. f_div ns (f_of_u64 1000000)) (metadata_f64 i ''duration_ns'')))"

definition cost_score :: "f64 \<Rightarrow> dataset_item \<Rightarrow> item_score option" where
  "cost_score max_usd i =
     map_option
       (\<lambda>usd. verdict (f_le usd max_usd) (''cost $'' @ f_fixed 6 usd @ '' exceeds max_usd $'' @ f_fixed 6 max_usd))
       (metadata_f64 i ''cost_usd'')"

definition eval_score :: "eval_libs \<Rightarrow> evaluator \<Rightarrow> dataset_item \<Rightarrow> item_score option" where
  "eval_score libs e i =
     (case e of
        ExactMatch \<Rightarrow> map_option (\<lambda>x. verdict (trim (di_output i) = trim x) []) (di_expected_output i)
      | Contains s \<Rightarrow> map_option (\<lambda>x. verdict (contains_str x (di_output i)) []) (opt_or s (di_expected_output i))
      | RegexEval re \<Rightarrow> Some (verdict (re (di_output i)) [])
      | JsonValid \<Rightarrow> Some (verdict (el_parse libs (di_output i) \<noteq> None) ''output is not valid JSON'')
      | Levenshtein t \<Rightarrow>
          map_option (\<lambda>x. let v = levenshtein_similarity (di_output i) x
                          in \<lparr>is_value = v, is_passed = f_le t v, is_comment = None\<rparr>) (di_expected_output i)
      | NonEmpty \<Rightarrow> Some (verdict (trim (di_output i) \<noteq> []) [])
      | ContainsAll subs \<Rightarrow> Some (contains_all_score subs i)
      | ContainsAny subs \<Rightarrow> Some (verdict (list_ex (\<lambda>s. contains_str s (di_output i)) subs) [])
      | LengthBounds lo hi \<Rightarrow> Some (length_bounds_score lo hi i)
      | NumericTolerance t \<Rightarrow> map_option (\<lambda>(a, b). verdict (f_le (f_abs (f_minus a b)) t) []) (both_numbers i)
      | EqualsNumeric \<Rightarrow> map_option (\<lambda>(a, b). verdict (f_eq a b \<or> is_nan a \<and> is_nan b) []) (both_numbers i)
      | JsonSchemaEval v \<Rightarrow> Some (json_schema_score libs v i)
      | Latency m \<Rightarrow> latency_score m i
      | Cost m \<Rightarrow> cost_score m i)"

definition evaluate :: "eval_libs \<Rightarrow> evaluator_spec \<Rightarrow> dataset_item \<Rightarrow> eval_error + item_score option" where
  "evaluate libs sp i = (case compile libs sp of Inl e \<Rightarrow> Inl e | Inr ev \<Rightarrow> Inr (eval_score libs ev i))"

section \<open>One evaluator over the dataset\<close>

record evaluator_aggregate =
  ea_name :: str
  ea_mean :: f64
  ea_pass_rate :: f64
  ea_scored :: usize
  ea_skipped :: usize
  ea_threshold :: "f64 option"
  ea_threshold_met :: bool

text \<open>The ids of the scores a run persists.\<close>

definition item_id :: "str \<Rightarrow> str \<Rightarrow> nat \<Rightarrow> str" where
  "item_id run_id label idx = run_id @ '':'' @ label @ '':'' @ dec_of idx"

definition agg_id :: "str \<Rightarrow> str \<Rightarrow> str" where
  "agg_id run_id label = run_id @ '':agg:'' @ label"

fun item_scores :: "str \<Rightarrow> str \<Rightarrow> u64 \<Rightarrow> nat \<Rightarrow> (dataset_item \<times> item_score option) list \<Rightarrow> score list" where
  "item_scores label run_id ts idx [] = []"
| "item_scores label run_id ts idx ((item, outcome) # rest) =
     (case outcome of
        Some o' \<Rightarrow>
          if has_span_or_trace item
          then [\<lparr>sc_id = item_id run_id label idx, sc_target = item_target item run_id, sc_name = label,
                 sc_num_value = Some (is_value o'), sc_str_value = None, sc_data_type = Numeric, sc_source = SrcEval,
                 sc_comment = is_comment o', sc_config_id = Some run_id, sc_agg_stats = None, sc_ts_unix_nano = ts\<rparr>]
          else []
      | None \<Rightarrow> []) @ item_scores label run_id ts (Suc idx) rest"

definition f_mean :: "f64 list \<Rightarrow> f64" where
  "f_mean xs = (if xs \<noteq> [] then f_div (f_sum xs) (f_of_u64 (length xs)) else f_zero)"

definition f_variance :: "f64 \<Rightarrow> f64 list \<Rightarrow> f64" where
  "f_variance mean xs =
     (if 1 < length xs
      then f_div (f_sum (map (\<lambda>v. f_mul (f_minus v mean) (f_minus v mean)) xs)) (f_minus (f_of_u64 (length xs)) f_one)
      else f_zero)"

text \<open>The aggregate and the scores it appends.\<close>

definition finalize_evaluator ::
  "str \<Rightarrow> item_score option list \<Rightarrow> dataset_item list \<Rightarrow> str \<Rightarrow> f64 option \<Rightarrow> u64 \<Rightarrow> evaluator_aggregate \<times> score list" where
  "finalize_evaluator label outcomes dataset run_id threshold ts =
     (let pairs = zip dataset outcomes;
          kept = List.map_filter snd pairs;
          values = map is_value kept;
          passes = length (filter is_passed kept);
          scored = length values;
          mean = f_mean values;
          variance = f_variance mean values;
          pass_rate = (if 0 < scored then f_div (f_of_u64 passes) (f_of_u64 scored) else f_zero);
          threshold_met = (scored = 0 \<or> (case threshold of None \<Rightarrow> True | Some t \<Rightarrow> f_le t mean))
      in (\<lparr>ea_name = label, ea_mean = mean, ea_pass_rate = pass_rate, ea_scored = scored,
           ea_skipped = length dataset - scored, ea_threshold = threshold, ea_threshold_met = threshold_met\<rparr>,
          item_scores label run_id ts 0 pairs @
          [\<lparr>sc_id = agg_id run_id label, sc_target = TargetRun run_id, sc_name = label, sc_num_value = Some mean,
            sc_str_value = None, sc_data_type = Numeric, sc_source = SrcEval,
            sc_comment = Some (''aggregate mean over '' @ dec_of scored @ '' item(s); pass_rate '' @ f_fixed 3 pass_rate),
            sc_config_id = Some run_id,
            sc_agg_stats = Some \<lparr>ag_n = scored, ag_pass_count = passes, ag_mean = mean, ag_variance = variance\<rparr>,
            sc_ts_unix_nano = ts\<rparr>]))"

section \<open>The run\<close>

record eval_config =
  ec_name :: "str option"
  ec_evaluators :: "evaluator_spec list"
  ec_thresholds :: "(str, f64) omap"

record run_report =
  rr_run_id :: str
  rr_name :: "str option"
  rr_item_count :: usize
  rr_aggregates :: "evaluator_aggregate list"

definition run_passed :: "run_report \<Rightarrow> bool" where
  "run_passed r = list_all ea_threshold_met (rr_aggregates r)"

fun compile_all :: "eval_libs \<Rightarrow> evaluator_spec list \<Rightarrow> eval_error + evaluator list" where
  "compile_all libs [] = Inr []"
| "compile_all libs (sp # sps) =
     (case compile libs sp of
        Inl e \<Rightarrow> Inl e
      | Inr ev \<Rightarrow> (case compile_all libs sps of Inl e \<Rightarrow> Inl e | Inr evs \<Rightarrow> Inr (ev # evs)))"

text \<open>The first name met twice.\<close>

fun duplicate_name :: "str set \<Rightarrow> str list \<Rightarrow> str option" where
  "duplicate_name seen [] = None"
| "duplicate_name seen (n # ns) = (if n \<in> seen then Some n else duplicate_name (insert n seen) ns)"

definition run_evaluator :: "eval_libs \<Rightarrow> eval_config \<Rightarrow> dataset_item list \<Rightarrow> str \<Rightarrow> u64 \<Rightarrow> evaluator \<Rightarrow> evaluator_aggregate \<times> score list" where
  "run_evaluator libs config dataset run_id ts ev =
     finalize_evaluator (evaluator_name ev) (map (eval_score libs ev) dataset) dataset run_id
       (om_get (ec_thresholds config) (evaluator_name ev)) ts"

definition run_eval :: "eval_libs \<Rightarrow> eval_config \<Rightarrow> dataset_item list \<Rightarrow> str \<Rightarrow> u64 \<Rightarrow> eval_error + run_report \<times> score list" where
  "run_eval libs config dataset run_id ts =
     (case compile_all libs (ec_evaluators config) of
        Inl e \<Rightarrow> Inl e
      | Inr evs \<Rightarrow>
          (case duplicate_name {} (map evaluator_name evs) of
             Some n \<Rightarrow> Inl (DuplicateEvaluator n)
           | None \<Rightarrow>
               (let outcomes = map (run_evaluator libs config dataset run_id ts) evs
                in Inr (\<lparr>rr_run_id = run_id, rr_name = ec_name config, rr_item_count = length dataset,
                         rr_aggregates = map fst outcomes\<rparr>, concat (map snd outcomes)))))"

text \<open>
  The body of \<open>eval run\<close> after the files are read: \<open>judge_names\<close> are the judges of the configuration and
  \<open>judged\<close> what running them gives, their aggregates and scores.
\<close>

definition run_report_body ::
  "eval_libs \<Rightarrow> score_json \<Rightarrow> eval_config \<Rightarrow> str list \<Rightarrow> (evaluator_aggregate list \<times> score list) option \<Rightarrow> dataset_item list
     \<Rightarrow> str \<Rightarrow> u64 \<Rightarrow> score_store \<Rightarrow> (eval_error + run_report) \<times> score_store" where
  "run_report_body libs j config judge_names judged dataset run_id ts st =
     (if dataset = [] then (Inl DatasetEmpty, st)
      else case duplicate_name {} (map spec_name (ec_evaluators config) @ judge_names) of
        Some n \<Rightarrow> (Inl (DuplicateEvaluator n), st)
      | None \<Rightarrow>
          (case run_eval libs config dataset run_id ts of
             Inl e \<Rightarrow> (Inl e, st)
           | Inr (report, scs) \<Rightarrow>
               (case (if judge_names = [] then Some ([], []) else judged) of
                  None \<Rightarrow> (Inl JudgeFailed, st)
                | Some (judge_aggs, judge_scores) \<Rightarrow>
                    (case put_batch j (scs @ judge_scores) st of
                       (Inl _, st') \<Rightarrow> (Inl StoreFailed, st')
                     | (Inr _, st') \<Rightarrow> (Inr (report\<lparr>rr_aggregates := rr_aggregates report @ judge_aggs\<rparr>), st')))))"

end
