(* ===== verification/Stats.thy ===== *)
theory Stats
  imports FloatOps
begin

text \<open>
  The significance test of \<^verbatim>\<open>src/stats.rs\<close>: Welch's two-sample t-test, with the distribution of Student
  from the regularized incomplete beta function. The transcendental functions of the platform are
  parameters, \<open>powi(2)\<close> is the square, every other operation is that of \<open>f64\<close>.
\<close>

record libm =
  lm_ln :: "f64 \<Rightarrow> f64"
  lm_exp :: "f64 \<Rightarrow> f64"
  lm_sin :: "f64 \<Rightarrow> f64"

definition f_pi :: f64 where "f_pi = f_lit 3141592653589793 15"
definition f_half :: f64 where "f_half = f_lit 5 1"
definition f_two :: f64 where "f_two = f_of_u64 2"

section \<open>The incomplete beta function\<close>

definition lanczos :: "f64 list" where
  "lanczos =
     [f_lit 9999999999998099 16, f_lit 6765203681218851 13, f_opposite (f_lit 12591392167224028 13),
      f_lit 7713234287776531 13, f_opposite (f_lit 1766150291621406 13), f_lit 12507343278686905 15,
      f_opposite (f_lit 13857109526572012 17), f_lit 9984369578019572 21, f_lit 15056327351493116 23]"

text \<open>The branch of \<open>ln_gamma\<close> for \<open>x \<ge> 0.5\<close>; the reflection below calls it at \<open>1 - x > 0.5\<close>.\<close>

definition ln_gamma_right :: "libm \<Rightarrow> f64 \<Rightarrow> f64" where
  "ln_gamma_right m x0 =
     (let x = f_minus x0 f_one;
          t = f_add (f_add x (f_of_u64 7)) f_half;
          a = fold (\<lambda>(i, c) a. f_add a (f_div c (f_add x (f_of_u64 i)))) (tl (enumerate 0 lanczos)) (hd lanczos)
      in f_add (f_minus (f_add (f_mul f_half (lm_ln m (f_mul f_two f_pi))) (f_mul (f_add x f_half) (lm_ln m t))) t) (lm_ln m a))"

definition ln_gamma :: "libm \<Rightarrow> f64 \<Rightarrow> f64" where
  "ln_gamma m x =
     (if f_lt x f_half
      then f_minus (lm_ln m (f_div f_pi (lm_sin m (f_mul f_pi x)))) (ln_gamma_right m (f_minus f_one x))
      else ln_gamma_right m x)"

definition fpmin :: f64 where "fpmin = f_lit 1 300"
definition beta_eps :: f64 where "beta_eps = f_lit 3 14"

definition away_from_zero :: "f64 \<Rightarrow> f64" where
  "away_from_zero d = (if f_lt (f_abs d) fpmin then fpmin else d)"

text \<open>The loop of \<open>betacf\<close> from iteration \<open>m\<close> on, with \<open>k\<close> iterations left.\<close>

fun betacf_loop :: "f64 \<Rightarrow> f64 \<Rightarrow> f64 \<Rightarrow> nat \<Rightarrow> nat \<Rightarrow> f64 \<Rightarrow> f64 \<Rightarrow> f64 \<Rightarrow> f64" where
  "betacf_loop a b x 0 m c d h = h"
| "betacf_loop a b x (Suc k) m c d h =
     (let qab = f_add a b; qap = f_add a f_one; qam = f_minus a f_one;
          mf = f_of_u64 m;
          m2 = f_mul f_two mf;
          aa = f_div (f_mul (f_mul mf (f_minus b mf)) x) (f_mul (f_add qam m2) (f_add a m2));
          d1 = f_div f_one (away_from_zero (f_add f_one (f_mul aa d)));
          c1 = away_from_zero (f_add f_one (f_div aa c));
          h1 = f_mul h (f_mul d1 c1);
          bb = f_div (f_mul (f_mul (f_opposite (f_add a mf)) (f_add qab mf)) x) (f_mul (f_add a m2) (f_add qap m2));
          d2 = f_div f_one (away_from_zero (f_add f_one (f_mul bb d1)));
          c2 = away_from_zero (f_add f_one (f_div bb c1));
          del = f_mul d2 c2;
          h2 = f_mul h1 del
      in if f_lt (f_abs (f_minus del f_one)) beta_eps then h2 else betacf_loop a b x k (Suc m) c2 d2 h2)"

definition betacf :: "f64 \<Rightarrow> f64 \<Rightarrow> f64 \<Rightarrow> f64" where
  "betacf a b x =
     (let d = f_div f_one (away_from_zero (f_minus f_one (f_div (f_mul (f_add a b) x) (f_add a f_one))))
      in betacf_loop a b x 200 1 f_one d d)"

definition reg_inc_beta :: "libm \<Rightarrow> f64 \<Rightarrow> f64 \<Rightarrow> f64 \<Rightarrow> f64" where
  "reg_inc_beta m a b x =
     (if f_le x f_zero then f_zero
      else if f_le f_one x then f_one
      else let ln_front = f_add (f_add (f_minus (f_minus (ln_gamma m (f_add a b)) (ln_gamma m a)) (ln_gamma m b))
                                  (f_mul a (lm_ln m x)))
                            (f_mul b (lm_ln m (f_minus f_one x)));
               front = lm_exp m ln_front
           in if f_lt x (f_div (f_add a f_one) (f_add (f_add a b) f_two))
              then f_div (f_mul front (betacf a b x)) a
              else f_minus f_one (f_div (f_mul front (betacf b a (f_minus f_one x))) b))"

section \<open>The distribution of Student\<close>

definition student_t_two_sided_p :: "libm \<Rightarrow> f64 \<Rightarrow> f64 \<Rightarrow> f64" where
  "student_t_two_sided_p m t df =
     (if f_le df f_zero then f_nan
      else if \<not> is_finite t then (if is_nan t then f_nan else f_zero)
      else f_clamp f_zero f_one (reg_inc_beta m (f_div df f_two) f_half (f_div df (f_add df (f_mul t t)))))"

definition student_t_cdf :: "libm \<Rightarrow> f64 \<Rightarrow> f64 \<Rightarrow> f64" where
  "student_t_cdf m t df =
     (if f_eq t f_zero then f_half
      else let ib = student_t_two_sided_p m t df
           in if f_lt f_zero t then f_minus f_one (f_mul f_half ib) else f_mul f_half ib)"

definition f_max_finite :: f64 where
  "f_max_finite = f_make False (inf_bits - 1)"

text \<open>
  The two loops that grow the bracket. The bound doubles from \<open>1\<close> and the loop stops at the latest when it
  passes a quarter of the largest double, after 1022 steps.
\<close>

definition doublings :: nat where "doublings = 1022"

fun grow_hi :: "(f64 \<Rightarrow> f64) \<Rightarrow> f64 \<Rightarrow> nat \<Rightarrow> f64 \<Rightarrow> f64" where
  "grow_hi cdf p 0 hi = hi"
| "grow_hi cdf p (Suc k) hi =
     (if f_lt hi (f_div f_max_finite (f_of_u64 4)) \<and> f_lt (cdf hi) p then grow_hi cdf p k (f_mul hi f_two) else hi)"

fun grow_lo :: "(f64 \<Rightarrow> f64) \<Rightarrow> f64 \<Rightarrow> nat \<Rightarrow> f64 \<Rightarrow> f64" where
  "grow_lo cdf p 0 lo = lo"
| "grow_lo cdf p (Suc k) lo =
     (if f_lt (f_div (f_opposite f_max_finite) (f_of_u64 4)) lo \<and> f_lt p (cdf lo) then grow_lo cdf p k (f_mul lo f_two) else lo)"

fun bisect :: "(f64 \<Rightarrow> f64) \<Rightarrow> f64 \<Rightarrow> nat \<Rightarrow> f64 \<Rightarrow> f64 \<Rightarrow> f64 \<times> f64" where
  "bisect cdf p 0 lo hi = (lo, hi)"
| "bisect cdf p (Suc k) lo hi =
     (let mid = f_mul f_half (f_add lo hi)
      in if f_lt (cdf mid) p then bisect cdf p k mid hi else bisect cdf p k lo mid)"

definition student_t_quantile :: "libm \<Rightarrow> f64 \<Rightarrow> f64 \<Rightarrow> f64" where
  "student_t_quantile m p0 df =
     (let p = f_clamp (f_lit 1 12) (f_minus f_one (f_lit 1 12)) p0;
          cdf = (\<lambda>t. student_t_cdf m t df);
          hi = grow_hi cdf p doublings f_one;
          lo = grow_lo cdf p doublings (f_opposite f_one);
          (lo', hi') = bisect cdf p 200 lo hi
      in f_mul f_half (f_add lo' hi'))"

section \<open>Welch's test\<close>

record welch_result =
  we_t :: f64
  we_df :: f64
  we_p_two_sided :: f64
  we_ci_low :: f64
  we_ci_high :: f64

definition p_one_sided :: "welch_result \<Rightarrow> f64" where
  "p_one_sided r = f_mul f_half (we_p_two_sided r)"

definition welch_t_test :: "libm \<Rightarrow> f64 \<Rightarrow> f64 \<Rightarrow> u64 \<Rightarrow> f64 \<Rightarrow> f64 \<Rightarrow> u64 \<Rightarrow> f64 \<Rightarrow> welch_result option" where
  "welch_t_test m mean_a var_a n_a mean_b var_b n_b alpha =
     (if n_a < 2 \<or> n_b < 2 then None
      else let na = f_of_u64 n_a; nb = f_of_u64 n_b;
               se2_a = f_div (f_max var_a f_zero) na;
               se2_b = f_div (f_max var_b f_zero) nb;
               se = f_sqrt (f_add se2_a se2_b);
               delta = f_minus mean_b mean_a
           in if f_eq se f_zero then
                (if f_eq delta f_zero
                 then Some \<lparr>we_t = f_zero, we_df = f_minus (f_add na nb) f_two, we_p_two_sided = f_one,
                            we_ci_low = f_zero, we_ci_high = f_zero\<rparr>
                 else None)
              else let t = f_div delta se;
                       sum = f_add se2_a se2_b;
                       df = f_div (f_mul sum sum)
                              (f_add (f_div (f_mul se2_a se2_a) (f_minus na f_one)) (f_div (f_mul se2_b se2_b) (f_minus nb f_one)));
                       half = f_mul (student_t_quantile m (f_minus f_one (f_div alpha f_two)) df) se
                   in Some \<lparr>we_t = t, we_df = df, we_p_two_sided = student_t_two_sided_p m t df,
                            we_ci_low = f_minus delta half, we_ci_high = f_add delta half\<rparr>)"

section \<open>The bracket of the quantile\<close>

lemma bit_length_unique: "2 ^ L \<le> n \<Longrightarrow> n < 2 ^ Suc L \<Longrightarrow> bit_length n = Suc L"
proof -
  assume a: "2 ^ L \<le> n" "n < 2 ^ Suc L"
  then have "n \<noteq> 0" by (metis not_numeral_le_zero power_eq_0_iff le_zero_eq zero_neq_numeral)
  note b = bit_length_bounds [OF this]
  then have "(2::nat) ^ (bit_length n - 1) < 2 ^ Suc L" "(2::nat) ^ L < 2 ^ bit_length n" using a by linarith+
  then have "bit_length n - 1 < Suc L" "L < bit_length n" by (simp_all only: power_less_imp_less_exp [of "2::nat"] one_less_numeral_iff semiring_norm)
  then show ?thesis by simp
qed

text \<open>A value \<open>q * 2 ^ (s - t)\<close> with 53 significant bits is a double.\<close>

lemma scaled_pow2:
  assumes "t \<le> 1073 + s"
  shows "\<exists>A>0. scaled (q * 2 ^ s) (2 ^ t) (1073 + s - t) = (2 * q * A, A)"
    and "\<exists>A>0. scaled (q * 2 ^ s) (2 ^ t) (1074 + s - t) = (q * A, A)"
proof -
  show "\<exists>A>0. scaled (q * 2 ^ s) (2 ^ t) (1073 + s - t) = (2 * q * A, A)"
  proof (cases "t < s")
    case True
    then obtain e where "s = Suc (t + e)" using less_iff_Suc_add by auto
    then have "scaled (q * 2 ^ s) (2 ^ t) (1073 + s - t) = (2 * q * 2 ^ (t + e), 2 ^ (t + e))" by (simp add: scaled_def power_add)
    then show ?thesis by (intro exI [of _ "2 ^ (t + e)"]) simp
  next
    case False
    then obtain e where e: "t = s + e" using le_Suc_ex [of s t] by auto
    have small: "\<not> 1074 \<le> 1073 + s - t" and d: "1074 - (1073 + s - t) = Suc e" using e assms by linarith+
    have "q * 2 ^ s * 2 ^ Suc e = 2 * q * 2 ^ t" by (simp add: e power_add)
    then have "scaled (q * 2 ^ s) (2 ^ t) (1073 + s - t) = (2 * q * 2 ^ t, 2 ^ t)"
      unfolding scaled_def if_not_P [OF small] d by (simp only:)
    then show ?thesis by (intro exI [of _ "2 ^ t"]) simp
  qed
  show "\<exists>A>0. scaled (q * 2 ^ s) (2 ^ t) (1074 + s - t) = (q * A, A)"
  proof (cases "t \<le> s")
    case True
    then obtain e where "s = t + e" using le_Suc_ex by auto
    then have "scaled (q * 2 ^ s) (2 ^ t) (1074 + s - t) = (q * 2 ^ s, 2 ^ s)" by (simp add: scaled_def power_add)
    then show ?thesis by (intro exI [of _ "2 ^ s"]) simp
  next
    case False
    then obtain e where e: "t = s + e" "e \<noteq> 0" using le_Suc_ex [of s t] by auto
    have small: "\<not> 1074 \<le> 1074 + s - t" and d: "1074 - (1074 + s - t) = e" using e assms by linarith+
    have "q * 2 ^ s * 2 ^ e = q * 2 ^ t" by (simp add: e power_add)
    then have "scaled (q * 2 ^ s) (2 ^ t) (1074 + s - t) = (q * 2 ^ t, 2 ^ t)"
      unfolding scaled_def if_not_P [OF small] d by (simp only:)
    then show ?thesis by (intro exI [of _ "2 ^ t"]) simp
  qed
qed

lemma round_bits_pow2:
  assumes q: "2 ^ 52 \<le> q" "q < 2 ^ 53" and t: "t \<le> 1073 + s" "s \<le> 970 + t"
  shows "round_bits (q * 2 ^ s) (2 ^ t) = (1074 + s - t) * 2 ^ 52 + q"
proof -
  have n: "bit_length (q * 2 ^ s) = 53 + s"
    using bit_length_unique [of "52 + s" "q * 2 ^ s"] q by (simp add: power_add)
  have d: "bit_length (2 ^ t) = Suc t" by (rule bit_length_unique) simp_all
  obtain A where A: "A > 0" "scaled (q * 2 ^ s) (2 ^ t) (1073 + s - t) = (2 * q * A, A)" using scaled_pow2(1) [OF t(1)] by blast
  obtain B where B: "B > 0" "scaled (q * 2 ^ s) (2 ^ t) (1074 + s - t) = (q * B, B)" using scaled_pow2(2) [OF t(1)] by blast
  have k0: "1074 + bit_length (q * 2 ^ s) - (bit_length (2 ^ t) + 53) = 1073 + s - t" unfolding n d by simp
  have k: "1073 + s - t + 1 = 1074 + s - t" using t(1) by simp
  have "(1074 + s - t) * 2 ^ 52 + q \<le> 2044 * 2 ^ 52 + 2 ^ 53"
    using t q by (intro add_mono mult_right_mono) simp_all
  then have "(1074 + s - t) * 2 ^ 52 + q \<le> inf_bits" by (simp add: inf_bits_def)
  moreover have "q * 2 ^ s \<noteq> 0" using q(1) by simp
  moreover have "2 ^ 53 \<le> 2 * q * A div A" "nearest_even (q * B) B = q"
    using q(1) A(1) B(1) by (simp_all add: nearest_even_def)
  ultimately show ?thesis
    unfolding round_bits_def k0 Let_def A(2) prod.case k by (simp only: if_False if_True B(2) prod.case min_absorb2)
qed

definition pow2 :: "bool \<Rightarrow> nat \<Rightarrow> f64" where
  "pow2 neg k = f_make neg ((1023 + k) * 2 ^ 52)"

lemma make_unat: "bits < 2 ^ 63 \<Longrightarrow> unat (f_make neg bits) = (if neg then 2 ^ 63 else 0) + bits"
  unfolding f_make_def unat_of_nat by (cases neg) simp_all

lemma make_parts:
  assumes "e < 2047" "x < 2 ^ 52"
  shows "f_neg (f_make neg (e * 2 ^ 52 + x)) = neg" "f_exp (f_make neg (e * 2 ^ 52 + x)) = e" "f_frac (f_make neg (e * 2 ^ 52 + x)) = x"
proof -
  have "e * 2 ^ 52 + x < 2046 * 2 ^ 52 + 2 ^ 52"
    using assms by (intro add_le_less_mono mult_right_mono) simp_all
  then have u: "unat (f_make neg (e * 2 ^ 52 + x)) = (if neg then 2 ^ 63 else 0) + (e * 2 ^ 52 + x)" and b: "e * 2 ^ 52 + x < 2 ^ 63"
    by (simp_all add: make_unat)
  show "f_neg (f_make neg (e * 2 ^ 52 + x)) = neg" unfolding f_neg_def u using b by (cases neg) simp_all
  have "(2::nat) ^ 63 + (e * 2 ^ 52 + x) = (2048 + e) * 2 ^ 52 + x" by simp
  then have u': "unat (f_make neg (e * 2 ^ 52 + x)) = ((if neg then 2048 else 0) + e) * 2 ^ 52 + x" using u by auto
  have "(((if neg then 2048 else 0) + e) * 2 ^ 52 + x) div 2 ^ 52 = (if neg then 2048 else 0) + e" using assms(2) by simp
  then show "f_exp (f_make neg (e * 2 ^ 52 + x)) = e" using assms(1) unfolding f_exp_def u' by simp
  show "f_frac (f_make neg (e * 2 ^ 52 + x)) = x" using assms(2) unfolding f_frac_def u' by (simp only: mod_mult_self3 mod_less)
qed

lemma pow2_parts:
  assumes "k \<le> 1023"
  shows "f_neg (pow2 neg k) = neg" "f_exp (pow2 neg k) = 1023 + k" "f_frac (pow2 neg k) = 0"
  using make_parts [of "1023 + k" 0 neg] assms by (simp_all add: pow2_def)

lemma pow2_ratio:
  assumes "k \<le> 1023"
  shows "\<exists>s t. f_ratio (pow2 neg k) = (2 ^ 52 * 2 ^ s, 2 ^ t) \<and> s + 52 = k + t \<and> t \<le> 52 \<and> s \<le> 971"
proof (cases "52 \<le> k")
  case True
  then show ?thesis using assms pow2_parts [OF assms, of neg]
    by (intro exI [of _ "k - 52"] exI [of _ 0]) (simp add: f_ratio_def f_mant_def)
next
  case False
  then show ?thesis using assms pow2_parts [OF assms, of neg]
    by (intro exI [of _ 0] exI [of _ "52 - k"]) (simp add: f_ratio_def f_mant_def)
qed

lemma f_of_pow2: "f_one = pow2 False 0" "f_two = pow2 False 1" "f_of_u64 4 = pow2 False 2"
  using round_bits_int(1) [of 1] round_bits_int(1) [of 2] round_bits_int(1) [of 4] bit_length_unique [of 1 2] bit_length_unique [of 2 4]
  by (simp_all add: f_one_def f_two_def f_of_u64_def f_of_int_def f_round_def pow2_def bit_length_one)

lemma pow2_double:
  assumes "k < 1022"
  shows "f_mul (pow2 neg k) f_two = pow2 neg (Suc k)"
proof -
  obtain s t where r: "f_ratio (pow2 neg k) = (2 ^ 52 * 2 ^ s, 2 ^ t)" "s + 52 = k + t" "t \<le> 52" "s \<le> 971"
    using pow2_ratio [of k neg] assms by auto
  have two: "f_ratio f_two = (2 ^ 52, 2 ^ 51)"
    using pow2_parts [of 1 False] by (simp add: f_of_pow2 f_ratio_def f_mant_def)
  note p = pow2_parts [of k neg] pow2_parts [of 1 False]
  have n: "(2::nat) ^ 52 * 2 ^ s * 2 ^ 52 = 2 ^ 52 * 2 ^ (s + 52)" "(2::nat) ^ t * 2 ^ 51 = 2 ^ (t + 51)" by (simp_all add: power_add)
  have "round_bits (2 ^ 52 * 2 ^ (s + 52)) (2 ^ (t + 51)) = (1074 + (s + 52) - (t + 51)) * 2 ^ 52 + 2 ^ 52"
    using r(2-4) assms by (intro round_bits_pow2) simp_all
  also have "\<dots> = (1023 + Suc k) * 2 ^ 52" using r(2) by simp
  finally have b: "f_round neg (2 ^ 52 * 2 ^ s * 2 ^ 52) (2 ^ t * 2 ^ 51) = pow2 neg (Suc k)"
    unfolding n f_round_def pow2_def by (simp only:)
  have "f_mul (pow2 neg k) f_two = f_round neg (2 ^ 52 * 2 ^ s * 2 ^ 52) (2 ^ t * 2 ^ 51)"
    unfolding f_mul_def r(1) two split Let_def
    using p assms by (simp add: is_nan_def is_finite_def is_zero_def f_of_pow2)
  then show ?thesis unfolding b .
qed

lemma quarter_of_max: "f_div f_max_finite (f_of_u64 4) = f_make False (2044 * 2 ^ 52 + (2 ^ 52 - 1))"
  "f_div (f_opposite f_max_finite) (f_of_u64 4) = f_make True (2044 * 2 ^ 52 + (2 ^ 52 - 1))"
proof -
  have e: "f_max_finite = f_make False (2046 * 2 ^ 52 + (2 ^ 52 - 1))" by (simp add: f_max_finite_def inf_bits_def)
  have o: "f_opposite f_max_finite = f_make True (2046 * 2 ^ 52 + (2 ^ 52 - 1))"
    unfolding e f_opposite_def using make_parts(1) [of 2046 "2 ^ 52 - 1" False] by (simp add: make_unat)
  note p = make_parts [of 2046 "2 ^ 52 - 1" False] make_parts [of 2046 "2 ^ 52 - 1" True] pow2_parts [of 2 False]
  have four: "f_ratio (f_of_u64 4) = (2 ^ 52, 2 ^ 50)" using p by (simp add: f_of_pow2 f_ratio_def f_mant_def)
  have m: "f_ratio (f_make neg (2046 * 2 ^ 52 + (2 ^ 52 - 1))) = ((2 ^ 53 - 1) * 2 ^ 971, 1)" for neg
    using make_parts [of 2046 "2 ^ 52 - 1" neg] unfolding f_ratio_def f_mant_def by (simp add: Let_def)
  have n: "((2::nat) ^ 53 - 1) * 2 ^ 971 * 2 ^ 50 = (2 ^ 53 - 1) * 2 ^ 1021" by (simp add: power_add [symmetric] mult.assoc del: power_numeral_odd)
  have "round_bits ((2 ^ 53 - 1) * 2 ^ 1021) (2 ^ 52) = (1074 + 1021 - 52) * 2 ^ 52 + (2 ^ 53 - 1)"
    by (rule round_bits_pow2) simp_all
  also have "\<dots> = 2044 * 2 ^ 52 + (2 ^ 52 - 1)" by simp
  finally have r: "round_bits ((2 ^ 53 - 1) * 2 ^ 1021) (2 ^ 52) = 2044 * 2 ^ 52 + (2 ^ 52 - 1)" .
  show "f_div f_max_finite (f_of_u64 4) = f_make False (2044 * 2 ^ 52 + (2 ^ 52 - 1))"
    unfolding f_div_def four e m split Let_def
    using p by (simp only: is_nan_def is_finite_def is_zero_def f_of_pow2 n f_round_def r mult_1) simp
  show "f_div (f_opposite f_max_finite) (f_of_u64 4) = f_make True (2044 * 2 ^ 52 + (2 ^ 52 - 1))"
    unfolding f_div_def four o m split Let_def
    using p by (simp only: is_nan_def is_finite_def is_zero_def f_of_pow2 n f_round_def r mult_1) simp
qed

text \<open>The bound is reached: the largest power of two the loops get to ends them.\<close>

lemma bracket_end: "\<not> f_lt (pow2 False 1022) (f_div f_max_finite (f_of_u64 4))"
  "\<not> f_lt (f_div (f_opposite f_max_finite) (f_of_u64 4)) (pow2 True 1022)"
proof -
  have u: "unat (pow2 neg 1022) = (if neg then 2 ^ 63 else 0) + 2045 * 2 ^ 52"
    "unat (f_make neg (2044 * 2 ^ 52 + (2 ^ 52 - 1))) = (if neg then 2 ^ 63 else 0) + (2045 * 2 ^ 52 - 1)" for neg
    by (simp_all add: pow2_def make_unat)
  have n: "f_neg (pow2 neg 1022) = neg" "f_neg (f_make neg (2044 * 2 ^ 52 + (2 ^ 52 - 1))) = neg" for neg
    using pow2_parts(1) [of 1022 neg] make_parts(1) [of 2044 "2 ^ 52 - 1" neg] by simp_all
  show "\<not> f_lt (pow2 False 1022) (f_div f_max_finite (f_of_u64 4))"
    unfolding quarter_of_max f_lt_def f_key_def n u by simp
  show "\<not> f_lt (f_div (f_opposite f_max_finite) (f_of_u64 4)) (pow2 True 1022)"
    unfolding quarter_of_max f_lt_def f_key_def n u by simp
qed

lemma grow_hi_fuel: "i \<le> 1022 \<Longrightarrow> 1022 \<le> i + k \<Longrightarrow> grow_hi cdf p (k + n) (pow2 False i) = grow_hi cdf p k (pow2 False i)"
proof (induction k arbitrary: i)
  case 0
  then have "i = 1022" by simp
  then show ?case using bracket_end by (cases n) simp_all
next
  case (Suc k)
  show ?case
  proof (cases "i = 1022")
    case True
    then show ?thesis using bracket_end by simp
  next
    case False
    then show ?thesis using Suc pow2_double [of i False] by simp
  qed
qed

lemma grow_lo_fuel: "i \<le> 1022 \<Longrightarrow> 1022 \<le> i + k \<Longrightarrow> grow_lo cdf p (k + n) (pow2 True i) = grow_lo cdf p k (pow2 True i)"
proof (induction k arbitrary: i)
  case 0
  then have "i = 1022" by simp
  then show ?case using bracket_end by (cases n) simp_all
next
  case (Suc k)
  show ?case
  proof (cases "i = 1022")
    case True
    then show ?thesis using bracket_end by simp
  next
    case False
    then show ?thesis using Suc pow2_double [of i True] by simp
  qed
qed

lemma minus_one: "f_opposite f_one = pow2 True 0"
  using pow2_parts(1) [of 0 False] by (simp add: f_of_pow2 f_opposite_def) (simp add: pow2_def make_unat)

text \<open>
  C24. The bracket of the quantile is always found: whatever the distribution and the probability, each of
  the two loops that double a bound has ended by itself after at most 1022 doublings, so that more steps
  would change nothing.
\<close>
theorem quantile_bracket_is_found:
  "grow_hi cdf p (doublings + n) f_one = grow_hi cdf p doublings f_one \<and>
   grow_lo cdf p (doublings + n) (f_opposite f_one) = grow_lo cdf p doublings (f_opposite f_one)"
  unfolding minus_one doublings_def unfolding f_of_pow2(1) by (intro conjI grow_hi_fuel grow_lo_fuel) simp_all

text \<open>A test is made only when both samples have a variance, and identical constants are no change.\<close>

lemma welch_untestable: "n_a < 2 \<or> n_b < 2 \<Longrightarrow> welch_t_test m mean_a var_a n_a mean_b var_b n_b alpha = None"
  by (simp add: welch_t_test_def)

end
