(* ===== verification/Compare.thy ===== *)
theory Compare
  imports Eval Stats
begin

text \<open>
  \<open>eval compare\<close> of \<^verbatim>\<open>src/eval.rs\<close>: the aggregates two runs persisted, read back from the score store and
  laid side by side, and the two gates over them. The main lemma composes it with the run and with the
  store: what is compared is what the runs reported.
\<close>

section \<open>The comparison\<close>

record compare_row =
  co_evaluator :: str
  co_a :: "f64 option"
  co_b :: "f64 option"
  co_delta :: "f64 option"
  co_n_a :: "u64 option"
  co_n_b :: "u64 option"
  co_signif :: "welch_result option"

definition is_regression :: "f64 \<Rightarrow> compare_row \<Rightarrow> bool" where
  "is_regression tolerance r = (case co_delta r of Some d \<Rightarrow> f_lt d (f_opposite tolerance) | None \<Rightarrow> False)"

definition proven_noise :: "compare_row \<Rightarrow> bool" where
  "proven_noise r = (case co_signif r of Some s \<Rightarrow> f_nonneg (we_ci_high s) | None \<Rightarrow> False)"

definition is_significant_regression :: "f64 \<Rightarrow> compare_row \<Rightarrow> bool" where
  "is_significant_regression tolerance r \<longleftrightarrow>
     is_regression tolerance r \<and> (case co_signif r of Some s \<Rightarrow> f_lt (we_ci_high s) f_zero | None \<Rightarrow> False)"

definition gates_in_significance_mode :: "f64 \<Rightarrow> compare_row \<Rightarrow> bool" where
  "gates_in_significance_mode tolerance r \<longleftrightarrow> is_regression tolerance r \<and> \<not> proven_noise r"

record compare_report =
  cr_run_a :: str
  cr_run_b :: str
  cr_rows :: "compare_row list"

definition has_regression :: "f64 \<Rightarrow> compare_report \<Rightarrow> bool" where
  "has_regression tolerance r = list_ex (is_regression tolerance) (cr_rows r)"

definition has_gating_significant_regression :: "f64 \<Rightarrow> compare_report \<Rightarrow> bool" where
  "has_gating_significant_regression tolerance r = list_ex (gates_in_significance_mode tolerance) (cr_rows r)"

record agg_entry =
  ae_mean :: f64
  ae_stats :: "agg_stats option"

definition add_entry_of :: "str \<Rightarrow> score \<Rightarrow> (str, agg_entry) omap \<Rightarrow> (str, agg_entry) omap" where
  "add_entry_of prefix s m =
     (if \<not> starts_with prefix (sc_id s) then m
      else case sc_num_value s of
             Some v \<Rightarrow> om_insert (sc_name s) \<lparr>ae_mean = v, ae_stats = sc_agg_stats s\<rparr> m
           | None \<Rightarrow> m)"

definition run_aggregates :: "score_json \<Rightarrow> score_store \<Rightarrow> str \<Rightarrow> io_error + (str, agg_entry) omap" where
  "run_aggregates j st run_id =
     (case by_target_key j (score_target_key (TargetRun run_id)) st of
        Inl e \<Rightarrow> Inl e
      | Inr scs \<Rightarrow> Inr (fold (add_entry_of (run_id @ '':agg:'')) scs om_empty))"

datatype compare_error = ReadFailed str | NoAggregates str

definition compare_row_of ::
  "libm \<Rightarrow> f64 \<Rightarrow> (str, agg_entry) omap \<Rightarrow> (str, agg_entry) omap \<Rightarrow> str \<Rightarrow> compare_row" where
  "compare_row_of lm alpha agg_a agg_b label =
     (let ea = om_get agg_a label; eb = om_get agg_b label;
          stats_a = Option.bind ea ae_stats; stats_b = Option.bind eb ae_stats
      in \<lparr>co_evaluator = label, co_a = map_option ae_mean ea, co_b = map_option ae_mean eb,
          co_delta = (case (ea, eb) of (Some a, Some b) \<Rightarrow> Some (f_minus (ae_mean b) (ae_mean a)) | _ \<Rightarrow> None),
          co_n_a = map_option ag_n stats_a, co_n_b = map_option ag_n stats_b,
          co_signif = (case (stats_a, stats_b) of
                         (Some a, Some b) \<Rightarrow> welch_t_test lm (ag_mean a) (ag_variance a) (ag_n a) (ag_mean b) (ag_variance b) (ag_n b) alpha
                       | _ \<Rightarrow> None)\<rparr>)"

definition both_names :: "(str, agg_entry) omap \<Rightarrow> (str, agg_entry) omap \<Rightarrow> str list" where
  "both_names agg_a agg_b = om_keys (fold (\<lambda>k. om_insert k ()) (om_keys agg_a @ om_keys agg_b) om_empty)"

definition compare_runs :: "libm \<Rightarrow> score_json \<Rightarrow> score_store \<Rightarrow> str \<Rightarrow> str \<Rightarrow> f64 \<Rightarrow> compare_error + compare_report" where
  "compare_runs lm j st run_a run_b alpha =
     (case run_aggregates j st run_a of
        Inl _ \<Rightarrow> Inl (ReadFailed run_a)
      | Inr agg_a \<Rightarrow>
          (case run_aggregates j st run_b of
             Inl _ \<Rightarrow> Inl (ReadFailed run_b)
           | Inr agg_b \<Rightarrow>
               if agg_a = [] then Inl (NoAggregates run_a)
               else if agg_b = [] then Inl (NoAggregates run_b)
               else Inr \<lparr>cr_run_a = run_a, cr_run_b = run_b,
                         cr_rows = map (compare_row_of lm alpha agg_a agg_b) (both_names agg_a agg_b)\<rparr>))"

record compare_opts =
  op_fail_on_regression :: bool
  op_tolerance :: f64
  op_significance :: bool
  op_alpha :: f64

text \<open>The report and whether the gate passes.\<close>

definition compare_verdict :: "compare_opts \<Rightarrow> compare_report \<Rightarrow> bool" where
  "compare_verdict opts report =
     (let regressed = (if op_significance opts then has_gating_significant_regression (op_tolerance opts) report
                       else has_regression (op_tolerance opts) report)
      in \<not> (op_fail_on_regression opts \<and> regressed))"

definition compare_report_body ::
  "libm \<Rightarrow> score_json \<Rightarrow> score_store \<Rightarrow> str \<Rightarrow> str \<Rightarrow> compare_opts \<Rightarrow> compare_error + (compare_report \<times> bool)" where
  "compare_report_body lm j st run_a run_b opts =
     (case compare_runs lm j st run_a run_b (op_alpha opts) of
        Inl e \<Rightarrow> Inl e
      | Inr report \<Rightarrow> Inr (report, compare_verdict opts report))"

section \<open>What a run persists\<close>

definition persisted :: "str \<Rightarrow> evaluator_aggregate \<Rightarrow> score \<Rightarrow> bool" where
  "persisted run_id a s \<longleftrightarrow>
     sc_id s = agg_id run_id (ea_name a) \<and> sc_target s = TargetRun run_id \<and> sc_name s = ea_name a \<and>
     sc_num_value s = Some (ea_mean a) \<and>
     (\<exists>st. sc_agg_stats s = Some st \<and> ag_n st = ea_scored a \<and> ag_mean st = ea_mean a)"

lemma item_target_attached: "has_span_or_trace i \<Longrightarrow> item_target i run_id \<noteq> TargetRun r"
  by (auto simp: item_target_def has_span_or_trace_def)

lemma item_scores_Cons:
  assumes "s \<in> set (item_scores label run_id ts k (p # ps))"
  shows "sc_id s = item_id run_id label k \<and> (\<forall>r. sc_target s \<noteq> TargetRun r) \<or> s \<in> set (item_scores label run_id ts (Suc k) ps)"
proof (cases p)
  case (Pair item outcome)
  show ?thesis
  proof (cases outcome)
    case None
    then show ?thesis using assms Pair by simp
  next
    case (Some o')
    then show ?thesis using assms Pair item_target_attached [of item run_id] by (cases "has_span_or_trace item") auto
  qed
qed

lemma item_scores_facts:
  "s \<in> set (item_scores label run_id ts k ps) \<Longrightarrow>
     (\<exists>i\<ge>k. sc_id s = item_id run_id label i) \<and> (\<forall>r. sc_target s \<noteq> TargetRun r)"
proof (induction ps arbitrary: k)
  case (Cons p ps)
  show ?case using item_scores_Cons [OF Cons.prems]
  proof (elim disjE conjE)
    assume "s \<in> set (item_scores label run_id ts (Suc k) ps)"
    then have "(\<exists>i\<ge>Suc k. sc_id s = item_id run_id label i) \<and> (\<forall>r. sc_target s \<noteq> TargetRun r)" by (rule Cons.IH)
    then show ?thesis by (meson Suc_leD)
  qed (intro conjI exI [of _ k], simp_all)
qed simp

lemma item_id_inj: "item_id r l i = item_id r l k \<longleftrightarrow> i = k"
  by (simp add: item_id_def dec_of_inj)

lemma item_scores_distinct: "distinct (map sc_id (item_scores label run_id ts k ps))"
proof (induction ps arbitrary: k)
  case (Cons p ps)
  have "item_id run_id label k \<notin> sc_id ` set (item_scores label run_id ts (Suc k) ps)"
  proof
    assume "item_id run_id label k \<in> sc_id ` set (item_scores label run_id ts (Suc k) ps)"
    then obtain s where s: "s \<in> set (item_scores label run_id ts (Suc k) ps)" "sc_id s = item_id run_id label k" by auto
    then obtain i where "Suc k \<le> i" "item_id run_id label k = item_id run_id label i" using item_scores_facts [OF s(1)] by auto
    then show False by (simp add: item_id_inj)
  qed
  then show ?case using Cons by (cases p) (auto split: option.splits)
qed simp

lemma finalize_facts:
  assumes "finalize_evaluator label outcomes dataset run_id threshold ts = (a, scs)"
  shows "\<exists>s. scs = item_scores label run_id ts 0 (zip dataset outcomes) @ [s] \<and> persisted run_id a s \<and> ea_name a = label"
  using assms by (auto simp: finalize_evaluator_def persisted_def Let_def)

lemma evaluator_name_plain: "CHR '':'' \<notin> set (evaluator_name e)" "evaluator_name e \<noteq> ''agg''"
  by (cases e; simp add: evaluator_name_def)+

lemma colon_split:
  assumes "CHR '':'' \<notin> set l" "CHR '':'' \<notin> set l'" "l @ CHR '':'' # x = l' @ CHR '':'' # y"
  shows "l = l' \<and> x = y"
proof -
  have "Some (l, x) = split_once (CHR '':'') (l' @ CHR '':'' # y)"
    unfolding assms(3) [symmetric] by (rule split_once_append [OF assms(1), symmetric])
  then show ?thesis by (simp only: split_once_append [OF assms(2)] option.inject prod.inject simp_thms)
qed

lemma ids_of_names:
  assumes "CHR '':'' \<notin> set l" "CHR '':'' \<notin> set l'"
  shows "item_id r l i = item_id r l' k \<longleftrightarrow> l = l' \<and> i = k" "agg_id r l = agg_id r l' \<longleftrightarrow> l = l'"
    "l' \<noteq> ''agg'' \<Longrightarrow> agg_id r l \<noteq> item_id r l' k"
proof -
  show "item_id r l i = item_id r l' k \<longleftrightarrow> l = l' \<and> i = k"
    using colon_split [OF assms, of "dec_of i" "dec_of k"] by (auto simp: item_id_def dec_of_inj)
  show "agg_id r l = agg_id r l' \<longleftrightarrow> l = l'" by (simp add: agg_id_def)
  show "agg_id r l \<noteq> item_id r l' k" if "l' \<noteq> ''agg''"
  proof
    assume "agg_id r l = item_id r l' k"
    then have "''agg'' @ CHR '':'' # l = l' @ CHR '':'' # dec_of k" by (simp add: agg_id_def item_id_def)
    then show False using colon_split [of "''agg''" l' l "dec_of k"] assms(2) that by simp
  qed
qed

lemma duplicate_name_distinct: "duplicate_name seen ns = None \<Longrightarrow> distinct ns \<and> set ns \<inter> seen = {}"
  by (induction seen ns rule: duplicate_name.induct) (auto split: if_splits)

text \<open>The scores of one evaluator of a run.\<close>

lemma run_evaluator_scores:
  "\<exists>s. snd (run_evaluator libs config dataset run_id ts ev) =
       item_scores (evaluator_name ev) run_id ts 0 (zip dataset (map (eval_score libs ev) dataset)) @ [s] \<and>
     persisted run_id (fst (run_evaluator libs config dataset run_id ts ev)) s \<and>
     ea_name (fst (run_evaluator libs config dataset run_id ts ev)) = evaluator_name ev"
  using finalize_facts [OF prod.collapse [symmetric]] unfolding run_evaluator_def by fastforce

lemma score_ids_of_evaluator:
  assumes "s \<in> set (snd (run_evaluator libs config dataset run_id ts ev))"
  shows "(\<exists>i. sc_id s = item_id run_id (evaluator_name ev) i) \<or> sc_id s = agg_id run_id (evaluator_name ev)"
  using run_evaluator_scores [of libs config dataset run_id ts ev] assms item_scores_facts by (fastforce simp: persisted_def)

lemma ids_apart:
  assumes "s \<in> set (snd (run_evaluator libs config dataset run_id ts e))"
    and "s' \<in> set (snd (run_evaluator libs config dataset run_id ts e'))" "evaluator_name e \<noteq> evaluator_name e'"
  shows "sc_id s \<noteq> sc_id s'"
  using score_ids_of_evaluator [OF assms(1)] score_ids_of_evaluator [OF assms(2)] assms(3)
    ids_of_names [OF evaluator_name_plain(1) [of e] evaluator_name_plain(1) [of e']]
    ids_of_names [OF evaluator_name_plain(1) [of e'] evaluator_name_plain(1) [of e]] evaluator_name_plain(2)
  by metis

lemma evaluator_ids_distinct: "distinct (map sc_id (snd (run_evaluator libs config dataset run_id ts e)))"
proof -
  obtain s where s: "snd (run_evaluator libs config dataset run_id ts e) =
       item_scores (evaluator_name e) run_id ts 0 (zip dataset (map (eval_score libs e) dataset)) @ [s]"
    "sc_id s = agg_id run_id (evaluator_name e)"
    using run_evaluator_scores [of libs config dataset run_id ts e] by (auto simp: persisted_def)
  have "agg_id run_id (evaluator_name e) \<notin> sc_id ` set (item_scores (evaluator_name e) run_id ts 0 ps)" for ps
    using item_scores_facts ids_of_names(3) [OF evaluator_name_plain(1) evaluator_name_plain(1) evaluator_name_plain(2)]
    by (metis (no_types, lifting) imageE)
  then show ?thesis using item_scores_distinct by (simp add: s)
qed

lemma distinct_map_append:
  "distinct (map f xs) \<Longrightarrow> distinct (map f ys) \<Longrightarrow> (\<And>x y. x \<in> set xs \<Longrightarrow> y \<in> set ys \<Longrightarrow> f x \<noteq> f y) \<Longrightarrow> distinct (map f (xs @ ys))"
  by (induction xs) auto

lemma run_ids_distinct:
  "distinct (map evaluator_name evs) \<Longrightarrow> distinct (map sc_id (concat (map (snd \<circ> run_evaluator libs config dataset run_id ts) evs)))"
proof (induction evs)
  case (Cons e evs)
  have apart: "sc_id s \<noteq> sc_id s'"
    if s: "s \<in> set (snd (run_evaluator libs config dataset run_id ts e))"
      "s' \<in> set (concat (map (snd \<circ> run_evaluator libs config dataset run_id ts) evs))" for s s'
  proof -
    obtain e' where e': "e' \<in> set evs" "s' \<in> set (snd (run_evaluator libs config dataset run_id ts e'))" using s(2) by auto
    then have "evaluator_name e \<noteq> evaluator_name e'" using Cons.prems by (auto simp: image_iff)
    then show ?thesis by (rule ids_apart [OF s(1) e'(2)])
  qed
  have "distinct (map sc_id (snd (run_evaluator libs config dataset run_id ts e) @
      concat (map (snd \<circ> run_evaluator libs config dataset run_id ts) evs)))"
    using Cons.prems by (intro distinct_map_append evaluator_ids_distinct Cons.IH apart) (simp only: list.simps distinct.simps)+
  then show ?case by (simp only: list.map concat.simps comp_def)
qed simp

lemma run_eval_scores:
  assumes "run_eval libs config dataset run_id ts = Inr (report, scs)"
  obtains aggs where "list_all2 (persisted run_id) (rr_aggregates report) aggs" "distinct (map ea_name (rr_aggregates report))"
    "distinct (map sc_id scs)" "\<forall>s\<in>set scs. \<exists>t. sc_id s = run_id @ CHR '':'' # t"
    "{s \<in> set scs. \<exists>r. sc_target s = TargetRun r} = set aggs" "length (rr_aggregates report) = length (ec_evaluators config)"
proof -
  let ?f = "run_evaluator libs config dataset run_id ts"
  obtain evs where evs: "compile_all libs (ec_evaluators config) = Inr evs" "duplicate_name {} (map evaluator_name evs) = None"
    and r: "rr_aggregates report = map (fst \<circ> ?f) evs" and scs: "scs = concat (map (snd \<circ> ?f) evs)"
    using assms by (auto simp: run_eval_def Let_def split: sum.splits option.splits)
  have dist: "distinct (map evaluator_name evs)" using duplicate_name_distinct [OF evs(2)] by simp
  have len: "length evs = length sps" if "compile_all libs sps = Inr evs" for sps evs
    using that by (induction sps arbitrary: evs) (auto split: sum.splits)
  define agg where "agg e = (SOME s. snd (?f e) = item_scores (evaluator_name e) run_id ts 0 (zip dataset (map (eval_score libs e) dataset)) @ [s] \<and>
     persisted run_id (fst (?f e)) s)" for e
  have agg: "snd (?f e) = item_scores (evaluator_name e) run_id ts 0 (zip dataset (map (eval_score libs e) dataset)) @ [agg e] \<and>
     persisted run_id (fst (?f e)) (agg e)" for e
    unfolding agg_def by (rule someI_ex) (use run_evaluator_scores [of libs config dataset run_id ts e] in blast)
  have "list_all2 (persisted run_id) (rr_aggregates report) (map agg evs)"
    unfolding r by (simp add: list_all2_conv_all_nth agg)
  moreover have "map ea_name (rr_aggregates report) = map evaluator_name evs"
    unfolding r using run_evaluator_scores [of libs config dataset run_id ts] by auto
  then have "distinct (map ea_name (rr_aggregates report))" using dist by (simp only:)
  moreover have "distinct (map sc_id scs)" unfolding scs by (rule run_ids_distinct [OF dist])
  moreover have "\<forall>s\<in>set scs. \<exists>t. sc_id s = run_id @ CHR '':'' # t"
    using score_ids_of_evaluator unfolding scs by (fastforce simp: item_id_def agg_id_def)
  moreover have "{s \<in> set scs. \<exists>r. sc_target s = TargetRun r} = set (map agg evs)"
  proof -
    have "{s \<in> set (snd (?f e)). \<exists>r. sc_target s = TargetRun r} = {agg e}" for e
      using agg [of e] item_scores_facts by (fastforce simp: persisted_def)
    then show ?thesis unfolding scs by auto
  qed
  moreover have "length (rr_aggregates report) = length (ec_evaluators config)" using len [OF evs(1)] by (simp add: r)
  ultimately show thesis by (intro that [of "map agg evs"])
qed

section \<open>Reading a run back\<close>

text \<open>What a run reported of an evaluator; and that the aggregates read back agree with it.\<close>

definition reported :: "run_report \<Rightarrow> str \<Rightarrow> evaluator_aggregate option" where
  "reported report label = find (\<lambda>a. ea_name a = label) (rr_aggregates report)"

definition agrees :: "(str, agg_entry) omap \<Rightarrow> run_report \<Rightarrow> bool" where
  "agrees g report \<longleftrightarrow> om_ok g \<and>
     (\<forall>label. case reported report label of
        None \<Rightarrow> om_get g label = None
      | Some a \<Rightarrow> \<exists>st. om_get g label = Some \<lparr>ae_mean = ea_mean a, ae_stats = Some st\<rparr> \<and> ag_n st = ea_scored a \<and> ag_mean st = ea_mean a)"

lemma find_key_None: "find (\<lambda>x. f x = k) zs = None \<longleftrightarrow> k \<notin> f ` set zs"
  by (induction zs) auto

lemma find_key_Some: "distinct (map f zs) \<Longrightarrow> find (\<lambda>x. f x = k) zs = Some x \<longleftrightarrow> x \<in> set zs \<and> f x = k"
  by (induction zs) auto

lemma put_all_distinct:
  "distinct (map sc_id scs) \<Longrightarrow> put_all scs m i = (case find (\<lambda>s. sc_id s = i) scs of Some s \<Rightarrow> Some s | None \<Rightarrow> m i)"
proof (induction scs arbitrary: m)
  case (Cons s scs)
  have "find (\<lambda>x. sc_id x = sc_id s) scs = None" using Cons.prems by (simp add: find_key_None)
  moreover have "put_all (s # scs) m = put_all scs (m(sc_id s \<mapsto> s))" by (simp add: put_all_def)
  moreover have "put_all scs (m(sc_id s \<mapsto> s)) i = (case find (\<lambda>s. sc_id s = i) scs of Some s \<Rightarrow> Some s | None \<Rightarrow> (m(sc_id s \<mapsto> s)) i)"
    by (rule Cons.IH) (use Cons.prems in simp)
  ultimately show ?case by (cases "sc_id s = i") (auto simp: option.case_eq_if)
qed (simp add: put_all_def)

lemma ran_put_all:
  assumes "distinct (map sc_id scs)"
  shows "s \<in> ran (put_all scs m) \<longleftrightarrow> s \<in> set scs \<or> (\<exists>i. m i = Some s \<and> i \<notin> sc_id ` set scs)"
proof
  assume "s \<in> ran (put_all scs m)"
  then obtain i where i: "put_all scs m i = Some s" by (auto simp: ran_def)
  show "s \<in> set scs \<or> (\<exists>i. m i = Some s \<and> i \<notin> sc_id ` set scs)"
  proof (cases "find (\<lambda>s. sc_id s = i) scs")
    case None
    then have "m i = Some s" using i by (simp add: put_all_distinct [OF assms])
    then show ?thesis using None by (auto simp: find_key_None)
  next
    case (Some x)
    then have "x = s" using i by (simp add: put_all_distinct [OF assms])
    then show ?thesis using Some by (simp add: find_key_Some [OF assms])
  qed
next
  assume "s \<in> set scs \<or> (\<exists>i. m i = Some s \<and> i \<notin> sc_id ` set scs)"
  then show "s \<in> ran (put_all scs m)"
  proof
    assume s: "s \<in> set scs"
    then have "find (\<lambda>x. sc_id x = sc_id s) scs = Some s" by (simp add: find_key_Some [OF assms])
    then have "put_all scs m (sc_id s) = Some s" by (simp add: put_all_distinct [OF assms])
    then show ?thesis by (auto simp: ran_def)
  next
    assume "\<exists>i. m i = Some s \<and> i \<notin> sc_id ` set scs"
    then obtain i where i: "m i = Some s" "i \<notin> sc_id ` set scs" by blast
    then have "find (\<lambda>x. sc_id x = i) scs = None" by (simp add: find_key_None)
    then have "put_all scs m i = Some s" using i by (simp add: put_all_distinct [OF assms])
    then show ?thesis by (auto simp: ran_def)
  qed
qed

lemma add_entries_get:
  assumes "\<forall>s\<in>set scs. starts_with p (sc_id s) \<and> sc_num_value s \<noteq> None" "distinct (map sc_name scs)"
  shows "om_get (fold (add_entry_of p) scs g) label =
    (case find (\<lambda>s. sc_name s = label) scs of
       Some s \<Rightarrow> Some \<lparr>ae_mean = the (sc_num_value s), ae_stats = sc_agg_stats s\<rparr>
     | None \<Rightarrow> om_get g label)"
  using assms
proof (induction scs arbitrary: g)
  case (Cons s scs)
  obtain v where v: "sc_num_value s = Some v" using Cons.prems by auto
  have s: "add_entry_of p s g = om_insert (sc_name s) \<lparr>ae_mean = v, ae_stats = sc_agg_stats s\<rparr> g"
    using Cons.prems v by (simp add: add_entry_of_def)
  have "find (\<lambda>x. sc_name x = sc_name s) scs = None" using Cons.prems by (simp add: find_key_None)
  then show ?case using Cons v by (auto simp: s map_simps split: option.split)
qed simp

lemma add_entries_ok: "om_ok g \<Longrightarrow> om_ok (fold (add_entry_of p) scs g)"
  by (induction scs arbitrary: g) (simp_all add: add_entry_of_def split: option.split)

lemma persisted_find:
  assumes "list_all2 (persisted run_id) as ss"
  shows "rel_option (persisted run_id) (find (\<lambda>a. ea_name a = label) as) (find (\<lambda>s. sc_name s = label) ss)"
  using assms by (induction rule: list_all2_induct) (auto simp: persisted_def)

lemma find_set_eq:
  assumes "set xs = set ys" "distinct (map f xs)" "distinct (map f ys)"
  shows "find (\<lambda>x. f x = k) xs = find (\<lambda>x. f x = k) ys"
proof (cases "find (\<lambda>x. f x = k) xs")
  case None
  then have "find (\<lambda>x. f x = k) ys = None" using assms(1) by (simp add: find_key_None)
  then show ?thesis using None by simp
next
  case (Some x)
  then have "find (\<lambda>x. f x = k) ys = Some x" using assms by (simp add: find_key_Some)
  then show ?thesis using Some by simp
qed

lemma run_aggregates_agree:
  assumes st: "stores j st m" and aggs: "list_all2 (persisted run_id) (rr_aggregates report) aggs"
    and d: "distinct (map ea_name (rr_aggregates report))" and ran: "{s \<in> ran m. sc_target s = TargetRun run_id} = set aggs"
  shows "\<exists>g. run_aggregates j st run_id = Inr g \<and> agrees g report"
proof -
  obtain l where l: "by_target_key j (score_target_key (TargetRun run_id)) st = Inr l" "distinct (map sc_id l)"
    and set_l: "set l = {s \<in> ran m. score_target_key (sc_target s) = score_target_key (TargetRun run_id)}"
    using stores_by_target [OF st] by blast
  have "score_target_key (sc_target s) = score_target_key (TargetRun run_id) \<longleftrightarrow> sc_target s = TargetRun run_id" for s :: score
    using score_target_key_inj by metis
  then have set_l: "set l = set aggs" using set_l ran by simp
  have p: "\<exists>a. persisted run_id a s" if "s \<in> set aggs" for s
    using that aggs by (auto simp: list_all2_conv_all_nth in_set_conv_nth)
  have names: "map sc_name aggs = map ea_name (rr_aggregates report)"
    using aggs by (induction rule: list_all2_induct) (auto simp: persisted_def)
  have ids: "sc_id s = agg_id run_id (sc_name s)" if "s \<in> set l" for s
    using p [of s] that set_l by (auto simp: persisted_def)
  have "inj_on sc_name (set l)" using l(2) ids by (auto simp: distinct_map inj_on_def)
  then have dl: "distinct (map sc_name l)" using l(2) by (simp add: distinct_map)
  let ?g = "fold (add_entry_of (run_id @ '':agg:'')) l om_empty"
  have sw: "\<forall>s\<in>set l. starts_with (run_id @ '':agg:'') (sc_id s) \<and> sc_num_value s \<noteq> None"
  proof
    fix s assume s: "s \<in> set l"
    then obtain a where "persisted run_id a s" using p set_l by auto
    then show "starts_with (run_id @ '':agg:'') (sc_id s) \<and> sc_num_value s \<noteq> None"
      using starts_with_append [of "run_id @ '':agg:''" "ea_name a"] by (auto simp: persisted_def agg_id_def)
  qed
  have get: "om_get ?g label = (case find (\<lambda>s. sc_name s = label) aggs of
       Some s \<Rightarrow> Some \<lparr>ae_mean = the (sc_num_value s), ae_stats = sc_agg_stats s\<rparr> | None \<Rightarrow> None)" for label
    using add_entries_get [OF sw dl] find_set_eq [OF set_l dl] d by (simp add: names map_simps split: option.split)
  have "agrees ?g report"
    unfolding agrees_def
  proof (intro conjI allI)
    show "om_ok ?g" by (rule add_entries_ok) simp
    fix label
    show "case reported report label of
        None \<Rightarrow> om_get ?g label = None
      | Some a \<Rightarrow> \<exists>st. om_get ?g label = Some \<lparr>ae_mean = ea_mean a, ae_stats = Some st\<rparr> \<and> ag_n st = ea_scored a \<and> ag_mean st = ea_mean a"
      using persisted_find [OF aggs, of label] unfolding get reported_def by (auto simp: persisted_def split: option.splits elim: option.rel_cases)
  qed
  then show ?thesis using l(1) by (simp add: run_aggregates_def)
qed

lemma agrees_cases:
  assumes "agrees g report"
  shows "map_option ae_mean (om_get g label) = map_option ea_mean (reported report label)"
    and "map_option ag_n (Option.bind (om_get g label) ae_stats) = map_option ea_scored (reported report label)"
    and "om_get g label = None \<longleftrightarrow> reported report label = None"
proof -
  have "case reported report label of
        None \<Rightarrow> om_get g label = None
      | Some a \<Rightarrow> \<exists>st. om_get g label = Some \<lparr>ae_mean = ea_mean a, ae_stats = Some st\<rparr> \<and> ag_n st = ea_scored a \<and> ag_mean st = ea_mean a"
    using assms by (simp add: agrees_def)
  then show "map_option ae_mean (om_get g label) = map_option ea_mean (reported report label)"
    "map_option ag_n (Option.bind (om_get g label) ae_stats) = map_option ea_scored (reported report label)"
    "om_get g label = None \<longleftrightarrow> reported report label = None"
    by (auto split: option.splits)
qed

lemma both_names_facts:
  assumes "om_ok a" "om_ok b"
  shows "sorted (both_names a b) \<and> distinct (both_names a b) \<and> set (both_names a b) = {k. om_get a k \<noteq> None \<or> om_get b k \<noteq> None}"
proof -
  have ok: "om_ok (fold (\<lambda>k. om_insert k ()) ks om_empty)" for ks :: "str list" by (rule om_ok_fold_insert) simp
  have "set (om_keys (fold (\<lambda>k. om_insert k ()) ks m)) = set ks \<union> set (om_keys m)" for ks :: "str list" and m
    by (induction ks arbitrary: m) (auto simp: map_simps)
  then have "set (both_names a b) = {k. om_get a k \<noteq> None \<or> om_get b k \<noteq> None}"
    unfolding both_names_def by (auto simp: om_keys_get map_simps)
  moreover have "sorted (both_names a b)" "distinct (both_names a b)"
    using ok [of "om_keys a @ om_keys b"] unfolding both_names_def om_ok_def by (simp_all only: strict_sorted_iff)
  ultimately show ?thesis by blast
qed

text \<open>A row of the comparison holds what the two reports say of its evaluator.\<close>

definition row_agrees :: "run_report \<Rightarrow> run_report \<Rightarrow> compare_row \<Rightarrow> bool" where
  "row_agrees rep_a rep_b row \<longleftrightarrow>
     (let x = reported rep_a (co_evaluator row); y = reported rep_b (co_evaluator row)
      in co_a row = map_option ea_mean x \<and> co_b row = map_option ea_mean y \<and>
         co_n_a row = map_option ea_scored x \<and> co_n_b row = map_option ea_scored y \<and>
         co_delta row = (case (x, y) of (Some p, Some q) \<Rightarrow> Some (f_minus (ea_mean q) (ea_mean p)) | _ \<Rightarrow> None))"

lemma co_evaluator_row [simp]: "co_evaluator (compare_row_of lm alpha ga gb label) = label"
  by (simp add: compare_row_of_def Let_def)

lemma compare_row_agrees: "agrees ga ra \<Longrightarrow> agrees gb rb \<Longrightarrow> row_agrees ra rb (compare_row_of lm alpha ga gb label)"
  using agrees_cases [of ga ra label] agrees_cases [of gb rb label]
  by (auto simp: row_agrees_def compare_row_of_def Let_def split: option.splits)

text \<open>The scores that target a run after a batch that another run's ids do not touch.\<close>

lemma run_scores_after:
  assumes d: "distinct (map sc_id scs)" and st: "stores j st m"
    and apart: "\<And>s. s \<in> ran m \<Longrightarrow> sc_target s = TargetRun r \<Longrightarrow> sc_id s \<notin> sc_id ` set scs"
  shows "{s \<in> ran (put_all scs m). sc_target s = TargetRun r} = {s \<in> ran m. sc_target s = TargetRun r} \<union> {s \<in> set scs. sc_target s = TargetRun r}"
proof -
  have "(\<exists>i. m i = Some s \<and> i \<notin> sc_id ` set scs) \<longleftrightarrow> s \<in> ran m" if "sc_target s = TargetRun r" for s
  proof
    assume "s \<in> ran m"
    then obtain i where i: "m i = Some s" by (auto simp: ran_def)
    then have "sc_id s = i" using stores_Some [OF st] by blast
    then show "\<exists>i. m i = Some s \<and> i \<notin> sc_id ` set scs" using i apart [OF \<open>s \<in> ran m\<close> that] by blast
  qed (auto simp: ran_def)
  then show ?thesis unfolding ran_put_all [OF d] by blast
qed

lemma run_scores_fresh:
  assumes "distinct (map sc_id scs)" "stores j st m" "{s \<in> ran m. sc_target s = TargetRun r} = {}"
  shows "{s \<in> ran (put_all scs m). sc_target s = TargetRun r} = {s \<in> set scs. sc_target s = TargetRun r}"
  using run_scores_after [OF assms(1,2), of r] assms(3) by blast

lemma persisted_targets: "list_all2 (persisted r) as ss \<Longrightarrow> s \<in> set ss \<Longrightarrow> sc_target s = TargetRun r"
  by (auto simp: list_all2_conv_all_nth in_set_conv_nth persisted_def)

lemma only_its_run:
  assumes "{s \<in> set scs. \<exists>r. sc_target s = TargetRun r} = set ss" "list_all2 (persisted run_id) as ss"
  shows "{s \<in> set scs. sc_target s = TargetRun r} = (if r = run_id then set ss else {})"
proof -
  have "{s \<in> set scs. sc_target s = TargetRun r} = {s \<in> set ss. sc_target s = TargetRun r}"
    unfolding assms(1) [symmetric] by blast
  then show ?thesis using persisted_targets [OF assms(2)] by auto
qed

lemma put_batch_ok:
  assumes "stores j st m" "list_all (reads_back j) scs" "put_batch j scs st = (Inr (), st')"
  shows "stores j st' (put_all scs m)"
  using put_batch_stores [OF assms(1,2)] assms(3) by (simp add: put_spec_def split: if_splits)

lemma both_runs_read_back:
  assumes run_a: "run_eval libs ca da ra ta = Inr (rep_a, sa)" and run_b: "run_eval libs cb db rb tb = Inr (rep_b, sb)"
    and ids: "ra \<noteq> rb" "length ra = length rb"
    and st: "stores j st m" and fresh: "\<forall>s\<in>ran m. sc_target s \<noteq> TargetRun ra \<and> sc_target s \<noteq> TargetRun rb"
    and rb: "list_all (reads_back j) (sa @ sb)"
    and put: "put_batch j sa st = (Inr (), st1)" "put_batch j sb st1 = (Inr (), st2)"
  obtains g h where "run_aggregates j st2 ra = Inr g" "agrees g rep_a" "run_aggregates j st2 rb = Inr h" "agrees h rep_b"
    "length (rr_aggregates rep_a) = length (ec_evaluators ca)" "length (rr_aggregates rep_b) = length (ec_evaluators cb)"
proof -
  obtain ga where A: "list_all2 (persisted ra) (rr_aggregates rep_a) ga" "distinct (map ea_name (rr_aggregates rep_a))"
    "distinct (map sc_id sa)" "\<forall>s\<in>set sa. \<exists>t. sc_id s = ra @ CHR '':'' # t"
    "{s \<in> set sa. \<exists>r. sc_target s = TargetRun r} = set ga" "length (rr_aggregates rep_a) = length (ec_evaluators ca)"
    by (rule run_eval_scores [OF run_a])
  obtain gb where B: "list_all2 (persisted rb) (rr_aggregates rep_b) gb" "distinct (map ea_name (rr_aggregates rep_b))"
    "distinct (map sc_id sb)" "\<forall>s\<in>set sb. \<exists>t. sc_id s = rb @ CHR '':'' # t"
    "{s \<in> set sb. \<exists>r. sc_target s = TargetRun r} = set gb" "length (rr_aggregates rep_b) = length (ec_evaluators cb)"
    by (rule run_eval_scores [OF run_b])
  have st1: "stores j st1 (put_all sa m)" using put_batch_ok [OF st _ put(1)] rb by simp
  have st2: "stores j st2 (put_all sb (put_all sa m))" using put_batch_ok [OF st1 _ put(2)] rb by simp
  have apart: "sc_id s \<noteq> sc_id t" if "s \<in> set sa" "t \<in> set sb" for s t
    using A(4) B(4) that ids by (metis append_eq_append_conv)
  have no_a: "{s \<in> ran m. sc_target s = TargetRun ra} = {}" and no_b: "{s \<in> ran m. sc_target s = TargetRun rb} = {}" using fresh by auto
  have run_targets: "{s \<in> set sa. sc_target s = TargetRun ra} = set ga" "{s \<in> set sb. sc_target s = TargetRun rb} = set gb"
    "{s \<in> set sa. sc_target s = TargetRun rb} = {}" "{s \<in> set sb. sc_target s = TargetRun ra} = {}"
    using only_its_run [OF A(5) A(1)] only_its_run [OF B(5) B(1)] ids(1) by simp_all
  have a1: "{s \<in> ran (put_all sa m). sc_target s = TargetRun ra} = set ga"
    and b1: "{s \<in> ran (put_all sa m). sc_target s = TargetRun rb} = {}"
    using run_scores_fresh [OF A(3) st no_a] run_scores_fresh [OF A(3) st no_b] run_targets by simp_all
  have a2: "{s \<in> ran (put_all sb (put_all sa m)). sc_target s = TargetRun ra} = set ga"
  proof -
    have "sc_id s \<notin> sc_id ` set sb" if "s \<in> ran (put_all sa m)" "sc_target s = TargetRun ra" for s
    proof -
      have "s \<in> set sa" using a1 that A(5) by blast
      then show ?thesis using apart by auto
    qed
    from run_scores_after [where r = ra, OF B(3) st1 this] show ?thesis unfolding a1 run_targets(4) by simp
  qed
  have b2: "{s \<in> ran (put_all sb (put_all sa m)). sc_target s = TargetRun rb} = set gb"
    using run_scores_fresh [OF B(3) st1 b1] run_targets by simp
  obtain g where g: "run_aggregates j st2 ra = Inr g" "agrees g rep_a" using run_aggregates_agree [OF st2 A(1,2) a2] by blast
  obtain h where h: "run_aggregates j st2 rb = Inr h" "agrees h rep_b" using run_aggregates_agree [OF st2 B(1,2) b2] by blast
  from that [OF g h A(6) B(6)] show ?thesis .
qed

text \<open>
  C23. Comparing two runs sees what the runs reported: when two runs have been evaluated and their scores put
  into a store that knew neither, \<open>eval compare\<close> has exactly one row for each evaluator of either run,
  in order, and the row holds the mean and the number of scored items each report gave for it, absent
  where the run did not have it, and the difference of the means where both did. Assumed are run ids of one
  length, as the UUIDs of the code are, and that \<open>serde_json\<close> reads back each score.
\<close>
theorem compare_sees_what_the_runs_reported:
  assumes run_a: "run_eval libs ca da ra ta = Inr (rep_a, sa)" and run_b: "run_eval libs cb db rb tb = Inr (rep_b, sb)"
    and ids: "ra \<noteq> rb" "length ra = length rb" and evs: "ec_evaluators ca \<noteq> []" "ec_evaluators cb \<noteq> []"
    and st: "stores j st m" and fresh: "\<forall>s\<in>ran m. sc_target s \<noteq> TargetRun ra \<and> sc_target s \<noteq> TargetRun rb"
    and rb: "list_all (reads_back j) (sa @ sb)"
    and put: "put_batch j sa st = (Inr (), st1)" "put_batch j sb st1 = (Inr (), st2)"
  shows "\<exists>report. compare_runs lm j st2 ra rb alpha = Inr report \<and> sorted (map co_evaluator (cr_rows report)) \<and>
    distinct (map co_evaluator (cr_rows report)) \<and>
    set (map co_evaluator (cr_rows report)) = ea_name ` (set (rr_aggregates rep_a) \<union> set (rr_aggregates rep_b)) \<and>
    list_all (row_agrees rep_a rep_b) (cr_rows report)"
proof -
  obtain g h where g: "run_aggregates j st2 ra = Inr g" "agrees g rep_a" and h: "run_aggregates j st2 rb = Inr h" "agrees h rep_b"
    and len: "length (rr_aggregates rep_a) = length (ec_evaluators ca)" "length (rr_aggregates rep_b) = length (ec_evaluators cb)"
    by (rule both_runs_read_back [OF run_a run_b ids st fresh rb put])
  have dom: "om_get g k = None \<longleftrightarrow> k \<notin> ea_name ` set (rr_aggregates rep_a)" "om_get h k = None \<longleftrightarrow> k \<notin> ea_name ` set (rr_aggregates rep_b)" for k
    using agrees_cases(3) [OF g(2)] agrees_cases(3) [OF h(2)] by (simp_all add: reported_def find_key_None)
  have "g \<noteq> []" "h \<noteq> []"
    using dom len evs by (metis image_is_empty insert_not_empty length_0_conv om_get_empty om_empty_def set_empty equals0I)+
  define report where "report = \<lparr>cr_run_a = ra, cr_run_b = rb, cr_rows = map (compare_row_of lm alpha g h) (both_names g h)\<rparr>"
  have "compare_runs lm j st2 ra rb alpha = Inr report"
    using \<open>g \<noteq> []\<close> \<open>h \<noteq> []\<close> by (simp add: compare_runs_def g(1) h(1) report_def)
  moreover have names: "map co_evaluator (cr_rows report) = both_names g h" by (simp add: report_def map_idI)
  moreover have "om_ok g" "om_ok h" using g(2) h(2) by (simp_all add: agrees_def)
  then have "sorted (both_names g h)" "distinct (both_names g h)"
    "set (both_names g h) = ea_name ` (set (rr_aggregates rep_a) \<union> set (rr_aggregates rep_b))"
    using both_names_facts [of g h] dom by auto
  moreover have "list_all (row_agrees rep_a rep_b) (cr_rows report)"
    using compare_row_agrees [OF g(2) h(2)] by (simp add: list_all_iff report_def)
  ultimately show ?thesis by (intro exI [of _ report]) (simp only: simp_thms)
qed

definition demo_item :: dataset_item where
  "demo_item = \<lparr>di_id = None, di_input = None, di_output = ''yes'', di_expected_output = None, di_span_id = None,
     di_trace_id = None, di_context = None, di_metadata = None\<rparr>"

definition demo_libs :: eval_libs where
  "demo_libs = \<lparr>el_regex = (\<lambda>_. None), el_parse = (\<lambda>_. None), el_schema = (\<lambda>_. None)\<rparr>"

definition demo_config :: "evaluator_spec \<Rightarrow> eval_config" where
  "demo_config sp = \<lparr>ec_name = None, ec_evaluators = [sp], ec_thresholds = om_empty\<rparr>"

definition demo_libm :: libm where
  "demo_libm = \<lparr>lm_ln = id, lm_exp = id, lm_sin = id\<rparr>"

text \<open>The one score of the run of one evaluator over the item, and a codec for the scores of two runs.\<close>

definition demo_score :: "evaluator_spec \<Rightarrow> str \<Rightarrow> score" where
  "demo_score sp run_id = (case run_eval demo_libs (demo_config sp) [demo_item] run_id 0 of Inr (_, [s]) \<Rightarrow> s)"

definition pair_json :: "score \<Rightarrow> score \<Rightarrow> score_json" where
  "pair_json a b = \<lparr>js = (\<lambda>s. Some (if sc_target s = TargetRun ''a'' then ''A'' else ''B'')), jp = (\<lambda>t. Some (if t = ''A'' then a else b))\<rparr>"

lemma demo_eval_run:
  assumes "compile demo_libs sp = Inr ev"
  shows "\<exists>report. run_eval demo_libs (demo_config sp) [demo_item] run_id 0 = Inr (report, [demo_score sp run_id]) \<and>
    sc_target (demo_score sp run_id) = TargetRun run_id \<and> sc_id (demo_score sp run_id) = agg_id run_id (evaluator_name ev) \<and>
    rr_aggregates report = [fst (run_evaluator demo_libs (demo_config sp) [demo_item] run_id 0 ev)]"
proof -
  let ?f = "run_evaluator demo_libs (demo_config sp) [demo_item] run_id 0 ev"
  obtain s where s: "snd ?f = item_scores (evaluator_name ev) run_id 0 0 (zip [demo_item] (map (eval_score demo_libs ev) [demo_item])) @ [s]"
    "persisted run_id (fst ?f) s" "ea_name (fst ?f) = evaluator_name ev"
    using run_evaluator_scores by blast
  have "snd ?f = [s]" using s(1) by (simp add: demo_item_def has_span_or_trace_def given_def split: option.split)
  then show ?thesis using assms s(2,3)
    by (simp add: run_eval_def demo_config_def demo_score_def Let_def persisted_def)
qed

theorem compare_sees_what_the_runs_reported_witness:
  "let j = pair_json (demo_score SpecNonEmpty ''a'') (demo_score SpecNonEmpty ''b'');
       st1 = snd (put_batch j [demo_score SpecNonEmpty ''a''] scores_open);
       st2 = snd (put_batch j [demo_score SpecNonEmpty ''b''] st1)
   in \<exists>report. compare_runs demo_libm j st2 ''a'' ''b'' f_half = Inr report \<and> set (map co_evaluator (cr_rows report)) = {''non_empty''}"
proof -
  have c: "compile demo_libs SpecNonEmpty = Inr NonEmpty" by (simp add: compile_def)
  obtain ra where ra: "run_eval demo_libs (demo_config SpecNonEmpty) [demo_item] ''a'' 0 = Inr (ra, [demo_score SpecNonEmpty ''a''])"
    "sc_target (demo_score SpecNonEmpty ''a'') = TargetRun ''a''"
    "rr_aggregates ra = [fst (run_evaluator demo_libs (demo_config SpecNonEmpty) [demo_item] ''a'' 0 NonEmpty)]"
    using demo_eval_run [OF c] by blast
  obtain rb where rb: "run_eval demo_libs (demo_config SpecNonEmpty) [demo_item] ''b'' 0 = Inr (rb, [demo_score SpecNonEmpty ''b''])"
    "sc_target (demo_score SpecNonEmpty ''b'') = TargetRun ''b''"
    "rr_aggregates rb = [fst (run_evaluator demo_libs (demo_config SpecNonEmpty) [demo_item] ''b'' 0 NonEmpty)]"
    using demo_eval_run [OF c] by blast
  have n: "ea_name (fst (run_evaluator demo_libs (demo_config SpecNonEmpty) [demo_item] r 0 NonEmpty)) = ''non_empty''" for r
    using run_evaluator_scores [of demo_libs "demo_config SpecNonEmpty" "[demo_item]" r 0 NonEmpty] by (auto simp: evaluator_name_def)
  define j where "j = pair_json (demo_score SpecNonEmpty ''a'') (demo_score SpecNonEmpty ''b'')"
  have rback: "list_all (reads_back j) ([demo_score SpecNonEmpty ''a''] @ [demo_score SpecNonEmpty ''b''])"
    using ra(2) rb(2) by (simp add: j_def reads_back_def pair_json_def)
  have js: "js j s \<noteq> None" for s by (simp add: j_def pair_json_def)
  define st1 where "st1 = snd (put_batch j [demo_score SpecNonEmpty ''a''] scores_open)"
  define st2 where "st2 = snd (put_batch j [demo_score SpecNonEmpty ''b''] st1)"
  have p1: "put_batch j [demo_score SpecNonEmpty ''a''] scores_open = (Inr (), st1)"
    using put_batch_stores(2) [OF stores_open, of j "[demo_score SpecNonEmpty ''a'']"] rback js by (simp add: st1_def prod_eq_iff)
  have p2: "put_batch j [demo_score SpecNonEmpty ''b''] st1 = (Inr (), st2)"
    using put_batch_stores(2) [OF put_batch_ok [OF stores_open _ p1], of "[demo_score SpecNonEmpty ''b'']"] rback js
    by (simp add: st2_def prod_eq_iff)
  have "''a'' \<noteq> ''b''" "length ''a'' = length ''b''" "ec_evaluators (demo_config SpecNonEmpty) \<noteq> []"
    "\<forall>s\<in>ran (Map.empty :: score_map). sc_target s \<noteq> TargetRun ''a'' \<and> sc_target s \<noteq> TargetRun ''b''"
    by (simp_all add: demo_config_def)
  from compare_sees_what_the_runs_reported [OF ra(1) rb(1) this(1,2,3,3) stores_open this(4) rback p1 p2, of demo_libm f_half]
  show ?thesis unfolding j_def [symmetric] st1_def [symmetric] st2_def [symmetric] Let_def by (auto simp: ra(3) rb(3) n)
qed

section \<open>An evaluator that scored nothing\<close>

lemma agrees_reported:
  assumes "agrees g report" "reported report label = Some a"
  shows "\<exists>st. om_get g label = Some \<lparr>ae_mean = ea_mean a, ae_stats = Some st\<rparr> \<and> ag_n st = ea_scored a"
proof -
  have "case reported report label of
        None \<Rightarrow> om_get g label = None
      | Some a \<Rightarrow> \<exists>st. om_get g label = Some \<lparr>ae_mean = ea_mean a, ae_stats = Some st\<rparr> \<and> ag_n st = ea_scored a \<and> ag_mean st = ea_mean a"
    using assms(1) by (simp add: agrees_def)
  then show ?thesis using assms(2) by auto
qed

lemma unscored_aggregate:
  assumes "finalize_evaluator label outcomes dataset run_id threshold ts = (a, scs)" "ea_scored a = 0"
  shows "ea_threshold_met a \<and> ea_mean a = f_zero"
  using assms by (auto simp: finalize_evaluator_def Let_def f_mean_def)

lemma unscored_of_run:
  assumes "run_eval libs config dataset run_id ts = Inr (report, scs)" "reported report label = Some a" "ea_scored a = 0"
  shows "ea_threshold_met a \<and> ea_mean a = f_zero"
proof -
  have "a \<in> set (rr_aggregates report)" using assms(2) by (auto simp: reported_def find_Some_iff)
  then obtain ev where "a = fst (run_evaluator libs config dataset run_id ts ev)"
    using assms(1) by (auto simp: run_eval_def Let_def split: sum.splits option.splits)
  then show ?thesis using unscored_aggregate [OF prod.collapse [symmetric]] assms(3) unfolding run_evaluator_def by blast
qed

text \<open>
  C40. The two gates disagree on an evaluator that scored nothing: its own run passes, because a mean of 0.0 over
  no items is no regression, but that 0.0 is persisted, and comparing the run with one where the evaluator
  had a positive mean fails the comparison, with the significance test as well as without it.
\<close>
theorem skipped_evaluator_fails_the_comparison:
  assumes run: "run_eval libs config dataset rb ts = Inr (rep_b, scs)"
    and ga: "run_aggregates j st ra = Inr ga" "agrees ga rep_a" and gb: "run_aggregates j st rb = Inr gb" "agrees gb rep_b"
    and a: "reported rep_a label = Some a" and b: "reported rep_b label = Some b" "ea_scored b = 0"
    and opts: "op_fail_on_regression opts" "f_lt (f_minus f_zero (ea_mean a)) (f_opposite (op_tolerance opts))"
  shows "ea_threshold_met b \<and> (\<exists>report. compare_report_body lm j st ra rb opts = Inr (report, False))"
proof -
  note u = unscored_of_run [OF run b]
  let ?row = "compare_row_of lm (op_alpha opts) ga gb label"
  obtain sa sb where g: "om_get ga label = Some \<lparr>ae_mean = ea_mean a, ae_stats = Some sa\<rparr>"
    "om_get gb label = Some \<lparr>ae_mean = ea_mean b, ae_stats = Some sb\<rparr>" "ag_n sb = 0"
    using agrees_reported [OF ga(2) a] agrees_reported [OF gb(2) b(1)] b(2) by auto
  have "co_delta ?row = Some (f_minus f_zero (ea_mean a))" "co_signif ?row = None"
    using g u welch_untestable by (simp_all add: compare_row_of_def Let_def)
  then have gates: "is_regression (op_tolerance opts) ?row" "gates_in_significance_mode (op_tolerance opts) ?row"
    using opts(2) by (simp_all add: is_regression_def gates_in_significance_mode_def proven_noise_def)
  define report where "report = \<lparr>cr_run_a = ra, cr_run_b = rb, cr_rows = map (compare_row_of lm (op_alpha opts) ga gb) (both_names ga gb)\<rparr>"
  have "ga \<noteq> []" "gb \<noteq> []" using g by (auto simp: om_get_def)
  then have "compare_runs lm j st ra rb (op_alpha opts) = Inr report" by (simp add: compare_runs_def ga(1) gb(1) report_def)
  moreover have "label \<in> set (both_names ga gb)" using both_names_facts [of ga gb] g ga(2) gb(2) by (simp add: agrees_def)
  then have "?row \<in> set (cr_rows report)" by (simp add: report_def)
  then have "\<not> compare_verdict opts report"
    using gates opts(1) by (auto simp: compare_verdict_def has_regression_def has_gating_significant_regression_def list_ex_iff)
  ultimately show ?thesis using u by (simp add: compare_report_body_def)
qed

definition full_aggregate :: evaluator_aggregate where
  "full_aggregate = \<lparr>ea_name = ''exact_match'', ea_mean = f_one, ea_pass_rate = f_one, ea_scored = 1, ea_skipped = 0,
     ea_threshold = None, ea_threshold_met = True\<rparr>"

definition full_score :: score where
  "full_score = \<lparr>sc_id = agg_id ''a'' ''exact_match'', sc_target = TargetRun ''a'', sc_name = ''exact_match'', sc_num_value = Some f_one,
     sc_str_value = None, sc_data_type = Numeric, sc_source = SrcEval, sc_comment = None, sc_config_id = Some ''a'',
     sc_agg_stats = Some \<lparr>ag_n = 1, ag_pass_count = 1, ag_mean = f_one, ag_variance = f_zero\<rparr>, sc_ts_unix_nano = 0\<rparr>"

definition strict_opts :: "bool \<Rightarrow> compare_opts" where
  "strict_opts significance = \<lparr>op_fail_on_regression = True, op_tolerance = f_zero, op_significance = significance, op_alpha = f_lit 5 2\<rparr>"

lemma f_zero_minus_one: "f_minus f_zero f_one = pow2 True 0"
proof -
  have one: "f_opposite f_one = pow2 True 0" by (rule minus_one)
  define D :: nat where "D = 2 ^ 1074"
  have z: "f_ratio f_zero = (0, D)" "\<not> f_neg f_zero" "is_zero f_zero" "is_finite f_zero" "\<not> is_nan f_zero"
    by (simp_all add: D_def f_zero_def f_ratio_def f_mant_def f_exp_def f_frac_def f_neg_def is_zero_def is_finite_def is_nan_def)
  have r: "f_ratio (pow2 True 0) = (2 ^ 52, 2 ^ 52)"
    using pow2_parts [of 0 True] by (simp add: f_ratio_def f_mant_def)
  have "D * 2 ^ 52 = 2 ^ 1126" unfolding D_def power_add [symmetric] by (simp only: numeral_plus_numeral add_num_simps)
  moreover have "round_bits (2 ^ 52 * D) (2 ^ 1126) = (1074 + 1074 - 1126) * 2 ^ 52 + 2 ^ 52"
    unfolding D_def by (rule round_bits_pow2) simp_all
  ultimately have b: "f_round True (2 ^ 52 * D) (D * 2 ^ 52) = pow2 True 0"
    by (simp only: f_round_def pow2_def) simp
  have "D \<noteq> 0" by (simp add: D_def)
  show ?thesis
    unfolding f_minus_def one f_add_def r z(1) split Let_def
    using z pow2_parts [of 0 True] \<open>D \<noteq> 0\<close> b by (simp add: is_nan_def is_finite_def)
qed

lemma regression_of_one: "f_lt (f_minus f_zero f_one) (f_opposite f_zero)"
proof -
  have u: "unat (pow2 True 0) = 2 ^ 63 + 1023 * 2 ^ 52" by (simp add: pow2_def make_unat)
  have z: "f_opposite f_zero = f_make True 0" by (simp add: f_opposite_def f_zero_def f_neg_def)
  have uz: "unat (f_make True 0) = 2 ^ 63" by (simp add: make_unat)
  have nz: "\<not> is_nan (f_make True 0)" "f_neg (f_make True 0)"
    using make_parts [of 0 0 True] by (simp_all add: is_nan_def)
  show ?thesis
    unfolding f_zero_minus_one z f_lt_def f_key_def u uz using nz pow2_parts [of 0 True] by (simp add: is_nan_def)
qed

theorem skipped_evaluator_fails_the_comparison_witness:
  "let j = pair_json full_score (demo_score SpecExactMatch ''b'');
       st = snd (put_batch j [full_score, demo_score SpecExactMatch ''b''] scores_open)
   in \<exists>report. compare_report_body demo_libm j st ''a'' ''b'' (strict_opts True) = Inr (report, False)"
proof -
  let ?b = "demo_score SpecExactMatch ''b''"
  let ?agg = "fst (run_evaluator demo_libs (demo_config SpecExactMatch) [demo_item] ''b'' 0 ExactMatch)"
  have c: "compile demo_libs SpecExactMatch = Inr ExactMatch" by (simp add: compile_def)
  obtain rb where rb: "run_eval demo_libs (demo_config SpecExactMatch) [demo_item] ''b'' 0 = Inr (rb, [?b])"
    "sc_target ?b = TargetRun ''b''" "sc_id ?b = agg_id ''b'' ''exact_match''" "rr_aggregates rb = [?agg]"
    using demo_eval_run [OF c] by (auto simp: evaluator_name_def)
  obtain gb where B: "list_all2 (persisted ''b'') (rr_aggregates rb) gb" "distinct (map ea_name (rr_aggregates rb))"
    "{s \<in> set [?b]. \<exists>r. sc_target s = TargetRun r} = set gb"
    by (rule run_eval_scores [OF rb(1)])
  then have gb: "set gb = {?b}" using rb(2) by auto
  define j where "j = pair_json full_score ?b"
  define st where "st = snd (put_batch j [full_score, ?b] scores_open)"
  have rback: "list_all (reads_back j) [full_score, ?b]" using rb(2) by (simp add: j_def reads_back_def pair_json_def full_score_def)
  have "put_batch j [full_score, ?b] scores_open = (Inr (), st)"
    using put_batch_stores(2) [OF stores_open rback] by (simp add: st_def prod_eq_iff j_def pair_json_def)
  note stores = put_batch_ok [OF stores_open rback this]
  have ids: "distinct (map sc_id [full_score, ?b])" by (simp add: rb(3) full_score_def agg_id_def)
  let ?ra = "\<lparr>rr_run_id = ''a'', rr_name = None, rr_item_count = 1, rr_aggregates = [full_aggregate]\<rparr>"
  have A: "list_all2 (persisted ''a'') (rr_aggregates ?ra) [full_score]"
    by (simp add: persisted_def full_score_def full_aggregate_def)
  have ta: "sc_target full_score = TargetRun ''a''" by (simp add: full_score_def)
  have fresh: "{s \<in> ran (put_all [full_score, ?b] Map.empty). sc_target s = TargetRun r} = {s \<in> set [full_score, ?b]. sc_target s = TargetRun r}" for r
    by (rule run_scores_fresh [OF ids stores_open]) simp
  have "{s \<in> ran (put_all [full_score, ?b] Map.empty). sc_target s = TargetRun ''a''} = set [full_score]"
    unfolding fresh using ta rb(2) by auto
  moreover have "{s \<in> ran (put_all [full_score, ?b] Map.empty). sc_target s = TargetRun ''b''} = set gb"
    unfolding fresh gb using ta rb(2) by auto
  ultimately obtain ga gg where g: "run_aggregates j st ''a'' = Inr ga" "agrees ga ?ra" "run_aggregates j st ''b'' = Inr gg" "agrees gg rb"
    using run_aggregates_agree [OF stores A] run_aggregates_agree [OF stores B(1,2)] by auto
  have n: "ea_name ?agg = ''exact_match''" "ea_scored ?agg = 0"
    by (simp_all add: run_evaluator_def finalize_evaluator_def Let_def evaluator_name_def eval_score_def demo_item_def List.map_filter_def)
  have "reported ?ra ''exact_match'' = Some full_aggregate" "reported rb ''exact_match'' = Some ?agg"
    using n by (simp_all add: reported_def rb(4) full_aggregate_def)
  from skipped_evaluator_fails_the_comparison [OF rb(1) g this n(2), of "strict_opts True" demo_libm] regression_of_one
  show ?thesis unfolding j_def [symmetric] st_def [symmetric] Let_def by (simp add: strict_opts_def full_aggregate_def)
qed

end
