(* ===== verification/Spec2Isabelle.thy ===== *)
theory Spec2Isabelle
  imports EngineRun Disk Counts Format Sessions Compare
begin

text \<open>
  A verification library of evald (\<^verbatim>\<open>src/src\<close>): an OTLP trace store with an ingest path that turns the
  telemetry of language-model applications into normalized, redacted and priced spans, and a storage
  engine that keeps them.

  \<^bold>\<open>The program.\<close> A request arrives at an HTTP or gRPC door, is checked against the bearer-token gate
  (\<^verbatim>\<open>auth.rs\<close>), decoded, and normalized: spans by \<^verbatim>\<open>normalize.rs\<close> (with \<^verbatim>\<open>agent.rs\<close>), log records by \<^verbatim>\<open>logs.rs\<close>
  and one of the dialects \<^verbatim>\<open>claude_code.rs\<close>, \<^verbatim>\<open>codex.rs\<close>, \<^verbatim>\<open>gemini_cli.rs\<close> and \<^verbatim>\<open>evalevent.rs\<close>; spans without a
  cost are priced from the live price table (\<^verbatim>\<open>price.rs\<close>). \<open>Store::ingest_batch\<close> drops second copies of a
  call (\<^verbatim>\<open>calls.rs\<close>), redacts (\<^verbatim>\<open>redact.rs\<close>), moves large payloads to blobs (\<^verbatim>\<open>blob.rs\<close>) and queues the batch
  for the writer task of \<^verbatim>\<open>store/mod.rs\<close>, which appends to the log (\<^verbatim>\<open>store/wal.rs\<close>), fsyncs once per group,
  publishes to the hot tier, acknowledges, and counts the batch in the usage series (\<^verbatim>\<open>usage.rs\<close>). The compactor
  flushes sealed segments to cold blocks (\<^verbatim>\<open>store/cold.rs\<close>) committed in the index (\<^verbatim>\<open>store/index.rs\<close>), merges
  small blocks (\<^verbatim>\<open>store/merge.rs\<close>) and sweeps what the index does not name; retention drops old blocks. A query
  merges the hot tier and the committed blocks and answers with the newest distinct spans. Scores live in a
  table of their own (\<^verbatim>\<open>store/scores.rs\<close>), and a trace's score is rolled up from its spans' when asked for
  (\<^verbatim>\<open>rollup.rs\<close>).

  \<^bold>\<open>The theories, by layer.\<close>

  \<^item> Shared: \<open>Prelude\<close> (Rust's integer types as \<open>nat\<close> and \<open>int\<close>, saturation and wrap-around, stable sorting),
    \<open>OrdMap\<close> (\<open>BTreeMap\<close>, a redb table or a directory as a key-sorted list, with the contract \<open>kv_table\<close> its
    clients use), \<open>Text\<close> (\<open>str\<close>, number parsing and printing), \<open>Model\<close> (\<^verbatim>\<open>model.rs\<close>), \<open>Float\<close> and \<open>FloatOrd\<close> (the
    \<open>f64\<close> operations on their 64 bits, each the exact result rounded).
  \<^item> The log and the engine: \<open>SpanKeys\<close> (\<open>SpanKey\<close>), \<open>Wal\<close> (frames, segments, recovery reads), \<open>TopN\<close> (the
    bounded heap, over the contract \<open>max_heap\<close>), \<open>Index\<close>, \<open>Cold\<close>, \<open>Writer\<close> (\<open>writer_loop\<close>), \<open>Flush\<close> (\<open>flush_one\<close>,
    \<open>sweep_orphans\<close>, \<open>Store::open\<close>, retention), \<open>Recovery\<close> (what a crash leaves and what opening makes of it),
    \<open>Query\<close>, \<open>Merge\<close>, \<open>Disk\<close> (\<^verbatim>\<open>disk.rs\<close> and its monitor), \<open>Format\<close> (\<^verbatim>\<open>store/format.rs\<close>), \<open>Engine\<close> and \<open>EngineRun\<close>
    (all of them interleaved, with crashes, as one step relation).
  \<^item> The ingest path: \<open>Auth\<close>, \<open>Otlp\<close> (wire values and the attribute accessors of \<^verbatim>\<open>normalize.rs\<close>), \<open>Agent\<close>,
    \<open>Price\<close>, \<open>Normalize\<close>, \<open>LogRecord\<close> (what the dialects share in \<^verbatim>\<open>logs.rs\<close>), \<open>ClaudeCode\<close>, \<open>Codex\<close>, \<open>GeminiCli\<close>,
    \<open>EvalEvent\<close>, \<open>Doors\<close> (\<open>normalize_request\<close> and \<open>normalize_logs\<close>), \<open>Redact\<close>, \<open>Blob\<close>, \<open>Ingest\<close>
    (\<open>ingest_batch\<close>, the call ledger).
  \<^item> Scores and counters: \<open>Scores\<close>, \<open>Rollup\<close>, \<open>Usage\<close> (with \<open>ttft_seconds\<close> of \<^verbatim>\<open>latency.rs\<close>).
  \<^item> The HTTP surface (\<^verbatim>\<open>ingest.rs\<close>): \<open>OtlpJson\<close> (the two passes over an OTLP-JSON body), \<open>Http\<close> (the gate in front
    of the routes, the export handlers, the reads, the routes that post scores), \<open>Sessions\<close> (\<^verbatim>\<open>sessions.rs\<close> and
    its two reads).
  \<^item> Evaluation: \<open>FloatOps\<close> (more of \<open>f64\<close>: \<open>sqrt\<close>, fixed-point text), \<open>EditDistance\<close> and \<open>Eval\<close> (\<^verbatim>\<open>eval.rs\<close>: the
    evaluators, the aggregates, the run), \<open>Stats\<close> (\<^verbatim>\<open>stats.rs\<close>, Welch's test), \<open>Compare\<close> (\<open>eval compare\<close> and its
    two gates).
  \<^item> Properties that span components: \<open>OneCall\<close> (a call reported on two signals, from the doors to the ledger),
    \<open>Dialects\<close> (the two attribute conventions) and \<open>Counts\<close> (token counts from the wire to the price).

  \<^bold>\<open>What the lemmas show.\<close> Engine: an acknowledged span stays queryable through every interleaving of append,
  flush, merge, sweep, retention, failures and crashes until retention drops it, in every run that meets neither of
  the two hazards the step relation names (a log write behind one that failed partway in the same segment, a merge
  under the name of another live block); without the restriction it is false, as \<open>wal_failed_write_hides_later_records\<close>
  and \<open>day_merge_name_collision_loses_spans\<close> show. Hourly merges never meet the second hazard
  (\<open>hour_merge_output_is_fresh\<close>). A group of the writer and a flush are runs of the engine's steps; the writer's only
  hazard is the first, and only if one of its own writes tore. Log and blocks: what was fsynced is read back after any torn tail; blocks give back
  the spans they were built from. Query: the newest distinct spans of hot and cold together, and no span lost by
  the trace table. Ingest: one call is one span whichever signals report it, a record has exactly one outcome,
  nothing unredacted is queued, no payload is lost to a blob.
  Pricing: the stored cost is the bill with every token on it exactly once, a price lookup finds exactly the models an id names, and only a
  missing cost is filled. Scores: the store is a map from ids to scores, and a rollup counts each score of a
  subtree once. HTTP: an export is answered with what happened to it, posted scores are stored whole or not at
  all, both spellings of the integers the decoder coerces decode alike, and the list of sessions is the rollup of each,
  whatever orders the hash maps have. Evaluation: the two-row loop computes the edit distance, the search for a
  quantile always ends, and a comparison of two runs shows what each of them reported, evaluator by evaluator. Some properties state defects the models showed: a failed write that hides later records, a day
  merge whose output overwrites another's, a failed checksum that hides other rules, token sums that wrap, a total
  sent as text that changes the price, tool calls that name each other as parent and vanish, ids of annotations
  that collide, client attributes overwritten by the
  offload's own, an empty trace id that refuses a score, an evaluator that scored nothing and fails the
  comparison.

  \<^bold>\<open>Conventions.\<close> A \<open>Result\<close> is \<open>error + 'a\<close>, a panic-free early return a branch. A \<open>String\<close> is its UTF-8 bytes
  as characters. The outcomes of the calls on the ingest, flush and merge paths (log write, fsync and rotation; the stages
  of a block or blob write; block and blob reads; the index commit; the delete of a flushed segment) are inputs of the
  operation that makes the call, so their error paths are runs. Taken to succeed: the listing, reads and truncation of
  a recovery and the rest of \<open>Store::open\<close>, the directory scans and removals of the sweeps and of retention, and the
  transactions of the score store. State behind a lock is passed in and out, one call one
  step. Release-build arithmetic: \<open>+\<close> on counts a client controls is \<open>wrap_add\<close>; counters that rise by one per
  record are plain. Libraries are parameters: \<open>serde_json\<close>, \<open>crc32fast\<close>, \<open>sha2\<close>, \<open>regex\<close>, the standard hasher,
  \<open>chrono\<close>; what a theorem needs of them it states as a hypothesis (a decoder inverts its encoder, a digest has
  no collision among the ids at hand), and its witness runs with concrete functions.

  \<^bold>\<open>Bounds and fuel.\<close> The probing of \<open>blob_put\<close> runs with one step more than the directory has files, so a free
  or equal name is found while the directory and the batch together have fewer than \<open>2 ^ 32\<close> names
  (\<open>offload_keeps_every_payload\<close>, \<open>ingest_queues_only_redacted_spans\<close>); \<open>lookup_versions\<close> strips at most four segments, as the code's loop does; the shortest
  decimal of a double needs at most 17 digits and its point at most 640 places; the writer's group is bounded by
  the list of commands; the two loops that grow the bracket of a quantile run 1022 steps, after which the bound is
  past a quarter of the largest double (\<open>quantile_bracket_is_found\<close>). Every other loop is a total function with a termination proof (the walks over a trace's
  span tree by the spans not yet visited).

  \<^bold>\<open>Not modelled.\<close> The protocol layers (axum's routing and extraction, tonic, prost, the MCP server), rendering
  (Prometheus text, HTML, reports), the SQL engine, model judges and network clients, argument parsing and process
  set-up;  the timers that drive the background tasks; \<open>statvfs\<close>; the creation of database files and the tuning of the
  Parquet writer. They call the core modelled here or only read it.
\<close>

end
